(* ===== verification/Prelude.thy ===== *)
theory Prelude
  imports Main "HOL-Library.Word" "HOL-Library.Monad_Syntax"
begin

text \<open>
  Shared vocabulary of the development: the machine integers of the C sources, byte buffers, the
  bounds-checked accesses that stand for pointer reads and writes, and the generic facts on lists
  and words that the component theories use.

  Conventions used by every theory:
  \<^item> \<open>uint8_t\<close>, \<open>uint16_t\<close>, \<open>uint32_t\<close>, \<open>uint64_t\<close> are words of that width.
  \<^item> a pointer together with its length (\<open>buf\<close>, \<open>bufLen\<close>) is a list of bytes; where the code accepts
    \<open>NULL\<close> the argument is an \<open>option\<close>.
  \<^item> an access the code does not guard by a length check is \<open>rd\<close>, \<open>rd_slice\<close> or \<open>wr\<close>, whose value
    \<open>None\<close> stands for a read or write outside the object; the caller's own result is then \<open>None\<close>.
\<close>

unbundle bit_operations_syntax

section \<open>Machine integers and bytes\<close>

type_synonym u8 = "8 word"
type_synonym u16 = "16 word"
type_synonym u32 = "32 word"
type_synonym u64 = "64 word"
type_synonym UInt128 = "128 word"
type_synonym UInt160 = "160 word"
type_synonym UInt256 = "256 word"
type_synonym UInt512 = "512 word"
type_synonym bytes = "8 word list"

abbreviation (input) SIZE_MAX :: nat where "SIZE_MAX \<equiv> 18446744073709551615"
abbreviation (input) UINT32_MAX :: u32 where "UINT32_MAX \<equiv> 4294967295"

text \<open>A C string is the list of its bytes without the terminating NUL.\<close>

definition ascii :: "string \<Rightarrow> bytes" where
  "ascii s = map of_char s"

named_theorems endian_simps \<open>reading back what an endian store wrote\<close>
named_theorems buf_simps \<open>lengths and contents of buffers after guarded accesses\<close>
named_theorems size_simps \<open>lengths of encodings\<close>

section \<open>Buffers\<close>

definition slice :: "nat \<Rightarrow> nat \<Rightarrow> 'a list \<Rightarrow> 'a list" where
  "slice off n xs = take n (drop off xs)"

definition put :: "nat \<Rightarrow> 'a list \<Rightarrow> 'a list \<Rightarrow> 'a list" where
  "put off bs buf = take off buf @ bs @ drop (off + length bs) buf"

definition rd :: "'a list \<Rightarrow> nat \<Rightarrow> 'a option" where
  "rd buf i = (if i < length buf then Some (buf ! i) else None)"

definition rd_slice :: "'a list \<Rightarrow> nat \<Rightarrow> nat \<Rightarrow> 'a list option" where
  "rd_slice buf off n = (if off + n \<le> length buf then Some (slice off n buf) else None)"

definition wr :: "'a list \<Rightarrow> nat \<Rightarrow> 'a list \<Rightarrow> 'a list option" where
  "wr buf off bs = (if off + length bs \<le> length buf then Some (put off bs buf) else None)"

lemma length_slice [simp]: "length (slice off n xs) = min n (length xs - off)"
  by (simp add: slice_def)

lemma length_put [simp]: "off + length bs \<le> length buf \<Longrightarrow> length (put off bs buf) = length buf"
  by (simp add: put_def)

lemma slice_put_same [buf_simps]:
  "off + length bs \<le> length buf \<Longrightarrow> slice off (length bs) (put off bs buf) = bs"
  by (simp add: slice_def put_def)

lemma take_put [buf_simps]: "n \<le> off \<Longrightarrow> off \<le> length buf \<Longrightarrow> take n (put off bs buf) = take n buf"
  by (simp add: put_def)

lemma take_put_end [buf_simps]:
  "off + length bs \<le> length buf \<Longrightarrow> n = off + length bs \<Longrightarrow>
   take n (put off bs buf) = take off buf @ bs"
  by (simp add: put_def)

text \<open>Writing a serialisation piece by piece: each piece goes behind the ones already written.\<close>

lemma put_put [buf_simps]:
  "off' = off + length xs \<Longrightarrow> off + length xs \<le> length buf \<Longrightarrow> put off' ys (put off xs buf) = put off (xs @ ys) buf"
  by (simp add: put_def min_absorb2 add.commute add.left_commute)

lemma nth_put_other:
  assumes "off + length bs \<le> length buf" and "i < off \<or> off + length bs \<le> i" and "i < length buf"
  shows "put off bs buf ! i = buf ! i"
  using assms by (auto simp: put_def nth_append)

lemma nth_put_same:
  assumes "off + length bs \<le> length buf" and "i < length bs"
  shows "put off bs buf ! (off + i) = bs ! i"
  using assms by (auto simp: put_def nth_append)

lemma wr_Some_iff: "wr buf off bs = Some b \<longleftrightarrow> off + length bs \<le> length buf \<and> b = put off bs buf"
  by (auto simp: wr_def)

lemma rd_Some_iff: "rd buf i = Some x \<longleftrightarrow> i < length buf \<and> x = buf ! i"
  by (auto simp: rd_def)

lemma drop_append_ge: "n \<ge> length xs \<Longrightarrow> drop n (xs @ ys) = drop (n - length xs) ys"
  by simp

lemma slice_append_mid [simp]: "slice (length xs) (length ys) (xs @ ys @ zs) = ys"
  by (simp add: slice_def)

section \<open>Words\<close>

lemma ucast_and_255 [simp]: "(ucast ((x :: 'a::len word) AND 255) :: u8) = ucast x"
proof (rule bit_word_eqI)
  fix n assume "n < LENGTH(8)"
  then have "bit (255 :: 'a word) n \<longleftrightarrow> n < LENGTH('a)"
    using bit_mask_iff [of 8 n, where ?'a = "'a word"] by (simp add: mask_eq_exp_minus_1)
  with \<open>n < LENGTH(8)\<close> show "bit (ucast (x AND 255) :: u8) n = bit (ucast x :: u8) n"
    by (auto simp: bit_simps dest: bit_imp_le_length)
qed

lemma unat_word_of_nat_less: "n < 2 ^ LENGTH('a) \<Longrightarrow> unat (word_of_nat n :: 'a::len word) = n"
  by (simp add: unsigned_of_nat take_bit_nat_eq_self)

lemma unat_add_less:
  fixes a b :: "'a::len word"
  shows "unat a + unat b < 2 ^ LENGTH('a) \<Longrightarrow> unat (a + b) = unat a + unat b"
  by (simp add: unat_word_ariths)

lemma unat_mult_less:
  fixes a b :: "'a::len word"
  shows "unat a * unat b < 2 ^ LENGTH('a) \<Longrightarrow> unat (a * b) = unat a * unat b"
  by (simp add: unat_word_ariths)

lemma unat_drop_bit: "unat (drop_bit n (w :: 'a::len word)) = unat w div 2 ^ n"
  unfolding unat_drop_bit_eq by (rule drop_bit_eq_div)

lemma unat_less_pow: "unat (w :: 'a::len word) < 2 ^ LENGTH('a)"
  using unsigned_less [of w, where ?'a = nat] by simp

end
