(* ===== verification/BRSet.thy ===== *)
theory BRSet
  imports Prelude
begin

text \<open>
  \<open>BRSet.c\<close>: the linear probed hash table behind every set of the wallet.  A bucket is \<open>None\<close> when the
  table entry is \<open>NULL\<close>; \<open>size\<close> is the length of the table.  Items are values: the pointer test \<open>t != item\<close> that the
  probe loops make before calling \<open>eq\<close> is the test of values.  An operation that does not return,
  because it probes a table without an empty bucket, or that needs a table larger than the largest size,
  is \<open>None\<close>.
\<close>

section \<open>State\<close>

record 'a BRSet =
  set_table :: "'a option list"
  itemCount :: nat
  set_hash :: "'a \<Rightarrow> nat"
  set_eq :: "'a \<Rightarrow> 'a \<Rightarrow> bool"

definition tableSizes :: "nat list" where
  "tableSizes = [
    1, 3, 7, 13, 23, 37, 59, 97, 149, 227, 347, 523, 787, 1187, 1783, 2677, 4019, 6037, 9059, 13591,
    20389, 30593, 45887, 68863, 103307, 154981, 232487, 348739, 523129, 784697, 1177067, 1765609,
    2648419, 3972643, 5958971, 8938469, 13407707, 20111563, 30167359, 45251077, 67876637, 101814991,
    152722489, 229083739, 343625629, 515438447, 773157683, 1159736527, 1739604799, 2609407319, 3914111041]"

definition TABLE_SIZES_LEN :: nat where "TABLE_SIZES_LEN = 51"

section \<open>Operations\<close>

text \<open>\<open>_SetInit\<close>: the number of table sizes below the capacity is the index at which its loop stops.  When there is no larger size the table is left unset: \<open>None\<close>.\<close>

definition SetInit :: "('a \<Rightarrow> nat) \<Rightarrow> ('a \<Rightarrow> 'a \<Rightarrow> bool) \<Rightarrow> nat \<Rightarrow> 'a BRSet option" where
  "SetInit h e capacity =
     (let i = length (takeWhile (\<lambda>s. s < capacity) tableSizes) in
      if i + 1 < TABLE_SIZES_LEN
      then Some \<lparr>set_table = replicate (tableSizes ! (i + 1)) None, itemCount = 0, set_hash = h, set_eq = e\<rparr>
      else None)"

definition BRSetNew :: "('a \<Rightarrow> nat) \<Rightarrow> ('a \<Rightarrow> 'a \<Rightarrow> bool) \<Rightarrow> nat \<Rightarrow> 'a BRSet option" where
  "BRSetNew h e capacity = SetInit h e capacity"

text \<open>The probe loop of \<open>BRSetAdd\<close>, \<open>BRSetRemove\<close>, \<open>BRSetGet\<close> and \<open>BRSetIterate\<close>, started at bucket \<open>i\<close>
  with \<open>n\<close> turns left.  The loop looks at the same bucket again after \<open>size\<close> turns, so a loop that has
  not stopped after \<open>size\<close> turns never stops.\<close>

fun set_probe :: "'a BRSet \<Rightarrow> 'a \<Rightarrow> nat \<Rightarrow> nat \<Rightarrow> nat option" where
  "set_probe s item i 0 = None"
| "set_probe s item i (Suc n) =
     (case set_table s ! i of
        None \<Rightarrow> Some i
      | Some t \<Rightarrow> if t = item \<or> set_eq s t item then Some i
                  else set_probe s item ((i + 1) mod length (set_table s)) n)"

definition set_find :: "'a BRSet \<Rightarrow> 'a \<Rightarrow> nat option" where
  "set_find s item = set_probe s item (set_hash s item mod length (set_table s)) (length (set_table s))"

text \<open>\<open>BRSetAdd\<close>, \<open>_SetGrow\<close> and \<open>BRSetUnion\<close> call each other; \<open>d\<close> bounds the nesting of \<open>_SetGrow\<close>, which
  takes a larger table size each time, so \<open>TABLE_SIZES_LEN\<close> nested calls are enough.\<close>

function set_add :: "nat \<Rightarrow> 'a BRSet \<Rightarrow> 'a \<Rightarrow> ('a BRSet \<times> 'a option) option"
  and set_union :: "nat \<Rightarrow> 'a BRSet \<Rightarrow> 'a option list \<Rightarrow> 'a BRSet option" where
  "set_add d s item = do {
     i \<leftarrow> set_find s item;
     let t = set_table s ! i;
     let s = s\<lparr>itemCount := (if t = None then itemCount s + 1 else itemCount s),
               set_table := (set_table s)[i := Some item]\<rparr>;
     s \<leftarrow> (if itemCount s > ((length (set_table s) + 2) div 3) * 2
          then (case d of
                  0 \<Rightarrow> None
                | Suc d' \<Rightarrow> do {
                    newSet \<leftarrow> SetInit (set_hash s) (set_eq s) (length (set_table s));
                    newSet \<leftarrow> set_union d' newSet (set_table s);
                    Some (s\<lparr>set_table := set_table newSet, itemCount := itemCount newSet\<rparr>)
                  })
          else Some s);
     Some (s, t)
   }"
| "set_union d s [] = Some s"
| "set_union d s (None # ts) = set_union d s ts"
| "set_union d s (Some t # ts) = do {
     (s, _) \<leftarrow> set_add d s t;
     set_union d s ts
   }"
  by pat_completeness auto

termination
  by (relation "inv_image (less_than <*lex*> less_than)
        (\<lambda>x. case x of Inl (d, s, item) \<Rightarrow> (d, 0) | Inr (d, s, ts) \<Rightarrow> (d, Suc (length ts)))")
     auto

declare set_add.simps [simp del]

definition BRSetAdd :: "'a BRSet \<Rightarrow> 'a \<Rightarrow> ('a BRSet \<times> 'a option) option" where
  "BRSetAdd s item = set_add TABLE_SIZES_LEN s item"

definition BRSetUnion :: "'a BRSet \<Rightarrow> 'a BRSet \<Rightarrow> 'a BRSet option" where
  "BRSetUnion s otherSet = set_union TABLE_SIZES_LEN s (set_table otherSet)"

text \<open>The cleanup loop of \<open>BRSetRemove\<close>; it stops at the first empty bucket.\<close>

fun set_cleanup :: "'a BRSet \<Rightarrow> nat \<Rightarrow> nat \<Rightarrow> 'a BRSet option" where
  "set_cleanup s i 0 = None"
| "set_cleanup s i (Suc n) =
     (case set_table s ! i of
        None \<Rightarrow> Some s
      | Some t \<Rightarrow> do {
          let s = s\<lparr>itemCount := itemCount s - 1, set_table := (set_table s)[i := None]\<rparr>;
          (s, _) \<leftarrow> BRSetAdd s t;
          set_cleanup s ((i + 1) mod length (set_table s)) n
        })"

definition BRSetRemove :: "'a BRSet \<Rightarrow> 'a \<Rightarrow> ('a BRSet \<times> 'a option) option" where
  "BRSetRemove s item = do {
     i \<leftarrow> set_find s item;
     let r = set_table s ! i;
     (case r of
        None \<Rightarrow> Some (s, None)
      | Some _ \<Rightarrow> do {
          let s = s\<lparr>itemCount := itemCount s - 1, set_table := (set_table s)[i := None]\<rparr>;
          s \<leftarrow> set_cleanup s ((i + 1) mod length (set_table s)) (length (set_table s));
          Some (s, r)
        })
   }"

definition BRSetClear :: "'a BRSet \<Rightarrow> 'a BRSet" where
  "BRSetClear s = s\<lparr>set_table := replicate (length (set_table s)) None, itemCount := 0\<rparr>"

definition BRSetCount :: "'a BRSet \<Rightarrow> nat" where
  "BRSetCount s = itemCount s"

definition BRSetGet :: "'a BRSet \<Rightarrow> 'a \<Rightarrow> 'a option option" where
  "BRSetGet s item = do { i \<leftarrow> set_find s item; Some (set_table s ! i) }"

definition BRSetContains :: "'a BRSet \<Rightarrow> 'a \<Rightarrow> bool option" where
  "BRSetContains s item = do { r \<leftarrow> BRSetGet s item; Some (r \<noteq> None) }"

fun set_intersects :: "'a BRSet \<Rightarrow> 'a option list \<Rightarrow> bool option" where
  "set_intersects s [] = Some False"
| "set_intersects s (None # ts) = set_intersects s ts"
| "set_intersects s (Some t # ts) = do {
     r \<leftarrow> BRSetGet s t;
     (if r \<noteq> None then Some True else set_intersects s ts)
   }"

definition BRSetIntersects :: "'a BRSet \<Rightarrow> 'a BRSet \<Rightarrow> bool option" where
  "BRSetIntersects s otherSet = set_intersects s (set_table otherSet)"

fun first_item :: "'a option list \<Rightarrow> 'a option" where
  "first_item [] = None"
| "first_item (None # ts) = first_item ts"
| "first_item (Some t # ts) = Some t"

definition BRSetIterate :: "'a BRSet \<Rightarrow> 'a option \<Rightarrow> 'a option option" where
  "BRSetIterate s previous = (case previous of
     None \<Rightarrow> Some (first_item (set_table s))
   | Some p \<Rightarrow> do { i \<leftarrow> set_find s p; Some (first_item (drop (i + 1) (set_table s))) })"

fun set_all :: "'a option list \<Rightarrow> nat \<Rightarrow> 'a list" where
  "set_all ts 0 = []"
| "set_all [] (Suc n) = []"
| "set_all (None # ts) (Suc n) = set_all ts (Suc n)"
| "set_all (Some t # ts) (Suc n) = t # set_all ts n"

definition BRSetAll :: "'a BRSet \<Rightarrow> nat \<Rightarrow> 'a list" where
  "BRSetAll s count = set_all (set_table s) count"

fun set_apply :: "('b \<Rightarrow> 'a \<Rightarrow> 'b) \<Rightarrow> 'b \<Rightarrow> 'a option list \<Rightarrow> 'b" where
  "set_apply apply info [] = info"
| "set_apply apply info (None # ts) = set_apply apply info ts"
| "set_apply apply info (Some t # ts) = set_apply apply (apply info t) ts"

definition BRSetApply :: "'a BRSet \<Rightarrow> 'b \<Rightarrow> ('b \<Rightarrow> 'a \<Rightarrow> 'b) \<Rightarrow> 'b" where
  "BRSetApply s info apply = set_apply apply info (set_table s)"

fun set_minus :: "'a BRSet \<Rightarrow> 'a option list \<Rightarrow> 'a BRSet option" where
  "set_minus s [] = Some s"
| "set_minus s (None # ts) = set_minus s ts"
| "set_minus s (Some t # ts) = do {
     (s, _) \<leftarrow> BRSetRemove s t;
     set_minus s ts
   }"

definition BRSetMinus :: "'a BRSet \<Rightarrow> 'a BRSet \<Rightarrow> 'a BRSet option" where
  "BRSetMinus s otherSet = set_minus s (set_table otherSet)"

text \<open>The loop of \<open>BRSetIntersect\<close> either removes an item or goes on to the next bucket, so the number of
  turns is at most the number of items plus the number of buckets.\<close>

fun set_intersect :: "'a BRSet \<Rightarrow> 'a BRSet \<Rightarrow> nat \<Rightarrow> nat \<Rightarrow> 'a BRSet option" where
  "set_intersect s otherSet i 0 = (if i < length (set_table s) then None else Some s)"
| "set_intersect s otherSet i (Suc n) =
     (if i < length (set_table s) then
        (case set_table s ! i of
           None \<Rightarrow> set_intersect s otherSet (i + 1) n
         | Some t \<Rightarrow> do {
             c \<leftarrow> BRSetContains otherSet t;
             (if \<not> c then do {
                (s, _) \<leftarrow> BRSetRemove s t;
                set_intersect s otherSet i n
              } else set_intersect s otherSet (i + 1) n)
           })
      else Some s)"

definition BRSetIntersect :: "'a BRSet \<Rightarrow> 'a BRSet \<Rightarrow> 'a BRSet option" where
  "BRSetIntersect s otherSet = set_intersect s otherSet 0 (length (set_table s) + itemCount s)"

section \<open>Invariant\<close>

text \<open>\<open>path T a b\<close>: probing from bucket \<open>a\<close> reaches bucket \<open>b\<close> before any empty bucket.\<close>

definition path :: "'a option list \<Rightarrow> nat \<Rightarrow> nat \<Rightarrow> bool" where
  "path T a b \<longleftrightarrow> (\<exists>k < length T. (a + k) mod length T = b \<and> (\<forall>j < k. T ! ((a + j) mod length T) \<noteq> None))"

definition table_ok :: "('a \<Rightarrow> nat) \<Rightarrow> ('a \<Rightarrow> 'a \<Rightarrow> bool) \<Rightarrow> 'a option list \<Rightarrow> bool" where
  "table_ok h e T \<longleftrightarrow>
     (\<forall>p < length T. \<forall>x. T ! p = Some x \<longrightarrow> path T (h x mod length T) p) \<and>
     (\<forall>p < length T. \<forall>q < length T. \<forall>x y. T ! p = Some x \<longrightarrow> T ! q = Some y \<longrightarrow> e x y \<longrightarrow> p = q)"

definition items :: "'a BRSet \<Rightarrow> 'a set" where
  "items s = {x. Some x \<in> set (set_table s)}"

definition used :: "'a option list \<Rightarrow> nat" where
  "used T = length (filter (\<lambda>t. t \<noteq> None) T)"

definition max_load :: "nat \<Rightarrow> nat" where
  "max_load n = ((n + 2) div 3) * 2"

definition set_ok :: "('a \<Rightarrow> nat) \<Rightarrow> ('a \<Rightarrow> 'a \<Rightarrow> bool) \<Rightarrow> 'a BRSet \<Rightarrow> bool" where
  "set_ok h e s \<longleftrightarrow> set_hash s = h \<and> set_eq s = e \<and> length (set_table s) \<in> set (tl tableSizes) \<and>
     table_ok h e (set_table s) \<and> itemCount s = used (set_table s) \<and>
     itemCount s \<le> max_load (length (set_table s))"

section \<open>Cyclic probing as linear search\<close>

text \<open>With an empty bucket \<open>e0\<close>, bucket \<open>(e0 + 1 + i) mod n\<close> has coordinate \<open>i\<close>; the empty bucket is the last
  one, and no probe path crosses it.\<close>

lemma coord_exists:
  assumes "(a :: nat) < n"
  shows "\<exists>i < n. (b + i) mod n = a"
proof (intro exI conjI)
  let ?i = "(a + (n - b mod n)) mod n"
  have "b mod n < n" using assms by simp
  have "(b + ?i) mod n = (b mod n + (a + (n - b mod n))) mod n" by (simp add: mod_add_left_eq mod_add_right_eq)
  also have "b mod n + (a + (n - b mod n)) = a + n" using \<open>b mod n < n\<close> by simp
  finally show "(b + ?i) mod n = a" using assms by simp
qed (use assms in simp)

lemma coord_inj:
  assumes "(b + i) mod n = (b + j) mod n" and "i < n" and "(j :: nat) < n"
  shows "i = j"
proof -
  have "(int b + int i) mod int n = (int b + int j) mod int n"
    using assms(1) by (metis of_nat_add of_nat_mod)
  then have "int i mod int n = int j mod int n" by (metis add_diff_cancel_left' mod_diff_cong)
  with assms show ?thesis by simp
qed

lemma path_linear:
  assumes "path T ((b + i) mod n) ((b + j) mod n)" and "length T = n" and "i < n" and "j < n"
    and "T ! ((b + (n - 1)) mod n) = None"
  shows "i \<le> j" and "\<And>q. i \<le> q \<Longrightarrow> q < j \<Longrightarrow> T ! ((b + q) mod n) \<noteq> None"
proof -
  obtain k where k: "k < n" "(b + i + k) mod n = (b + j) mod n" "\<And>m. m < k \<Longrightarrow> T ! ((b + i + m) mod n) \<noteq> None"
    using assms(1,2) by (auto simp: path_def mod_add_left_eq)
  have "i + k < n"
  proof (rule ccontr)
    assume "\<not> i + k < n"
    then have lt: "n - 1 - i < k" and eq: "b + i + (n - 1 - i) = b + (n - 1)" using assms(3) by auto
    from k(3) [OF lt] assms(5) show False unfolding eq by simp
  qed
  then have "i + k = j" using coord_inj [of b "i + k" n j] k(2) assms(4) by (simp add: add.assoc)
  then show "i \<le> j" by simp
  fix q assume "i \<le> q" "q < j"
  then have lt: "q - i < k" and eq: "b + i + (q - i) = b + q" using \<open>i + k = j\<close> by auto
  from k(3) [OF lt] show "T ! ((b + q) mod n) \<noteq> None" unfolding eq .
qed

lemma linear_path:
  assumes "length T = n" and "i \<le> j" and "j < n" and "\<And>q. i \<le> q \<Longrightarrow> q < j \<Longrightarrow> T ! ((b + q) mod n) \<noteq> None"
  shows "path T ((b + i) mod n) ((b + j) mod n)"
  unfolding path_def assms(1)
proof (intro exI conjI allI impI)
  show "j - i < n" using assms(3) by simp
  have "b + i + (j - i) = b + j" using assms(2) by simp
  then show "((b + i) mod n + (j - i)) mod n = (b + j) mod n" by (simp only: mod_add_left_eq)
  fix m assume "m < j - i"
  with assms(4) [of "i + m"] show "T ! (((b + i) mod n + m) mod n) \<noteq> None"
    by (simp add: mod_add_left_eq add.assoc)
qed

lemma probe_linear:
  assumes "length (set_table s) = n" and "i < n" and "n - i \<le> f"
    and "set_table s ! ((b + (n - 1)) mod n) = None"
  shows "\<exists>q. i \<le> q \<and> q < n \<and> set_probe s item ((b + i) mod n) f = Some ((b + q) mod n) \<and>
     (\<forall>m. i \<le> m \<and> m < q \<longrightarrow>
        (\<exists>t. set_table s ! ((b + m) mod n) = Some t \<and> t \<noteq> item \<and> \<not> set_eq s t item)) \<and>
     (\<forall>t. set_table s ! ((b + q) mod n) = Some t \<longrightarrow> t = item \<or> set_eq s t item)"
  using assms(2,3)
proof (induction f arbitrary: i)
  case (Suc f)
  show ?case
  proof (cases "\<exists>t. set_table s ! ((b + i) mod n) = Some t \<and> t \<noteq> item \<and> \<not> set_eq s t item")
    case True
    then have "i \<noteq> n - 1" using assms(4) by auto
    then have "Suc i < n" using Suc.prems by simp
    moreover have "n - Suc i \<le> f" using Suc.prems by simp
    ultimately obtain q where q: "Suc i \<le> q" "q < n"
      "set_probe s item ((b + Suc i) mod n) f = Some ((b + q) mod n)"
      "\<And>m. Suc i \<le> m \<Longrightarrow> m < q \<Longrightarrow> (\<exists>t. set_table s ! ((b + m) mod n) = Some t \<and> t \<noteq> item \<and> \<not> set_eq s t item)"
      "\<forall>t. set_table s ! ((b + q) mod n) = Some t \<longrightarrow> t = item \<or> set_eq s t item"
      using Suc.IH [of "Suc i"] by blast
    have step: "set_probe s item ((b + i) mod n) (Suc f) = set_probe s item ((b + Suc i) mod n) f"
      using True assms(1) by (auto simp: mod_Suc_eq)
    have "\<exists>t. set_table s ! ((b + m) mod n) = Some t \<and> t \<noteq> item \<and> \<not> set_eq s t item" if "i \<le> m" "m < q" for m
      using q(4) [of m] True that by (cases "m = i") auto
    then show ?thesis unfolding step using q by (intro exI [of _ q]) auto
  next
    case False
    then have "set_probe s item ((b + i) mod n) (Suc f) = Some ((b + i) mod n)"
      by (auto split: option.split)
    with False Suc.prems show ?thesis by (intro exI [of _ i]) auto
  qed
qed simp

section \<open>The hash table\<close>

lemma length_filter_None: "(\<exists>i < length T. T ! i = None) \<longleftrightarrow> used T < length T"
proof -
  have "used T \<le> length T" for T :: "'a option list" by (simp add: used_def)
  then have "used T < length T \<longleftrightarrow> None \<in> set T"
    by (induction T) (auto simp: used_def less_Suc_eq_le)
  then show ?thesis by (auto simp: in_set_conv_nth)
qed

lemma used_update:
  assumes "i < length T"
  shows "used (T[i := Some x]) = used T + (if T ! i = None then 1 else 0)"
    and "used (T[i := None]) = used T - (if T ! i = None then 0 else 1)"
proof -
  have T: "T = take i T @ T ! i # drop (Suc i) T" using assms by (rule id_take_nth_drop)
  have u: "used (A @ t # B) = used A + (if t = None then 0 else 1) + used B" for A B and t :: "'a option"
    by (simp add: used_def)
  have "used T = used (take i T) + (if T ! i = None then 0 else 1) + used (drop (Suc i) T)"
    by (subst T) (rule u)
  moreover have "used (T[i := t]) = used (take i T) + (if t = None then 0 else 1) + used (drop (Suc i) T)" for t
    using assms by (simp add: upd_conv_take_nth_drop u)
  ultimately show "used (T[i := Some x]) = used T + (if T ! i = None then 1 else 0)"
    "used (T[i := None]) = used T - (if T ! i = None then 0 else 1)" by simp_all
qed

lemma path_mono:
  assumes "path T a b" and "length T' = length T"
    and "\<And>i. i < length T \<Longrightarrow> T ! i \<noteq> None \<Longrightarrow> T' ! i \<noteq> None"
  shows "path T' a b"
  using assms unfolding path_def by (metis mod_less_divisor less_nat_zero_code not_gr_zero)

lemma items_iff: "x \<in> items s \<longleftrightarrow> (\<exists>i < length (set_table s). set_table s ! i = Some x)"
  by (auto simp: items_def in_set_conv_nth)

section \<open>Table sizes\<close>

lemma sizes_steps: "sorted_wrt (<) tableSizes" "successively (\<lambda>a b. a + 3 \<le> b) (tl tableSizes)"
  by (simp_all add: tableSizes_def)

lemma length_tableSizes: "length tableSizes = 51" "tableSizes \<noteq> []"
  by (simp_all add: tableSizes_def)

lemma size_ge: "n \<in> set (tl tableSizes) \<Longrightarrow> n = 3 \<or> 7 \<le> n"
  by (auto simp: tableSizes_def)

lemma max_load_less: "n \<in> set (tl tableSizes) \<Longrightarrow> max_load n < n"
  using size_ge [of n] by (auto simp: max_load_def)

lemma index_of_size:
  assumes "n \<in> set tableSizes"
  shows "tableSizes ! length (takeWhile (\<lambda>s. s < n) tableSizes) = n"
    and "length (takeWhile (\<lambda>s. s < n) tableSizes) < 51"
proof -
  obtain i where i: "i < 51" "tableSizes ! i = n" using assms by (auto simp: in_set_conv_nth length_tableSizes)
  have lt: "tableSizes ! j < n" if "j < i" for j
    using sizes_steps(1) i that by (auto simp: sorted_wrt_iff_nth_less length_tableSizes)
  have "takeWhile (\<lambda>s. s < n) tableSizes = take i tableSizes"
    using i lt by (intro takeWhile_eq_take_P_nth) (auto simp: length_tableSizes)
  then have "length (takeWhile (\<lambda>s. s < n) tableSizes) = i" using i by (simp add: length_tableSizes)
  then show "tableSizes ! length (takeWhile (\<lambda>s. s < n) tableSizes) = n"
    "length (takeWhile (\<lambda>s. s < n) tableSizes) < 51" using i by auto
qed

definition LARGEST_TABLE :: nat where "LARGEST_TABLE = 3914111041"

lemma SetInit_Some:
  assumes "n \<in> set (tl tableSizes)" and "n < LARGEST_TABLE"
  shows "\<exists>m. SetInit h e n = Some \<lparr>set_table = replicate m None, itemCount = 0, set_hash = h, set_eq = e\<rparr> \<and>
     m \<in> set (tl tableSizes) \<and> max_load n + 1 \<le> max_load m"
proof -
  let ?i = "length (takeWhile (\<lambda>s. s < n) tableSizes)"
  have mem: "n \<in> set tableSizes" using assms(1) length_tableSizes(2) list.set_sel(2) by metis
  note ix = index_of_size [OF mem]
  have "tableSizes ! 50 = LARGEST_TABLE" by (simp add: tableSizes_def LARGEST_TABLE_def)
  then have "?i \<noteq> 50" using ix assms(2) by auto
  then have i: "?i < 50" using ix by simp
  have "?i \<noteq> 0"
  proof
    assume "?i = 0"
    then have "n = 1" using ix(1) by (simp add: tableSizes_def)
    with size_ge [OF assms(1)] show False by simp
  qed
  then obtain k where k: "?i = Suc k" using not0_implies_Suc by blast
  let ?m = "tableSizes ! (?i + 1)"
  have tl: "tl tableSizes ! k = n" "tl tableSizes ! Suc k = ?m" using ix k i by (simp_all add: nth_tl length_tableSizes)
  have "n + 3 \<le> ?m"
    using sizes_steps(2) i k tl successively_nth [of "\<lambda>a b. a + 3 \<le> b" "tl tableSizes" k]
    by (simp add: length_tableSizes)
  then have "max_load n + 1 \<le> max_load ?m" unfolding max_load_def by linarith
  moreover have "?m \<in> set (tl tableSizes)" using tl(2) i k by (metis nth_mem length_tl length_tableSizes(1) less_diff_conv
      Suc_eq_plus1 Suc_less_eq numeral_nat(2) add_Suc_right eval_nat_numeral(3))
  ultimately show ?thesis using i unfolding SetInit_def TABLE_SIZES_LEN_def Let_def by auto
qed

section \<open>Correctness of the operations\<close>

text \<open>\<open>BRSetAdd\<close> up to the test of the load factor.\<close>

definition stored :: "'a BRSet \<Rightarrow> 'a \<Rightarrow> nat \<Rightarrow> 'a BRSet" where
  "stored s item i = s\<lparr>itemCount := (if set_table s ! i = None then itemCount s + 1 else itemCount s),
     set_table := (set_table s)[i := Some item]\<rparr>"

lemma stored_sel [simp]:
  "set_table (stored s item i) = (set_table s)[i := Some item]" "set_hash (stored s item i) = set_hash s"
  "set_eq (stored s item i) = set_eq s"
  "itemCount (stored s item i) = (if set_table s ! i = None then itemCount s + 1 else itemCount s)"
  by (simp_all add: stored_def)

lemma items_stored:
  "i < length (set_table s) \<Longrightarrow> y \<in> items (stored s item i) \<longleftrightarrow>
     y = item \<or> (\<exists>p < length (set_table s). p \<noteq> i \<and> set_table s ! p = Some y)"
  by (auto simp: items_iff nth_list_update)

text \<open>Coordinates relative to a base bucket, for the cleanup loop of \<open>BRSetRemove\<close>.\<close>

definition coord :: "nat \<Rightarrow> nat \<Rightarrow> nat \<Rightarrow> nat" where
  "coord n b p = (p + (n - b mod n)) mod n"

definition slot :: "nat \<Rightarrow> 'a option list \<Rightarrow> nat \<Rightarrow> 'a option" where
  "slot b T q = T ! ((b + q) mod length T)"

text \<open>The items at the first \<open>k\<close> coordinates are reached by probing from their home bucket.\<close>

definition lin :: "('a \<Rightarrow> nat) \<Rightarrow> nat \<Rightarrow> 'a option list \<Rightarrow> nat \<Rightarrow> bool" where
  "lin h b T k \<longleftrightarrow> (\<forall>q < k. \<forall>x. slot b T q = Some x \<longrightarrow>
     (let a = coord (length T) b (h x mod length T) in a \<le> q \<and> (\<forall>p. a \<le> p \<and> p < q \<longrightarrow> slot b T p \<noteq> None)))"

definition unique_items :: "('a \<Rightarrow> 'a \<Rightarrow> bool) \<Rightarrow> 'a option list \<Rightarrow> bool" where
  "unique_items e T \<longleftrightarrow> (\<forall>p < length T. \<forall>q < length T. \<forall>x y. T ! p = Some x \<longrightarrow> T ! q = Some y \<longrightarrow> e x y \<longrightarrow> p = q)"

lemma coord_props: "p < n \<Longrightarrow> coord n b p < n" "p < n \<Longrightarrow> (b + coord n b p) mod n = p"
proof -
  assume p: "p < n"
  then show "coord n b p < n" by (simp add: coord_def)
  have lt: "b mod n < n" using p by simp
  have "(b + coord n b p) mod n = (b mod n + (p + (n - b mod n))) mod n"
    by (simp add: coord_def mod_add_left_eq mod_add_right_eq)
  also have "b mod n + (p + (n - b mod n)) = p + n" using lt by simp
  finally show "(b + coord n b p) mod n = p" using p by simp
qed

lemma slot_update:
  assumes "length T = n" and "k < n" and "q < n"
  shows "slot b (T[(b + k) mod n := v]) q = (if q = k then v else slot b T q)"
proof (cases "q = k")
  case False
  then have "(b + q) mod n \<noteq> (b + k) mod n" using coord_inj assms by blast
  with False assms show ?thesis by (simp add: slot_def)
qed (use assms in \<open>simp add: slot_def\<close>)

lemma slot_nth: "p < length T \<Longrightarrow> T ! p = slot b T (coord (length T) b p)"
  by (simp add: slot_def coord_props)

lemma table_ok_lin:
  assumes "length T = n" and "0 < n" and "slot b T (n - 1) = None"
  shows "table_ok h e T \<longleftrightarrow> lin h b T n \<and> unique_items e T"
proof -
  have *: "path T (h x mod n) ((b + q) mod n) \<longleftrightarrow> coord n b (h x mod n) \<le> q \<and>
      (\<forall>p. coord n b (h x mod n) \<le> p \<and> p < q \<longrightarrow> slot b T p \<noteq> None)" if q: "q < n" for x q
  proof -
    let ?a = "coord n b (h x mod n)"
    have a: "?a < n" "(b + ?a) mod n = h x mod n" using coord_props [of "h x mod n" n b] assms(2) by auto
    have last: "T ! ((b + (n - 1)) mod n) = None" using assms by (simp add: slot_def)
    show ?thesis
    proof
      assume "path T (h x mod n) ((b + q) mod n)"
      then have "path T ((b + ?a) mod n) ((b + q) mod n)" using a by simp
      from path_linear [OF this assms(1) a(1) q last] show "?a \<le> q \<and> (\<forall>p. ?a \<le> p \<and> p < q \<longrightarrow> slot b T p \<noteq> None)"
        using assms(1) by (auto simp: slot_def)
    next
      assume "?a \<le> q \<and> (\<forall>p. ?a \<le> p \<and> p < q \<longrightarrow> slot b T p \<noteq> None)"
      then have "path T ((b + ?a) mod n) ((b + q) mod n)"
        using assms(1) q by (intro linear_path) (auto simp: slot_def)
      then show "path T (h x mod n) ((b + q) mod n)" using a by simp
    qed
  qed
  have "(\<forall>p < n. \<forall>x. T ! p = Some x \<longrightarrow> path T (h x mod n) p) \<longleftrightarrow>
      (\<forall>q < n. \<forall>x. slot b T q = Some x \<longrightarrow> path T (h x mod n) ((b + q) mod n))"
  proof
    assume "\<forall>p < n. \<forall>x. T ! p = Some x \<longrightarrow> path T (h x mod n) p"
    then show "\<forall>q < n. \<forall>x. slot b T q = Some x \<longrightarrow> path T (h x mod n) ((b + q) mod n)"
      using assms by (simp add: slot_def)
  next
    assume *: "\<forall>q < n. \<forall>x. slot b T q = Some x \<longrightarrow> path T (h x mod n) ((b + q) mod n)"
    show "\<forall>p < n. \<forall>x. T ! p = Some x \<longrightarrow> path T (h x mod n) p"
    proof (intro allI impI)
      fix p x assume "p < n" "T ! p = Some x"
      with * [rule_format, of "coord n b p" x] slot_nth [of p T b] coord_props [of p n b] assms(1)
      show "path T (h x mod n) p" by simp
    qed
  qed
  with * assms(1) show ?thesis unfolding table_ok_def lin_def unique_items_def by (simp add: Let_def)
qed

text \<open>The documented contract of the two function pointers: \<open>eq\<close> is an equivalence and equal items have
  identical hash values.\<close>

locale set_contract =
  fixes h :: "'a \<Rightarrow> nat" and e :: "'a \<Rightarrow> 'a \<Rightarrow> bool"
  assumes eq_refl: "e x x" and eq_sym: "e x y \<Longrightarrow> e y x" and eq_trans: "e x y \<Longrightarrow> e y z \<Longrightarrow> e x z"
    and eq_hash: "e x y \<Longrightarrow> h x = h y"
begin

lemma find_cases:
  assumes s: "set_hash s = h" "set_eq s = e" and ok: "table_ok h e (set_table s)"
    and empty: "i0 < length (set_table s)" "set_table s ! i0 = None"
  obtains (found) i x where "set_find s item = Some i" "i < length (set_table s)" "set_table s ! i = Some x" "e x item"
  | (missing) i where "set_find s item = Some i" "i < length (set_table s)" "set_table s ! i = None"
      "path (set_table s) (h item mod length (set_table s)) i" "\<And>x. x \<in> items s \<Longrightarrow> \<not> e x item"
      "\<And>j. j \<noteq> i \<Longrightarrow> path (set_table s) (h item mod length (set_table s)) j \<Longrightarrow> j < length (set_table s) \<Longrightarrow>
          set_table s ! j \<noteq> None"
proof -
  let ?T = "set_table s" and ?n = "length (set_table s)" and ?b = "i0 + 1"
  have n: "0 < ?n" using empty(1) by linarith
  have "?b + (?n - 1) = i0 + ?n" using n by simp
  then have last: "?T ! ((?b + (?n - 1)) mod ?n) = None" using empty by (simp only: mod_add_self2) simp
  obtain a where a: "a < ?n" "(?b + a) mod ?n = h item mod ?n" using coord_exists [of "h item mod ?n" ?n ?b] n by auto
  obtain q where q: "a \<le> q" "q < ?n" "set_find s item = Some ((?b + q) mod ?n)"
    "\<And>m. a \<le> m \<Longrightarrow> m < q \<Longrightarrow> \<exists>t. ?T ! ((?b + m) mod ?n) = Some t \<and> \<not> e t item"
    "\<And>t. ?T ! ((?b + q) mod ?n) = Some t \<Longrightarrow> e t item"
    using probe_linear [OF refl a(1) _ last, of ?n item] a s eq_refl unfolding set_find_def by force
  have lt: "(?b + q) mod ?n < ?n" using n by simp
  show ?thesis
  proof (cases "?T ! ((?b + q) mod ?n)")
    case (Some x)
    then show ?thesis using found q lt by blast
  next
    case None
    have p: "path ?T (h item mod ?n) ((?b + q) mod ?n)"
      using linear_path [where T = ?T and b = ?b, OF refl q(1,2)] q(4) a(2) by (metis option.distinct(1))
    have absent: "\<not> e x item" if "x \<in> items s" for x
    proof
      assume ex: "e x item"
      from that obtain i where i: "i < ?n" "?T ! i = Some x" by (auto simp: items_iff)
      obtain c where c: "c < ?n" "(?b + c) mod ?n = i" using coord_exists [OF i(1), of ?b] by auto
      have "path ?T ((?b + a) mod ?n) ((?b + c) mod ?n)"
        using ok i eq_hash [OF ex] unfolding table_ok_def a(2) c(2) by metis
      note lin = path_linear [OF this refl a(1) c(1) last]
      have "\<not> q < c" using lin(2) [OF q(1)] None by auto
      moreover have "q \<noteq> c" using None i c by auto
      ultimately have "c < q" by simp
      from q(4) [OF lin(1) this] i c ex show False by auto
    qed
    have other: "?T ! j \<noteq> None" if j1: "j \<noteq> (?b + q) mod ?n" and j2: "path ?T (h item mod ?n) j" and j3: "j < ?n" for j
    proof -
      obtain c where c: "c < ?n" "(?b + c) mod ?n = j" using coord_exists [OF j3, of ?b] by auto
      have "path ?T ((?b + a) mod ?n) ((?b + c) mod ?n)" using j2 a(2) c(2) by simp
      note lin = path_linear [OF this refl a(1) c(1) last]
      have "\<not> q < c" using lin(2) [OF q(1)] None by auto
      moreover have "q \<noteq> c" using j1 c by auto
      ultimately have "c < q" by simp
      from q(4) [OF lin(1) this] c show ?thesis by auto
    qed
    show ?thesis using missing [OF q(3) lt None p absent other] by blast
  qed
qed

lemma get_in:
  assumes "set_ok h e s" and "i0 < length (set_table s)" "set_table s ! i0 = None" and "x \<in> items s" "e x y"
  shows "BRSetGet s y = Some (Some x)"
proof -
  have ok: "set_hash s = h" "set_eq s = e" "table_ok h e (set_table s)" using assms(1) by (auto simp: set_ok_def)
  show ?thesis
  proof (cases rule: find_cases [OF ok assms(2,3), where item = y, case_names found missing])
    case (found i z)
    obtain j where j: "j < length (set_table s)" "set_table s ! j = Some x" using assms(4) by (auto simp: items_iff)
    have "e x z" using assms(5) found(4) eq_sym eq_trans by blast
    with ok(3) found j have "i = j" unfolding table_ok_def by (metis eq_sym)
    with found j show ?thesis by (simp add: BRSetGet_def)
  next
    case (missing i)
    with assms show ?thesis by blast
  qed
qed

lemma get_notin:
  assumes "set_ok h e s" and "i0 < length (set_table s)" "set_table s ! i0 = None" and "\<And>x. x \<in> items s \<Longrightarrow> \<not> e x y"
  shows "BRSetGet s y = Some None"
proof -
  have ok: "set_hash s = h" "set_eq s = e" "table_ok h e (set_table s)" using assms(1) by (auto simp: set_ok_def)
  show ?thesis
    by (cases rule: find_cases [OF ok assms(2,3), where item = y, case_names found missing]) (use assms(4) in \<open>auto simp: BRSetGet_def items_iff\<close>)
qed

text \<open>Storing an item in the bucket that the probe found.\<close>

lemma store_ok:
  assumes ok: "table_ok h e T" and i: "i < length T" "path T (h item mod length T) i"
    and c: "(T ! i = None \<and> (\<forall>p < length T. \<forall>x. T ! p = Some x \<longrightarrow> \<not> e x item)) \<or> (\<exists>x. T ! i = Some x \<and> e x item)"
  shows "table_ok h e (T[i := Some item])"
  unfolding table_ok_def length_list_update
proof (intro conjI allI impI)
  fix p x assume p: "p < length T" "T[i := Some item] ! p = Some x"
  have "path T (h x mod length T) p"
    using ok i p unfolding table_ok_def by (cases "p = i") auto
  then show "path (T[i := Some item]) (h x mod length T) p"
    by (rule path_mono) (use i(1) in \<open>auto simp: nth_list_update\<close>)
next
  fix p q x y assume pq: "p < length T" "q < length T" "T[i := Some item] ! p = Some x"
    "T[i := Some item] ! q = Some y" "e x y"
  have uniq: "p = q" if "p < length T" "q < length T" "T ! p = Some x" "T ! q = Some y" "e x y" for p q x y
    using ok that unfolding table_ok_def by blast
  have one: "T ! i \<noteq> None \<and> p = i" if "p < length T" "T ! p = Some x" "e x item" for p x
    using c that uniq [of p i x] i(1) eq_sym eq_trans by blast
  show "p = q"
    using pq i(1) one [of p x] one [of q y] uniq [of p q x y] eq_sym by (auto simp: nth_list_update split: if_splits)
qed

lemma find_path:
  assumes "table_ok h e T" "i < length T" "T ! i = Some x" "e x item"
  shows "path T (h item mod length T) i"
  using assms eq_hash [OF assms(4)] unfolding table_ok_def by metis

lemma set_ok_empty: "set_ok h e s \<Longrightarrow> \<exists>i0 < length (set_table s). set_table s ! i0 = None"
  unfolding length_filter_None set_ok_def using max_load_less le_less_trans by metis

lemma store_result:
  assumes "set_ok h e s"
  obtains i where "set_find s item = Some i" "i < length (set_table s)"
    "table_ok h e (set_table (stored s item i))" "itemCount (stored s item i) = used (set_table (stored s item i))"
    "items (stored s item i) = insert item {x \<in> items s. \<not> e x item}"
    "BRSetGet s item = Some (set_table s ! i)" "set_table s ! i = None \<longrightarrow> (\<forall>x \<in> items s. \<not> e x item)"
proof -
  let ?T = "set_table s"
  have ok: "set_hash s = h" "set_eq s = e" "table_ok h e ?T" "itemCount s = used ?T"
    using assms by (auto simp: set_ok_def)
  obtain i0 where i0: "i0 < length ?T" "?T ! i0 = None" using set_ok_empty [OF assms] by blast
  show ?thesis
  proof (cases rule: find_cases [OF ok(1,2,3) i0, where item = item, case_names found missing])
    case (found i x)
    have "table_ok h e (?T[i := Some item])"
      using found find_path [OF ok(3) found(2-4)] by (intro store_ok ok(3)) auto
    moreover have "y \<in> items (stored s item i) \<longleftrightarrow> y = item \<or> (y \<in> items s \<and> \<not> e y item)" for y
    proof -
      have uniq: "p = i" if "e y item" "p < length ?T" "?T ! p = Some y" for p
      proof -
        have "e y x" using that(1) found(4) eq_sym eq_trans by blast
        with ok(3) found that show ?thesis unfolding table_ok_def by blast
      qed
      show ?thesis unfolding items_stored [OF found(2)]
        using uniq found(2-4) unfolding items_iff by (metis option.inject)
    qed
    ultimately show ?thesis
      using that [of i] found ok(4) used_update(1) [OF found(2)] by (auto simp: BRSetGet_def)
  next
    case (missing i)
    have "table_ok h e (?T[i := Some item])"
      using missing by (intro store_ok ok(3)) (auto simp: items_iff)
    moreover have "y \<in> items (stored s item i) \<longleftrightarrow> y = item \<or> (y \<in> items s \<and> \<not> e y item)" for y
      unfolding items_stored [OF missing(2)] using missing(3,5) unfolding items_iff by (metis option.distinct(1))
    ultimately show ?thesis
      using that [of i] missing ok(4) used_update(1) [OF missing(2)] by (auto simp: BRSetGet_def)
  qed
qed

lemma set_add_stored:
  "set_find s item = Some i \<Longrightarrow> set_add d s item = do {
     s' \<leftarrow> (if itemCount (stored s item i) > max_load (length (set_table s))
          then (case d of
                  0 \<Rightarrow> None
                | Suc d' \<Rightarrow> do {
                    newSet \<leftarrow> SetInit (set_hash s) (set_eq s) (length (set_table s));
                    newSet \<leftarrow> set_union d' newSet (set_table (stored s item i));
                    Some ((stored s item i)\<lparr>set_table := set_table newSet, itemCount := itemCount newSet\<rparr>)
                  })
          else Some (stored s item i));
     Some (s', set_table s ! i)
   }"
  by (simp only: set_add.simps Option.bind.simps Let_def stored_def [symmetric] stored_sel length_list_update max_load_def)

lemma add_no_grow:
  assumes "set_ok h e s" and "itemCount s + 1 \<le> max_load (length (set_table s))"
  shows "\<exists>s' t. set_add d s item = Some (s', t) \<and> set_ok h e s' \<and> length (set_table s') = length (set_table s) \<and>
     items s' = insert item {x \<in> items s. \<not> e x item} \<and> BRSetGet s item = Some t \<and>
     itemCount s' = itemCount s + (if t = None then 1 else 0)"
proof -
  obtain i where i: "set_find s item = Some i" "i < length (set_table s)"
    "table_ok h e (set_table (stored s item i))" "itemCount (stored s item i) = used (set_table (stored s item i))"
    "items (stored s item i) = insert item {x \<in> items s. \<not> e x item}" "BRSetGet s item = Some (set_table s ! i)"
    "set_table s ! i = None \<longrightarrow> (\<forall>x \<in> items s. \<not> e x item)"
    by (rule store_result [OF assms(1), where item = item]) (rule that; assumption)
  have "itemCount (stored s item i) \<le> itemCount s + 1" by simp
  then have nl: "\<not> itemCount (stored s item i) > max_load (length (set_table s))" using assms(2) by linarith
  then have "set_add d s item = Some (stored s item i, set_table s ! i)"
    unfolding set_add_stored [OF i(1)] by (simp only: if_False Option.bind.simps)
  moreover have "set_ok h e (stored s item i)"
    using assms(1) i(2-4) nl by (auto simp: set_ok_def not_less simp del: stored_sel(4))
  ultimately show ?thesis using i by auto
qed

lemma union_fresh:
  assumes "set_ok h e s" and "itemCount s + used ts \<le> max_load (length (set_table s))"
    and "\<And>x y. x \<in> items s \<Longrightarrow> Some y \<in> set ts \<Longrightarrow> \<not> e x y"
    and "\<And>p q x y. p < length ts \<Longrightarrow> q < length ts \<Longrightarrow> ts ! p = Some x \<Longrightarrow> ts ! q = Some y \<Longrightarrow> e x y \<Longrightarrow> p = q"
  shows "\<exists>s'. set_union d s ts = Some s' \<and> set_ok h e s' \<and> length (set_table s') = length (set_table s) \<and>
     items s' = items s \<union> {x. Some x \<in> set ts} \<and> itemCount s' = itemCount s + used ts"
  using assms
proof (induction ts arbitrary: s)
  case Nil
  then show ?case by (simp add: used_def)
next
  case (Cons t ts)
  have tail: "p = q" if "p < length ts" "q < length ts" "ts ! p = Some x" "ts ! q = Some y" "e x y" for p q x y
    using Cons.prems(4) [of "Suc p" "Suc q" x y] that by simp
  show ?case
  proof (cases t)
    case None
    have "used (t # ts) = used ts" using None by (simp add: used_def)
    moreover have "\<exists>s'. set_union d s ts = Some s' \<and> set_ok h e s' \<and> length (set_table s') = length (set_table s) \<and>
        items s' = items s \<union> {x. Some x \<in> set ts} \<and> itemCount s' = itemCount s + used ts"
      by (rule Cons.IH [OF Cons.prems(1)]) (use Cons.prems(2,3) calculation tail in auto)
    ultimately show ?thesis using None by auto
  next
    case (Some x)
    have u: "used (t # ts) = Suc (used ts)" using Some by (simp add: used_def)
    obtain i0 where i0: "i0 < length (set_table s)" "set_table s ! i0 = None"
      using set_ok_empty [OF Cons.prems(1)] by blast
    have new: "\<not> e y x" if "y \<in> items s" for y using Cons.prems(3) that Some by simp
    have "BRSetGet s x = Some None" using get_notin [OF Cons.prems(1) i0] new by blast
    then obtain s' where s': "set_add d s x = Some (s', None)" "set_ok h e s'"
      "length (set_table s') = length (set_table s)" "items s' = insert x (items s)" "itemCount s' = itemCount s + 1"
      using add_no_grow [OF Cons.prems(1), of d x] Cons.prems(2) u new by auto
    have fresh: "\<not> e a b" if "a \<in> items s'" "Some b \<in> set ts" for a b
    proof (cases "a = x")
      case True
      from that(2) obtain q where "q < length ts" "ts ! q = Some b" by (auto simp: in_set_conv_nth)
      with Cons.prems(4) [of 0 "Suc q" x b] Some True show ?thesis by auto
    next
      case False
      with that s'(4) Cons.prems(3) show ?thesis by auto
    qed
    have "\<exists>s2. set_union d s' ts = Some s2 \<and> set_ok h e s2 \<and> length (set_table s2) = length (set_table s') \<and>
        items s2 = items s' \<union> {x. Some x \<in> set ts} \<and> itemCount s2 = itemCount s' + used ts"
      by (rule Cons.IH [OF s'(2)]) (use s'(3,5) Cons.prems(2) u fresh tail in auto)
    then show ?thesis using Some s' u by auto
  qed
qed

lemma add_correct:
  assumes "set_ok h e s" and "length (set_table s) < LARGEST_TABLE"
  shows "\<exists>s' t. set_add (Suc d) s item = Some (s', t) \<and> set_ok h e s' \<and>
     items s' = insert item {x \<in> items s. \<not> e x item} \<and> BRSetGet s item = Some t \<and>
     itemCount s' = itemCount s + (if t = None then 1 else 0)"
proof -
  obtain i where i: "set_find s item = Some i" "i < length (set_table s)"
    "table_ok h e (set_table (stored s item i))" "itemCount (stored s item i) = used (set_table (stored s item i))"
    "items (stored s item i) = insert item {x \<in> items s. \<not> e x item}" "BRSetGet s item = Some (set_table s ! i)"
    "set_table s ! i = None \<longrightarrow> (\<forall>x \<in> items s. \<not> e x item)"
    by (rule store_result [OF assms(1), where item = item]) (rule that; assumption)
  let ?s = "stored s item i"
  have ok: "set_hash s = h" "set_eq s = e" "length (set_table s) \<in> set (tl tableSizes)"
    "itemCount s \<le> max_load (length (set_table s))" using assms(1) by (auto simp: set_ok_def)
  show ?thesis
  proof (cases "itemCount ?s > max_load (length (set_table s))")
    case False
    then have "set_add (Suc d) s item = Some (?s, set_table s ! i)"
      unfolding set_add_stored [OF i(1)] by (simp only: if_False Option.bind.simps)
    moreover have "set_ok h e ?s" using ok i False by (auto simp: set_ok_def)
    ultimately show ?thesis using i by auto
  next
    case True
    obtain m where m: "SetInit h e (length (set_table s)) =
        Some \<lparr>set_table = replicate m None, itemCount = 0, set_hash = h, set_eq = e\<rparr>"
      "m \<in> set (tl tableSizes)" "max_load (length (set_table s)) + 1 \<le> max_load m"
      using SetInit_Some [OF ok(3) assms(2)] by blast
    let ?n = "\<lparr>set_table = replicate m None, itemCount = 0, set_hash = h, set_eq = e\<rparr>"
    have new: "set_ok h e ?n" using m(2) by (simp add: set_ok_def table_ok_def used_def)
    have "itemCount ?s \<le> max_load (length (set_table s)) + 1" using ok(4) by simp
    then have room: "itemCount ?n + used (set_table ?s) \<le> max_load (length (set_table ?n))"
      using i(4) m(3) by simp
    have none: "\<not> e x y" if "x \<in> items ?n" "Some y \<in> set (set_table ?s)" for x y
      using that by (simp add: items_def)
    have uniq: "p = q" if "p < length (set_table ?s)" "q < length (set_table ?s)" "set_table ?s ! p = Some x"
        "set_table ?s ! q = Some y" "e x y" for p q x y
      using i(3) that unfolding table_ok_def by blast
    have "\<exists>s2. set_union d ?n (set_table ?s) = Some s2 \<and> set_ok h e s2 \<and>
        length (set_table s2) = length (set_table ?n) \<and>
        items s2 = items ?n \<union> {x. Some x \<in> set (set_table ?s)} \<and> itemCount s2 = itemCount ?n + used (set_table ?s)"
      by (rule union_fresh [OF new room]) (fact none, fact uniq)
    then obtain s2 where s2: "set_union d ?n (set_table ?s) = Some s2" "set_ok h e s2"
      "items s2 = items ?n \<union> {x. Some x \<in> set (set_table ?s)}" "itemCount s2 = itemCount ?n + used (set_table ?s)"
      by blast
    let ?r = "?s\<lparr>set_table := set_table s2, itemCount := itemCount s2\<rparr>"
    have "set_add (Suc d) s item = Some (?r, set_table s ! i)"
      using True i(1) ok m(1) s2(1) by (simp add: set_add_stored)
    moreover have "set_ok h e ?r" using s2(2) ok by (auto simp: set_ok_def)
    moreover have "items ?r = items ?s" using s2(3) by (simp add: items_def)
    moreover have "itemCount ?r = itemCount ?s" using s2(4) i(4) by simp
    ultimately show ?thesis using i(5,6) by auto
  qed
qed

lemma cleanup_loop:
  assumes T0: "length T0 = n" "n \<in> set (tl tableSizes)" "slot b T0 (n - 1) = None" "lin h b T0 n"
    and m: "m < n" "slot b T0 m = None"
  shows "k \<le> m \<Longrightarrow> (\<And>q. k \<le> q \<Longrightarrow> q < m \<Longrightarrow> slot b T0 q \<noteq> None) \<Longrightarrow> m - k < f \<Longrightarrow>
    set_hash s = h \<Longrightarrow> set_eq s = e \<Longrightarrow> length (set_table s) = n \<Longrightarrow> itemCount s = used (set_table s) \<Longrightarrow>
    itemCount s \<le> max_load n \<Longrightarrow> (\<And>q. k \<le> q \<Longrightarrow> q < n \<Longrightarrow> slot b (set_table s) q = slot b T0 q) \<Longrightarrow>
    lin h b (set_table s) k \<Longrightarrow> unique_items e (set_table s) \<Longrightarrow>
    \<exists>s'. set_cleanup s ((b + k) mod n) f = Some s' \<and> set_ok h e s' \<and> items s' = items s \<and>
       itemCount s' = itemCount s \<and> length (set_table s') = n"
proof (induction "m - k" arbitrary: k f s)
  case 0
  have n: "0 < n" using m by simp
  have "k = m" using 0 by simp
  let ?T = "set_table s"
  have last: "slot b ?T (n - 1) = None" using 0(10) [of "n - 1"] T0(3) \<open>k = m\<close> m(1) by simp
  have "lin h b ?T n" unfolding lin_def
  proof (intro allI impI)
    fix q x assume q: "q < n" "slot b ?T q = Some x"
    show "let a = coord (length ?T) b (h x mod length ?T) in a \<le> q \<and> (\<forall>p. a \<le> p \<and> p < q \<longrightarrow> slot b ?T p \<noteq> None)"
    proof (cases "q < k")
      case True
      with q 0(11) show ?thesis by (simp add: lin_def)
    next
      case False
      let ?a = "coord n b (h x mod n)"
      have q0: "slot b T0 q = Some x" using 0(10) [of q] False q by simp
      then have a: "?a \<le> q" "\<And>p. ?a \<le> p \<Longrightarrow> p < q \<Longrightarrow> slot b T0 p \<noteq> None"
        using T0(1,4) q unfolding lin_def by (auto simp: Let_def)
      have "q \<noteq> m" using m(2) q0 by auto
      then have "m < ?a" using a(2) [of m] m(2) False \<open>k = m\<close> by (metis linorder_neqE_nat not_le)
      then have "slot b ?T p \<noteq> None" if "?a \<le> p" "p < q" for p
        using a(2) that 0(10) [of p] \<open>k = m\<close> q(1) by simp
      with a(1) show ?thesis using 0(7) by (auto simp: Let_def)
    qed
  qed
  then have "set_ok h e s" using 0 T0(2) table_ok_lin [OF 0(7) n last] by (simp add: set_ok_def)
  moreover have "set_cleanup s ((b + k) mod n) f = Some s"
    using 0(4,7) 0(10) [of k] m \<open>k = m\<close> by (cases f) (auto simp: slot_def)
  ultimately show ?case using 0(7) by auto
next
  case (Suc d)
  let ?T = "set_table s"
  have km: "k < m" "k < n" using Suc.hyps(2) m(1) by auto
  then have n: "0 < n" by simp
  obtain t where t: "slot b ?T k = Some t" "slot b T0 k = Some t"
    using Suc.prems(2) [of k] Suc.prems(9) [of k] km by auto
  let ?i = "(b + k) mod n"
  have i: "?i < length ?T" "?T ! ?i = Some t" using Suc.prems(6) n t by (auto simp: slot_def)
  define s1 where "s1 = s\<lparr>itemCount := itemCount s - 1, set_table := ?T[?i := None]\<rparr>"
  let ?T1 = "set_table s1"
  have s1: "set_hash s1 = h" "set_eq s1 = e" "length ?T1 = n" "itemCount s1 = itemCount s - 1"
    using Suc.prems by (simp_all add: s1_def)
  have slot1: "slot b ?T1 q = (if q = k then None else slot b ?T q)" if "q < n" for q
    using slot_update [OF Suc.prems(6) km(2) that] by (simp add: s1_def)
  have pos: "0 < itemCount s" using Suc.prems(7) i used_update(2) [OF i(1)] unfolding used_def
    by (metis (mono_tags, lifting) filter_empty_conv length_greater_0_conv nth_mem option.distinct(1))
  have used1: "used ?T1 = itemCount s - 1" using used_update(2) [OF i(1)] i(2) Suc.prems(7) by (simp add: s1_def)
  have none: "\<not> e x t" if "x \<in> items s1" for x
  proof
    assume ext: "e x t"
    from that obtain p where p: "p < n" "?T1 ! p = Some x" using s1(3) by (auto simp: items_iff)
    then have "p \<noteq> ?i" "?T ! p = Some x" using i(1) by (auto simp: s1_def nth_list_update split: if_splits)
    with Suc.prems(6,11) p(1) i ext show False unfolding unique_items_def by metis
  qed
  let ?a = "coord n b (h t mod n)"
  have a: "?a < n" "(b + ?a) mod n = h t mod n" using coord_props [of "h t mod n" n b] n by auto
  have ak: "?a \<le> k" using T0(1,4) t(2) km unfolding lin_def by (auto simp: Let_def)
  have last1: "?T1 ! ((b + (n - 1)) mod n) = None"
    using slot1 [of "n - 1"] Suc.prems(9) [of "n - 1"] T0(3) n km s1(3) by (auto simp: slot_def split: if_splits)
  obtain q where q: "?a \<le> q" "q < n" "set_find s1 t = Some ((b + q) mod n)"
    "\<And>p. ?a \<le> p \<Longrightarrow> p < q \<Longrightarrow> slot b ?T1 p \<noteq> None" "slot b ?T1 q = None"
  proof -
    obtain q where q: "?a \<le> q" "q < n" "set_probe s1 t ((b + ?a) mod n) n = Some ((b + q) mod n)"
      "\<And>p. ?a \<le> p \<Longrightarrow> p < q \<Longrightarrow> \<exists>u. ?T1 ! ((b + p) mod n) = Some u"
      "\<And>u. ?T1 ! ((b + q) mod n) = Some u \<Longrightarrow> u = t \<or> e u t"
      using probe_linear [OF s1(3) a(1) diff_le_self last1, of t] unfolding s1(2) by blast
    have "?T1 ! ((b + q) mod n) = None"
    proof (rule ccontr)
      assume "?T1 ! ((b + q) mod n) \<noteq> None"
      then obtain u where u: "?T1 ! ((b + q) mod n) = Some u" by auto
      then have "u \<in> items s1" using s1(3) n by (auto simp: items_iff intro!: exI [of _ "(b + q) mod n"])
      with none q(5) [OF u] eq_refl show False by metis
    qed
    then show ?thesis using that [of q] q a(2) s1 by (auto simp: set_find_def slot_def)
  qed
  have qk: "q \<le> k" using q(4) [OF ak] slot1 [OF km(2)] by (metis not_le)
  define s2 where "s2 = stored s1 t ((b + q) mod n)"
  let ?T2 = "set_table s2"
  have empty: "?T1 ! ((b + q) mod n) = None" using q(5) s1(3) by (simp add: slot_def)
  have len2: "length ?T2 = n" using s1(3) by (simp add: s2_def)
  have cnt: "itemCount s2 = itemCount s" using empty s1(4) pos by (simp add: s2_def)
  have add: "BRSetAdd s1 t = Some (s2, None)"
    using Suc.prems(8) cnt s1(3) empty unfolding BRSetAdd_def set_add_stored [OF q(3)] s2_def [symmetric] by simp
  have slot2: "slot b ?T2 p = (if p = q then Some t else slot b ?T1 p)" if "p < n" for p
    using slot_update [OF s1(3) q(2) that] by (simp add: s2_def)
  have used2: "itemCount s2 = used ?T2"
    using used_update(1) [of "(b + q) mod n" ?T1 t] empty n s1(3,4) used1 pos cnt by (simp add: s2_def)
  have same: "slot b ?T2 p = slot b T0 p" if "Suc k \<le> p" "p < n" for p
    using slot2 [OF that(2)] slot1 [OF that(2)] Suc.prems(9) [of p] that qk by simp
  have lin2: "lin h b ?T2 (Suc k)" unfolding lin_def len2
  proof (intro allI impI)
    fix p x assume p: "p < Suc k" "slot b ?T2 p = Some x"
    have pn: "p < n" using p km by simp
    show "let a = coord n b (h x mod n) in a \<le> p \<and> (\<forall>p'. a \<le> p' \<and> p' < p \<longrightarrow> slot b ?T2 p' \<noteq> None)"
    proof (cases "p = q")
      case True
      then have "x = t" using p slot2 [OF pn] by simp
      with True q(1,4) slot2 pn show ?thesis by (auto simp: Let_def)
    next
      case False
      then have x1: "slot b ?T1 p = Some x" using p slot2 [OF pn] by simp
      then have pk: "p < k" and x0: "slot b ?T p = Some x" using slot1 [OF pn] p by (auto split: if_splits)
      then have "coord n b (h x mod n) \<le> p" "\<And>p'. coord n b (h x mod n) \<le> p' \<Longrightarrow> p' < p \<Longrightarrow> slot b ?T p' \<noteq> None"
        using Suc.prems(6,10) unfolding lin_def by (auto simp: Let_def)
      then show ?thesis using slot1 slot2 pk pn by (auto simp: Let_def)
    qed
  qed
  have uniq2: "unique_items e ?T2" unfolding unique_items_def len2
  proof (intro allI impI)
    fix u v x y assume A: "u < n" "v < n" "?T2 ! u = Some x" "?T2 ! v = Some y" "e x y"
    let ?j = "(b + q) mod n"
    have j: "?j < n" using n by simp
    have mem: "y \<in> items s1" if "v \<noteq> ?j" "?T2 ! v = Some y" "v < n" for v y
      using that s1(3) by (auto simp: s2_def items_iff nth_list_update split: if_splits)
    have old: "?T ! v = Some y \<and> v \<noteq> ?i" if "v \<noteq> ?j" "?T2 ! v = Some y" "v < n" for v y
      using that s1(3) i(1) j Suc.prems(6) by (auto simp: s2_def s1_def nth_list_update split: if_splits)
    have tj: "z = t" if "?T2 ! ?j = Some z" for z using that j s1(3) by (simp add: s2_def)
    show "u = v"
      using A mem [of u x] mem [of v y] old [of u x] old [of v y] tj [of x] tj [of y] none eq_sym
        Suc.prems(6,11) unfolding unique_items_def by metis
  qed
  have it: "items s2 = items s"
  proof -
    have "x \<in> items s2 \<longleftrightarrow> x = t \<or> x \<in> items s1" for x
      using items_stored [of "(b + q) mod n" s1 x t] empty n s1(3) unfolding s2_def items_iff
      by (metis mod_less_divisor option.distinct(1))
    moreover have "x = t \<or> x \<in> items s1 \<longleftrightarrow> x \<in> items s" for x
      using i Suc.prems(6) unfolding items_iff s1_def
      by (auto simp: nth_list_update split: if_splits) (metis option.inject)+
    ultimately show ?thesis by auto
  qed
  obtain f' where f: "f = Suc f'" using Suc.prems(3) by (cases f) auto
  have "\<exists>s'. set_cleanup s2 ((b + Suc k) mod n) f' = Some s' \<and> set_ok h e s' \<and> items s' = items s2 \<and>
       itemCount s' = itemCount s2 \<and> length (set_table s') = n"
    using Suc.hyps(2) Suc.prems(3) f km len2 used2 cnt Suc.prems(8) same lin2 uniq2 s1 Suc.prems(2)
    by (intro Suc.hyps(1)) (auto simp: s2_def)
  moreover have "set_cleanup s ?i f = set_cleanup s2 ((b + Suc k) mod n) f'"
    using i(2) add [unfolded s1_def] len2 unfolding f by (simp add: mod_Suc_eq)
  ultimately show ?case using it cnt by auto
qed

lemma remove_correct:
  assumes "set_ok h e s"
  shows "\<exists>s' t. BRSetRemove s item = Some (s', t) \<and> set_ok h e s' \<and>
     items s' = {x \<in> items s. \<not> e x item} \<and> BRSetGet s item = Some t \<and>
     itemCount s' = itemCount s - (if t = None then 0 else 1) \<and> length (set_table s') = length (set_table s)"
proof -
  let ?T = "set_table s" and ?n = "length (set_table s)"
  have ok: "set_hash s = h" "set_eq s = e" "table_ok h e ?T" "itemCount s = used ?T" "?n \<in> set (tl tableSizes)"
    "itemCount s \<le> max_load ?n" using assms by (auto simp: set_ok_def)
  obtain i0 where i0: "i0 < ?n" "?T ! i0 = None" using set_ok_empty [OF assms] by blast
  show ?thesis
  proof (cases rule: find_cases [OF ok(1,2,3) i0, where item = item, case_names found missing])
    case (missing i)
    then have "BRSetRemove s item = Some (s, None)" "BRSetGet s item = Some None"
      by (simp_all add: BRSetRemove_def BRSetGet_def)
    with missing(5) assms show ?thesis by auto
  next
    case (found i x)
    let ?b = "Suc i0" and ?s1 = "s\<lparr>itemCount := itemCount s - 1, set_table := ?T[i := None]\<rparr>"
    let ?T1 = "?T[i := None]"
    have n: "0 < ?n" using i0 by linarith
    have "?b + (?n - 1) = i0 + ?n" using n by simp
    then have last: "slot ?b ?T (?n - 1) = None" using i0 by (simp add: slot_def)
    have lin0: "lin h ?b ?T ?n" "unique_items e ?T" using table_ok_lin [OF refl n last] ok(3) by auto
    define r where "r = coord ?n ?b i"
    have r: "r < ?n" "(?b + r) mod ?n = i" by (simp_all only: r_def coord_props [OF found(2)])
    have rx: "slot ?b ?T r = Some x" using r found(3) by (simp add: slot_def)
    then have "r \<noteq> ?n - 1" using last by auto
    then have rn: "Suc r < ?n" using r(1) by simp
    define m where "m = (LEAST m. r < m \<and> slot ?b ?T m = None)"
    have m: "r < m" "slot ?b ?T m = None" "m \<le> ?n - 1"
      using LeastI [of "\<lambda>m. r < m \<and> slot ?b ?T m = None" "?n - 1"]
        Least_le [of "\<lambda>m. r < m \<and> slot ?b ?T m = None" "?n - 1"] last rn by (auto simp: m_def)
    have full: "slot ?b ?T q \<noteq> None" if "Suc r \<le> q" "q < m" for q
      using not_less_Least [of q "\<lambda>m. r < m \<and> slot ?b ?T m = None"] that by (auto simp: m_def)
    have slot1: "slot ?b ?T1 q = (if q = r then None else slot ?b ?T q)" if "q < ?n" for q
      using slot_update [OF refl r(1) that, of ?b None] r(2) by simp
    have it: "items ?s1 = {y \<in> items s. \<not> e y item}"
    proof -
      have uniq: "p = i" if "e y item" "p < ?n" "?T ! p = Some y" for p y
      proof -
        have "e y x" using that(1) found(4) eq_sym eq_trans by blast
        with ok(3) found that show ?thesis unfolding table_ok_def by blast
      qed
      have mem: "y \<in> items ?s1 \<longleftrightarrow> (\<exists>p < ?n. p \<noteq> i \<and> ?T ! p = Some y)" for y
        using found(2) by (auto simp: items_iff nth_list_update)
      have "y \<in> items ?s1 \<longleftrightarrow> y \<in> items s \<and> \<not> e y item" for y
        unfolding mem using uniq [of y] found(2-4) unfolding items_iff by (metis option.inject)
      then show ?thesis by blast
    qed
    have u1: "unique_items e ?T1"
      using lin0(2) found(2) unfolding unique_items_def by (auto simp: nth_list_update split: if_splits)
    have used1: "used ?T1 = used ?T - 1" using used_update(2) [OF found(2)] found(3) by simp
    have lin1: "lin h ?b ?T1 (Suc r)" unfolding lin_def length_list_update
    proof (intro allI impI)
      fix q y assume q: "q < Suc r" "slot ?b ?T1 q = Some y"
      have qn: "q < ?n" using q rn by simp
      then have "q < r" "slot ?b ?T q = Some y" using q slot1 [OF qn] by (auto split: if_splits)
      then have "coord ?n ?b (h y mod ?n) \<le> q"
        "\<And>p. coord ?n ?b (h y mod ?n) \<le> p \<Longrightarrow> p < q \<Longrightarrow> slot ?b ?T p \<noteq> None"
        using lin0(1) qn unfolding lin_def by (auto simp: Let_def)
      then show "let a = coord ?n ?b (h y mod ?n) in a \<le> q \<and> (\<forall>p. a \<le> p \<and> p < q \<longrightarrow> slot ?b ?T1 p \<noteq> None)"
        using slot1 \<open>q < r\<close> qn by (auto simp: Let_def)
    qed
    have "\<exists>s'. set_cleanup ?s1 ((?b + Suc r) mod ?n) ?n = Some s' \<and> set_ok h e s' \<and> items s' = items ?s1 \<and>
       itemCount s' = itemCount ?s1 \<and> length (set_table s') = ?n"
      by (rule cleanup_loop [OF refl ok(5) last lin0(1), where m = m])
         (use m full ok used1 slot1 lin1 u1 rn in auto)
    then obtain s' where s': "set_cleanup ?s1 ((?b + Suc r) mod ?n) ?n = Some s'" "set_ok h e s'"
      "items s' = items ?s1" "itemCount s' = itemCount ?s1" "length (set_table s') = ?n" by blast
    have "(?b + Suc r) mod ?n = (i + 1) mod ?n" using r(2) by (metis Suc_eq_plus1 add_Suc_right mod_Suc_eq)
    then have "BRSetRemove s item = Some (s', Some x)" "BRSetGet s item = Some (Some x)"
      using found s'(1) by (simp_all add: BRSetRemove_def BRSetGet_def)
    with s' it show ?thesis by auto
  qed
qed

text \<open>Reading after writing, in terms of the lookup operation.\<close>

lemma get_determined:
  assumes "set_ok h e s" and "set_ok h e s'" and "\<And>x. e x y \<Longrightarrow> x \<in> items s' \<longleftrightarrow> x \<in> items s"
  shows "BRSetGet s' y = BRSetGet s y"
proof -
  obtain i i' where i: "i < length (set_table s)" "set_table s ! i = None"
    "i' < length (set_table s')" "set_table s' ! i' = None" using set_ok_empty assms(1,2) by metis
  show ?thesis
  proof (cases "\<exists>x \<in> items s. e x y")
    case True
    then obtain x where "x \<in> items s" "e x y" by blast
    with assms get_in [OF assms(1) i(1,2)] get_in [OF assms(2) i(3,4)] show ?thesis by metis
  next
    case False
    with assms get_notin [OF assms(1) i(1,2)] get_notin [OF assms(2) i(3,4)] show ?thesis by metis
  qed
qed

lemma get_total: "set_ok h e s \<Longrightarrow> \<exists>t. BRSetGet s y = Some t"
  using set_ok_empty [of s] get_in [of s _ _ y] get_notin [of s _ y] by metis

lemma get_member: "set_ok h e s \<Longrightarrow> x \<in> items s \<Longrightarrow> e x y \<Longrightarrow> BRSetGet s y = Some (Some x)"
  using set_ok_empty [of s] get_in [of s _ x y] by metis

lemma get_absent: "set_ok h e s \<Longrightarrow> (\<And>x. x \<in> items s \<Longrightarrow> \<not> e x y) \<Longrightarrow> BRSetGet s y = Some None"
  using set_ok_empty [of s] get_notin [of s _ y] by metis

lemma get_add:
  assumes "set_ok h e s" and "length (set_table s) < LARGEST_TABLE"
  shows "\<exists>s' t. BRSetAdd s item = Some (s', t) \<and> set_ok h e s' \<and> BRSetGet s item = Some t \<and>
     (\<forall>y. BRSetGet s' y = (if e item y then Some (Some item) else BRSetGet s y)) \<and>
     BRSetCount s' = BRSetCount s + (if t = None then 1 else 0) \<and>
     items s' = insert item {x \<in> items s. \<not> e x item}"
proof -
  obtain s' t where s': "BRSetAdd s item = Some (s', t)" "set_ok h e s'" "BRSetGet s item = Some t"
    "items s' = insert item {x \<in> items s. \<not> e x item}" "itemCount s' = itemCount s + (if t = None then 1 else 0)"
    using add_correct [OF assms, of 50 item] by (auto simp: BRSetAdd_def TABLE_SIZES_LEN_def)
  have "BRSetGet s' y = (if e item y then Some (Some item) else BRSetGet s y)" for y
  proof (cases "e item y")
    case True
    then show ?thesis using get_member [OF s'(2), of item y] s'(4) by simp
  next
    case False
    have "\<not> e x item \<and> x \<noteq> item" if "e x y" for x using that False eq_sym eq_trans by metis
    then have "BRSetGet s' y = BRSetGet s y"
      unfolding s'(4) by (intro get_determined [OF assms(1) s'(2)]) (auto simp: s'(4))
    with False show ?thesis by simp
  qed
  with s' show ?thesis by (auto simp: BRSetCount_def)
qed

lemma get_remove:
  assumes "set_ok h e s"
  shows "\<exists>s' t. BRSetRemove s item = Some (s', t) \<and> set_ok h e s' \<and> BRSetGet s item = Some t \<and>
     (\<forall>y. BRSetGet s' y = (if e item y then Some None else BRSetGet s y)) \<and>
     BRSetCount s' = BRSetCount s - (if t = None then 0 else 1) \<and> items s' = {x \<in> items s. \<not> e x item}"
proof -
  obtain s' t where s': "BRSetRemove s item = Some (s', t)" "set_ok h e s'" "BRSetGet s item = Some t"
    "items s' = {x \<in> items s. \<not> e x item}" "itemCount s' = itemCount s - (if t = None then 0 else 1)"
    using remove_correct [OF assms, of item] by blast
  have "BRSetGet s' y = (if e item y then Some None else BRSetGet s y)" for y
  proof (cases "e item y")
    case True
    have "\<not> e x y" if "x \<in> items s'" for x
      using that s'(4) eq_trans [of x y item] eq_sym [OF True] by blast
    with True get_absent [OF s'(2)] show ?thesis by simp
  next
    case False
    have "\<not> e x item \<and> x \<noteq> item" if "e x y" for x using that False eq_sym eq_trans by metis
    then have "BRSetGet s' y = BRSetGet s y"
      unfolding s'(4) by (intro get_determined [OF assms(1) s'(2)]) (auto simp: s'(4))
    with False show ?thesis by simp
  qed
  with s' show ?thesis by (auto simp: BRSetCount_def)
qed

lemma new_ok:
  assumes "capacity \<le> 2609407319"
  shows "\<exists>s. BRSetNew h e capacity = Some s \<and> set_ok h e s \<and> items s = {} \<and> BRSetCount s = 0"
proof -
  let ?i = "length (takeWhile (\<lambda>s. s < capacity) tableSizes)"
  have "?i \<le> 49"
  proof (rule ccontr)
    assume "\<not> ?i \<le> 49"
    then have "49 < ?i" by simp
    from takeWhile_nth [OF this] nth_mem [OF this] have "tableSizes ! 49 < capacity"
      using set_takeWhileD by fastforce
    then show False using assms by (simp add: tableSizes_def)
  qed
  then have i: "?i + 1 < 51" by simp
  have "tableSizes ! (?i + 1) = tl tableSizes ! ?i" using i by (simp add: nth_tl length_tableSizes)
  then have mem: "tableSizes ! (?i + 1) \<in> set (tl tableSizes)"
    using i nth_mem [of ?i "tl tableSizes"] by (simp add: length_tableSizes)
  then show ?thesis using i
    by (simp add: BRSetNew_def SetInit_def TABLE_SIZES_LEN_def set_ok_def table_ok_def used_def items_def BRSetCount_def
        del: replicate.simps)
qed

lemma minus_correct:
  "set_ok h e s \<Longrightarrow> \<exists>s'. set_minus s ts = Some s' \<and> set_ok h e s' \<and>
     items s' = {x \<in> items s. \<not> (\<exists>y. Some y \<in> set ts \<and> e x y)}"
proof (induction ts arbitrary: s)
  case (Cons t ts)
  show ?case
  proof (cases t)
    case None
    then show ?thesis using Cons.IH [OF Cons.prems] by auto
  next
    case (Some y)
    obtain s1 r where s1: "BRSetRemove s y = Some (s1, r)" "set_ok h e s1" "items s1 = {x \<in> items s. \<not> e x y}"
      using get_remove [OF Cons.prems, of y] by blast
    obtain s2 where "set_minus s1 ts = Some s2" "set_ok h e s2"
      "items s2 = {x \<in> items s1. \<not> (\<exists>y. Some y \<in> set ts \<and> e x y)}" using Cons.IH [OF s1(2)] by blast
    with s1 Some show ?thesis by auto
  qed
qed simp

lemma intersects_correct:
  assumes "set_ok h e s"
  shows "set_intersects s ts = Some (\<exists>y. Some y \<in> set ts \<and> (\<exists>x \<in> items s. e x y))"
proof (induction ts)
  case (Cons t ts)
  show ?case
  proof (cases t)
    case (Some y)
    show ?thesis
    proof (cases "\<exists>x \<in> items s. e x y")
      case True
      then obtain x where "x \<in> items s" "e x y" by blast
      then have "set_intersects s (t # ts) = Some True" using Some get_member [OF assms] by simp
      moreover have "\<exists>y. Some y \<in> set (t # ts) \<and> (\<exists>x \<in> items s. e x y)"
        using Some \<open>x \<in> items s\<close> \<open>e x y\<close> by auto
      ultimately show ?thesis by simp
    next
      case False
      then have "BRSetGet s y = Some None" using get_absent [OF assms] by blast
      then show ?thesis using Some Cons False by auto
    qed
  qed (use Cons in simp)
qed simp

lemma contains_correct:
  "set_ok h e s \<Longrightarrow> BRSetContains s y = Some (\<exists>x \<in> items s. e x y)"
  using get_member [of s _ y] get_absent [of s y] unfolding BRSetContains_def
  by (cases "\<exists>x \<in> items s. e x y") auto

lemma clear_correct: "set_ok h e s \<Longrightarrow> set_ok h e (BRSetClear s) \<and> items (BRSetClear s) = {}"
  by (auto simp: set_ok_def table_ok_def BRSetClear_def used_def items_def)

end

section \<open>Enumeration\<close>

lemma set_all_enough: "used ts \<le> n \<Longrightarrow> set_all ts n = map the (filter (\<lambda>t. t \<noteq> None) ts)"
  by (induction ts n rule: set_all.induct) (auto simp: used_def filter_empty_conv)

lemma set_apply_all: "set_apply f i ts = foldl f i (map the (filter (\<lambda>t. t \<noteq> None) ts))"
  by (induction f i ts rule: set_apply.induct) auto

lemma distinct_used:
  "(\<And>p q. p < length ts \<Longrightarrow> q < length ts \<Longrightarrow> ts ! p \<noteq> None \<Longrightarrow> ts ! p = ts ! q \<Longrightarrow> p = q) \<Longrightarrow>
   distinct (filter (\<lambda>t. t \<noteq> None) ts)"
proof (induction ts)
  case (Cons t ts)
  have "p = q" if "p < length ts" "q < length ts" "ts ! p \<noteq> None" "ts ! p = ts ! q" for p q
    using Cons.prems [of "Suc p" "Suc q"] that by simp
  then have "distinct (filter (\<lambda>t. t \<noteq> None) ts)" by (rule Cons.IH)
  moreover have "t \<noteq> ts ! q" if "t \<noteq> None" "q < length ts" for q
    using Cons.prems [of 0 "Suc q"] that by auto
  then have "t \<notin> set ts" if "t \<noteq> None" using that by (metis in_set_conv_nth)
  ultimately show ?case by auto
qed simp

section \<open>Correctness of the set\<close>

text \<open>C8: for a hash and an equality function that keep the documented contract, \<open>BRSetNew\<close> gives an
  empty well-formed set, and adding an item to a well-formed set below the largest table size returns:
  the probe loop ends, the table is rebuilt when the load factor passes 2/3, the result is well formed,
  the replaced item is returned, lookups of equal items give the new item and all other lookups are
  unchanged, and the count goes up exactly when the item is new.\<close>

theorem set_add_lookup:
  assumes "set_contract h e"
  shows "(\<exists>s. BRSetNew h e 0 = Some s \<and> set_ok h e s \<and> BRSetCount s = 0 \<and> (\<forall>y. BRSetGet s y = Some None)) \<and>
    (\<forall>s item. set_ok h e s \<and> length (set_table s) < LARGEST_TABLE \<longrightarrow>
      (\<exists>s' t. BRSetAdd s item = Some (s', t) \<and> set_ok h e s' \<and> BRSetGet s item = Some t \<and>
       (\<forall>y. BRSetGet s' y = (if e item y then Some (Some item) else BRSetGet s y)) \<and>
       BRSetCount s' = BRSetCount s + (if t = None then 1 else 0)))"
proof -
  obtain s where s: "BRSetNew h e 0 = Some s" "set_ok h e s" "items s = {}" "BRSetCount s = 0"
    using set_contract.new_ok [OF assms, of 0] by auto
  have "BRSetGet s y = Some None" for y using set_contract.get_absent [OF assms s(2)] s(3) by blast
  with s show ?thesis using set_contract.get_add [OF assms] by blast
qed

lemma nat_contract: "set_contract (\<lambda>x. x :: nat) (=)"
  by unfold_locales auto

theorem set_add_lookup_witness:
  "\<exists>s s' t. BRSetNew (\<lambda>x. x) (=) 0 = Some s \<and> BRSetAdd s (5 :: nat) = Some (s', t) \<and> BRSetGet s' 5 = Some (Some 5)"
proof -
  obtain s where s: "BRSetNew (\<lambda>x. x :: nat) (=) 0 = Some s" "set_ok (\<lambda>x. x) (=) s"
    using set_add_lookup [OF nat_contract] by blast
  then have "length (set_table s) < LARGEST_TABLE"
    by (auto simp: BRSetNew_def SetInit_def tableSizes_def TABLE_SIZES_LEN_def LARGEST_TABLE_def)
  with s show ?thesis using set_add_lookup [OF nat_contract] by metis
qed

text \<open>C9: removing an item from a well-formed set returns: the cleanup loop that reinserts the rest of the
  cluster ends, leaves a well-formed table of the same size, and afterwards lookups of equal items find
  nothing while every other lookup is unchanged; \<open>BRSetMinus\<close> removes exactly the items that have an equal
  item in the other set.\<close>

theorem set_remove_lookup:
  assumes "set_contract h e" and "set_ok h e s"
  shows "(\<exists>s' t. BRSetRemove s item = Some (s', t) \<and> set_ok h e s' \<and> BRSetGet s item = Some t \<and>
      (\<forall>y. BRSetGet s' y = (if e item y then Some None else BRSetGet s y)) \<and>
      BRSetCount s' = BRSetCount s - (if t = None then 0 else 1)) \<and>
    (\<exists>s'. BRSetMinus s other = Some s' \<and> set_ok h e s' \<and>
      items s' = {x \<in> items s. \<not> (\<exists>y \<in> items other. e x y)})"
proof -
  have "\<exists>s'. BRSetMinus s other = Some s' \<and> set_ok h e s' \<and> items s' = {x \<in> items s. \<not> (\<exists>y \<in> items other. e x y)}"
    using set_contract.minus_correct [OF assms, of "set_table other"]
    by (auto simp: BRSetMinus_def items_def [of other])
  then show ?thesis using set_contract.get_remove [OF assms, of item] by blast
qed

theorem set_remove_lookup_witness:
  "\<exists>s s' t. BRSetNew (\<lambda>x. x) (=) 10 = Some s \<and> BRSetRemove s (7 :: nat) = Some (s', t) \<and> BRSetGet s' 7 = Some None"
proof -
  obtain s where s: "BRSetNew (\<lambda>x. x :: nat) (=) 10 = Some s" "set_ok (\<lambda>x. x) (=) s"
    using set_contract.new_ok [OF nat_contract, of 10] by auto
  with set_remove_lookup [OF nat_contract s(2), of 7 s] show ?thesis by auto
qed

text \<open>The set predicates and enumerations of a well-formed set agree with its items: \<open>BRSetContains\<close>,
  \<open>BRSetIntersects\<close>, \<open>BRSetClear\<close>, and \<open>BRSetAll\<close>, which for a large enough array writes \<open>BRSetCount\<close> items,
  namely all of them, pairwise different.\<close>

theorem set_queries:
  assumes "set_contract h e" and "set_ok h e s" and "BRSetCount s \<le> count"
  shows "BRSetContains s y = Some (\<exists>x \<in> items s. e x y) \<and>
    BRSetIntersects s other = Some (\<exists>y \<in> items other. \<exists>x \<in> items s. e x y) \<and>
    set_ok h e (BRSetClear s) \<and> items (BRSetClear s) = {} \<and>
    length (BRSetAll s count) = BRSetCount s \<and> set (BRSetAll s count) = items s \<and> distinct (BRSetAll s count)"
proof -
  let ?T = "set_table s"
  have cnt: "BRSetCount s = used ?T" using assms(2) by (simp add: BRSetCount_def set_ok_def)
  have all: "BRSetAll s count = map the (filter (\<lambda>t. t \<noteq> None) ?T)"
    using set_all_enough [of ?T count] assms(3) cnt by (simp add: BRSetAll_def)
  have "p = q" if "p < length ?T" "q < length ?T" "?T ! p \<noteq> None" "?T ! p = ?T ! q" for p q
  proof -
    from that(3) obtain x where "?T ! p = Some x" by auto
    moreover from this have "?T ! q = Some x" using that(4) by simp
    ultimately show ?thesis
      using assms(2) that(1,2) set_contract.eq_refl [OF assms(1), of x] unfolding set_ok_def table_ok_def by blast
  qed
  note dis = distinct_used [of ?T, OF this]
  have "inj_on the (set (filter (\<lambda>t. t \<noteq> None) ?T))" by (auto intro!: inj_onI)
  with dis have "distinct (BRSetAll s count)" unfolding all distinct_map by blast
  moreover have "set (BRSetAll s count) = items s" unfolding all items_def by force
  moreover have "length (BRSetAll s count) = BRSetCount s" unfolding all cnt by (simp add: used_def)
  ultimately show ?thesis
    using set_contract.contains_correct [OF assms(1,2)] set_contract.clear_correct [OF assms(1,2)]
      set_contract.intersects_correct [OF assms(1,2), of "set_table other"]
    by (simp add: BRSetIntersects_def items_def [of other])
qed

theorem set_queries_witness:
  "\<exists>s. BRSetNew (\<lambda>x. x) (=) 10 = Some s \<and> BRSetContains s (7 :: nat) = Some False \<and> BRSetAll s 5 = []"
proof -
  have "(10 :: nat) \<le> 2609407319" by simp
  from set_contract.new_ok [OF nat_contract this] obtain s where
    s: "BRSetNew (\<lambda>x. x :: nat) (=) 10 = Some s" "set_ok (\<lambda>x. x) (=) s" "items s = {}" "BRSetCount s = 0" by blast
  then have "BRSetCount s \<le> 5" by simp
  note q = set_queries [OF nat_contract s(2) this, of 7 s, unfolded s(3)]
  have "BRSetContains s 7 = Some False" using conjunct1 [OF q] by simp
  moreover have "set (BRSetAll s 5) = {}" using q by blast
  ultimately show ?thesis using s(1) by (metis set_empty)
qed

end
