(* ===== verification/BRInt.thy ===== *)
theory BRInt
  imports Prelude
begin

text \<open>
  \<open>BRInt.h\<close>: the fixed-width large integers, their hexadecimal form, the unaligned endian loads and
  stores, and the 256-bit arithmetic of the difficulty computation.

  A \<open>UInt256\<close> is a union over the same 32 bytes; on the little-endian targets of the wallet its
  \<open>u8\<close>, \<open>u32\<close> and \<open>u64\<close> views are digit sequences, least significant first, of one 256-bit number,
  so the union is a 256-bit word with the views below.
\<close>

section \<open>The views of the union\<close>

definition u8_at :: "UInt256 \<Rightarrow> nat \<Rightarrow> u8" where
  "u8_at a i = ucast (drop_bit (8 * i) a)"

definition u32_at :: "UInt256 \<Rightarrow> nat \<Rightarrow> u32" where
  "u32_at a i = ucast (drop_bit (32 * i) a)"

definition u64_at :: "UInt256 \<Rightarrow> nat \<Rightarrow> u64" where
  "u64_at a i = ucast (drop_bit (64 * i) a)"

definition set_u8 :: "UInt256 \<Rightarrow> nat \<Rightarrow> u8 \<Rightarrow> UInt256" where
  "set_u8 a i v = (a AND NOT (push_bit (8 * i) (mask 8))) OR push_bit (8 * i) (ucast v)"

definition set_u32 :: "UInt256 \<Rightarrow> nat \<Rightarrow> u32 \<Rightarrow> UInt256" where
  "set_u32 a i v = (a AND NOT (push_bit (32 * i) (mask 32))) OR push_bit (32 * i) (ucast v)"

definition set_u64 :: "UInt256 \<Rightarrow> nat \<Rightarrow> u64 \<Rightarrow> UInt256" where
  "set_u64 a i v = (a AND NOT (push_bit (64 * i) (mask 64))) OR push_bit (64 * i) (ucast v)"

definition UINT256_ZERO :: UInt256 where "UINT256_ZERO = 0"

definition UINT256_MAX :: UInt256 where
  "UINT256_MAX = set_u64 (set_u64 (set_u64 (set_u64 0 0 0xFFFFFFFFFFFFFFFF) 1 0xFFFFFFFFFFFFFFFF)
     2 0xFFFFFFFFFFFFFFFF) 3 0xFFFFFFFFFFFFFFFF"

section \<open>Comparison and reversal\<close>

definition UInt256Eq :: "UInt256 \<Rightarrow> UInt256 \<Rightarrow> bool" where
  "UInt256Eq a b \<longleftrightarrow> u64_at a 0 = u64_at b 0 \<and> u64_at a 1 = u64_at b 1 \<and>
     u64_at a 2 = u64_at b 2 \<and> u64_at a 3 = u64_at b 3"

definition UInt256SupEq :: "UInt256 \<Rightarrow> UInt256 \<Rightarrow> bool" where
  "UInt256SupEq a b \<longleftrightarrow> u64_at a 3 > u64_at b 3 \<or>
     (u64_at a 3 = u64_at b 3 \<and> (u64_at a 2 > u64_at b 2 \<or>
       (u64_at a 2 = u64_at b 2 \<and> (u64_at a 1 > u64_at b 1 \<or>
         (u64_at a 1 = u64_at b 1 \<and> u64_at a 0 \<ge> u64_at b 0)))))"

definition UInt256IsZero :: "UInt256 \<Rightarrow> bool" where
  "UInt256IsZero u \<longleftrightarrow> (u64_at u 0 OR u64_at u 1 OR u64_at u 2 OR u64_at u 3) = 0"

definition UInt256Set :: "UInt256 \<Rightarrow> bytes" where
  "UInt256Set u = [u8_at u 0, u8_at u 1, u8_at u 2, u8_at u 3, u8_at u 4, u8_at u 5, u8_at u 6,
     u8_at u 7, u8_at u 8, u8_at u 9, u8_at u 10, u8_at u 11, u8_at u 12, u8_at u 13, u8_at u 14,
     u8_at u 15, u8_at u 16, u8_at u 17, u8_at u 18, u8_at u 19, u8_at u 20, u8_at u 21, u8_at u 22,
     u8_at u 23, u8_at u 24, u8_at u 25, u8_at u 26, u8_at u 27, u8_at u 28, u8_at u 29, u8_at u 30,
     u8_at u 31]"

text \<open>The initialiser \<open>(UInt256) { .u8 = { \<dots> } }\<close>: the byte at index \<open>i\<close> is view byte \<open>i\<close>.\<close>

fun of_u8s :: "bytes \<Rightarrow> UInt256" where
  "of_u8s [] = 0"
| "of_u8s (b # bs) = ucast b OR push_bit 8 (of_u8s bs)"

definition UInt256Get :: "bytes \<Rightarrow> UInt256" where
  "UInt256Get b32 = of_u8s [b32 ! 0, b32 ! 1, b32 ! 2, b32 ! 3, b32 ! 4, b32 ! 5, b32 ! 6, b32 ! 7,
     b32 ! 8, b32 ! 9, b32 ! 10, b32 ! 11, b32 ! 12, b32 ! 13, b32 ! 14, b32 ! 15, b32 ! 16, b32 ! 17,
     b32 ! 18, b32 ! 19, b32 ! 20, b32 ! 21, b32 ! 22, b32 ! 23, b32 ! 24, b32 ! 25, b32 ! 26,
     b32 ! 27, b32 ! 28, b32 ! 29, b32 ! 30, b32 ! 31]"

definition UInt256Reverse :: "UInt256 \<Rightarrow> UInt256" where
  "UInt256Reverse u = of_u8s [u8_at u 31, u8_at u 30, u8_at u 29, u8_at u 28, u8_at u 27, u8_at u 26,
     u8_at u 25, u8_at u 24, u8_at u 23, u8_at u 22, u8_at u 21, u8_at u 20, u8_at u 19, u8_at u 18,
     u8_at u 17, u8_at u 16, u8_at u 15, u8_at u 14, u8_at u 13, u8_at u 12, u8_at u 11, u8_at u 10,
     u8_at u 9, u8_at u 8, u8_at u 7, u8_at u 6, u8_at u 5, u8_at u 4, u8_at u 3, u8_at u 2,
     u8_at u 1, u8_at u 0]"

section \<open>Hexadecimal form\<close>

text \<open>The macros \<open>_hexc\<close>, \<open>_hexu\<close>, \<open>u256_hex_encode\<close> (the terminating NUL is not part of the string) and
  \<open>u256_hex_decode\<close>; a character is its byte.\<close>

definition hexc :: "u8 \<Rightarrow> u8" where
  "hexc u = (u AND 0x0f) + (if u AND 0x0f \<le> 9 then of_char CHR ''0'' else of_char CHR ''a'' - 0x0a)"

definition hexu :: "u8 \<Rightarrow> u8" where
  "hexu c = (if of_char CHR ''0'' \<le> c \<and> c \<le> of_char CHR ''9'' then c - of_char CHR ''0''
     else if of_char CHR ''a'' \<le> c \<and> c \<le> of_char CHR ''f'' then c - (of_char CHR ''a'' - 0x0a)
     else if of_char CHR ''A'' \<le> c \<and> c \<le> of_char CHR ''F'' then c - (of_char CHR ''A'' - 0x0a)
     else 0)"

definition u256_hex_encode :: "UInt256 \<Rightarrow> bytes" where
  "u256_hex_encode u = concat (map (\<lambda>i. [hexc (drop_bit 4 (u8_at u i)), hexc (u8_at u i)]) [0..<32])"

definition u256_hex_decode :: "bytes \<Rightarrow> UInt256" where
  "u256_hex_decode s =
     of_u8s (map (\<lambda>i. push_bit 4 (hexu (s ! (2 * i))) OR hexu (s ! (2 * i + 1))) [0..<32])"

section \<open>Unaligned loads and stores\<close>

definition UInt16SetBE :: "u16 \<Rightarrow> bytes" where
  "UInt16SetBE u = [ucast (drop_bit 8 u AND 0xff), ucast (u AND 0xff)]"

definition UInt16SetLE :: "u16 \<Rightarrow> bytes" where
  "UInt16SetLE u = [ucast (u AND 0xff), ucast (drop_bit 8 u AND 0xff)]"

definition UInt32SetBE :: "u32 \<Rightarrow> bytes" where
  "UInt32SetBE u = [ucast (drop_bit 24 u AND 0xff), ucast (drop_bit 16 u AND 0xff),
     ucast (drop_bit 8 u AND 0xff), ucast (u AND 0xff)]"

definition UInt32SetLE :: "u32 \<Rightarrow> bytes" where
  "UInt32SetLE u = [ucast (u AND 0xff), ucast (drop_bit 8 u AND 0xff),
     ucast (drop_bit 16 u AND 0xff), ucast (drop_bit 24 u AND 0xff)]"

definition UInt64SetBE :: "u64 \<Rightarrow> bytes" where
  "UInt64SetBE u = [ucast (drop_bit 56 u AND 0xff), ucast (drop_bit 48 u AND 0xff),
     ucast (drop_bit 40 u AND 0xff), ucast (drop_bit 32 u AND 0xff), ucast (drop_bit 24 u AND 0xff),
     ucast (drop_bit 16 u AND 0xff), ucast (drop_bit 8 u AND 0xff), ucast (u AND 0xff)]"

definition UInt64SetLE :: "u64 \<Rightarrow> bytes" where
  "UInt64SetLE u = [ucast (u AND 0xff), ucast (drop_bit 8 u AND 0xff),
     ucast (drop_bit 16 u AND 0xff), ucast (drop_bit 24 u AND 0xff), ucast (drop_bit 32 u AND 0xff),
     ucast (drop_bit 40 u AND 0xff), ucast (drop_bit 48 u AND 0xff), ucast (drop_bit 56 u AND 0xff)]"

definition UInt16GetBE :: "bytes \<Rightarrow> u16" where
  "UInt16GetBE b2 = push_bit 8 (ucast (b2 ! 0)) OR ucast (b2 ! 1)"

definition UInt16GetLE :: "bytes \<Rightarrow> u16" where
  "UInt16GetLE b2 = push_bit 8 (ucast (b2 ! 1)) OR ucast (b2 ! 0)"

definition UInt32GetBE :: "bytes \<Rightarrow> u32" where
  "UInt32GetBE b4 = push_bit 24 (ucast (b4 ! 0)) OR push_bit 16 (ucast (b4 ! 1)) OR
     push_bit 8 (ucast (b4 ! 2)) OR ucast (b4 ! 3)"

definition UInt32GetLE :: "bytes \<Rightarrow> u32" where
  "UInt32GetLE b4 = push_bit 24 (ucast (b4 ! 3)) OR push_bit 16 (ucast (b4 ! 2)) OR
     push_bit 8 (ucast (b4 ! 1)) OR ucast (b4 ! 0)"

definition UInt64GetBE :: "bytes \<Rightarrow> u64" where
  "UInt64GetBE b8 = push_bit 56 (ucast (b8 ! 0)) OR push_bit 48 (ucast (b8 ! 1)) OR
     push_bit 40 (ucast (b8 ! 2)) OR push_bit 32 (ucast (b8 ! 3)) OR push_bit 24 (ucast (b8 ! 4)) OR
     push_bit 16 (ucast (b8 ! 5)) OR push_bit 8 (ucast (b8 ! 6)) OR ucast (b8 ! 7)"

definition UInt64GetLE :: "bytes \<Rightarrow> u64" where
  "UInt64GetLE b8 = push_bit 56 (ucast (b8 ! 7)) OR push_bit 48 (ucast (b8 ! 6)) OR
     push_bit 40 (ucast (b8 ! 5)) OR push_bit 32 (ucast (b8 ! 4)) OR push_bit 24 (ucast (b8 ! 3)) OR
     push_bit 16 (ucast (b8 ! 2)) OR push_bit 8 (ucast (b8 ! 1)) OR ucast (b8 ! 0)"

lemma length_stores [simp, size_simps]:
  "length (UInt16SetLE a) = 2" "length (UInt32SetLE b) = 4" "length (UInt64SetLE c) = 8"
  "length (UInt16SetBE a) = 2" "length (UInt32SetBE b) = 4" "length (UInt64SetBE c) = 8"
  "length (UInt256Set h) = 32"
  by (simp_all add: UInt16SetLE_def UInt32SetLE_def UInt64SetLE_def UInt16SetBE_def UInt32SetBE_def
      UInt64SetBE_def UInt256Set_def)

section \<open>256-bit arithmetic\<close>

text \<open>\<open>bits\<close>: the inner loop looks for the highest set bit of one 32-bit digit, from bit 31 down to
  bit 1; the result is returned as a \<open>uint8_t\<close>.\<close>

fun bits_digit :: "u32 \<Rightarrow> nat \<Rightarrow> nat option" where
  "bits_digit x 0 = None"
| "bits_digit x (Suc b) = (if x AND push_bit (Suc b) 1 \<noteq> 0 then Some (Suc b) else bits_digit x b)"

fun bits_from :: "UInt256 \<Rightarrow> nat \<Rightarrow> u8" where
  "bits_from number 0 = 0"
| "bits_from number (Suc pos) =
     (if u32_at number pos \<noteq> 0 then
        (case bits_digit (u32_at number pos) 31 of
           Some b \<Rightarrow> word_of_nat (32 * pos + b + 1)
         | None \<Rightarrow> word_of_nat (32 * pos + 1))
      else bits_from number pos)"

definition bits :: "UInt256 \<Rightarrow> u8" where
  "bits number = bits_from number 8"

definition add_digit :: "UInt256 \<Rightarrow> UInt256 \<Rightarrow> nat \<Rightarrow> UInt256 \<times> u64 \<Rightarrow> UInt256 \<times> u64" where
  "add_digit a b i = (\<lambda>(r, carry).
     let sum = ucast (u32_at a i) + ucast (u32_at b i) + carry
     in (set_u32 r i (ucast sum), drop_bit 32 sum))"

definition add :: "UInt256 \<Rightarrow> UInt256 \<Rightarrow> UInt256" where
  "add a b = fst (fold (add_digit a b) [0..<8] (UINT256_ZERO, 0))"

definition addOne :: "UInt256 \<Rightarrow> UInt256" where
  "addOne a = add a (set_u64 UINT256_ZERO 0 1)"

definition neg :: "UInt256 \<Rightarrow> UInt256" where
  "neg a = fold (\<lambda>i r. set_u64 r i (NOT (u64_at a i))) [0..<4] UINT256_ZERO"

definition subtract :: "UInt256 \<Rightarrow> UInt256 \<Rightarrow> UInt256" where
  "subtract a b = add a (addOne (neg b))"

definition or_u64 :: "UInt256 \<Rightarrow> nat \<Rightarrow> u64 \<Rightarrow> UInt256" where
  "or_u64 r i v = set_u64 r i (u64_at r i OR v)"

definition shl_step :: "UInt256 \<Rightarrow> nat \<Rightarrow> nat \<Rightarrow> nat \<Rightarrow> UInt256 \<Rightarrow> UInt256" where
  "shl_step a k b i r =
     (let r = (if i + k + 1 < 4 \<and> b \<noteq> 0 then or_u64 r (i + k + 1) (drop_bit (64 - b) (u64_at a i)) else r)
      in if i + k < 4 then or_u64 r (i + k) (push_bit b (u64_at a i)) else r)"

definition shiftLeft :: "UInt256 \<Rightarrow> u8 \<Rightarrow> UInt256" where
  "shiftLeft a n =
     (let k = unat n div 64; b = unat n mod 64 in fold (shl_step a k b) [0..<4] UINT256_ZERO)"

definition shr_step :: "UInt256 \<Rightarrow> nat \<Rightarrow> nat \<Rightarrow> nat \<Rightarrow> UInt256 \<Rightarrow> UInt256" where
  "shr_step a k b i r =
     (let r = (if k + 1 \<le> i \<and> b \<noteq> 0 then or_u64 r (i - k - 1) (push_bit (64 - b) (u64_at a i)) else r)
      in if k \<le> i then or_u64 r (i - k) (drop_bit b (u64_at a i)) else r)"

definition shiftRight :: "UInt256 \<Rightarrow> u8 \<Rightarrow> UInt256" where
  "shiftRight a n =
     (let k = unat n div 64; b = unat n mod 64 in fold (shr_step a k b) [0..<4] UINT256_ZERO)"

text \<open>The loop of \<open>divide\<close> from the given \<open>shift\<close> down to 0; setting a bit of the quotient is
  \<open>r.u32[shift / 32] |= 1 << (shift & 31)\<close>.\<close>

fun divide_loop :: "nat \<Rightarrow> UInt256 \<Rightarrow> UInt256 \<Rightarrow> UInt256 \<Rightarrow> UInt256" where
  "divide_loop shift num dv r =
     (let (num, r) = (if UInt256SupEq num dv
          then (subtract num dv,
                set_u32 r (shift div 32) (u32_at r (shift div 32) OR push_bit (shift mod 32) 1))
          else (num, r));
          dv = shiftRight dv 1
      in case shift of 0 \<Rightarrow> r | Suc s \<Rightarrow> divide_loop s num dv r)"

text \<open>\<open>None\<close>: the assertion \<open>div_bits != 0\<close> fails.\<close>

definition divide_u256 :: "UInt256 \<Rightarrow> UInt256 \<Rightarrow> UInt256 option" where
  "divide_u256 a b =
     (let num_bits = unat (bits a); div_bits = unat (bits b) in
      if div_bits = 0 then None
      else if div_bits > num_bits then Some UINT256_ZERO
      else let shift = num_bits - div_bits
           in Some (divide_loop shift a (shiftLeft b (word_of_nat shift)) UINT256_ZERO))"

definition mult_digit :: "u32 \<Rightarrow> nat \<Rightarrow> UInt256 \<times> u64 \<Rightarrow> UInt256 \<times> u64" where
  "mult_digit b i = (\<lambda>(a, carry).
     let n = carry + ucast b * ucast (u32_at a i)
     in (set_u32 a i (ucast (n AND 0xffffffff)), drop_bit 32 n))"

definition multiplyThis32 :: "UInt256 \<Rightarrow> u32 \<Rightarrow> UInt256" where
  "multiplyThis32 a b = fst (fold (mult_digit b) [0..<8] (a, 0))"

text \<open>\<open>setCompact\<close> takes the compact target as an \<open>int32_t\<close>; \<open>nCompact >> 24\<close> is an arithmetic
  shift, and the shift distance is converted to \<open>uint8_t\<close> at the call.\<close>

definition setCompact :: "u32 \<Rightarrow> UInt256" where
  "setCompact nCompact =
     (let nSize = sint (signed_drop_bit 24 nCompact);
          nWord = set_u32 UINT256_ZERO 0 (nCompact AND 0x007fffff)
      in if nSize \<le> 3 then shiftRight nWord (word_of_int (8 * (3 - nSize)))
         else shiftLeft nWord (word_of_int (8 * (nSize - 3))))"

text \<open>\<open>None\<close>: one of the two assertions fails.\<close>

definition getCompact :: "UInt256 \<Rightarrow> u32 option" where
  "getCompact number =
     (let nSize = (unat (bits number) + 7) div 8;
          nCompact = (if nSize \<le> 3 then push_bit (8 * (3 - nSize)) (u32_at number 0)
                      else u32_at (shiftRight number (word_of_nat (8 * (nSize - 3)))) 0);
          (nCompact, nSize) = (if nCompact AND 0x00800000 \<noteq> 0 then (drop_bit 8 nCompact, nSize + 1)
                               else (nCompact, nSize))
      in if nCompact AND NOT 0x007fffff \<noteq> 0 \<or> nSize \<ge> 256 then None
         else Some (nCompact OR push_bit 24 (word_of_nat nSize)))"

section \<open>Notions of the proofs\<close>

text \<open>The number formed by the \<open>i\<close> low 32-bit digits.\<close>

definition lo32 :: "UInt256 \<Rightarrow> nat \<Rightarrow> nat" where
  "lo32 a i = unat a mod 2 ^ (32 * i)"

text \<open>\<open>k\<close> is the position of the highest set bit.\<close>

definition top_bit :: "'a::len word \<Rightarrow> nat \<Rightarrow> bool" where
  "top_bit x k \<longleftrightarrow> bit x k \<and> (\<forall>j > k. \<not> bit x j)"

section \<open>Loads read back stores\<close>

lemma bit_byte:
  fixes u :: "'a::len word"
  shows "bit (push_bit k (ucast (ucast (drop_bit k u) :: u8)) :: 'a word) n \<longleftrightarrow>
     k \<le> n \<and> n < k + 8 \<and> bit u n"
  by (auto simp: bit_simps dest: bit_imp_le_length)

lemma bit_byte_0:
  fixes u :: "'a::len word"
  shows "bit (ucast (ucast u :: u8) :: 'a word) n \<longleftrightarrow> n < 8 \<and> bit u n"
  by (auto simp: bit_simps dest: bit_imp_le_length)

lemmas bit_bytes = bit_or_iff bit_byte bit_byte_0

lemma UInt16GetLE_SetLE [endian_simps]: "UInt16GetLE (UInt16SetLE u @ rest) = u"
  by (rule bit_word_eqI, simp add: UInt16GetLE_def UInt16SetLE_def bit_bytes, arith)

lemma UInt32GetLE_SetLE [endian_simps]: "UInt32GetLE (UInt32SetLE u @ rest) = u"
  by (rule bit_word_eqI, simp add: UInt32GetLE_def UInt32SetLE_def bit_bytes, arith)

lemma UInt64GetLE_SetLE [endian_simps]: "UInt64GetLE (UInt64SetLE u @ rest) = u"
  by (rule bit_word_eqI, simp add: UInt64GetLE_def UInt64SetLE_def bit_bytes, arith)

lemma UInt16GetBE_SetBE [endian_simps]: "UInt16GetBE (UInt16SetBE u @ rest) = u"
  by (rule bit_word_eqI, simp add: UInt16GetBE_def UInt16SetBE_def bit_bytes, arith)

lemma UInt32GetBE_SetBE [endian_simps]: "UInt32GetBE (UInt32SetBE u @ rest) = u"
  by (rule bit_word_eqI, simp add: UInt32GetBE_def UInt32SetBE_def bit_bytes, arith)

lemma UInt64GetBE_SetBE [endian_simps]: "UInt64GetBE (UInt64SetBE u @ rest) = u"
  by (rule bit_word_eqI, simp add: UInt64GetBE_def UInt64SetBE_def bit_bytes, arith)

section \<open>Digits of the views\<close>

lemma bit_u8_at: "bit (u8_at a i) n \<longleftrightarrow> n < 8 \<and> bit a (8 * i + n)"
  by (auto simp: u8_at_def bit_simps dest: bit_imp_le_length)

lemma bit_u32_at: "bit (u32_at a i) n \<longleftrightarrow> n < 32 \<and> bit a (32 * i + n)"
  by (auto simp: u32_at_def bit_simps dest: bit_imp_le_length)

lemma bit_u64_at: "bit (u64_at a i) n \<longleftrightarrow> n < 64 \<and> bit a (64 * i + n)"
  by (auto simp: u64_at_def bit_simps dest: bit_imp_le_length)

lemma bit_set_limb:
  fixes a :: "'a::len word"
  shows "bit ((a AND NOT (push_bit k (mask w))) OR push_bit k v) n \<longleftrightarrow>
     (if k \<le> n \<and> n < k + w \<and> n < LENGTH('a) then bit v (n - k) \<or> (bit v (n - k))
      else bit a n \<or> (k \<le> n \<and> n < LENGTH('a) \<and> bit v (n - k)))"
  by (auto simp: bit_simps dest: bit_imp_le_length)

lemma bit_set_u32: "bit (set_u32 a i v) n \<longleftrightarrow>
   (if 32 * i \<le> n \<and> n < 32 * i + 32 then n < 256 \<and> bit v (n - 32 * i) else bit a n)"
  by (auto simp: set_u32_def bit_set_limb bit_simps dest: bit_imp_le_length)

lemma bit_set_u64: "bit (set_u64 a i v) n \<longleftrightarrow>
   (if 64 * i \<le> n \<and> n < 64 * i + 64 then n < 256 \<and> bit v (n - 64 * i) else bit a n)"
  by (auto simp: set_u64_def bit_set_limb bit_simps dest: bit_imp_le_length)

lemma u32_at_set_u32 [simp]:
  assumes "i < 8" "j < 8"
  shows "u32_at (set_u32 a i v) j = (if i = j then v else u32_at a j)"
proof (rule bit_word_eqI)
  fix n assume n: "n < LENGTH(32)"
  have "32 * i \<le> 32 * j + n \<and> 32 * j + n < 32 * i + 32 \<longleftrightarrow> i = j" using n by auto
  then show "bit (u32_at (set_u32 a i v) j) n = bit (if i = j then v else u32_at a j) n"
    using n assms by (auto simp: bit_u32_at bit_set_u32)
qed

lemma u64_at_set_u64 [simp]:
  assumes "i < 4" "j < 4"
  shows "u64_at (set_u64 a i v) j = (if i = j then v else u64_at a j)"
proof (rule bit_word_eqI)
  fix n assume n: "n < LENGTH(64)"
  have "64 * i \<le> 64 * j + n \<and> 64 * j + n < 64 * i + 64 \<longleftrightarrow> i = j" using n by auto
  then show "bit (u64_at (set_u64 a i v) j) n = bit (if i = j then v else u64_at a j) n"
    using n assms by (auto simp: bit_u64_at bit_set_u64)
qed

lemma u64_at_0 [simp]: "u64_at 0 i = 0" and u32_at_0 [simp]: "u32_at 0 i = 0"
  by (simp_all add: u64_at_def u32_at_def)

lemma u256_eqI_64:
  assumes "\<And>j. j < 4 \<Longrightarrow> u64_at a j = u64_at b j"
  shows "a = b"
proof (rule bit_word_eqI)
  fix n assume "n < LENGTH(256)"
  then have j: "n div 64 < 4" and n: "n = 64 * (n div 64) + n mod 64" and m: "n mod 64 < 64" by auto
  have "bit (u64_at a (n div 64)) (n mod 64) = bit (u64_at b (n div 64)) (n mod 64)"
    using assms [OF j] by simp
  with n m show "bit a n = bit b n" by (simp add: bit_u64_at)
qed

lemma unat_u32_at: "unat (u32_at a i) = unat a div 2 ^ (32 * i) mod 2 ^ 32"
  by (simp add: u32_at_def unsigned_ucast_eq unat_drop_bit take_bit_eq_mod)

lemma lo32_0 [simp]: "lo32 a 0 = 0" by (simp add: lo32_def)

lemma lo32_Suc: "lo32 a (Suc i) = lo32 a i + 2 ^ (32 * i) * unat (u32_at a i)"
proof -
  have "lo32 a (Suc i) = unat a mod (2 ^ (32 * i) * 2 ^ 32)"
    by (simp add: lo32_def power_add mult.commute)
  also have "\<dots> = 2 ^ (32 * i) * (unat a div 2 ^ (32 * i) mod 2 ^ 32) + unat a mod 2 ^ (32 * i)"
    by (rule mod_mult2_eq)
  finally show ?thesis by (simp add: lo32_def unat_u32_at)
qed

lemma lo32_8: "lo32 a 8 = unat a"
  using unat_less_pow [of a] by (simp add: lo32_def)

lemma lo32_cong: "(\<And>j. j < i \<Longrightarrow> u32_at a j = u32_at b j) \<Longrightarrow> lo32 a i = lo32 b i"
  by (induction i) (simp_all add: lo32_Suc)

lemma lo32_set_u32 [simp]: "i < 8 \<Longrightarrow> lo32 (set_u32 a i v) i = lo32 a i"
  by (rule lo32_cong) simp

lemma lo32_set_u32_Suc: "i < 8 \<Longrightarrow> lo32 (set_u32 a i v) (Suc i) = lo32 a i + 2 ^ (32 * i) * unat v"
  by (simp add: lo32_Suc)

lemma unat_ucast_32_64 [simp]: "unat (ucast (x :: u32) :: u64) = unat x"
  by (simp add: unsigned_ucast_eq take_bit_nat_eq_self unsigned_less
     order.strict_trans [OF unat_less_pow])

lemma unat_ucast_32_256 [simp]: "unat (ucast (x :: u32) :: UInt256) = unat x"
  by (simp add: unsigned_ucast_eq take_bit_nat_eq_self unsigned_less
     order.strict_trans [OF unat_less_pow])

lemma and_mask_32: "ucast ((n :: u64) AND 0xffffffff) = (ucast n :: u32)"
proof -
  have eq: "(0xffffffff :: u64) = mask 32" by (simp add: mask_eq_exp_minus_1)
  have "bit (mask 32 :: u64) k" if "k < 32" for k
    using that unfolding bit_mask_iff by simp
  then show ?thesis unfolding eq [symmetric] by (intro bit_word_eqI) (simp add: bit_simps)
qed

section \<open>Addition and multiplication\<close>

lemma digit_split: "unat (n :: u64) = unat (ucast n :: u32) + 2 ^ 32 * unat (drop_bit 32 n)"
  by (simp add: unsigned_ucast_eq take_bit_eq_mod unat_drop_bit)

lemma add_digit_app: "add_digit a b i (r, c) =
   (set_u32 r i (ucast (ucast (u32_at a i) + ucast (u32_at b i) + c :: u64)),
    drop_bit 32 (ucast (u32_at a i) + ucast (u32_at b i) + c))"
  by (simp add: add_digit_def Let_def)

lemma mult_digit_app: "mult_digit b i (a, c) =
   (set_u32 a i (ucast (c + ucast b * ucast (u32_at a i) :: u64)),
    drop_bit 32 (c + ucast b * ucast (u32_at a i)))"
  by (simp add: mult_digit_def Let_def and_mask_32)

lemma add_digit_inv:
  assumes "i \<le> 8"
  shows "lo32 (fst (fold (add_digit a b) [0..<i] (0, 0))) i
       + 2 ^ (32 * i) * unat (snd (fold (add_digit a b) [0..<i] (0, 0))) = lo32 a i + lo32 b i
     \<and> unat (snd (fold (add_digit a b) [0..<i] (0, 0))) \<le> 1"
  using assms
proof (induction i)
  case 0
  show ?case by simp
next
  case (Suc i)
  obtain r c where rc: "fold (add_digit a b) [0..<i] (0, 0) = (r, c)" by fastforce
  let ?s = "ucast (u32_at a i) + ucast (u32_at b i) + c :: u64"
  from Suc rc have IH: "lo32 r i + 2 ^ (32 * i) * unat c = lo32 a i + lo32 b i" and c: "unat c \<le> 1"
    by auto
  have bnd: "unat (u32_at a i) < 2 ^ 32" "unat (u32_at b i) < 2 ^ 32"
    using unat_less_pow [of "u32_at a i"] unat_less_pow [of "u32_at b i"] by auto
  then have s1: "unat (ucast (u32_at a i) + ucast (u32_at b i) :: u64) = unat (u32_at a i) + unat (u32_at b i)"
    by (subst unat_add_less) auto
  have s: "unat ?s = unat (u32_at a i) + unat (u32_at b i) + unat c"
    using bnd c by (subst unat_add_less) (auto simp: s1)
  have hi: "unat (drop_bit 32 ?s) \<le> 1"
    using bnd c s by (simp add: unat_drop_bit)
  have "lo32 (set_u32 r i (ucast ?s)) (Suc i) + 2 ^ (32 * Suc i) * unat (drop_bit 32 ?s)
      = lo32 r i + 2 ^ (32 * i) * unat ?s"
    using Suc.prems by (subst digit_split [of ?s]) (simp add: lo32_set_u32_Suc power_add algebra_simps)
  also have "\<dots> = lo32 a (Suc i) + lo32 b (Suc i)"
    unfolding s using IH by (simp add: lo32_Suc algebra_simps)
  finally show ?case using hi by (simp add: rc add_digit_app)
qed

lemma add_eq: "add a b = a + b"
proof -
  have "unat (add a b) + 2 ^ 256 * unat (snd (fold (add_digit a b) [0..<8] (0, 0))) = unat a + unat b"
    using add_digit_inv [of 8 a b] by (simp add: add_def UINT256_ZERO_def lo32_8)
  then have "(unat a + unat b) mod 2 ^ 256 = unat (add a b) mod 2 ^ 256"
    by (metis mod_mult_self2)
  also have "\<dots> = unat (add a b)" using unat_less_pow [of "add a b"] by simp
  finally show ?thesis by (simp add: word_unat_eq_iff unat_word_ariths)
qed

lemma mult_digit_inv:
  assumes "i \<le> 8"
  shows "lo32 (fst (fold (mult_digit b) [0..<i] (a, 0))) i
       + 2 ^ (32 * i) * unat (snd (fold (mult_digit b) [0..<i] (a, 0))) = unat b * lo32 a i
     \<and> unat (snd (fold (mult_digit b) [0..<i] (a, 0))) < 2 ^ 32
     \<and> (\<forall>j. i \<le> j \<and> j < 8 \<longrightarrow> u32_at (fst (fold (mult_digit b) [0..<i] (a, 0))) j = u32_at a j)"
  using assms
proof (induction i)
  case 0
  show ?case by simp
next
  case (Suc i)
  obtain r c where rc: "fold (mult_digit b) [0..<i] (a, 0) = (r, c)" by fastforce
  from Suc rc have IH: "lo32 r i + 2 ^ (32 * i) * unat c = unat b * lo32 a i" and c: "unat c < 2 ^ 32"
    and rest: "\<And>j. i \<le> j \<Longrightarrow> j < 8 \<Longrightarrow> u32_at r j = u32_at a j" by auto
  let ?n = "c + ucast b * ucast (u32_at a i) :: u64"
  have ra: "u32_at r i = u32_at a i" using rest Suc.prems by simp
  have "unat b * unat (u32_at a i) \<le> (2 ^ 32 - 1) * (2 ^ 32 - 1)"
    using unat_less_pow [of b] unat_less_pow [of "u32_at a i"] by (intro mult_le_mono) auto
  then have m: "unat (ucast b * ucast (u32_at a i) :: u64) = unat b * unat (u32_at a i)"
    and bnd: "unat c + unat b * unat (u32_at a i) < 2 ^ 64"
    using c by (auto simp: unat_mult_less)
  have n: "unat ?n = unat c + unat b * unat (u32_at a i)"
    using bnd by (subst unat_add_less) (auto simp: m)
  have hi: "unat (drop_bit 32 ?n) < 2 ^ 32"
    using unat_less_pow [of ?n] by (simp add: unat_drop_bit less_mult_imp_div_less)
  have "lo32 (set_u32 r i (ucast ?n)) (Suc i) + 2 ^ (32 * Suc i) * unat (drop_bit 32 ?n)
      = lo32 r i + 2 ^ (32 * i) * unat ?n"
    using Suc.prems by (subst digit_split [of ?n]) (simp add: lo32_set_u32_Suc power_add algebra_simps)
  also have "\<dots> = unat b * lo32 a (Suc i)"
    unfolding n using IH by (simp add: lo32_Suc algebra_simps)
  finally show ?case using hi rest Suc.prems ra
    by (simp add: rc mult_digit_app)
qed

lemma multiplyThis32_eq: "multiplyThis32 a b = a * ucast b"
proof -
  let ?f = "fold (mult_digit b) [0..<8] (a, 0)"
  have "unat (multiplyThis32 a b) + 2 ^ 256 * unat (snd ?f) = unat b * unat a"
    using mult_digit_inv [of 8 b a] by (simp add: multiplyThis32_def lo32_8)
  then have "(unat b * unat a) mod 2 ^ 256 = unat (multiplyThis32 a b) mod 2 ^ 256"
    by (metis mod_mult_self2)
  also have "\<dots> = unat (multiplyThis32 a b)" using unat_less_pow [of "multiplyThis32 a b"] by simp
  finally show ?thesis
    by (simp add: word_unat_eq_iff unat_word_ariths mult.commute unat_ucast_32_256)
qed

section \<open>Negation, subtraction and comparison\<close>

lemma neg_eq: "neg a = NOT a"
proof (rule u256_eqI_64)
  fix j :: nat assume j: "j < 4"
  have "u64_at (neg a) j = NOT (u64_at a j)"
    using j by (auto simp: neg_def upt_rec UINT256_ZERO_def less_Suc_eq numeral_eq_Suc)
  also have "\<dots> = u64_at (NOT a) j"
    using j by (intro bit_word_eqI) (auto simp: bit_u64_at bit_not_iff)
  finally show "u64_at (neg a) j = u64_at (NOT a) j" .
qed

lemma set_u64_0_1: "set_u64 0 0 1 = 1"
  by (simp add: set_u64_def)

lemma subtract_eq: "subtract a b = a - b"
  by (simp add: subtract_def addOne_def add_eq neg_eq UINT256_ZERO_def set_u64_0_1 not_eq_complement)

lemma UInt256Eq_iff: "UInt256Eq a b \<longleftrightarrow> a = b"
  by (auto simp: UInt256Eq_def less_Suc_eq numeral_eq_Suc intro!: u256_eqI_64)

lemma UInt256IsZero_iff: "UInt256IsZero a \<longleftrightarrow> a = 0"
proof
  assume "UInt256IsZero a"
  then have "u64_at a j = 0" if "j < 4" for j
    using that by (auto simp: UInt256IsZero_def or_eq_0_iff less_Suc_eq numeral_eq_Suc)
  then show "a = 0" by (intro u256_eqI_64) simp
qed (simp add: UInt256IsZero_def)

lemma unat_u64_at: "unat (u64_at a i) = unat a div 2 ^ (64 * i) mod 2 ^ 64"
  by (simp add: u64_at_def unsigned_ucast_eq unat_drop_bit take_bit_eq_mod)

lemma unat_u64_sum: "unat a = unat (u64_at a 0) + 2 ^ 64 * unat (u64_at a 1)
   + 2 ^ 128 * unat (u64_at a 2) + 2 ^ 192 * unat (u64_at a 3)"
proof -
  have step: "unat a mod 2 ^ (64 * Suc i) = unat a mod 2 ^ (64 * i) + 2 ^ (64 * i) * unat (u64_at a i)" for i
  proof -
    have "unat a mod 2 ^ (64 * Suc i) = unat a mod (2 ^ (64 * i) * 2 ^ 64)"
      by (simp add: power_add mult.commute)
    then show ?thesis by (simp only: mod_mult2_eq unat_u64_at)
  qed
  have "unat a = unat a mod 2 ^ (64 * Suc (Suc (Suc (Suc 0))))" using unat_less_pow [of a] by simp
  then show ?thesis unfolding step by (simp add: numeral_2_eq_2 numeral_3_eq_3)
qed

lemma UInt256SupEq_iff: "UInt256SupEq a b \<longleftrightarrow> b \<le> a"
proof -
  have "unat (u64_at x i) < 2 ^ 64" for x i using unat_less_pow [of "u64_at x i"] by simp
  note bnds = this [of a 0] this [of a 1] this [of a 2] this [of a 3]
    this [of b 0] this [of b 1] this [of b 2] this [of b 3]
  show ?thesis using bnds
    unfolding UInt256SupEq_def word_le_nat_alt word_less_nat_alt word_unat_eq_iff
      unat_u64_sum [of a] unat_u64_sum [of b] by auto
qed

section \<open>Shifts\<close>

lemma u64_at_push_bit:
  assumes "b < 64" "j < 4"
  shows "u64_at (push_bit (64 * k + b) a) j =
    (if k + 1 \<le> j \<and> b \<noteq> 0 then drop_bit (64 - b) (u64_at a (j - k - 1)) else 0) OR
    (if k \<le> j then push_bit b (u64_at a (j - k)) else 0)"
proof (rule bit_word_eqI)
  fix n assume n: "n < LENGTH(64)"
  have 1: "bit (if k \<le> j then push_bit b (u64_at a (j - k)) else 0) n \<longleftrightarrow>
      k \<le> j \<and> b \<le> n \<and> bit a (64 * (j - k) + (n - b))"
    using n assms by (auto simp: bit_simps bit_u64_at)
  have 2: "bit (if k + 1 \<le> j \<and> b \<noteq> 0 then drop_bit (64 - b) (u64_at a (j - k - 1)) else 0) n \<longleftrightarrow>
      k + 1 \<le> j \<and> n < b \<and> bit a (64 * (j - k - 1) + (64 - b + n))"
    using n assms by (auto simp: bit_simps bit_u64_at)
  have 3: "bit (u64_at (push_bit (64 * k + b) a) j) n \<longleftrightarrow>
      64 * k + b \<le> 64 * j + n \<and> bit a (64 * j + n - (64 * k + b))"
    using n assms by (auto simp: bit_simps bit_u64_at)
  have 4: "64 * (j - k) + (n - b) = 64 * j + n - (64 * k + b)" if "k \<le> j" "b \<le> n"
    using that by simp
  have 5: "64 * (j - k - 1) + (64 - b + n) = 64 * j + n - (64 * k + b)" if "k + 1 \<le> j" "n < b"
    using that assms n by simp
  have 6: "64 * k + b \<le> 64 * j + n \<longleftrightarrow> (k \<le> j \<and> b \<le> n) \<or> (k + 1 \<le> j \<and> n < b)"
    using n assms by auto
  show "bit (u64_at (push_bit (64 * k + b) a) j) n =
    bit ((if k + 1 \<le> j \<and> b \<noteq> 0 then drop_bit (64 - b) (u64_at a (j - k - 1)) else 0) OR
         (if k \<le> j then push_bit b (u64_at a (j - k)) else 0)) n"
    unfolding bit_or_iff 1 2 3 6 using 4 5 by metis
qed

lemma u64_at_drop_bit:
  assumes "b < 64" "j < 4"
  shows "u64_at (drop_bit (64 * k + b) a) j =
    (if j + k < 4 then drop_bit b (u64_at a (j + k)) else 0) OR
    (if j + k + 1 < 4 \<and> b \<noteq> 0 then push_bit (64 - b) (u64_at a (j + k + 1)) else 0)"
proof (rule bit_word_eqI)
  fix n assume n: "n < LENGTH(64)"
  have 1: "bit (if j + k < 4 then drop_bit b (u64_at a (j + k)) else 0) n \<longleftrightarrow>
      j + k < 4 \<and> b + n < 64 \<and> bit a (64 * (j + k) + (b + n))"
    using n assms by (auto simp: bit_simps bit_u64_at)
  have 2: "bit (if j + k + 1 < 4 \<and> b \<noteq> 0 then push_bit (64 - b) (u64_at a (j + k + 1)) else 0) n \<longleftrightarrow>
      j + k + 1 < 4 \<and> 64 \<le> b + n \<and> bit a (64 * (j + k + 1) + (n - (64 - b)))"
    using n assms by (auto simp: bit_simps bit_u64_at)
  have 3: "bit (u64_at (drop_bit (64 * k + b) a) j) n \<longleftrightarrow> bit a (64 * j + n + (64 * k + b))"
    using n assms by (auto simp: bit_simps bit_u64_at ac_simps)
  have 4: "64 * (j + k) + (b + n) = 64 * j + n + (64 * k + b)" by simp
  have 5: "64 * (j + k + 1) + (n - (64 - b)) = 64 * j + n + (64 * k + b)" if "64 \<le> b + n"
    using that assms n by simp
  have 6: "bit a m \<Longrightarrow> m < 256" for m by (auto dest: bit_imp_le_length)
  have 7: "64 * j + n + (64 * k + b) < 256 \<Longrightarrow> (j + k < 4 \<and> b + n < 64) \<or> (j + k + 1 < 4 \<and> 64 \<le> b + n)"
    using n assms by auto
  show "bit (u64_at (drop_bit (64 * k + b) a) j) n =
    bit ((if j + k < 4 then drop_bit b (u64_at a (j + k)) else 0) OR
         (if j + k + 1 < 4 \<and> b \<noteq> 0 then push_bit (64 - b) (u64_at a (j + k + 1)) else 0)) n"
    unfolding bit_or_iff 1 2 3 using 4 5 6 7 by metis
qed

lemma u64_at_or_u64 [simp]:
  "i < 4 \<Longrightarrow> j < 4 \<Longrightarrow> u64_at (or_u64 a i v) j = (if i = j then u64_at a j OR v else u64_at a j)"
  by (simp add: or_u64_def)

lemma upt_0_4: "[0..<4] = [0, 1, 2, 3 :: nat]"
  by (simp add: upt_rec)

lemma less_4_cases: "(j :: nat) < 4 \<Longrightarrow> j = 0 \<or> j = 1 \<or> j = 2 \<or> j = 3" by auto

lemma shl_digits:
  assumes "k < 4" "j < 4" "b < 64"
  shows "u64_at (fold (shl_step a k b) [0, 1, 2, 3] 0) j = u64_at (push_bit (64 * k + b) a) j"
  unfolding u64_at_push_bit [OF assms(3,2)]
proof (cases "b = 0")
  case True
  then show "u64_at (fold (shl_step a k b) [0, 1, 2, 3] 0) j = (if k + 1 \<le> j \<and> b \<noteq> 0 then drop_bit (64 - b) (u64_at a (j - k - 1)) else 0) OR
    (if k \<le> j then push_bit b (u64_at a (j - k)) else 0)"
    using less_4_cases [OF assms(1)] less_4_cases [OF assms(2)] by (elim disjE; simp add: shl_step_def)
next
  case False
  then show "u64_at (fold (shl_step a k b) [0, 1, 2, 3] 0) j = (if k + 1 \<le> j \<and> b \<noteq> 0 then drop_bit (64 - b) (u64_at a (j - k - 1)) else 0) OR
    (if k \<le> j then push_bit b (u64_at a (j - k)) else 0)"
    using less_4_cases [OF assms(1)] less_4_cases [OF assms(2)] by (elim disjE; simp add: shl_step_def)
qed

lemma shr_digits:
  assumes "k < 4" "j < 4" "b < 64"
  shows "u64_at (fold (shr_step a k b) [0, 1, 2, 3] 0) j = u64_at (drop_bit (64 * k + b) a) j"
  unfolding u64_at_drop_bit [OF assms(3,2)]
proof (cases "b = 0")
  case True
  then show "u64_at (fold (shr_step a k b) [0, 1, 2, 3] 0) j = (if j + k < 4 then drop_bit b (u64_at a (j + k)) else 0) OR
    (if j + k + 1 < 4 \<and> b \<noteq> 0 then push_bit (64 - b) (u64_at a (j + k + 1)) else 0)"
    using less_4_cases [OF assms(1)] less_4_cases [OF assms(2)] by (elim disjE; simp add: shr_step_def numeral_2_eq_2 numeral_3_eq_3)
next
  case False
  then show "u64_at (fold (shr_step a k b) [0, 1, 2, 3] 0) j = (if j + k < 4 then drop_bit b (u64_at a (j + k)) else 0) OR
    (if j + k + 1 < 4 \<and> b \<noteq> 0 then push_bit (64 - b) (u64_at a (j + k + 1)) else 0)"
    using less_4_cases [OF assms(1)] less_4_cases [OF assms(2)] by (elim disjE; simp add: shr_step_def numeral_2_eq_2 numeral_3_eq_3)
qed

lemma u8_div_64: "unat (n :: u8) div 64 < 4"
  using unat_less_pow [of n] by (simp add: less_mult_imp_div_less)

lemma shiftLeft_eq: "shiftLeft a n = push_bit (unat n) a"
proof (rule u256_eqI_64)
  fix j :: nat assume "j < 4"
  then show "u64_at (shiftLeft a n) j = u64_at (push_bit (unat n) a) j"
    using shl_digits [OF u8_div_64, of j "unat n mod 64" a n]
    by (simp add: shiftLeft_def Let_def upt_0_4 UINT256_ZERO_def del: fold_simps)
qed

lemma shiftRight_eq: "shiftRight a n = drop_bit (unat n) a"
proof (rule u256_eqI_64)
  fix j :: nat assume "j < 4"
  then show "u64_at (shiftRight a n) j = u64_at (drop_bit (unat n) a) j"
    using shr_digits [OF u8_div_64, of j "unat n mod 64" a n]
    by (simp add: shiftRight_def Let_def upt_0_4 UINT256_ZERO_def del: fold_simps)
qed

section \<open>Bit length and division\<close>

lemma and_push_bit_1: "(x :: 'a::len word) AND push_bit n 1 = 0 \<longleftrightarrow> \<not> bit x n"
proof -
  have "bit (x AND push_bit n 1) m \<longleftrightarrow> m = n \<and> bit x n" for m
    by (auto simp: bit_simps dest: bit_imp_le_length)
  then show ?thesis by (metis bit_0_eq bot_apply bot_bool_def bit_eqI)
qed

lemma bits_digit_Suc: "bits_digit x (Suc b) = (if bit x (Suc b) then Some (Suc b) else bits_digit x b)"
  unfolding bits_digit.simps and_push_bit_1 by simp

declare bits_digit.simps(2) [simp del]

lemma bits_digit_Some:
  "bits_digit x m = Some b \<Longrightarrow> 0 < b \<and> b \<le> m \<and> bit x b \<and> (\<forall>j. b < j \<and> j \<le> m \<longrightarrow> \<not> bit x j)"
  by (induction m) (auto simp: bits_digit_Suc le_Suc_eq split: if_splits)

lemma bits_digit_None: "bits_digit x m = None \<Longrightarrow> 0 < j \<Longrightarrow> j \<le> m \<Longrightarrow> \<not> bit x j"
  by (induction m) (auto simp: bits_digit_Suc le_Suc_eq split: if_splits)

lemma bits_digit_top:
  assumes "(x :: u32) \<noteq> 0"
  shows "top_bit x (case bits_digit x 31 of Some b \<Rightarrow> b | None \<Rightarrow> 0)"
proof (cases "bits_digit x 31")
  case None
  then have "\<not> bit x j" if "0 < j" for j
    using that bits_digit_None [of x 31 j] by (cases "j \<le> 31") (auto dest: bit_imp_le_length)
  moreover have "bit x 0"
  proof (rule ccontr)
    assume "\<not> bit x 0"
    with calculation have "x = 0" by (intro bit_word_eqI) (metis bit_0_eq bot_apply bot_bool_def not_gr_zero)
    with assms show False by simp
  qed
  ultimately show ?thesis using None by (simp add: top_bit_def)
next
  case (Some b)
  then have b: "bit x b" "\<And>j. b < j \<Longrightarrow> j \<le> 31 \<Longrightarrow> \<not> bit x j"
    using bits_digit_Some [of x 31 b] by auto
  have "\<not> bit x j" if "b < j" for j
    using b(2) [OF that] by (cases "j \<le> 31") (auto dest: bit_imp_le_length)
  with b Some show ?thesis by (simp add: top_bit_def)
qed

lemma bits_from_spec:
  assumes "\<And>j. 32 * n \<le> j \<Longrightarrow> \<not> bit a j"
  shows "(a = 0 \<and> bits_from a n = 0) \<or> (\<exists>k. top_bit a k \<and> bits_from a n = word_of_nat (Suc k))"
  using assms
proof (induction n)
  case 0
  then have "a = 0" by (intro bit_word_eqI) simp
  then show ?case by simp
next
  case (Suc n)
  show ?case
  proof (cases "u32_at a n = 0")
    case True
    then have "\<not> bit a j" if "32 * n \<le> j" for j
      using Suc.prems [of j] that bit_u32_at [of a n "j - 32 * n"] by (cases "j < 32 * Suc n") auto
    with Suc.IH True show ?thesis by simp
  next
    case False
    define b where "b = (case bits_digit (u32_at a n) 31 of Some b \<Rightarrow> b | None \<Rightarrow> 0)"
    have top: "top_bit (u32_at a n) b" unfolding b_def using False by (rule bits_digit_top)
    have eq: "bits_from a (Suc n) = word_of_nat (Suc (32 * n + b))"
      using False by (simp add: b_def split: option.split)
    have "\<not> bit a j" if "32 * n + b < j" for j
    proof (cases "j < 32 * Suc n")
      case True
      with that top have "\<not> bit (u32_at a n) (j - 32 * n)" by (auto simp: top_bit_def)
      with True that show ?thesis by (auto simp: bit_u32_at)
    next
      case False
      then show ?thesis using Suc.prems by auto
    qed
    with top have "top_bit a (32 * n + b)" by (auto simp: top_bit_def bit_u32_at)
    with eq show ?thesis by blast
  qed
qed

lemma top_bit_bounds:
  assumes "top_bit (a :: 'a::len word) k"
  shows "2 ^ k \<le> unat a" "unat a < 2 ^ Suc k"
proof -
  from assms have "bit (unat a) k" by (simp add: top_bit_def bit_unsigned_iff)
  then have "odd (unat a div 2 ^ k)" by (simp add: bit_iff_odd)
  then show "2 ^ k \<le> unat a" by (metis div_less even_zero not_less)
  from assms have "drop_bit (Suc k) a = 0" by (intro bit_word_eqI) (auto simp: top_bit_def bit_simps)
  then have "unat a div 2 ^ Suc k = 0" by (metis unat_drop_bit unsigned_0)
  then show "unat a < 2 ^ Suc k" by (simp add: div_eq_0_iff)
qed

lemma bits_cases: "(a = 0 \<and> bits a = 0) \<or> (\<exists>k. top_bit a k \<and> bits a = word_of_nat (Suc k))"
  unfolding bits_def by (rule bits_from_spec) (auto dest: bit_imp_le_length)

lemma bits_spec:
  assumes "a \<noteq> 0" and "unat a < 2 ^ 255"
  shows "\<exists>k. unat (bits a) = Suc k \<and> k < 255 \<and> 2 ^ k \<le> unat a \<and> unat a < 2 ^ Suc k"
proof -
  from bits_cases [of a] assms(1) obtain k where k: "top_bit a k" "bits a = word_of_nat (Suc k)" by blast
  from top_bit_bounds [OF k(1)] assms(2) have "(2 :: nat) ^ k < 2 ^ 255" by linarith
  then have "k < 255" by (rule power_less_imp_less_exp [rotated]) simp
  then have "unat (bits a) = Suc k" unfolding k(2) by (intro unat_word_of_nat_less) simp
  with \<open>k < 255\<close> top_bit_bounds [OF k(1)] show ?thesis by blast
qed

lemma bits_0 [simp]: "bits 0 = 0"
  by (simp add: bits_def numeral_eq_Suc)

lemma bits_wraps: "2 ^ 255 \<le> unat a \<Longrightarrow> bits a = 0"
proof -
  assume "2 ^ 255 \<le> unat a"
  moreover from this obtain k where k: "top_bit a k" "bits a = word_of_nat (Suc k)"
    using bits_cases [of a] by fastforce
  ultimately have "(2 :: nat) ^ 255 < 2 ^ Suc k" using top_bit_bounds(2) [OF k(1)] by linarith
  then have "255 < Suc k" by (rule power_less_imp_less_exp [rotated]) simp
  moreover have "k < 256" using k(1) by (auto simp: top_bit_def dest: bit_imp_le_length)
  ultimately have "k = 255" by simp
  with k show ?thesis by simp
qed

lemma set_quotient_bit:
  assumes "s < 256"
  shows "set_u32 r (s div 32) (u32_at r (s div 32) OR push_bit (s mod 32) 1) = r OR push_bit s 1"
proof (rule bit_word_eqI)
  fix n assume n: "n < LENGTH(256)"
  have e: "32 * (s div 32) \<le> n \<and> n < 32 * (s div 32) + 32 \<longleftrightarrow> n div 32 = s div 32" by auto
  have f: "s = n \<longleftrightarrow> n div 32 = s div 32 \<and> s mod 32 = n mod 32" by (metis div_mult_mod_eq)
  have g: "n - 32 * (s div 32) = n mod 32" "32 * (s div 32) + n mod 32 = n" if "n div 32 = s div 32"
    using that by (metis minus_mult_div_eq_mod, metis mult_div_mod_eq)
  have h: "bit (push_bit s 1 :: UInt256) n \<longleftrightarrow> n = s" using n assms by (auto simp: bit_exp_iff)
  have k: "bit (push_bit (s mod 32) 1 :: u32) (n mod 32) \<longleftrightarrow> n mod 32 = s mod 32" by (auto simp: bit_exp_iff)
  show "bit (set_u32 r (s div 32) (u32_at r (s div 32) OR push_bit (s mod 32) 1)) n = bit (r OR push_bit s 1) n"
  proof (cases "n div 32 = s div 32")
    case True
    then show ?thesis unfolding bit_set_u32 e bit_or_iff bit_u32_at h using n g [OF True] k f by auto
  next
    case False
    then show ?thesis unfolding bit_set_u32 e bit_or_iff h by auto
  qed
qed

lemma unat_2_pow: "s < 256 \<Longrightarrow> unat (2 ^ s :: UInt256) = 2 ^ s"
proof -
  assume "s < 256"
  then have "(2 :: nat) ^ s < 2 ^ LENGTH(256)" by (intro power_strict_increasing) auto
  then show ?thesis using unat_word_of_nat_less [of "2 ^ s", where ?'a = 256] by simp
qed

lemma unat_or_bit:
  assumes "2 ^ Suc s dvd unat (r :: UInt256)" and "s < 256"
  shows "unat (r OR push_bit s 1) = unat r + 2 ^ s"
proof -
  from assms(1) obtain c where "unat r = 2 ^ Suc s * c" ..
  then have "unat r div 2 ^ s = 2 * c" by simp
  then have nb: "\<not> bit (unat r) s" by (simp add: bit_iff_odd)
  have "unat (r OR push_bit s 1) = unat r OR 2 ^ s"
    using assms(2) by (simp add: unsigned_or_eq unat_2_pow)
  also have "\<dots> = unat r + 2 ^ s"
  proof (rule disjunctive_add_eq_or [symmetric], rule bit_eqI)
    show "bit (unat r AND 2 ^ s) n = bit 0 n" for n
      using nb by (auto simp: bit_and_iff bit_exp_iff)
  qed
  finally show ?thesis .
qed

lemma div_add_self_mult: "0 < (b::nat) \<Longrightarrow> c * b \<le> n \<Longrightarrow> c + (n - c * b) div b = n div b"
  by (metis div_mult_self3 le_add_diff_inverse neq0_conv)

lemma divide_loop_0:
  "divide_loop 0 num dv r = (if dv \<le> num then r OR push_bit 0 1 else r)"
  using set_quotient_bit [of 0 r] by (simp add: UInt256SupEq_iff)

lemma divide_loop_Suc:
  assumes "Suc s < 256"
  shows "divide_loop (Suc s) num dv r =
     (if dv \<le> num then divide_loop s (num - dv) (shiftRight dv 1) (r OR push_bit (Suc s) 1)
      else divide_loop s num (shiftRight dv 1) r)"
  using set_quotient_bit [OF assms, of r]
  by (subst divide_loop.simps) (simp add: UInt256SupEq_iff subtract_eq Let_def del: divide_loop.simps)

declare divide_loop.simps [simp del]

lemma divide_loop_spec:
  assumes "s < 255" "B > 0" "unat dv = B * 2 ^ s" "unat num < B * 2 ^ Suc s" "2 ^ Suc s dvd unat r"
  shows "unat (divide_loop s num dv r) = unat r + unat num div B"
  using assms
proof (induction s arbitrary: num dv r)
  case 0
  show ?case
  proof (cases "dv \<le> num")
    case True
    then have ge: "B \<le> unat num" using "0.prems" by (simp add: word_le_nat_alt)
    have "unat num div B = 1"
      using ge "0.prems"(2,4) by (intro div_nat_eqI) auto
    with True unat_or_bit [OF "0.prems"(5)] show ?thesis by (simp add: divide_loop_0)
  next
    case False
    then have "unat num < B" using "0.prems" by (simp add: word_le_nat_alt)
    with False show ?thesis by (simp add: divide_loop_0)
  qed
next
  case (Suc s)
  have dv2: "unat (shiftRight dv 1) = B * 2 ^ s"
    using Suc.prems(3) by (simp add: shiftRight_eq unat_drop_bit)
  have dvd: "2 ^ Suc s dvd unat r" using Suc.prems(5) by (rule dvd_trans [OF le_imp_power_dvd, rotated]) simp
  show ?case
  proof (cases "dv \<le> num")
    case True
    let ?num = "num - dv" and ?r = "r OR push_bit (Suc s) 1"
    have n: "unat ?num = unat num - B * 2 ^ Suc s"
      using True Suc.prems(3) by (simp add: unat_sub word_le_nat_alt)
    have ge: "B * 2 ^ Suc s \<le> unat num" using True Suc.prems(3) by (simp add: word_le_nat_alt)
    have r: "unat ?r = unat r + 2 ^ Suc s"
      using unat_or_bit [OF Suc.prems(5)] Suc.prems(1) by simp
    have "unat (divide_loop s ?num (shiftRight dv 1) ?r) = unat ?r + unat ?num div B"
    proof (rule Suc.IH [OF _ Suc.prems(2) dv2])
      show "2 ^ Suc s dvd unat ?r" unfolding r using dvd by (rule dvd_add) simp
    qed (use Suc.prems ge in \<open>auto simp: n\<close>)
    also have "\<dots> = unat r + (2 ^ Suc s + (unat num - 2 ^ Suc s * B) div B)"
      unfolding r n by (simp add: mult.commute)
    also have "\<dots> = unat r + unat num div B"
      using ge Suc.prems(2) by (subst div_add_self_mult) (auto simp: mult.commute)
    finally show ?thesis using True Suc.prems(1) by (simp add: divide_loop_Suc)
  next
    case False
    then have "unat num < B * 2 ^ Suc s" using Suc.prems(3) by (simp add: word_le_nat_alt)
    then have "unat (divide_loop s num (shiftRight dv 1) r) = unat r + unat num div B"
      using Suc.prems dvd by (intro Suc.IH) (auto simp: dv2)
    with False Suc.prems(1) show ?thesis by (simp add: divide_loop_Suc)
  qed
qed

lemma divide_u256_div:
  assumes "b \<noteq> 0" and "unat a < 2 ^ 255" and "unat b < 2 ^ 255"
  shows "divide_u256 a b = Some (a div b)"
proof (cases "unat (bits b) > unat (bits a)")
  case True
  obtain k where k: "unat (bits b) = Suc k" "2 ^ k \<le> unat b" using bits_spec assms by blast
  have "unat a < unat b"
  proof (cases "a = 0")
    case False
    then obtain l where l: "unat (bits a) = Suc l" "unat a < 2 ^ Suc l" using bits_spec assms by blast
    with True k have "Suc l \<le> k" by simp
    then have "(2 :: nat) ^ Suc l \<le> 2 ^ k" by (rule power_increasing) simp
    with k l show ?thesis by linarith
  qed (use assms in \<open>simp add: unat_gt_0\<close>)
  then have "unat (a div b) = 0" by (simp add: unat_div_distrib)
  then have "a div b = 0" by (simp add: unat_eq_0)
  with True k show ?thesis by (simp add: divide_u256_def Let_def UINT256_ZERO_def)
next
  case False
  obtain k where k: "unat (bits b) = Suc k" "k < 255" "2 ^ k \<le> unat b" "unat b < 2 ^ Suc k"
    using bits_spec assms by blast
  have "a \<noteq> 0" using False k(1) by auto
  then obtain l where l: "unat (bits a) = Suc l" "l < 255" "unat a < 2 ^ Suc l"
    using bits_spec assms by blast
  let ?s = "l - k"
  have s: "l = k + ?s" "?s < 255" using False k l by auto
  have w: "unat (word_of_nat ?s :: u8) = ?s" using s by (intro unat_word_of_nat_less) simp
  have "unat b * 2 ^ ?s < 2 ^ Suc k * 2 ^ ?s" using k(4) by simp
  also have "\<dots> = 2 ^ Suc l" using s(1) by (metis add_Suc power_add)
  also have "\<dots> \<le> 2 ^ 256" using l(2) by (intro power_increasing) auto
  finally have "unat b * 2 ^ ?s < 2 ^ LENGTH(256)" by simp
  then have dv: "unat (shiftLeft b (word_of_nat ?s)) = unat b * 2 ^ ?s"
    unfolding shiftLeft_eq w push_bit_eq_mult [of _ b]
    by (subst unat_mult_less) (use s in \<open>auto simp: unat_2_pow\<close>)
  have "unat a < 2 ^ k * 2 ^ Suc ?s" using l(3) s(1) by (metis add_Suc_right power_add)
  also have "\<dots> \<le> unat b * 2 ^ Suc ?s" using k(3) by simp
  finally have num: "unat a < unat b * 2 ^ Suc ?s" .
  have "unat (divide_loop ?s a (shiftLeft b (word_of_nat ?s)) 0) = unat (0 :: UInt256) + unat a div unat b"
    using s assms(1) dv num by (intro divide_loop_spec) (auto simp: unat_gt_0)
  then have "divide_loop ?s a (shiftLeft b (word_of_nat ?s)) 0 = a div b"
    by (simp add: word_unat_eq_iff unat_div_distrib)
  with False k(1) l(1) show ?thesis by (simp add: divide_u256_def Let_def UINT256_ZERO_def)
qed

lemma divide_u256_zero: "divide_u256 a 0 = None"
  by (simp add: divide_u256_def)

lemma divide_u256_top_bit:
  assumes "2 ^ 255 \<le> unat a" and "b \<noteq> 0" and "unat b < 2 ^ 255"
  shows "divide_u256 a b = Some 0" and "divide_u256 b a = None"
proof -
  obtain k where "unat (bits b) = Suc k" using bits_spec assms by blast
  then show "divide_u256 a b = Some 0" "divide_u256 b a = None"
    using bits_wraps [OF assms(1)] by (auto simp: divide_u256_def Let_def UINT256_ZERO_def)
qed

lemma unat_push_bit_mod: "unat (push_bit n (a :: UInt256)) = unat a * 2 ^ n mod 2 ^ 256"
proof -
  have "unat (2 ^ n :: UInt256) = 2 ^ n mod 2 ^ 256"
    using unsigned_of_nat [of "2 ^ n", where ?'a = nat and ?'b = 256] by (simp add: take_bit_eq_mod)
  then show ?thesis unfolding push_bit_eq_mult unat_word_ariths by (simp add: mod_mult_right_eq)
qed

section \<open>Bytes of a number and its hexadecimal form\<close>

lemma u8_less_cases: "(x :: u8) < word_of_nat n \<Longrightarrow> n < 256 \<Longrightarrow> x \<in> set (map word_of_nat [0..<n])"
proof -
  assume "x < word_of_nat n" "n < 256"
  then have "unat x < n" by (simp add: word_less_nat_alt unat_word_of_nat_less)
  moreover have "x = word_of_nat (unat x)" by simp
  ultimately show ?thesis by (metis atLeastLessThan_iff image_eqI list.set_map set_upt zero_le)
qed

lemma hexu_hexc_nibble: "x < 16 \<Longrightarrow> hexu (hexc x) = x"
proof -
  have "list_all (\<lambda>x. hexu (hexc x) = x) (map word_of_nat [0..<16])" by code_simp
  then show "x < 16 \<Longrightarrow> hexu (hexc x) = x"
    using u8_less_cases [of x 16] unfolding list_all_iff by simp blast
qed

lemma hexc_and_15: "hexc (x AND 15) = hexc x"
  by (simp add: hexc_def ac_simps)

lemma and_15_less: "(x :: u8) AND 15 < 16"
  using word_and_le1 [of x 15] by (simp add: word_le_nat_alt word_less_nat_alt)

lemma hexu_hexc: "hexu (hexc x) = x AND 15"
  using hexu_hexc_nibble [OF and_15_less, of x] by (simp only: hexc_and_15)

lemma byte_nibbles: "push_bit 4 (drop_bit 4 x AND 15) OR (x AND 15) = (x :: u8)"
proof (rule bit_word_eqI)
  fix n assume n: "n < LENGTH(8)"
  have m: "bit (15 :: u8) k \<longleftrightarrow> k < 4" for k
    using bit_mask_iff [of 4 k, where ?'a = u8] by (auto simp: mask_eq_exp_minus_1)
  show "bit (push_bit 4 (drop_bit 4 x AND 15) OR (x AND 15)) n = bit x n"
    using n unfolding bit_or_iff bit_and_iff bit_push_bit_iff m bit_drop_bit_eq o_apply
    by auto
qed

lemma hex_byte: "push_bit 4 (hexu (hexc (drop_bit 4 x))) OR hexu (hexc x) = x"
  unfolding hexu_hexc by (rule byte_nibbles)

lemma u256_eqI_8:
  assumes "\<And>j. j < 32 \<Longrightarrow> u8_at a j = u8_at b j"
  shows "a = b"
proof (rule bit_word_eqI)
  fix n assume "n < LENGTH(256)"
  then have j: "n div 8 < 32" and n: "n = 8 * (n div 8) + n mod 8" and m: "n mod 8 < 8" by auto
  have "bit (u8_at a (n div 8)) (n mod 8) = bit (u8_at b (n div 8)) (n mod 8)"
    using assms [OF j] by simp
  with n m show "bit a n = bit b n" by (simp add: bit_u8_at)
qed

lemma u8_at_of_u8s:
  "i < length bs \<Longrightarrow> length bs \<le> 32 \<Longrightarrow> u8_at (of_u8s bs) i = bs ! i"
proof (induction bs arbitrary: i)
  case (Cons b bs)
  show ?case
  proof (cases i)
    case 0
    then show ?thesis by (auto intro!: bit_word_eqI simp: bit_u8_at bit_simps)
  next
    case (Suc j)
    have "u8_at (ucast b OR push_bit 8 (of_u8s bs)) (Suc j) = u8_at (of_u8s bs) j"
    proof (rule bit_word_eqI)
      fix n assume "n < LENGTH(8)"
      moreover have "j < 31" using Cons.prems Suc by simp
      ultimately show "bit (u8_at (ucast b OR push_bit 8 (of_u8s bs)) (Suc j)) n = bit (u8_at (of_u8s bs) j) n"
        by (auto simp: bit_u8_at bit_simps dest: bit_imp_le_length)
    qed
    with Suc Cons show ?thesis by simp
  qed
qed simp

lemma of_u8s_u8_at: "of_u8s (map (u8_at u) [0..<32]) = u"
  by (rule u256_eqI_8) (simp add: u8_at_of_u8s)

lemma upt_0_32: "[0..<32] = [0, 1, 2, 3, 4, 5, 6, 7, 8, 9, 10, 11, 12, 13, 14, 15, 16, 17, 18, 19, 20,
   21, 22, 23, 24, 25, 26, 27, 28, 29, 30, 31 :: nat]"
  by (simp add: upt_rec)

lemma UInt256Set_map: "UInt256Set u = map (u8_at u) [0..<32]"
  by (simp add: UInt256Set_def upt_0_32)

lemma UInt256Get_map: "UInt256Get b = of_u8s (map ((!) b) [0..<32])"
  by (simp add: UInt256Get_def upt_0_32)

lemma UInt256Reverse_map: "UInt256Reverse u = of_u8s (rev (map (u8_at u) [0..<32]))"
  by (simp add: UInt256Reverse_def upt_0_32)

lemma UInt256Get_Set [endian_simps]: "UInt256Get (UInt256Set u @ rest) = u"
proof -
  have "map ((!) (UInt256Set u @ rest)) [0..<32] = map (u8_at u) [0..<32]"
    by (rule map_cong) (simp_all add: nth_append UInt256Set_map)
  then show ?thesis unfolding UInt256Get_map by (simp only: of_u8s_u8_at)
qed

lemma UInt256Set_Get [endian_simps]:
  assumes "length b = 32"
  shows "UInt256Set (UInt256Get b) = b"
  by (rule nth_equalityI) (simp_all add: assms UInt256Set_map UInt256Get_map u8_at_of_u8s)

lemma UInt256Reverse_Reverse [simp]: "UInt256Reverse (UInt256Reverse u) = u"
proof (rule u256_eqI_8)
  fix j :: nat assume "j < 32"
  then show "u8_at (UInt256Reverse (UInt256Reverse u)) j = u8_at u j"
    by (simp add: UInt256Reverse_map u8_at_of_u8s rev_nth)
qed

lemma nth_concat_pairs:
  assumes "i < length xs"
  shows "concat (map (\<lambda>x. [f x, g x]) xs) ! (2 * i) = f (xs ! i)"
    and "concat (map (\<lambda>x. [f x, g x]) xs) ! (Suc (2 * i)) = g (xs ! i)"
proof -
  have "concat (map (\<lambda>x. [f x, g x]) xs) ! (2 * i) = f (xs ! i) \<and>
     concat (map (\<lambda>x. [f x, g x]) xs) ! (Suc (2 * i)) = g (xs ! i)"
    using assms by (induction xs arbitrary: i) (auto simp: less_Suc_eq_0_disj)
  then show "concat (map (\<lambda>x. [f x, g x]) xs) ! (2 * i) = f (xs ! i)"
    and "concat (map (\<lambda>x. [f x, g x]) xs) ! (Suc (2 * i)) = g (xs ! i)" by simp_all
qed

lemma u256_hex_roundtrip: "u256_hex_decode (u256_hex_encode u) = u"
proof (rule u256_eqI_8)
  fix j :: nat assume "j < 32"
  then show "u8_at (u256_hex_decode (u256_hex_encode u)) j = u8_at u j"
    by (simp add: u256_hex_decode_def u256_hex_encode_def u8_at_of_u8s nth_concat_pairs hex_byte)
qed

section \<open>Correctness of the integer layer\<close>

lemma bits_bounds:
  "if a = 0 \<or> 2 ^ 255 \<le> unat a then bits a = 0
   else 0 < unat (bits a) \<and> 2 ^ (unat (bits a) - 1) \<le> unat a \<and> unat a < 2 ^ unat (bits a)"
  using bits_0 bits_wraps [of a] bits_spec [of a] by (auto simp: not_le)

lemma unat_addOne: "unat (addOne a) = (unat a + 1) mod 2 ^ 256"
  by (simp add: addOne_def add_eq UINT256_ZERO_def set_u64_0_1 unat_word_ariths)

lemma unat_neg: "unat (neg a) = 2 ^ 256 - 1 - unat a"
proof -
  have "neg a = - 1 - a" by (simp add: neg_eq not_eq_complement)
  moreover have "unat (- 1 - a) = unat (- 1 :: UInt256) - unat a" by (rule unat_sub) simp
  moreover have "unat (- 1 :: UInt256) = 2 ^ 256 - 1"
    using unsigned_minus_1_eq_mask [where ?'a = nat and ?'b = 256] by (simp add: mask_eq_exp_minus_1)
  ultimately show ?thesis by simp
qed

text \<open>C1: the digit loops of \<open>add\<close>, \<open>subtract\<close>, \<open>multiplyThis32\<close>, \<open>shiftLeft\<close> and \<open>shiftRight\<close>
  compute the sum, difference, product and shifts of the 256-bit numbers modulo \<open>2\<^sup>256\<close>; \<open>addOne\<close> adds
  one modulo \<open>2\<^sup>256\<close> and \<open>neg\<close> is the bitwise complement \<open>2\<^sup>256 - 1 - a\<close>; \<open>bits\<close> is the number of binary
  digits for numbers below \<open>2\<^sup>255\<close> and 0 for 0 and from \<open>2\<^sup>255\<close> on, where the \<open>uint8_t\<close> result wraps; and
  \<open>UInt256SupEq\<close>, \<open>UInt256Eq\<close>, \<open>UInt256IsZero\<close> compare those numbers.\<close>

theorem u256_arithmetic:
  "unat (add a b) = (unat a + unat b) mod 2 ^ 256 \<and>
   unat (addOne a) = (unat a + 1) mod 2 ^ 256 \<and>
   unat (neg a) = 2 ^ 256 - 1 - unat a \<and>
   uint (subtract a b) = (uint a - uint b) mod 2 ^ 256 \<and>
   unat (multiplyThis32 a c) = unat a * unat c mod 2 ^ 256 \<and>
   unat (shiftLeft a n) = unat a * 2 ^ unat n mod 2 ^ 256 \<and>
   unat (shiftRight a n) = unat a div 2 ^ unat n \<and>
   (if a = 0 \<or> 2 ^ 255 \<le> unat a then bits a = 0
    else 0 < unat (bits a) \<and> 2 ^ (unat (bits a) - 1) \<le> unat a \<and> unat a < 2 ^ unat (bits a)) \<and>
   (UInt256SupEq a b \<longleftrightarrow> unat b \<le> unat a) \<and> (UInt256Eq a b \<longleftrightarrow> a = b) \<and>
   (UInt256IsZero a \<longleftrightarrow> a = UINT256_ZERO)"
proof (intro conjI)
  show "if a = 0 \<or> 2 ^ 255 \<le> unat a then bits a = 0
    else 0 < unat (bits a) \<and> 2 ^ (unat (bits a) - 1) \<le> unat a \<and> unat a < 2 ^ unat (bits a)"
    by (rule bits_bounds)
qed (simp_all only: unat_addOne unat_neg add_eq subtract_eq multiplyThis32_eq shiftLeft_eq shiftRight_eq
      UInt256SupEq_iff UInt256Eq_iff UInt256IsZero_iff UINT256_ZERO_def unat_word_ariths
      uint_word_ariths unat_ucast_32_256 unat_drop_bit word_le_nat_alt unat_push_bit_mod, simp_all)

text \<open>C2: for operands below \<open>2\<^sup>255\<close> with a non-zero divisor the shift-and-subtract loop of \<open>divide\<close>
  passes its assertion and returns the integer quotient.\<close>

theorem divide_correct:
  assumes "b \<noteq> 0" and "unat a < 2 ^ 255" and "unat b < 2 ^ 255"
  shows "\<exists>q. divide_u256 a b = Some q \<and> unat q = unat a div unat b"
  using divide_u256_div [OF assms] by (simp add: unat_div_distrib)

theorem divide_correct_witness:
  "\<exists>q. divide_u256 1000 7 = Some q \<and> unat q = 142"
  using divide_correct [of 7 1000] by simp

text \<open>\<open>bits\<close> returns its count as a \<open>uint8_t\<close>, so a number with bit 255 set has bit length 0: as a
  dividend it makes \<open>divide\<close> return 0 and as a divisor it makes the assertion fail.\<close>

theorem divide_top_bit_set:
  assumes "2 ^ 255 \<le> unat a" and "b \<noteq> 0" and "unat b < 2 ^ 255"
  shows "bits a = 0 \<and> divide_u256 a b = Some 0 \<and> divide_u256 b a = None"
  using bits_wraps [OF assms(1)] divide_u256_top_bit [OF assms] by simp

theorem divide_top_bit_set_witness:
  "bits (2 ^ 255) = 0 \<and> divide_u256 (2 ^ 255) 1 = Some 0 \<and> divide_u256 1 (2 ^ 255) = None"
  using divide_top_bit_set [of "2 ^ 255" 1] by simp

text \<open>Decoding the hexadecimal form of a 256-bit number gives the number back, and so do loading
  its 32 stored bytes and reversing it twice.\<close>

theorem u256_hex_bytes_roundtrip:
  "u256_hex_decode (u256_hex_encode u) = u \<and> UInt256Get (UInt256Set u @ rest) = u \<and>
   UInt256Reverse (UInt256Reverse u) = u"
  by (simp add: u256_hex_roundtrip UInt256Get_Set)

end
