(* ===== verification/BRHash.thy ===== *)
theory BRHash
  imports BRInt
begin

text \<open>
  The hash functions of \<open>BRCrypto.c\<close>: SHA-1, SHA-224/256/384/512, RIPEMD-160, MD5, MurmurHash3, HMAC,
  HMAC-DRBG, PBKDF2 and the selection logic of X16R and X16Rv2.

  The \<open>x\<close> array of a hash function is the block buffer, kept as bytes; its \<open>uint32_t\<close> and \<open>uint64_t\<close>
  views on a little-endian target are \<open>words32\<close> and \<open>words64\<close>.  The digest written through the output
  pointer is the value of the function.  Clearing of temporaries (\<open>mem_clean\<close>, \<open>var_clean\<close>) has no
  effect on any value and is left out.
\<close>

section \<open>Macros\<close>

definition words32 :: "bytes \<Rightarrow> u32 list" where
  "words32 bs = map (\<lambda>i. UInt32GetLE (slice (4 * i) 4 bs)) [0..<length bs div 4]"

definition words64 :: "bytes \<Rightarrow> u64 list" where
  "words64 bs = map (\<lambda>i. UInt64GetLE (slice (8 * i) 8 bs)) [0..<length bs div 8]"

definition bytes32 :: "u32 list \<Rightarrow> bytes" where
  "bytes32 ws = concat (map UInt32SetLE ws)"

definition bytes64 :: "u64 list \<Rightarrow> bytes" where
  "bytes64 ws = concat (map UInt64SetLE ws)"

definition be32 :: "u32 \<Rightarrow> u32" where
  "be32 x = push_bit 24 (x AND 0xff) OR push_bit 8 (x AND 0xff00) OR drop_bit 8 (x AND 0xff0000) OR
     drop_bit 24 (x AND 0xff000000)"

definition be64 :: "u64 \<Rightarrow> u64" where
  "be64 x = ucast (be32 (ucast (drop_bit 32 x))) OR push_bit 32 (ucast (be32 (ucast x)))"

definition rol32 :: "u32 \<Rightarrow> nat \<Rightarrow> u32" where
  "rol32 a b = push_bit b a OR drop_bit (32 - b) a"

definition ror32 :: "u32 \<Rightarrow> nat \<Rightarrow> u32" where
  "ror32 a b = drop_bit b a OR push_bit (32 - b) a"

definition ror64 :: "u64 \<Rightarrow> nat \<Rightarrow> u64" where
  "ror64 a b = drop_bit b a OR push_bit (64 - b) a"

section \<open>The block loop\<close>

text \<open>The loop and the padding that every hash function of the file spells out for its own block
  size: \<open>le\<close> tells whether the loop condition is \<open>i <= len\<close> (RIPEMD-160, MD5) or \<open>i < len\<close>.  The
  compression function updates the chaining value and may change the block buffer.\<close>

function md_loop :: "('s \<Rightarrow> bytes \<Rightarrow> 's \<times> bytes) \<Rightarrow> nat \<Rightarrow> bool \<Rightarrow> bytes \<Rightarrow> nat \<Rightarrow> bytes \<Rightarrow> 's
    \<Rightarrow> nat \<times> bytes \<times> 's" where
  "md_loop compress blk le data i x buf =
     (if blk > 0 \<and> (i < length data \<or> (le \<and> i = length data)) then
        let x = put 0 (slice i (if i + blk < length data then blk else length data - i) data) x
        in if i + blk > length data then (i, x, buf)
           else let (buf, x) = compress buf x in md_loop compress blk le data (i + blk) x buf
      else (i, x, buf))"
  by pat_completeness auto

termination
  by (relation "measure (\<lambda>(_, blk, _, data, i, _, _). length data + 1 - i)") auto

text \<open>The tail: clear the rest of the block, append 0x80, start a new block when the length field does
  not fit, write the length field at the end of the block and compress once more.\<close>

definition md_final :: "('s \<Rightarrow> bytes \<Rightarrow> 's \<times> bytes) \<Rightarrow> nat \<Rightarrow> bytes \<Rightarrow> nat \<Rightarrow> nat \<times> bytes \<times> 's \<Rightarrow> 's" where
  "md_final compress blk lenField len = (\<lambda>(i, x, buf).
     let x = put (len - i) (replicate (blk - (len - i)) 0) x;
         x = put (len - i) [0x80] x;
         (buf, x) = (if len - i \<ge> blk - length lenField
            then (let (buf, x) = compress buf x in (buf, put 0 (replicate blk 0) x)) else (buf, x));
         x = put (blk - length lenField) lenField x
     in fst (compress buf x))"

section \<open>SHA-1\<close>

definition f1 :: "u32 \<Rightarrow> u32 \<Rightarrow> u32 \<Rightarrow> u32" where "f1 x y z = (x AND y) OR (NOT x AND z)"
definition f2 :: "u32 \<Rightarrow> u32 \<Rightarrow> u32 \<Rightarrow> u32" where "f2 x y z = x XOR y XOR z"
definition f3 :: "u32 \<Rightarrow> u32 \<Rightarrow> u32 \<Rightarrow> u32" where "f3 x y z = (x AND y) OR (x AND z) OR (y AND z)"

type_synonym regs5 = "u32 \<times> u32 \<times> u32 \<times> u32 \<times> u32"

definition sha1_op :: "(u32 \<Rightarrow> u32 \<Rightarrow> u32 \<Rightarrow> u32) \<Rightarrow> u32 \<Rightarrow> u32 \<Rightarrow> regs5 \<Rightarrow> regs5" where
  "sha1_op fn y z = (\<lambda>(a, b, c, d, e). (rol32 a 5 + fn b c d + e + y + z, a, rol32 b 30, c, d))"

definition sha1_mix :: "nat \<Rightarrow> u32 list \<Rightarrow> u32" where
  "sha1_mix i x = (if i < 16 then be32 (x ! i)
     else rol32 ((x ! (i - 3)) XOR (x ! (i - 8)) XOR (x ! (i - 14)) XOR (x ! (i - 16))) 1)"

definition sha1_step :: "nat \<Rightarrow> u32 list \<times> regs5 \<Rightarrow> u32 list \<times> regs5" where
  "sha1_step i = (\<lambda>(x, regs).
     let x = x[i := sha1_mix i x] in
     (x, if i < 20 then sha1_op f1 0x5a827999 (x ! i) regs
         else if i < 40 then sha1_op f2 0x6ed9eba1 (x ! i) regs
         else if i < 60 then sha1_op f3 0x8f1bbcdc (x ! i) regs
         else sha1_op f2 0xca62c1d6 (x ! i) regs))"

definition SHA1Compress :: "u32 list \<Rightarrow> bytes \<Rightarrow> u32 list \<times> bytes" where
  "SHA1Compress r x =
     (let (x', a, b, c, d, e) = fold sha1_step [0..<80] (words32 x, r ! 0, r ! 1, r ! 2, r ! 3, r ! 4)
      in ([r ! 0 + a, r ! 1 + b, r ! 2 + c, r ! 3 + d, r ! 4 + e], bytes32 x'))"

definition SHA1 :: "bytes \<Rightarrow> bytes" where
  "SHA1 data =
     (let len = length data; n = (word_of_nat len :: u64);
          lenField = UInt32SetLE (be32 (ucast (drop_bit 29 n))) @ UInt32SetLE (be32 (ucast (push_bit 3 n)));
          st = md_loop SHA1Compress 64 False data 0 (replicate 320 0)
                 [0x67452301, 0xefcdab89, 0x98badcfe, 0x10325476, 0xc3d2e1f0];
          buf = md_final SHA1Compress 64 lenField len st
      in bytes32 (map be32 (take 5 buf)))"

section \<open>SHA-2\<close>

definition ch :: "'a::len word \<Rightarrow> 'a word \<Rightarrow> 'a word \<Rightarrow> 'a word" where
  "ch x y z = (x AND y) XOR (NOT x AND z)"

definition maj :: "'a::len word \<Rightarrow> 'a word \<Rightarrow> 'a word \<Rightarrow> 'a word" where
  "maj x y z = (x AND y) XOR (x AND z) XOR (y AND z)"

definition s0 :: "u32 \<Rightarrow> u32" where "s0 x = ror32 x 2 XOR ror32 x 13 XOR ror32 x 22"
definition s1 :: "u32 \<Rightarrow> u32" where "s1 x = ror32 x 6 XOR ror32 x 11 XOR ror32 x 25"
definition s2 :: "u32 \<Rightarrow> u32" where "s2 x = ror32 x 7 XOR ror32 x 18 XOR drop_bit 3 x"
definition s3 :: "u32 \<Rightarrow> u32" where "s3 x = ror32 x 17 XOR ror32 x 19 XOR drop_bit 10 x"

definition k256 :: "u32 list" where
  "k256 = concat [
     [0x428a2f98, 0x71374491, 0xb5c0fbcf, 0xe9b5dba5, 0x3956c25b, 0x59f111f1, 0x923f82a4, 0xab1c5ed5],
     [0xd807aa98, 0x12835b01, 0x243185be, 0x550c7dc3, 0x72be5d74, 0x80deb1fe, 0x9bdc06a7, 0xc19bf174],
     [0xe49b69c1, 0xefbe4786, 0x0fc19dc6, 0x240ca1cc, 0x2de92c6f, 0x4a7484aa, 0x5cb0a9dc, 0x76f988da],
     [0x983e5152, 0xa831c66d, 0xb00327c8, 0xbf597fc7, 0xc6e00bf3, 0xd5a79147, 0x06ca6351, 0x14292967],
     [0x27b70a85, 0x2e1b2138, 0x4d2c6dfc, 0x53380d13, 0x650a7354, 0x766a0abb, 0x81c2c92e, 0x92722c85],
     [0xa2bfe8a1, 0xa81a664b, 0xc24b8b70, 0xc76c51a3, 0xd192e819, 0xd6990624, 0xf40e3585, 0x106aa070],
     [0x19a4c116, 0x1e376c08, 0x2748774c, 0x34b0bcb5, 0x391c0cb3, 0x4ed8aa4a, 0x5b9cca4f, 0x682e6ff3],
     [0x748f82ee, 0x78a5636f, 0x84c87814, 0x8cc70208, 0x90befffa, 0xa4506ceb, 0xbef9a3f7, 0xc67178f2]]"

type_synonym 'a regs8 = "'a \<times> 'a \<times> 'a \<times> 'a \<times> 'a \<times> 'a \<times> 'a \<times> 'a"

definition sha256_w :: "u32 list \<Rightarrow> u32 list" where
  "sha256_w x = fold (\<lambda>i w. w @ [s3 (w ! (i - 2)) + w ! (i - 7) + s2 (w ! (i - 15)) + w ! (i - 16)])
     [16..<64] (map be32 (take 16 x))"

definition sha256_round :: "u32 list \<Rightarrow> nat \<Rightarrow> u32 regs8 \<Rightarrow> u32 regs8" where
  "sha256_round w i = (\<lambda>(a, b, c, d, e, f, g, h).
     let t1 = h + s1 e + ch e f g + k256 ! i + w ! i; t2 = s0 a + maj a b c
     in (t1 + t2, a, b, c, d + t1, e, f, g))"

definition SHA256Compress :: "u32 list \<Rightarrow> bytes \<Rightarrow> u32 list \<times> bytes" where
  "SHA256Compress r x =
     (let w = sha256_w (words32 x);
          (a, b, c, d, e, f, g, h) = fold (sha256_round w) [0..<64]
             (r ! 0, r ! 1, r ! 2, r ! 3, r ! 4, r ! 5, r ! 6, r ! 7)
      in ([r ! 0 + a, r ! 1 + b, r ! 2 + c, r ! 3 + d, r ! 4 + e, r ! 5 + f, r ! 6 + g, r ! 7 + h], x))"

definition sha2_len32 :: "nat \<Rightarrow> bytes" where
  "sha2_len32 len = (let n = (word_of_nat len :: u64) in
     UInt32SetLE (be32 (ucast (drop_bit 29 n))) @ UInt32SetLE (be32 (ucast (push_bit 3 n))))"

definition SHA224 :: "bytes \<Rightarrow> bytes" where
  "SHA224 data =
     (let st = md_loop SHA256Compress 64 False data 0 (replicate 64 0)
                 [0xc1059ed8, 0x367cd507, 0x3070dd17, 0xf70e5939, 0xffc00b31, 0x68581511, 0x64f98fa7,
                  0xbefa4fa4];
          buf = md_final SHA256Compress 64 (sha2_len32 (length data)) (length data) st
      in bytes32 (map be32 (take 7 buf)))"

definition SHA256 :: "bytes \<Rightarrow> bytes" where
  "SHA256 data =
     (let st = md_loop SHA256Compress 64 False data 0 (replicate 64 0)
                 [0x6a09e667, 0xbb67ae85, 0x3c6ef372, 0xa54ff53a, 0x510e527f, 0x9b05688c, 0x1f83d9ab,
                  0x5be0cd19];
          buf = md_final SHA256Compress 64 (sha2_len32 (length data)) (length data) st
      in bytes32 (map be32 (take 8 buf)))"

definition SHA256_2 :: "bytes \<Rightarrow> bytes" where
  "SHA256_2 data = (let t = SHA256 data in SHA256 t)"

definition S0 :: "u64 \<Rightarrow> u64" where "S0 x = ror64 x 28 XOR ror64 x 34 XOR ror64 x 39"
definition S1 :: "u64 \<Rightarrow> u64" where "S1 x = ror64 x 14 XOR ror64 x 18 XOR ror64 x 41"
definition S2 :: "u64 \<Rightarrow> u64" where "S2 x = ror64 x 1 XOR ror64 x 8 XOR drop_bit 7 x"
definition S3 :: "u64 \<Rightarrow> u64" where "S3 x = ror64 x 19 XOR ror64 x 61 XOR drop_bit 6 x"

definition k512 :: "u64 list" where
  "k512 = concat [
     [0x428a2f98d728ae22, 0x7137449123ef65cd, 0xb5c0fbcfec4d3b2f, 0xe9b5dba58189dbbc, 0x3956c25bf348b538],
     [0x59f111f1b605d019, 0x923f82a4af194f9b, 0xab1c5ed5da6d8118, 0xd807aa98a3030242, 0x12835b0145706fbe],
     [0x243185be4ee4b28c, 0x550c7dc3d5ffb4e2, 0x72be5d74f27b896f, 0x80deb1fe3b1696b1, 0x9bdc06a725c71235],
     [0xc19bf174cf692694, 0xe49b69c19ef14ad2, 0xefbe4786384f25e3, 0x0fc19dc68b8cd5b5, 0x240ca1cc77ac9c65],
     [0x2de92c6f592b0275, 0x4a7484aa6ea6e483, 0x5cb0a9dcbd41fbd4, 0x76f988da831153b5, 0x983e5152ee66dfab],
     [0xa831c66d2db43210, 0xb00327c898fb213f, 0xbf597fc7beef0ee4, 0xc6e00bf33da88fc2, 0xd5a79147930aa725],
     [0x06ca6351e003826f, 0x142929670a0e6e70, 0x27b70a8546d22ffc, 0x2e1b21385c26c926, 0x4d2c6dfc5ac42aed],
     [0x53380d139d95b3df, 0x650a73548baf63de, 0x766a0abb3c77b2a8, 0x81c2c92e47edaee6, 0x92722c851482353b],
     [0xa2bfe8a14cf10364, 0xa81a664bbc423001, 0xc24b8b70d0f89791, 0xc76c51a30654be30, 0xd192e819d6ef5218],
     [0xd69906245565a910, 0xf40e35855771202a, 0x106aa07032bbd1b8, 0x19a4c116b8d2d0c8, 0x1e376c085141ab53],
     [0x2748774cdf8eeb99, 0x34b0bcb5e19b48a8, 0x391c0cb3c5c95a63, 0x4ed8aa4ae3418acb, 0x5b9cca4f7763e373],
     [0x682e6ff3d6b2b8a3, 0x748f82ee5defb2fc, 0x78a5636f43172f60, 0x84c87814a1f0ab72, 0x8cc702081a6439ec],
     [0x90befffa23631e28, 0xa4506cebde82bde9, 0xbef9a3f7b2c67915, 0xc67178f2e372532b, 0xca273eceea26619c],
     [0xd186b8c721c0c207, 0xeada7dd6cde0eb1e, 0xf57d4f7fee6ed178, 0x06f067aa72176fba, 0x0a637dc5a2c898a6],
     [0x113f9804bef90dae, 0x1b710b35131c471b, 0x28db77f523047d84, 0x32caab7b40c72493, 0x3c9ebe0a15c9bebc],
     [0x431d67c49c100d4c, 0x4cc5d4becb3e42b6, 0x597f299cfc657e2a, 0x5fcb6fab3ad6faec, 0x6c44198c4a475817]]"

definition sha512_w :: "u64 list \<Rightarrow> u64 list" where
  "sha512_w x = fold (\<lambda>i w. w @ [S3 (w ! (i - 2)) + w ! (i - 7) + S2 (w ! (i - 15)) + w ! (i - 16)])
     [16..<80] (map be64 (take 16 x))"

definition sha512_round :: "u64 list \<Rightarrow> nat \<Rightarrow> u64 regs8 \<Rightarrow> u64 regs8" where
  "sha512_round w i = (\<lambda>(a, b, c, d, e, f, g, h).
     let t1 = h + S1 e + ch e f g + k512 ! i + w ! i; t2 = S0 a + maj a b c
     in (t1 + t2, a, b, c, d + t1, e, f, g))"

definition SHA512Compress :: "u64 list \<Rightarrow> bytes \<Rightarrow> u64 list \<times> bytes" where
  "SHA512Compress r x =
     (let w = sha512_w (words64 x);
          (a, b, c, d, e, f, g, h) = fold (sha512_round w) [0..<80]
             (r ! 0, r ! 1, r ! 2, r ! 3, r ! 4, r ! 5, r ! 6, r ! 7)
      in ([r ! 0 + a, r ! 1 + b, r ! 2 + c, r ! 3 + d, r ! 4 + e, r ! 5 + f, r ! 6 + g, r ! 7 + h], x))"

definition sha2_len64 :: "nat \<Rightarrow> bytes" where
  "sha2_len64 len = UInt64SetLE 0 @ UInt64SetLE (be64 ((word_of_nat len :: u64) * 8))"

definition SHA384 :: "bytes \<Rightarrow> bytes" where
  "SHA384 data =
     (let st = md_loop SHA512Compress 128 False data 0 (replicate 128 0)
                 [0xcbbb9d5dc1059ed8, 0x629a292a367cd507, 0x9159015a3070dd17, 0x152fecd8f70e5939,
                  0x67332667ffc00b31, 0x8eb44a8768581511, 0xdb0c2e0d64f98fa7, 0x47b5481dbefa4fa4];
          buf = md_final SHA512Compress 128 (sha2_len64 (length data)) (length data) st
      in bytes64 (map be64 (take 6 buf)))"

definition SHA512 :: "bytes \<Rightarrow> bytes" where
  "SHA512 data =
     (let st = md_loop SHA512Compress 128 False data 0 (replicate 128 0)
                 [0x6a09e667f3bcc908, 0xbb67ae8584caa73b, 0x3c6ef372fe94f82b, 0xa54ff53a5f1d36f1,
                  0x510e527fade682d1, 0x9b05688c2b3e6c1f, 0x1f83d9abfb41bd6b, 0x5be0cd19137e2179];
          buf = md_final SHA512Compress 128 (sha2_len64 (length data)) (length data) st
      in bytes64 (map be64 (take 8 buf)))"

section \<open>RIPEMD-160\<close>

definition rmd_f :: "u32 \<Rightarrow> u32 \<Rightarrow> u32 \<Rightarrow> u32" where "rmd_f x y z = x XOR y XOR z"
definition rmd_g :: "u32 \<Rightarrow> u32 \<Rightarrow> u32 \<Rightarrow> u32" where "rmd_g x y z = (x AND y) OR (NOT x AND z)"
definition rmd_h :: "u32 \<Rightarrow> u32 \<Rightarrow> u32 \<Rightarrow> u32" where "rmd_h x y z = (x OR NOT y) XOR z"
definition rmd_i :: "u32 \<Rightarrow> u32 \<Rightarrow> u32 \<Rightarrow> u32" where "rmd_i x y z = (x AND z) OR (y AND NOT z)"
definition rmd_j :: "u32 \<Rightarrow> u32 \<Rightarrow> u32 \<Rightarrow> u32" where "rmd_j x y z = x XOR (y OR NOT z)"

definition rl1 :: "nat list" where
  "rl1 = [0, 1, 2, 3, 4, 5, 6, 7, 8, 9, 10, 11, 12, 13, 14, 15]"

definition rl2 :: "nat list" where
  "rl2 = [7, 4, 13, 1, 10, 6, 15, 3, 12, 0, 9, 5, 2, 14, 11, 8]"

definition rl3 :: "nat list" where
  "rl3 = [3, 10, 14, 4, 9, 15, 8, 1, 2, 7, 0, 6, 13, 11, 5, 12]"

definition rl4 :: "nat list" where
  "rl4 = [1, 9, 11, 10, 0, 8, 12, 4, 13, 3, 7, 15, 14, 5, 6, 2]"

definition rl5 :: "nat list" where
  "rl5 = [4, 0, 5, 9, 7, 12, 2, 10, 14, 1, 3, 8, 11, 6, 15, 13]"

definition rr1 :: "nat list" where
  "rr1 = [5, 14, 7, 0, 9, 2, 11, 4, 13, 6, 15, 8, 1, 10, 3, 12]"

definition rr2 :: "nat list" where
  "rr2 = [6, 11, 3, 7, 0, 13, 5, 10, 14, 15, 8, 12, 4, 9, 1, 2]"

definition rr3 :: "nat list" where
  "rr3 = [15, 5, 1, 3, 7, 14, 6, 9, 11, 8, 12, 2, 10, 0, 4, 13]"

definition rr4 :: "nat list" where
  "rr4 = [8, 6, 4, 1, 3, 11, 15, 0, 5, 12, 2, 13, 9, 7, 10, 14]"

definition rr5 :: "nat list" where
  "rr5 = [12, 15, 10, 4, 1, 5, 8, 7, 6, 2, 13, 14, 0, 3, 9, 11]"

definition sl1 :: "nat list" where
  "sl1 = [11, 14, 15, 12, 5, 8, 7, 9, 11, 13, 14, 15, 6, 7, 9, 8]"

definition sl2 :: "nat list" where
  "sl2 = [7, 6, 8, 13, 11, 9, 7, 15, 7, 12, 15, 9, 11, 7, 13, 12]"

definition sl3 :: "nat list" where
  "sl3 = [11, 13, 6, 7, 14, 9, 13, 15, 14, 8, 13, 6, 5, 12, 7, 5]"

definition sl4 :: "nat list" where
  "sl4 = [11, 12, 14, 15, 14, 15, 9, 8, 9, 14, 5, 6, 8, 6, 5, 12]"

definition sl5 :: "nat list" where
  "sl5 = [9, 15, 5, 11, 6, 8, 13, 12, 5, 12, 13, 14, 11, 8, 5, 6]"

definition sr1 :: "nat list" where
  "sr1 = [8, 9, 9, 11, 13, 15, 15, 5, 7, 7, 8, 11, 14, 14, 12, 6]"

definition sr2 :: "nat list" where
  "sr2 = [9, 13, 15, 7, 12, 8, 9, 11, 7, 7, 12, 7, 6, 15, 13, 11]"

definition sr3 :: "nat list" where
  "sr3 = [9, 7, 15, 11, 8, 6, 6, 14, 12, 13, 5, 14, 13, 13, 7, 5]"

definition sr4 :: "nat list" where
  "sr4 = [15, 5, 8, 11, 14, 14, 6, 14, 6, 9, 12, 9, 12, 5, 15, 8]"

definition sr5 :: "nat list" where
  "sr5 = [8, 5, 12, 9, 12, 5, 14, 6, 8, 13, 6, 5, 15, 13, 11, 11]"

text \<open>The operation macro \<open>rmd\<close> and one round of sixteen operations; the registers are
  \<open>(a, b, c, d, e)\<close> of one line.\<close>

definition rmd :: "(u32 \<Rightarrow> u32 \<Rightarrow> u32 \<Rightarrow> u32) \<Rightarrow> u32 \<Rightarrow> u32 \<Rightarrow> nat \<Rightarrow> regs5 \<Rightarrow> regs5" where
  "rmd fn c d s = (\<lambda>(al, bl, cl, dl, el).
     let t = rol32 (al + fn bl cl dl + c + d) s + el in (el, t, bl, rol32 cl 10, dl))"

definition rmd_round :: "(u32 \<Rightarrow> u32 \<Rightarrow> u32 \<Rightarrow> u32) \<Rightarrow> u32 list \<Rightarrow> u32 \<Rightarrow> nat list \<Rightarrow> nat list \<Rightarrow> regs5 \<Rightarrow> regs5" where
  "rmd_round fn x d r s = fold (\<lambda>i. rmd fn (x ! (r ! i)) d (s ! i)) [0..<16]"

definition RMDCompress :: "u32 list \<Rightarrow> bytes \<Rightarrow> u32 list \<times> bytes" where
  "RMDCompress r xb =
     (let x = words32 xb;
          l = (r ! 0, r ! 1, r ! 2, r ! 3, r ! 4); rt = l;
          l = rmd_round rmd_f x 0x00000000 rl1 sl1 l;
          rt = rmd_round rmd_j x 0x50a28be6 rr1 sr1 rt;
          l = rmd_round rmd_g x 0x5a827999 rl2 sl2 l;
          rt = rmd_round rmd_i x 0x5c4dd124 rr2 sr2 rt;
          l = rmd_round rmd_h x 0x6ed9eba1 rl3 sl3 l;
          rt = rmd_round rmd_h x 0x6d703ef3 rr3 sr3 rt;
          l = rmd_round rmd_i x 0x8f1bbcdc rl4 sl4 l;
          rt = rmd_round rmd_g x 0x7a6d76e9 rr4 sr4 rt;
          l = rmd_round rmd_j x 0xa953fd4e rl5 sl5 l;
          rt = rmd_round rmd_f x 0x00000000 rr5 sr5 rt;
          (al, bl, cl, dl, el) = l; (ar, br, cr, dr, er) = rt;
          t = r ! 1 + cl + dr
      in ([t, r ! 2 + dl + er, r ! 3 + el + ar, r ! 4 + al + br, r ! 0 + bl + cr], xb))"

definition md_len_le :: "nat \<Rightarrow> bytes" where
  "md_len_le len = (let n = (word_of_nat len :: u64) in
     UInt32SetLE (ucast (push_bit 3 n)) @ UInt32SetLE (ucast (drop_bit 29 n)))"

definition RMD160 :: "bytes \<Rightarrow> bytes" where
  "RMD160 data =
     (let st = md_loop RMDCompress 64 True data 0 (replicate 64 0)
                 [0x67452301, 0xefcdab89, 0x98badcfe, 0x10325476, 0xc3d2e1f0];
          buf = md_final RMDCompress 64 (md_len_le (length data)) (length data) st
      in bytes32 (take 5 buf))"

definition Hash160 :: "bytes \<Rightarrow> bytes" where
  "Hash160 data = (let t = SHA256 data in RMD160 t)"

section \<open>MD5\<close>

definition md5_F :: "u32 \<Rightarrow> u32 \<Rightarrow> u32 \<Rightarrow> u32" where "md5_F x y z = z XOR (x AND (y XOR z))"
definition md5_G :: "u32 \<Rightarrow> u32 \<Rightarrow> u32 \<Rightarrow> u32" where "md5_G x y z = y XOR (z AND (x XOR y))"
definition md5_H :: "u32 \<Rightarrow> u32 \<Rightarrow> u32 \<Rightarrow> u32" where "md5_H x y z = x XOR y XOR z"
definition md5_I :: "u32 \<Rightarrow> u32 \<Rightarrow> u32 \<Rightarrow> u32" where "md5_I x y z = y XOR (x OR NOT z)"

definition kmd5 :: "u32 list" where
  "kmd5 = [
     0xd76aa478, 0xe8c7b756, 0x242070db, 0xc1bdceee, 0xf57c0faf, 0x4787c62a, 0xa8304613, 0xfd469501,
     0x698098d8, 0x8b44f7af, 0xffff5bb1, 0x895cd7be, 0x6b901122, 0xfd987193, 0xa679438e, 0x49b40821,
     0xf61e2562, 0xc040b340, 0x265e5a51, 0xe9b6c7aa, 0xd62f105d, 0x02441453, 0xd8a1e681, 0xe7d3fbc8,
     0x21e1cde6, 0xc33707d6, 0xf4d50d87, 0x455a14ed, 0xa9e3e905, 0xfcefa3f8, 0x676f02d9, 0x8d2a4c8a,
     0xfffa3942, 0x8771f681, 0x6d9d6122, 0xfde5380c, 0xa4beea44, 0x4bdecfa9, 0xf6bb4b60, 0xbebfbc70,
     0x289b7ec6, 0xeaa127fa, 0xd4ef3085, 0x04881d05, 0xd9d4d039, 0xe6db99e5, 0x1fa27cf8, 0xc4ac5665,
     0xf4292244, 0x432aff97, 0xab9423a7, 0xfc93a039, 0x655b59c3, 0x8f0ccc92, 0xffeff47d, 0x85845dd1,
     0x6fa87e4f, 0xfe2ce6e0, 0xa3014314, 0x4e0811a1, 0xf7537e82, 0xbd3af235, 0x2ad7d2bb, 0xeb86d391]"

definition smd5 :: "nat list" where
  "smd5 = [7, 12, 17, 22, 5, 9, 14, 20, 4, 11, 16, 23, 6, 10, 15, 21]"

type_synonym regs4 = "u32 \<times> u32 \<times> u32 \<times> u32"

definition md5_op :: "(u32 \<Rightarrow> u32 \<Rightarrow> u32 \<Rightarrow> u32) \<Rightarrow> u32 \<Rightarrow> u32 \<Rightarrow> nat \<Rightarrow> regs4 \<Rightarrow> regs4" where
  "md5_op fn x k s = (\<lambda>(a, b, c, d).
     let a = a + (fn b c d + x + k); a = rol32 a s; a = a + b in (d, a, b, c))"

definition md5_step :: "u32 list \<Rightarrow> nat \<Rightarrow> regs4 \<Rightarrow> regs4" where
  "md5_step x i =
     (if i < 16 then md5_op md5_F (x ! i) (kmd5 ! i) (smd5 ! (i mod 4))
      else if i < 32 then md5_op md5_G (x ! ((5 * i + 1) mod 16)) (kmd5 ! i) (smd5 ! (4 + i mod 4))
      else if i < 48 then md5_op md5_H (x ! ((3 * i + 5) mod 16)) (kmd5 ! i) (smd5 ! (8 + i mod 4))
      else md5_op md5_I (x ! ((7 * i) mod 16)) (kmd5 ! i) (smd5 ! (12 + i mod 4)))"

definition MD5Compress :: "u32 list \<Rightarrow> bytes \<Rightarrow> u32 list \<times> bytes" where
  "MD5Compress r x =
     (let (a, b, c, d) = fold (md5_step (words32 x)) [0..<64] (r ! 0, r ! 1, r ! 2, r ! 3)
      in ([r ! 0 + a, r ! 1 + b, r ! 2 + c, r ! 3 + d], x))"

definition MD5 :: "bytes \<Rightarrow> bytes" where
  "MD5 data =
     (let st = md_loop MD5Compress 64 True data 0 (replicate 64 0)
                 [0x67452301, 0xefcdab89, 0x98badcfe, 0x10325476];
          buf = md_final MD5Compress 64 (md_len_le (length data)) (length data) st
      in bytes32 (take 4 buf))"

section \<open>MurmurHash3\<close>

definition fmix32 :: "u32 \<Rightarrow> u32" where
  "fmix32 h = (let h = h XOR drop_bit 16 h; h = h * 0x85ebca6b; h = h XOR drop_bit 13 h;
     h = h * 0xc2b2ae35 in h XOR drop_bit 16 h)"

definition murmur_block :: "bytes \<Rightarrow> nat \<Rightarrow> u32 \<Rightarrow> u32" where
  "murmur_block data i h =
     (let k = UInt32GetLE (slice (4 * i) 4 data) * 0xcc9e2d51; k = rol32 k 15 * 0x1b873593;
          h = h XOR k in rol32 h 13 * 5 + 0xe6546b64)"

definition Murmur3_32 :: "bytes \<Rightarrow> u32 \<Rightarrow> u32" where
  "Murmur3_32 data seed =
     (let len = length data; i = len div 4;
          h = fold (murmur_block data) [0..<i] seed;
          k = 0;
          k = (if len mod 4 = 3 then k XOR push_bit 16 (ucast (data ! (i * 4 + 2))) else k);
          k = (if len mod 4 \<ge> 2 then k XOR push_bit 8 (ucast (data ! (i * 4 + 1))) else k);
          h = (if len mod 4 \<ge> 1
               then (let k = (k XOR ucast (data ! (i * 4))) * 0xcc9e2d51 in h XOR rol32 k 15 * 0x1b873593)
               else h);
          h = h XOR word_of_nat len
      in fmix32 h)"

section \<open>HMAC, HMAC-DRBG and PBKDF2\<close>

text \<open>The hash function pointer with its digest length is a parameter.  \<open>None\<close>: an assertion fails or
  a copy leaves one of the pad arrays.  The \<open>uint64_t\<close> loops that apply the pad constants act on the
  bytes of the arrays.\<close>

definition xor_pad :: "u8 \<Rightarrow> nat \<Rightarrow> bytes \<Rightarrow> bytes" where
  "xor_pad p n buf = map (\<lambda>b. b XOR p) (take n buf) @ drop n buf"

definition HMAC :: "(bytes \<Rightarrow> bytes) \<Rightarrow> nat \<Rightarrow> bytes \<Rightarrow> bytes \<Rightarrow> bytes option" where
  "HMAC hash hashLen key data =
     (let blockLen = (if hashLen > 32 then 128 else 64);
          key = (if length key > blockLen then hash key else key)
      in if hashLen = 0 \<or> hashLen mod 4 \<noteq> 0 then None
      else do {
        kipad \<leftarrow> wr (replicate (8 * ((blockLen + length data) div 8 + 1)) 0) 0 key;
        let kipad = xor_pad 0x36 blockLen kipad;
        kopad \<leftarrow> wr (replicate (8 * ((blockLen + hashLen) div 8 + 1)) 0) 0 key;
        let kopad = xor_pad 0x5c blockLen kopad;
        kipad \<leftarrow> wr kipad blockLen data;
        kopad \<leftarrow> wr kopad blockLen (hash (take (blockLen + length data) kipad));
        Some (hash (take (blockLen + hashLen) kopad))
      })"

text \<open>The output loop of \<open>HMACDRBG\<close>; the result is what has been written to \<open>out\<close>, and \<open>V\<close>.\<close>

function drbg_loop :: "(bytes \<Rightarrow> bytes) \<Rightarrow> nat \<Rightarrow> nat \<Rightarrow> bytes \<Rightarrow> nat \<Rightarrow> bytes \<Rightarrow> bytes \<Rightarrow> (bytes \<times> bytes) option" where
  "drbg_loop hash hashLen outLen K i V out =
     (if hashLen > 0 \<and> i * hashLen < outLen then do {
        V \<leftarrow> HMAC hash hashLen K V;
        drbg_loop hash hashLen outLen K (i + 1) V
          (out @ take (if i * hashLen + hashLen \<le> outLen then hashLen else outLen mod hashLen) V)
      } else Some (out, V))"
  by pat_completeness auto

termination
  by (relation "measure (\<lambda>(_, hashLen, outLen, _, i, _, _). outLen - i * hashLen)") auto

text \<open>The result is \<open>(out, K, V)\<close>; a \<open>NULL\<close> argument is \<open>None\<close>.\<close>

definition HMACDRBG :: "nat \<Rightarrow> bytes \<Rightarrow> bytes \<Rightarrow> (bytes \<Rightarrow> bytes) \<Rightarrow> nat \<Rightarrow> bytes option \<Rightarrow> bytes option
    \<Rightarrow> bytes option \<Rightarrow> (bytes \<times> bytes \<times> bytes) option" where
  "HMACDRBG outLen K V hash hashLen seed nonce ps =
     (let arg = (\<lambda>p. case p of None \<Rightarrow> [] | Some b \<Rightarrow> b);
          fresh = (seed \<noteq> None \<or> nonce \<noteq> None \<or> ps \<noteq> None);
          (K, V) = (if fresh then (replicate hashLen 0x00, replicate hashLen 0x01) else (K, V));
          tl = arg seed @ arg nonce @ arg ps
      in do {
        K \<leftarrow> HMAC hash hashLen K (take hashLen V @ [0x00] @ tl);
        V \<leftarrow> HMAC hash hashLen K V;
        (K, V) \<leftarrow> (if fresh then do {
            K \<leftarrow> HMAC hash hashLen K (take hashLen V @ [0x01] @ tl);
            V \<leftarrow> HMAC hash hashLen K V;
            Some (K, V)
          } else Some (K, V));
        (out, V) \<leftarrow> drbg_loop hash hashLen outLen K 0 V [];
        Some (out, K, V)
      })"

fun pbkdf2_rounds :: "(bytes \<Rightarrow> bytes) \<Rightarrow> nat \<Rightarrow> bytes \<Rightarrow> nat \<Rightarrow> bytes \<Rightarrow> bytes \<Rightarrow> bytes option" where
  "pbkdf2_rounds hash hashLen pw 0 U T = Some T"
| "pbkdf2_rounds hash hashLen pw (Suc r) U T = do {
     U \<leftarrow> HMAC hash hashLen pw U;
     pbkdf2_rounds hash hashLen pw r U (map2 (XOR) T U)
   }"

fun pbkdf2_blocks :: "(bytes \<Rightarrow> bytes) \<Rightarrow> nat \<Rightarrow> nat \<Rightarrow> bytes \<Rightarrow> bytes \<Rightarrow> nat \<Rightarrow> nat list \<Rightarrow> bytes \<Rightarrow> bytes option" where
  "pbkdf2_blocks hash hashLen dkLen pw salt rounds [] dk = Some dk"
| "pbkdf2_blocks hash hashLen dkLen pw salt rounds (i # is) dk = do {
     let j = be32 (word_of_nat (i + 1));
     U \<leftarrow> HMAC hash hashLen pw (salt @ UInt32SetLE j);
     T \<leftarrow> pbkdf2_rounds hash hashLen pw (rounds - 1) U U;
     pbkdf2_blocks hash hashLen dkLen pw salt rounds is
       (dk @ take (if i * hashLen + hashLen \<le> dkLen then hashLen else dkLen mod hashLen) T)
   }"

text \<open>The block counter is a \<open>uint32_t\<close>: with \<open>2\<^sup>32\<close> blocks or more the loop of the code does not end,
  which is \<open>None\<close> here as well.\<close>

definition PBKDF2 :: "nat \<Rightarrow> (bytes \<Rightarrow> bytes) \<Rightarrow> nat \<Rightarrow> bytes \<Rightarrow> bytes \<Rightarrow> nat \<Rightarrow> bytes option" where
  "PBKDF2 dkLen hash hashLen pw salt rounds =
     (if hashLen = 0 \<or> hashLen mod 4 \<noteq> 0 \<or> rounds = 0 \<or> (dkLen + hashLen - 1) div hashLen \<ge> 2 ^ 32 then None
      else pbkdf2_blocks hash hashLen dkLen pw salt rounds [0..<(dkLen + hashLen - 1) div hashLen] [])"

section \<open>X16R and X16Rv2\<close>

text \<open>The sixteen 64-byte hash functions of the vendored \<open>sphlib\<close>, indexed as in the switch statement,
  and its Tiger hash are parameters.\<close>

definition GetNibble :: "bytes \<Rightarrow> nat \<Rightarrow> nat option" where
  "GetNibble data index =
     (let index = 63 - index in do {
        b \<leftarrow> rd data (index div 2);
        Some (if index mod 2 = 1 then unat (drop_bit 4 b) else unat (b AND 0x0F))
      })"

definition GetHashSelection :: "bytes \<Rightarrow> nat \<Rightarrow> nat option" where
  "GetHashSelection PrevBlockHash index =
     (if index < 16 then GetNibble PrevBlockHash (48 + index) else None)"

definition trim512to256 :: "bytes \<Rightarrow> bytes" where
  "trim512to256 in_512 = take 32 in_512"

fun x16r_loop :: "(nat \<Rightarrow> bytes \<Rightarrow> bytes) \<Rightarrow> bytes \<Rightarrow> nat list \<Rightarrow> bytes \<Rightarrow> bytes option" where
  "x16r_loop sph data [] hash_temp = Some hash_temp"
| "x16r_loop sph data (i # is) hash_temp = do {
     let toHash = (if i = 0 then data else hash_temp);
     hashSelection \<leftarrow> GetHashSelection (drop 4 data) i;
     x16r_loop sph data is (put 0 (sph hashSelection toHash) hash_temp)
   }"

definition X16R :: "(nat \<Rightarrow> bytes \<Rightarrow> bytes) \<Rightarrow> bytes \<Rightarrow> bytes option" where
  "X16R sph data = map_option trim512to256 (x16r_loop sph data [0..<16] (replicate 64 0))"

fun x16rv2_loop :: "(nat \<Rightarrow> bytes \<Rightarrow> bytes) \<Rightarrow> (bytes \<Rightarrow> bytes) \<Rightarrow> bytes \<Rightarrow> nat list \<Rightarrow> bytes \<Rightarrow> bytes option" where
  "x16rv2_loop sph tiger data [] hash_temp = Some hash_temp"
| "x16rv2_loop sph tiger data (i # is) hash_temp = do {
     let toHash = (if i = 0 then data else hash_temp);
     hashSelection \<leftarrow> GetHashSelection (drop 4 data) i;
     x16rv2_loop sph tiger data is
       (if hashSelection \<in> {4, 6, 15}
        then (let hash_temp = put 0 (tiger toHash) hash_temp;
                  hash_temp = put 24 (replicate 40 0) hash_temp
              in put 0 (sph hashSelection hash_temp) hash_temp)
        else put 0 (sph hashSelection toHash) hash_temp)
   }"

definition X16Rv2 :: "(nat \<Rightarrow> bytes \<Rightarrow> bytes) \<Rightarrow> (bytes \<Rightarrow> bytes) \<Rightarrow> bytes \<Rightarrow> bytes option" where
  "X16Rv2 sph tiger data = map_option trim512to256 (x16rv2_loop sph tiger data [0..<16] (replicate 64 0))"

section \<open>The Merkle-Damgard construction\<close>

text \<open>Reference: the full blocks of a byte string, the padded message and the iterated compression.\<close>

function blocks :: "nat \<Rightarrow> bytes \<Rightarrow> bytes list" where
  "blocks b xs = (if b = 0 \<or> length xs < b then [] else take b xs # blocks b (drop b xs))"
  by pat_completeness auto

termination
  by (relation "measure (\<lambda>(b, xs). length xs)") auto

declare blocks.simps [simp del] md_loop.simps [simp del]

definition md_pad :: "nat \<Rightarrow> bytes \<Rightarrow> bytes \<Rightarrow> bytes" where
  "md_pad b lenField data = data @ [0x80] @
     replicate ((b - (length data + 1 + length lenField) mod b) mod b) 0 @ lenField"

lemma blocks_short: "length xs < b \<Longrightarrow> blocks b xs = []"
  by (simp add: blocks.simps)

lemma blocks_Cons: "b > 0 \<Longrightarrow> length xs = b \<Longrightarrow> blocks b (xs @ ys) = xs # blocks b ys"
  by (subst blocks.simps) auto

lemma blocks_one: "b > 0 \<Longrightarrow> length xs = b \<Longrightarrow> blocks b xs = [xs]"
  using blocks_Cons [of b xs "[]"] by (simp add: blocks_short)

lemma blocks_append: "b > 0 \<Longrightarrow> b dvd length xs \<Longrightarrow> blocks b (xs @ ys) = blocks b xs @ blocks b ys"
proof (induction b xs rule: blocks.induct)
  case (1 b xs)
  show ?case
  proof (cases "length xs < b")
    case True
    with 1 have "xs = []" by (auto simp: dvd_imp_le)
    with True show ?thesis by (simp add: blocks_short)
  next
    case False
    have dv: "b dvd length (drop b xs)" using 1 False by (simp add: dvd_diff_nat)
    have "blocks b (xs @ ys) = take b xs # blocks b (drop b xs @ ys)"
      using False 1 by (subst blocks.simps) auto
    also have "\<dots> = take b xs # blocks b (drop b xs) @ blocks b ys"
      using 1 False dv by simp
    also have "\<dots> = blocks b xs @ blocks b ys"
      using False 1 by (subst (2) blocks.simps) auto
    finally show ?thesis .
  qed
qed

lemma blocks_take: "b > 0 \<Longrightarrow> blocks b (take (length xs - length xs mod b) xs) = blocks b xs"
proof -
  assume b: "b > 0"
  let ?k = "length xs - length xs mod b"
  have "blocks b xs = blocks b (take ?k xs @ drop ?k xs)" by simp
  also have "\<dots> = blocks b (take ?k xs) @ blocks b (drop ?k xs)"
    using b by (intro blocks_append) (simp_all add: dvd_minus_mod)
  also have "blocks b (drop ?k xs) = []"
    using b by (intro blocks_short) (simp add: )
  finally show ?thesis by simp
qed

lemma put_mid: "length a = off \<Longrightarrow> length b = length m \<Longrightarrow> put off b (a @ m @ t) = a @ b @ t"
  by (simp add: put_def)

lemma mod_complement:
  assumes "(b :: nat) > 0" and "n + z = k * b" and "z < b"
  shows "(b - n mod b) mod b = z"
proof -
  have "b dvd n + z" using assms(2) by simp
  then have "b dvd n mod b + z" by (metis mod_add_left_eq mod_0_imp_dvd dvd_imp_mod_0)
  then obtain c where c: "n mod b + z = b * c" ..
  moreover have "n mod b < b" using assms(1) by simp
  ultimately have "b * c < b * 2" using assms(3) by linarith
  then have "c = 0 \<or> c = 1" using assms(1) by (simp add: less_2_cases_iff)
  with c \<open>n mod b < b\<close> assms(3) show ?thesis by auto
qed

text \<open>What the block loop needs of a compression function: its new chaining value depends on the
  block only, and it keeps the length of the block buffer.\<close>

locale md_compress =
  fixes compress :: "'s \<Rightarrow> bytes \<Rightarrow> 's \<times> bytes" and comp :: "'s \<Rightarrow> bytes \<Rightarrow> 's" and blk xlen :: nat
  assumes blk_pos: "0 < blk" and blk_le: "blk \<le> xlen"
    and comp_block: "length x = xlen \<Longrightarrow> fst (compress s x) = comp s (take blk x)"
    and comp_length: "length x = xlen \<Longrightarrow> length (snd (compress s x)) = xlen"
begin

lemma loop_result:
  assumes "i \<le> length data" and "length x = xlen"
  shows "\<exists>x'. length x' = xlen \<and>
     md_loop compress blk le data i x buf =
       (length data - (length data - i) mod blk, x', foldl comp buf (blocks blk (drop i data))) \<and>
     take ((length data - i) mod blk) x' = drop (length data - (length data - i) mod blk) data"
  using assms
proof (induction "length data - i" arbitrary: i x buf rule: less_induct)
  case less
  let ?n = "length data" and ?r = "(length data - i) mod blk"
  let ?x = "put 0 (slice i (if i + blk < ?n then blk else ?n - i) data) x"
  show ?case
  proof (cases "i + blk \<le> ?n")
    case True
    have len: "length ?x = xlen"
      using True less.prems blk_le by (subst length_put) (auto simp: min_def)
    have tk: "take blk ?x = take blk (drop i data)"
      using True less.prems blk_le by (auto simp: put_def slice_def)
    obtain buf1 x1 where c: "compress buf ?x = (buf1, x1)" by fastforce
    have b1: "buf1 = comp buf (take blk (drop i data))" and l1: "length x1 = xlen"
      using comp_block [OF len, of buf] comp_length [OF len, of buf] c tk by auto
    have run: "md_loop compress blk le data i x buf = md_loop compress blk le data (i + blk) x1 buf1"
      using True blk_pos c by (subst md_loop.simps) auto
    have r: "(?n - (i + blk)) mod blk = ?r" using True by (simp add: le_mod_geq)
    have bl: "blocks blk (drop i data) = take blk (drop i data) # blocks blk (drop (i + blk) data)"
      using True blk_pos by (subst blocks.simps) (auto simp: add.commute)
    have "?n - (i + blk) < ?n - i" using True blk_pos by simp
    from less.hyps [OF this True l1, of buf1] show ?thesis
      unfolding run bl foldl_Cons b1 [symmetric] r .
  next
    case False
    have r: "?r = ?n - i" using False less.prems by (simp add: mod_less)
    have bl: "blocks blk (drop i data) = []" using False less.prems by (intro blocks_short) simp
    show ?thesis
    proof (cases "i < ?n \<or> (le \<and> i = ?n)")
      case True
      have "md_loop compress blk le data i x buf = (i, ?x, buf)"
        using True False blk_pos by (subst md_loop.simps) auto
      moreover have "length ?x = xlen"
        using False less.prems blk_le by (subst length_put) (auto simp: min_def)
      moreover have "take (?n - i) ?x = drop i data"
        using False by (auto simp: put_def slice_def)
      ultimately show ?thesis using less.prems by (auto simp: r bl)
    next
      case F2: False
      then have "md_loop compress blk le data i x buf = (i, x, buf)"
        by (subst md_loop.simps) auto
      with F2 less.prems bl show ?thesis by (auto simp: r)
    qed
  qed
qed

lemma final_result:
  assumes "length x = xlen" and "r < blk" and "take r x = rest" and "length rest = r"
    and "length L < blk" and "r = len - i"
  shows "md_final compress blk L len (i, x, buf) = foldl comp buf (blocks blk (rest @ [0x80] @
     replicate ((blk - (r + 1 + length L) mod blk) mod blk) 0 @ L))"
proof -
  let ?x = "put r [0x80] (put r (replicate (blk - r) 0) x)" and ?z = "replicate (blk - r - 1) 0 :: bytes"
  define tl where "tl = drop blk x"
  have "x = rest @ drop r x" by (metis append_take_drop_id assms(3))
  have "drop (blk - r) (drop r x) = tl" using assms(2) by (simp add: tl_def)
  then have "drop r x = take (blk - r) (drop r x) @ tl" by (metis append_take_drop_id)
  with \<open>x = rest @ drop r x\<close> have xs: "x = rest @ take (blk - r) (drop r x) @ tl" by metis
  have rep: "replicate (blk - r) 0 = [0] @ ?z" using assms(2) by (cases "blk - r") auto
  have "put r (replicate (blk - r) 0) x = rest @ replicate (blk - r) 0 @ tl"
    using assms blk_le by (subst xs, subst put_mid) auto
  also have "\<dots> = rest @ [0] @ (?z @ tl)" by (simp add: rep)
  finally have x: "?x = rest @ [0x80] @ ?z @ tl"
    using put_mid [of rest r "[0x80]" "[0]"] assms(4) by simp
  have len: "length ?x = xlen" using assms blk_le by simp
  have "length (rest @ [0x80] @ ?z) = blk" using assms by simp
  then have tk: "take blk ?x = rest @ [0x80] @ ?z" unfolding x by (metis append.assoc append_eq_conv_conj)
  show ?thesis
  proof (cases "r \<ge> blk - length L")
    case True
    obtain buf1 x1 where c: "compress buf ?x = (buf1, x1)" by fastforce
    have b1: "buf1 = comp buf (rest @ [0x80] @ replicate (blk - r - 1) 0)" and l1: "length x1 = xlen"
      using comp_block [OF len, of buf] comp_length [OF len, of buf] c tk by auto
    let ?y = "put (blk - length L) L (put 0 (replicate blk 0) x1)"
    have ly: "length ?y = xlen" using assms l1 blk_le by simp
    have ty: "take blk ?y = replicate (blk - length L) 0 @ L"
      using assms l1 blk_le by (auto simp: put_def min_def)
    have z: "(blk - (r + 1 + length L) mod blk) mod blk = (blk - r - 1) + (blk - length L)"
      using True assms blk_pos by (intro mod_complement [where k = 2]) auto
    have "md_final compress blk L len (i, x, buf) = comp buf1 (replicate (blk - length L) 0 @ L)"
      using True comp_block [OF ly, of buf1] ty
      unfolding md_final_def prod.case assms(6) [symmetric] by (simp add: c)
    also have "\<dots> = foldl comp buf (blocks blk ((rest @ [0x80] @ replicate (blk - r - 1) 0) @
        (replicate (blk - length L) 0 @ L)))"
      using assms blk_pos by (subst blocks_Cons) (auto simp: b1 blocks_one)
    finally show ?thesis unfolding z by (simp add: replicate_add)
  next
    case False
    let ?y = "put (blk - length L) L ?x"
    have ly: "length ?y = xlen" using assms len blk_le by (subst length_put) auto
    have "blk - r - 1 = (blk - r - 1 - length L) + length L" using False by simp
    then have "?x = (rest @ [0x80] @ replicate (blk - r - 1 - length L) 0) @ replicate (length L) 0 @ tl"
      unfolding x by (metis append.assoc replicate_add)
    then have "?y = (rest @ [0x80] @ replicate (blk - r - 1 - length L) 0) @ L @ tl"
      using False assms by (simp only:) (subst put_mid, auto)
    moreover have "length (rest @ [0x80] @ replicate (blk - r - 1 - length L) 0 @ L) = blk"
      using False assms by simp
    ultimately have ty: "take blk ?y = rest @ [0x80] @ replicate (blk - r - 1 - length L) 0 @ L"
      by (metis append.assoc append_eq_conv_conj)
    have z: "(blk - (r + 1 + length L) mod blk) mod blk = blk - r - 1 - length L"
      using False assms blk_pos by (intro mod_complement [where k = 1]) auto
    have "md_final compress blk L len (i, x, buf) = comp buf (rest @ [0x80] @ replicate (blk - r - 1 - length L) 0 @ L)"
      using False comp_block [OF ly, of buf] ty
      unfolding md_final_def prod.case assms(6) [symmetric] by simp
    also have "\<dots> = foldl comp buf (blocks blk (rest @ [0x80] @ replicate (blk - r - 1 - length L) 0 @ L))"
      using assms False blk_pos by (subst blocks_one) auto
    finally show ?thesis unfolding z .
  qed
qed

lemma md_correct:
  assumes "length x0 = xlen" and "length L < blk"
  shows "md_final compress blk L (length data) (md_loop compress blk le data 0 x0 iv) =
     foldl comp iv (blocks blk (md_pad blk L data))"
proof -
  let ?n = "length data" and ?r = "length data mod blk"
  obtain x' where x': "length x' = xlen"
    "md_loop compress blk le data 0 x0 iv = (?n - ?r, x', foldl comp iv (blocks blk data))"
    "take ?r x' = drop (?n - ?r) data"
    using loop_result [of 0 data x0 le iv] assms by auto
  let ?p = "[0x80] @ replicate ((blk - (?n + 1 + length L) mod blk) mod blk) 0 @ L"
  have z: "(?r + 1 + length L) mod blk = (?n + 1 + length L) mod blk"
    by (metis add.assoc mod_add_left_eq)
  have "md_final compress blk L ?n (?n - ?r, x', foldl comp iv (blocks blk data)) =
      foldl comp (foldl comp iv (blocks blk data)) (blocks blk (drop (?n - ?r) data @ ?p))"
    unfolding z [symmetric] using x' assms blk_pos by (intro final_result) auto
  also have "\<dots> = foldl comp iv (blocks blk (take (?n - ?r) data) @ blocks blk (drop (?n - ?r) data @ ?p))"
    using blk_pos by (simp add: blocks_take)
  also have "blocks blk (take (?n - ?r) data) @ blocks blk (drop (?n - ?r) data @ ?p) =
      blocks blk (take (?n - ?r) data @ drop (?n - ?r) data @ ?p)"
    using blk_pos by (intro blocks_append [symmetric]) (simp_all add: dvd_minus_mod)
  also have "take (?n - ?r) data @ drop (?n - ?r) data @ ?p = md_pad blk L data"
    unfolding md_pad_def by (simp only: append_assoc [symmetric] append_take_drop_id)
  finally show ?thesis unfolding x'(2) .
qed

end


section \<open>The compression functions\<close>

lemma length_words32 [simp]: "length (words32 bs) = length bs div 4"
  by (simp add: words32_def)

lemma length_bytes32 [simp]: "length (bytes32 ws) = 4 * length ws"
  by (induction ws) (simp_all add: bytes32_def)

lemma length_bytes64 [simp]: "length (bytes64 ws) = 8 * length ws"
  by (induction ws) (simp_all add: bytes64_def)

lemma sha1_step_app: "sha1_step i (x, regs) = (x[i := sha1_mix i x],
     let v = x[i := sha1_mix i x] ! i in
     if i < 20 then sha1_op f1 0x5a827999 v regs else if i < 40 then sha1_op f2 0x6ed9eba1 v regs
     else if i < 60 then sha1_op f3 0x8f1bbcdc v regs else sha1_op f2 0xca62c1d6 v regs)"
  by (simp add: sha1_step_def Let_def)

lemma SHA1_words:
  assumes "take 16 x = take 16 y" and "length x = 80" and "length y = 80" and "n \<le> 80"
  shows "let (x', rx) = fold sha1_step [0..<n] (x, regs); (y', ry) = fold sha1_step [0..<n] (y, regs)
    in rx = ry \<and> length x' = 80 \<and> length y' = 80 \<and> take (max 16 n) x' = take (max 16 n) y'"
  using assms(4)
proof (induction n)
  case 0
  then show ?case using assms by simp
next
  case (Suc n)
  obtain x' rx y' ry where f: "fold sha1_step [0..<n] (x, regs) = (x', rx)"
    "fold sha1_step [0..<n] (y, regs) = (y', ry)" by (metis surj_pair)
  with Suc have IH: "rx = ry" "length x' = 80" "length y' = 80" "take (max 16 n) x' = take (max 16 n) y'"
    by auto
  have same: "x' ! i = y' ! i" if "i < max 16 n" for i
    using IH(4) that by (metis nth_take)
  have mix: "sha1_mix n x' = sha1_mix n y'" using same by (simp add: sha1_mix_def)
  have "take (max 16 (Suc n)) (x'[n := v]) = take (max 16 (Suc n)) (y'[n := v])" for v
  proof (rule nth_equalityI)
    fix i assume "i < length (take (max 16 (Suc n)) (x'[n := v]))"
    then have "i < max 16 (Suc n)" "i < 80" using IH by auto
    then have "x'[n := v] ! i = y'[n := v] ! i"
      using IH same [of i] by (cases "i = n") auto
    with \<open>i < max 16 (Suc n)\<close> show "take (max 16 (Suc n)) (x'[n := v]) ! i = take (max 16 (Suc n)) (y'[n := v]) ! i"
      by (simp del: take_update_swap)
  qed (use IH in simp)
  with IH mix Suc.prems show ?case by (simp add: f sha1_step_app Let_def)
qed

lemma words32_take: "words32 (take (4 * n) x) = take n (words32 x)"
proof (rule nth_equalityI)
  fix i assume "i < length (words32 (take (4 * n) x))"
  then have "i < n" "i < length x div 4" by auto
  then show "words32 (take (4 * n) x) ! i = take n (words32 x) ! i"
    by (simp add: words32_def slice_def drop_take min_def)
qed (auto simp: min_def)

lemma SHA1Compress_block:
  assumes "length x = 320"
  shows "fst (SHA1Compress s x) = fst (SHA1Compress s (take 64 x @ replicate 256 0))"
    and "length (snd (SHA1Compress s x)) = 320"
proof -
  let ?y = "take 64 x @ replicate 256 0" and ?r = "(s ! 0, s ! 1, s ! 2, s ! 3, s ! 4)"
  have "take 16 (words32 x) = take 16 (words32 ?y)"
    using words32_take [of 16 x] words32_take [of 16 ?y] assms by simp
  then have *: "let (x', rx) = fold sha1_step [0..<80] (words32 x, ?r);
      (y', ry) = fold sha1_step [0..<80] (words32 ?y, ?r)
    in rx = ry \<and> length x' = 80 \<and> length y' = 80 \<and> take (max 16 80) x' = take (max 16 80) y'"
    using assms by (intro SHA1_words) auto
  obtain x' rx y' ry where f: "fold sha1_step [0..<80] (words32 x, ?r) = (x', rx)"
    "fold sha1_step [0..<80] (words32 ?y, ?r) = (y', ry)" by (metis surj_pair)
  with * have "rx = ry" "length x' = 80" by (auto simp only: Let_def prod.case)
  moreover obtain a b c d e where "ry = (a, b, c, d, e)" by (cases ry)
  ultimately have "SHA1Compress s x = ([s ! 0 + a, s ! 1 + b, s ! 2 + c, s ! 3 + d, s ! 4 + e], bytes32 x')"
    "SHA1Compress s ?y = ([s ! 0 + a, s ! 1 + b, s ! 2 + c, s ! 3 + d, s ! 4 + e], bytes32 y')"
    by (simp_all only: SHA1Compress_def f Let_def prod.case)
  then show "fst (SHA1Compress s x) = fst (SHA1Compress s ?y)" "length (snd (SHA1Compress s x)) = 320"
    using \<open>length x' = 80\<close> by (simp_all only: fst_conv snd_conv length_bytes32)
qed

interpretation sha1: md_compress SHA1Compress "\<lambda>s b. fst (SHA1Compress s (b @ replicate 256 0))" 64 320
  by unfold_locales (simp, simp, rule SHA1Compress_block(1), simp, rule SHA1Compress_block(2), simp)

lemma snd_compress:
  "snd (SHA256Compress s x) = x" "snd (SHA512Compress t x) = x" "snd (RMDCompress s x) = x"
  "snd (MD5Compress s x) = x"
  unfolding SHA256Compress_def SHA512Compress_def RMDCompress_def MD5Compress_def Let_def
    case_prod_beta snd_conv by (rule refl)+

interpretation sha256: md_compress SHA256Compress "\<lambda>s b. fst (SHA256Compress s b)" 64 64
  by unfold_locales (simp_all add: snd_compress)

interpretation sha512: md_compress SHA512Compress "\<lambda>s b. fst (SHA512Compress s b)" 128 128
  by unfold_locales (simp_all add: snd_compress)

interpretation rmd160: md_compress RMDCompress "\<lambda>s b. fst (RMDCompress s b)" 64 64
  by unfold_locales (simp_all add: snd_compress)

interpretation md5: md_compress MD5Compress "\<lambda>s b. fst (MD5Compress s b)" 64 64
  by unfold_locales (simp_all add: snd_compress)

section \<open>Digests\<close>

lemma be32_masks:
  "(0xff :: u32) = mask 8" "(0xff00 :: u32) = push_bit 8 (mask 8)"
  "(0xff0000 :: u32) = push_bit 16 (mask 8)" "(0xff000000 :: u32) = push_bit 24 (mask 8)"
  by (simp_all add: mask_eq_exp_minus_1)

lemma be32_bytes:
  "(ucast (be32 x) :: u8) = ucast (drop_bit 24 x)"
  "(ucast (drop_bit 8 (be32 x)) :: u8) = ucast (drop_bit 16 x)"
  "(ucast (drop_bit 16 (be32 x)) :: u8) = ucast (drop_bit 8 x)"
  "(ucast (drop_bit 24 (be32 x)) :: u8) = ucast x"
  unfolding be32_def be32_masks by (rule bit_word_eqI, auto simp: bit_simps)+

lemma UInt32SetLE_be32: "UInt32SetLE (be32 x) = UInt32SetBE x"
  by (simp add: UInt32SetLE_def UInt32SetBE_def be32_bytes)

lemma be64_bytes:
  "(ucast (be64 x) :: u32) = be32 (ucast (drop_bit 32 x))"
  "(ucast (drop_bit 32 (be64 x)) :: u32) = be32 (ucast x)"
  unfolding be64_def by (rule bit_word_eqI, auto simp: bit_simps dest: bit_imp_le_length)+

lemma UInt64SetLE_halves: "UInt64SetLE x = UInt32SetLE (ucast x) @ UInt32SetLE (ucast (drop_bit 32 x))"
  unfolding UInt64SetLE_def UInt32SetLE_def ucast_and_255
  by (auto intro!: bit_word_eqI simp: bit_simps ac_simps)

lemma UInt64SetBE_halves: "UInt64SetBE x = UInt32SetBE (ucast (drop_bit 32 x)) @ UInt32SetBE (ucast x)"
  unfolding UInt64SetBE_def UInt32SetBE_def ucast_and_255
  by (auto intro!: bit_word_eqI simp: bit_simps ac_simps)

lemma UInt64SetLE_be64: "UInt64SetLE (be64 x) = UInt64SetBE x"
  by (simp add: UInt64SetLE_halves UInt64SetBE_halves be64_bytes UInt32SetLE_be32)

lemma bytes32_be32: "bytes32 (map be32 ws) = concat (map UInt32SetBE ws)"
  by (simp add: bytes32_def UInt32SetLE_be32 comp_def)

lemma bytes64_be64: "bytes64 (map be64 ws) = concat (map UInt64SetBE ws)"
  by (simp add: bytes64_def UInt64SetLE_be64 comp_def)

lemma len_hi: "(ucast (drop_bit 29 n) :: u32) = ucast (drop_bit 32 (8 * n))" for n :: u64
proof -
  have "8 * n = push_bit 3 n" by (simp add: push_bit_eq_mult)
  then show ?thesis by (auto intro!: bit_word_eqI simp: bit_simps)
qed

lemma len_lo: "(ucast (push_bit 3 n) :: u32) = ucast (8 * n)" for n :: u64
  by (simp add: push_bit_eq_mult mult.commute)

lemma sha2_len32_eq: "sha2_len32 len = UInt64SetBE (8 * word_of_nat len)"
  by (simp add: sha2_len32_def UInt32SetLE_be32 UInt64SetBE_halves len_hi len_lo Let_def)

lemma md_len_le_eq: "md_len_le len = UInt64SetLE (8 * word_of_nat len)"
  by (simp add: md_len_le_def UInt64SetLE_halves len_hi len_lo Let_def)

lemma sha2_len64_eq: "sha2_len64 len = replicate 8 0 @ UInt64SetBE (8 * word_of_nat len)"
  by (simp add: sha2_len64_def UInt64SetLE_be64 mult.commute) (simp add: UInt64SetLE_def numeral_eq_Suc)

lemma length_compress:
  "length (fst (SHA1Compress s x)) = 5" "length (fst (SHA256Compress s x)) = 8"
  "length (fst (SHA512Compress t x)) = 8" "length (fst (RMDCompress s x)) = 5"
  "length (fst (MD5Compress s x)) = 4"
  unfolding SHA1Compress_def SHA256Compress_def SHA512Compress_def RMDCompress_def MD5Compress_def
    Let_def case_prod_beta fst_conv by simp_all

lemma length_foldl_compress:
  "(\<And>s b. length (f s b) = n) \<Longrightarrow> length iv = n \<Longrightarrow> length (foldl f iv bs) = n"
  by (induction bs arbitrary: iv) simp_all

lemma SHA256_md: "SHA256 data = concat (map UInt32SetBE (foldl (\<lambda>s b. fst (SHA256Compress s b))
     [0x6a09e667, 0xbb67ae85, 0x3c6ef372, 0xa54ff53a, 0x510e527f, 0x9b05688c, 0x1f83d9ab, 0x5be0cd19]
     (blocks 64 (md_pad 64 (UInt64SetBE (8 * word_of_nat (length data))) data))))"
  unfolding SHA256_def Let_def sha2_len32_eq
  by (subst sha256.md_correct) (simp_all add: bytes32_be32 length_foldl_compress length_compress)

lemma SHA224_md: "SHA224 data = concat (map UInt32SetBE (take 7 (foldl (\<lambda>s b. fst (SHA256Compress s b))
     [0xc1059ed8, 0x367cd507, 0x3070dd17, 0xf70e5939, 0xffc00b31, 0x68581511, 0x64f98fa7, 0xbefa4fa4]
     (blocks 64 (md_pad 64 (UInt64SetBE (8 * word_of_nat (length data))) data)))))"
  unfolding SHA224_def Let_def sha2_len32_eq
  by (subst sha256.md_correct) (simp_all add: bytes32_be32)

lemma SHA512_md: "SHA512 data = concat (map UInt64SetBE (foldl (\<lambda>s b. fst (SHA512Compress s b))
     [0x6a09e667f3bcc908, 0xbb67ae8584caa73b, 0x3c6ef372fe94f82b, 0xa54ff53a5f1d36f1,
      0x510e527fade682d1, 0x9b05688c2b3e6c1f, 0x1f83d9abfb41bd6b, 0x5be0cd19137e2179]
     (blocks 128 (md_pad 128 (replicate 8 0 @ UInt64SetBE (8 * word_of_nat (length data))) data))))"
  unfolding SHA512_def Let_def sha2_len64_eq
  by (subst sha512.md_correct) (simp_all add: bytes64_be64 length_foldl_compress length_compress)

lemma SHA384_md: "SHA384 data = concat (map UInt64SetBE (take 6 (foldl (\<lambda>s b. fst (SHA512Compress s b))
     [0xcbbb9d5dc1059ed8, 0x629a292a367cd507, 0x9159015a3070dd17, 0x152fecd8f70e5939,
      0x67332667ffc00b31, 0x8eb44a8768581511, 0xdb0c2e0d64f98fa7, 0x47b5481dbefa4fa4]
     (blocks 128 (md_pad 128 (replicate 8 0 @ UInt64SetBE (8 * word_of_nat (length data))) data)))))"
  unfolding SHA384_def Let_def sha2_len64_eq
  by (subst sha512.md_correct) (simp_all add: bytes64_be64)

lemma SHA1_md: "SHA1 data = concat (map UInt32SetBE (foldl (\<lambda>s b. fst (SHA1Compress s (b @ replicate 256 0)))
     [0x67452301, 0xefcdab89, 0x98badcfe, 0x10325476, 0xc3d2e1f0]
     (blocks 64 (md_pad 64 (UInt64SetBE (8 * word_of_nat (length data))) data))))"
proof -
  have "SHA1 data = bytes32 (map be32 (take 5 (md_final SHA1Compress 64 (sha2_len32 (length data)) (length data)
     (md_loop SHA1Compress 64 False data 0 (replicate 320 0)
                 [0x67452301, 0xefcdab89, 0x98badcfe, 0x10325476, 0xc3d2e1f0]))))"
    unfolding SHA1_def Let_def sha2_len32_def ..
  then show ?thesis unfolding sha2_len32_eq
    by (subst (asm) sha1.md_correct)
       (simp_all add: bytes32_be32 length_foldl_compress length_compress)
qed

lemma RMD160_md: "RMD160 data = bytes32 (foldl (\<lambda>s b. fst (RMDCompress s b))
     [0x67452301, 0xefcdab89, 0x98badcfe, 0x10325476, 0xc3d2e1f0]
     (blocks 64 (md_pad 64 (UInt64SetLE (8 * word_of_nat (length data))) data)))"
  unfolding RMD160_def Let_def md_len_le_eq
  by (subst rmd160.md_correct) (simp_all add: length_foldl_compress length_compress)

lemma MD5_md: "MD5 data = bytes32 (foldl (\<lambda>s b. fst (MD5Compress s b))
     [0x67452301, 0xefcdab89, 0x98badcfe, 0x10325476]
     (blocks 64 (md_pad 64 (UInt64SetLE (8 * word_of_nat (length data))) data)))"
  unfolding MD5_def Let_def md_len_le_eq
  by (subst md5.md_correct) (simp_all add: length_foldl_compress length_compress)

lemma length_concat_stores:
  "length (concat (map UInt32SetBE ws)) = 4 * length ws" "length (concat (map UInt64SetBE vs)) = 8 * length vs"
  by (induction ws, simp_all) (induction vs, simp_all)

lemma length_digests [simp, size_simps]:
  "length (SHA1 d) = 20" "length (SHA224 d) = 28" "length (SHA256 d) = 32" "length (SHA384 d) = 48"
  "length (SHA512 d) = 64" "length (RMD160 d) = 20" "length (MD5 d) = 16" "length (SHA256_2 d) = 32"
  "length (Hash160 d) = 20"
  by (simp_all add: SHA1_md SHA224_md SHA256_md SHA384_md SHA512_md RMD160_md MD5_md SHA256_2_def
      Hash160_def length_concat_stores length_foldl_compress length_compress)

section \<open>HMAC and the constructions on it\<close>

text \<open>RFC 2104, RFC 2898 and the output function of HMAC-DRBG, for an arbitrary hash function.\<close>

definition hmac_key :: "(bytes \<Rightarrow> bytes) \<Rightarrow> nat \<Rightarrow> bytes \<Rightarrow> bytes" where
  "hmac_key hash blockLen key =
     (let k = (if length key > blockLen then hash key else key) in k @ replicate (blockLen - length k) 0)"

definition hmac_ref :: "(bytes \<Rightarrow> bytes) \<Rightarrow> nat \<Rightarrow> bytes \<Rightarrow> bytes \<Rightarrow> bytes" where
  "hmac_ref hash blockLen key data =
     (let k = hmac_key hash blockLen key
      in hash (map (\<lambda>b. b XOR 0x5c) k @ hash (map (\<lambda>b. b XOR 0x36) k @ data)))"

definition pbkdf2_U :: "(bytes \<Rightarrow> bytes) \<Rightarrow> nat \<Rightarrow> bytes \<Rightarrow> bytes \<Rightarrow> nat \<Rightarrow> nat \<Rightarrow> bytes" where
  "pbkdf2_U hash blockLen pw salt i n =
     (hmac_ref hash blockLen pw ^^ n) (hmac_ref hash blockLen pw (salt @ UInt32SetBE (word_of_nat i)))"

definition pbkdf2_F :: "(bytes \<Rightarrow> bytes) \<Rightarrow> nat \<Rightarrow> bytes \<Rightarrow> bytes \<Rightarrow> nat \<Rightarrow> nat \<Rightarrow> bytes" where
  "pbkdf2_F hash blockLen pw salt rounds i =
     foldl (map2 (XOR)) (pbkdf2_U hash blockLen pw salt i 0) (map (pbkdf2_U hash blockLen pw salt i) [1..<rounds])"

text \<open>The hash functions with the digest and block sizes their standards give, in bytes.\<close>

definition standard_hashes :: "((bytes \<Rightarrow> bytes) \<times> nat \<times> nat) list" where
  "standard_hashes = [(MD5, 16, 64), (SHA1, 20, 64), (RMD160, 20, 64), (SHA224, 28, 64), (SHA256, 32, 64),
     (SHA384, 48, 128), (SHA512, 64, 128)]"

definition hmac_block :: "nat \<Rightarrow> nat" where
  "hmac_block hashLen = (if hashLen > 32 then 128 else 64)"

declare drbg_loop.simps [simp del]

lemma less_chunks_iff: "0 < h \<Longrightarrow> i < (L + h - 1) div h \<longleftrightarrow> i * h < (L :: nat)"
proof -
  assume h: "0 < h"
  have "i < (L + h - 1) div h \<longleftrightarrow> Suc i * h \<le> L + h - 1"
    using h by (simp only: less_eq_div_iff_mult_less_eq Suc_le_eq [symmetric])
  also have "\<dots> \<longleftrightarrow> i * h < L" using h by auto
  finally show ?thesis .
qed

lemma le_round8: "(n :: nat) \<le> 8 * (n div 8 + 1)"
  by presburger

lemma concat_chunks:
  assumes "\<And>i. length (T i) = h" and "h > 0" and "c \<le> (L + h - 1) div h"
  shows "concat (map (\<lambda>i. take (if i * h + h \<le> L then h else L mod h) (T i)) [0..<c]) =
     take L (concat (map T [0..<c]))"
  using assms(3)
proof (induction c)
  case (Suc c)
  have len: "length (concat (map T [0..<c])) = c * h"
    by (induction c) (simp_all add: assms(1))
  have c: "c * h < L" using Suc.prems assms(2) less_chunks_iff [of h c L] by simp
  have "take (if c * h + h \<le> L then h else L mod h) (T c) = take (L - c * h) (T c)"
  proof (cases "c * h + h \<le> L")
    case False
    then have "L div h = c" using c by (intro div_nat_eqI) (auto simp: algebra_simps)
    then have "L mod h = L - c * h" by (metis minus_div_mult_eq_mod)
    then show ?thesis using False by simp
  qed (simp add: assms(1))
  then show ?case using Suc c len by simp
qed simp

locale hash_fun =
  fixes hash :: "bytes \<Rightarrow> bytes" and hashLen :: nat
  assumes hash_length [simp]: "length (hash d) = hashLen"
    and hashLen_pos: "0 < hashLen" and hashLen_mod: "hashLen mod 4 = 0" and hashLen_le: "hashLen \<le> 128"
begin

abbreviation "hmac \<equiv> hmac_ref hash (hmac_block hashLen)"

lemma length_hmac [simp]: "length (hmac k d) = hashLen"
  by (simp add: hmac_ref_def Let_def)

lemma length_hmac_key: "length (hmac_key hash (hmac_block hashLen) key) = hmac_block hashLen"
  using hashLen_le by (auto simp: hmac_key_def hmac_block_def Let_def)

lemma pad_buffer:
  assumes "length (k :: bytes) \<le> B" and "B + n \<le> m"
  shows "\<exists>r. wr (replicate m 0) 0 k = Some (k @ replicate (B - length k) 0 @ replicate n 0 @ r) \<and>
     length r = m - B - n"
proof -
  have "m - length k = (B - length k) + (n + (m - B - n))" using assms by simp
  then have "replicate (m - length k) (0::u8) =
      replicate (B - length k) 0 @ replicate n 0 @ replicate (m - B - n) 0"
    by (metis replicate_add)
  then show ?thesis using assms
    by (intro exI [of _ "replicate (m - B - n) 0"]) (simp add: wr_def put_def)
qed

lemma wr_after:
  assumes "length a = B" and "length (b :: bytes) = length d"
  shows "wr (a @ b @ r) B d = Some (a @ d @ r)"
  using assms by (simp add: wr_def put_mid)

lemma hmac_correct: "HMAC hash hashLen key data = Some (hmac key data)"
proof -
  let ?B = "hmac_block hashLen"
  define k where "k = (if length key > ?B then hash key else key)"
  define K where "K = hmac_key hash (hmac_block hashLen) key"
  have k: "length k \<le> ?B" using hashLen_le by (auto simp: k_def hmac_block_def)
  have K: "K = k @ replicate (?B - length k) 0" "length K = ?B"
    by (simp add: K_def hmac_key_def k_def Let_def, simp add: K_def length_hmac_key)
  let ?si = "8 * ((?B + length data) div 8 + 1)" and ?so = "8 * ((?B + hashLen) div 8 + 1)"
  obtain ri where ri: "wr (replicate ?si 0) 0 k = Some (K @ replicate (length data) 0 @ ri)"
    using pad_buffer [OF k le_round8, of "length data"] by (auto simp: K)
  obtain ro where ro: "wr (replicate ?so 0) 0 k = Some (K @ replicate hashLen 0 @ ro)"
    using pad_buffer [OF k le_round8, of hashLen] by (auto simp: K)
  have x: "xor_pad p ?B (K @ s) = map (\<lambda>b. b XOR p) K @ s" for p s
    by (simp add: xor_pad_def K(2))
  have "HMAC hash hashLen key data = do {
      kipad \<leftarrow> wr (replicate ?si 0) 0 k; let kipad = xor_pad 0x36 ?B kipad;
      kopad \<leftarrow> wr (replicate ?so 0) 0 k; let kopad = xor_pad 0x5c ?B kopad;
      kipad \<leftarrow> wr kipad ?B data;
      kopad \<leftarrow> wr kopad ?B (hash (take (?B + length data) kipad));
      Some (hash (take (?B + hashLen) kopad)) }"
    using hashLen_pos hashLen_mod
    unfolding HMAC_def hmac_block_def [symmetric] Let_def k_def by simp
  also have "\<dots> = Some (hmac key data)"
    unfolding ri ro by (simp add: x K(2) wr_after hmac_ref_def flip: K_def)
  finally show ?thesis .
qed

lemma rounds_correct:
  "pbkdf2_rounds hash hashLen pw r U T = Some (foldl (map2 (XOR)) T (map (\<lambda>n. (hmac pw ^^ n) U) [1..<Suc r]))"
proof (induction r arbitrary: U T)
  case (Suc r)
  have "map (\<lambda>n. (hmac pw ^^ n) U) [1..<Suc (Suc r)] =
      hmac pw U # map (\<lambda>n. (hmac pw ^^ n) (hmac pw U)) [1..<Suc r]"
    by (subst upt_conv_Cons)
       (auto simp: map_Suc_upt [symmetric] funpow_swap1 comp_def simp del: upt_Suc)
  with Suc show ?case by (simp add: hmac_correct del: upt_Suc)
qed simp

lemma length_pbkdf2_F: "length (pbkdf2_F hash (hmac_block hashLen) pw salt rounds i) = hashLen"
proof -
  have "length (pbkdf2_U hash (hmac_block hashLen) pw salt i n) = hashLen" for n
    by (cases n) (simp_all add: pbkdf2_U_def)
  moreover have "length (foldl (map2 (XOR)) T Us) = hashLen"
    if "length T = hashLen" "\<forall>U \<in> set Us. length U = hashLen" for T and Us :: "bytes list"
    using that by (induction Us arbitrary: T) auto
  ultimately show ?thesis by (simp add: pbkdf2_F_def)
qed

lemma blocks_correct:
  "rounds > 0 \<Longrightarrow> pbkdf2_blocks hash hashLen dkLen pw salt rounds is dk = Some (dk @
     concat (map (\<lambda>i. take (if i * hashLen + hashLen \<le> dkLen then hashLen else dkLen mod hashLen)
       (pbkdf2_F hash (hmac_block hashLen) pw salt rounds (i + 1))) is))"
proof (induction "is" arbitrary: dk)
  case (Cons i "is")
  have "Suc (rounds - 1) = rounds" using Cons.prems by simp
  then have "pbkdf2_rounds hash hashLen pw (rounds - 1) (pbkdf2_U hash (hmac_block hashLen) pw salt (i + 1) 0)
      (pbkdf2_U hash (hmac_block hashLen) pw salt (i + 1) 0) = Some (pbkdf2_F hash (hmac_block hashLen) pw salt rounds (i + 1))"
    unfolding rounds_correct pbkdf2_F_def by (simp add: pbkdf2_U_def [abs_def])
  then show ?case using Cons
    by (simp add: hmac_correct UInt32SetLE_be32 pbkdf2_U_def)
qed simp

lemma pbkdf2_correct:
  assumes "rounds > 0" and "(dkLen + hashLen - 1) div hashLen < 2 ^ 32"
  shows "PBKDF2 dkLen hash hashLen pw salt rounds = Some (take dkLen (concat
     (map (\<lambda>i. pbkdf2_F hash (hmac_block hashLen) pw salt rounds (i + 1)) [0..<(dkLen + hashLen - 1) div hashLen])))"
  using assms hashLen_pos hashLen_mod
  by (simp add: PBKDF2_def blocks_correct concat_chunks length_pbkdf2_F)

lemma drbg_loop_correct:
  assumes "i \<le> (outLen + hashLen - 1) div hashLen"
  shows "drbg_loop hash hashLen outLen K i ((hmac K ^^ i) V) out =
     Some (out @ concat (map (\<lambda>i. take (if i * hashLen + hashLen \<le> outLen then hashLen else outLen mod hashLen)
             ((hmac K ^^ Suc i) V)) [i..<(outLen + hashLen - 1) div hashLen]),
           (hmac K ^^ ((outLen + hashLen - 1) div hashLen)) V)"
  using assms
proof (induction "(outLen + hashLen - 1) div hashLen - i" arbitrary: i out)
  case 0
  then have "(outLen + hashLen - 1) div hashLen \<le> i" by simp
  then have "\<not> i * hashLen < outLen" using less_chunks_iff [OF hashLen_pos] not_less by blast
  with 0 show ?case by (subst drbg_loop.simps) auto
next
  case (Suc n)
  let ?c = "(outLen + hashLen - 1) div hashLen"
  have i: "i < ?c" using Suc by simp
  then have lt: "i * hashLen < outLen" using less_chunks_iff [OF hashLen_pos] by blast
  have "drbg_loop hash hashLen outLen K i ((hmac K ^^ i) V) out =
      drbg_loop hash hashLen outLen K (Suc i) ((hmac K ^^ Suc i) V)
        (out @ take (if i * hashLen + hashLen \<le> outLen then hashLen else outLen mod hashLen) ((hmac K ^^ Suc i) V))"
    using lt hashLen_pos by (subst drbg_loop.simps) (simp add: hmac_correct)
  also have "\<dots> = Some ((out @ take (if i * hashLen + hashLen \<le> outLen then hashLen else outLen mod hashLen) ((hmac K ^^ Suc i) V))
     @ concat (map (\<lambda>i. take (if i * hashLen + hashLen \<le> outLen then hashLen else outLen mod hashLen)
             ((hmac K ^^ Suc i) V)) [Suc i..<?c]), (hmac K ^^ ?c) V)"
    using Suc i by (intro Suc.hyps(1)) auto
  finally show ?case using i by (simp add: upt_conv_Cons)
qed

lemma drbg_loop_all:
  "drbg_loop hash hashLen outLen K 0 V [] = Some
     (take outLen (concat (map (\<lambda>i. (hmac K ^^ Suc i) V) [0..<(outLen + hashLen - 1) div hashLen])),
      (hmac K ^^ ((outLen + hashLen - 1) div hashLen)) V)"
  using drbg_loop_correct [of 0 outLen K V "[]"]
    concat_chunks [of "\<lambda>i. (hmac K ^^ Suc i) V", OF _ hashLen_pos order_refl] by simp

lemma drbg_fresh_correct:
  assumes "seed \<noteq> None \<or> nonce \<noteq> None \<or> ps \<noteq> None"
    and "rest = case_option [] id seed @ case_option [] id nonce @ case_option [] id ps"
    and "K1 = hmac (replicate hashLen 0) (replicate hashLen 1 @ [0] @ rest)"
    and "V1 = hmac K1 (replicate hashLen 1)" and "K2 = hmac K1 (V1 @ [1] @ rest)" and "V2 = hmac K2 V1"
  shows "HMACDRBG outLen K V hash hashLen seed nonce ps = Some
     (take outLen (concat (map (\<lambda>i. (hmac K2 ^^ Suc i) V2) [0..<(outLen + hashLen - 1) div hashLen])),
      K2, (hmac K2 ^^ ((outLen + hashLen - 1) div hashLen)) V2)"
proof -
  have "(\<lambda>p. case p of None \<Rightarrow> [] | Some b \<Rightarrow> b) = case_option [] (id :: bytes \<Rightarrow> bytes)"
    by (auto simp: fun_eq_iff split: option.split)
  then show ?thesis using assms
    by (simp add: HMACDRBG_def Let_def hmac_correct drbg_loop_all)
qed

lemma drbg_more_correct:
  assumes "length V = hashLen" and "K1 = hmac K (V @ [0])" and "V1 = hmac K1 V"
  shows "HMACDRBG outLen K V hash hashLen None None None = Some
     (take outLen (concat (map (\<lambda>i. (hmac K1 ^^ Suc i) V1) [0..<(outLen + hashLen - 1) div hashLen])),
      K1, (hmac K1 ^^ ((outLen + hashLen - 1) div hashLen)) V1)"
  using assms by (simp add: HMACDRBG_def Let_def hmac_correct drbg_loop_all)

end

interpretation md5_hash: hash_fun MD5 16 by unfold_locales simp_all
interpretation rmd160_hash: hash_fun RMD160 20 by unfold_locales simp_all
interpretation sha1_hash: hash_fun SHA1 20 by unfold_locales simp_all
interpretation sha224_hash: hash_fun SHA224 28 by unfold_locales simp_all
interpretation sha256_hash: hash_fun SHA256 32 by unfold_locales simp_all
interpretation sha384_hash: hash_fun SHA384 48 by unfold_locales simp_all
interpretation sha512_hash: hash_fun SHA512 64 by unfold_locales simp_all

lemma standard_hash_fun:
  "(H, n, B) \<in> set standard_hashes \<Longrightarrow> hash_fun H n \<and> B = hmac_block n"
  unfolding standard_hashes_def hmac_block_def
  using md5_hash.hash_fun_axioms rmd160_hash.hash_fun_axioms sha1_hash.hash_fun_axioms
    sha224_hash.hash_fun_axioms sha256_hash.hash_fun_axioms sha384_hash.hash_fun_axioms
    sha512_hash.hash_fun_axioms
  by auto

section \<open>X16R selection\<close>

text \<open>The sixteen selectors: the hexadecimal digits of the first eight bytes of the previous block
  hash, most significant byte first.\<close>

definition x16r_sel :: "bytes \<Rightarrow> nat list" where
  "x16r_sel prev = concat (map (\<lambda>b. [unat b div 16, unat b mod 16]) (rev (take 8 prev)))"

definition x16rv2_hash :: "(nat \<Rightarrow> bytes \<Rightarrow> bytes) \<Rightarrow> (bytes \<Rightarrow> bytes) \<Rightarrow> nat \<Rightarrow> bytes \<Rightarrow> bytes" where
  "x16rv2_hash sph tiger s d = (if s \<in> {4, 6, 15} then sph s (tiger d @ replicate 40 0) else sph s d)"

lemma unat_and_15: "unat (b AND 0x0F :: u8) = unat b mod 16"
proof -
  have "(0x0F :: u8) = mask 4" by (simp add: mask_eq_exp_minus_1)
  then have "unat (b AND 0x0F) = unat (take_bit 4 b)" by (simp add: take_bit_eq_mask)
  then show ?thesis by (simp only: unsigned_take_bit_eq) (simp add: take_bit_eq_mod)
qed

lemma GetHashSelection_nth:
  assumes "i < 16" and "8 \<le> length prev"
  shows "GetHashSelection prev i = Some (x16r_sel prev ! i)"
proof -
  define j where "j = i div 2"
  have j: "j < 8" "7 - j < length prev" using assms by (simp_all add: j_def)
  have r: "rev (take 8 prev) ! j = prev ! (7 - j)" "length (rev (take 8 prev)) = 8"
    using assms j by (simp_all add: rev_nth)
  have sel: "x16r_sel prev ! (2 * j) = unat (prev ! (7 - j)) div 16"
    "x16r_sel prev ! (Suc (2 * j)) = unat (prev ! (7 - j)) mod 16"
    unfolding x16r_sel_def using assms(2) r j by (simp_all add: nth_concat_pairs)
  show ?thesis
  proof (cases "even i")
    case True
    then have i: "i = 2 * j" by (simp add: j_def)
    have "(63 - (48 + i)) div 2 = 7 - j" "(63 - (48 + i)) mod 2 = 1" using i j by presburger+
    then show ?thesis using assms j sel
      by (simp add: GetHashSelection_def GetNibble_def Let_def rd_def i unat_drop_bit)
  next
    case False
    then have i: "i = Suc (2 * j)" by (simp add: j_def)
    have "(63 - (48 + i)) div 2 = 7 - j" "(63 - (48 + i)) mod 2 = 0" using i j by presburger+
    then show ?thesis using assms j sel
      by (simp add: GetHashSelection_def GetNibble_def Let_def rd_def i unat_and_15)
  qed
qed

lemma length_x16r_sel: "8 \<le> length prev \<Longrightarrow> length (x16r_sel prev) = 16"
proof -
  assume "8 \<le> length prev"
  moreover have "length (concat (map (\<lambda>b. [unat b div 16, unat b mod 16]) xs)) = 2 * length xs" for xs :: bytes
    by (induction xs) auto
  ultimately show ?thesis by (simp add: x16r_sel_def)
qed

lemma put_all: "length b = length buf \<Longrightarrow> put 0 b buf = b"
  by (simp add: put_def)

lemma x16r_loop_tail:
  assumes "\<And>s d. length (sph s d) = 64" and "12 \<le> length data"
  shows "length ht = 64 \<Longrightarrow> \<forall>i \<in> set is. 0 < i \<and> i < 16 \<Longrightarrow>
     x16r_loop sph data is ht = Some (fold (\<lambda>i. sph (x16r_sel (drop 4 data) ! i)) is ht)"
  by (induction "is" arbitrary: ht) (use assms in \<open>auto simp: GetHashSelection_nth put_all\<close>)

lemma x16rv2_loop_tail:
  assumes "\<And>s d. length (sph s d) = 64" and "\<And>d. length (tiger d) = 24" and "12 \<le> length data"
  shows "length ht = 64 \<Longrightarrow> \<forall>i \<in> set is. 0 < i \<and> i < 16 \<Longrightarrow>
     x16rv2_loop sph tiger data is ht =
       Some (fold (\<lambda>i. x16rv2_hash sph tiger (x16r_sel (drop 4 data) ! i)) is ht)"
proof (induction "is" arbitrary: ht)
  case (Cons i "is")
  have "put 24 (replicate 40 0) (put 0 (tiger d) ht) = tiger d @ replicate 40 0" for d
    using Cons.prems assms(2) by (simp add: put_def)
  with Cons assms show ?case by (simp add: GetHashSelection_nth put_all x16rv2_hash_def Let_def)
qed simp

lemma fold_nth: "fold (\<lambda>i. f (xs ! i)) [0..<length xs] = fold f xs"
  using fold_map [of f "(!) xs" "[0..<length xs]"] by (simp add: map_nth comp_def)

lemma upt_0_16: "[0..<16] = 0 # [Suc 0..<16]"
  by (simp add: upt_conv_Cons)

lemma x16r_loop_all:
  assumes "\<And>s d. length (sph s d) = 64" and "12 \<le> length data" and "length ht = 64"
  shows "x16r_loop sph data [0..<16] ht = Some (fold sph (x16r_sel (drop 4 data)) data)"
proof -
  let ?f = "\<lambda>i. sph (x16r_sel (drop 4 data) ! i)"
  have "x16r_loop sph data (0 # [Suc 0..<16]) ht = Some (fold ?f [Suc 0..<16] (?f 0 data))"
    using assms by (simp add: GetHashSelection_nth put_all x16r_loop_tail)
  also have "\<dots> = Some (fold ?f [0..<length (x16r_sel (drop 4 data))] data)"
    using assms(2) by (simp add: length_x16r_sel upt_0_16 del: upt_Suc)
  finally show ?thesis unfolding fold_nth upt_0_16 .
qed

lemma x16rv2_loop_all:
  assumes "\<And>s d. length (sph s d) = 64" and "\<And>d. length (tiger d) = 24" and "12 \<le> length data"
    and "length ht = 64"
  shows "x16rv2_loop sph tiger data [0..<16] ht =
     Some (fold (x16rv2_hash sph tiger) (x16r_sel (drop 4 data)) data)"
proof -
  let ?f = "\<lambda>i. x16rv2_hash sph tiger (x16r_sel (drop 4 data) ! i)"
  have "put 24 (replicate 40 0) (put 0 (tiger d) ht) = tiger d @ replicate 40 0" for d
    using assms(2,4) by (simp add: put_def)
  then have "x16rv2_loop sph tiger data (0 # [Suc 0..<16]) ht = Some (fold ?f [Suc 0..<16] (?f 0 data))"
    using assms by (simp add: GetHashSelection_nth put_all x16rv2_loop_tail x16rv2_hash_def Let_def)
  also have "\<dots> = Some (fold ?f [0..<length (x16r_sel (drop 4 data))] data)"
    using assms(3) by (simp add: length_x16r_sel upt_0_16 del: upt_Suc)
  finally show ?thesis unfolding fold_nth upt_0_16 .
qed

section \<open>Correctness of the hash layer\<close>

text \<open>C3: \<open>SHA1\<close>, \<open>SHA224\<close>, \<open>SHA256\<close>, \<open>RMD160\<close> and \<open>MD5\<close>, with their block loop, their handling of the
  partial last block and of a length field that needs one more block, compute the Merkle-Damgard
  iteration of their compression function from their initial value over the padded message (message,
  0x80, zeros, 64-bit length in bits, to a multiple of the block size), SHA-224 cut to seven words, and
  their digests have the announced sizes.\<close>

theorem hash32_merkle_damgard:
  "SHA256 data = concat (map UInt32SetBE (foldl (\<lambda>s b. fst (SHA256Compress s b))
     [0x6a09e667, 0xbb67ae85, 0x3c6ef372, 0xa54ff53a, 0x510e527f, 0x9b05688c, 0x1f83d9ab, 0x5be0cd19]
     (blocks 64 (md_pad 64 (UInt64SetBE (8 * word_of_nat (length data))) data)))) \<and>
   SHA224 data = concat (map UInt32SetBE (take 7 (foldl (\<lambda>s b. fst (SHA256Compress s b))
     [0xc1059ed8, 0x367cd507, 0x3070dd17, 0xf70e5939, 0xffc00b31, 0x68581511, 0x64f98fa7, 0xbefa4fa4]
     (blocks 64 (md_pad 64 (UInt64SetBE (8 * word_of_nat (length data))) data))))) \<and>
   SHA1 data = concat (map UInt32SetBE (foldl (\<lambda>s b. fst (SHA1Compress s (b @ replicate 256 0)))
     [0x67452301, 0xefcdab89, 0x98badcfe, 0x10325476, 0xc3d2e1f0]
     (blocks 64 (md_pad 64 (UInt64SetBE (8 * word_of_nat (length data))) data)))) \<and>
   RMD160 data = concat (map UInt32SetLE (foldl (\<lambda>s b. fst (RMDCompress s b))
     [0x67452301, 0xefcdab89, 0x98badcfe, 0x10325476, 0xc3d2e1f0]
     (blocks 64 (md_pad 64 (UInt64SetLE (8 * word_of_nat (length data))) data)))) \<and>
   MD5 data = concat (map UInt32SetLE (foldl (\<lambda>s b. fst (MD5Compress s b))
     [0x67452301, 0xefcdab89, 0x98badcfe, 0x10325476]
     (blocks 64 (md_pad 64 (UInt64SetLE (8 * word_of_nat (length data))) data)))) \<and>
   length (SHA256 data) = 32 \<and> length (SHA224 data) = 28 \<and> length (SHA1 data) = 20 \<and>
   length (RMD160 data) = 20 \<and> length (MD5 data) = 16 \<and> length (Hash160 data) = 20"
  using SHA256_md [of data] SHA224_md [of data] SHA1_md [of data] RMD160_md [of data] MD5_md [of data]
    length_digests
  unfolding bytes32_def by blast

text \<open>\<open>SHA512\<close> and \<open>SHA384\<close> are the Merkle-Damgard iteration over 128-byte blocks with a 128-bit
  length field.\<close>

theorem hash64_merkle_damgard:
  "SHA512 data = concat (map UInt64SetBE (foldl (\<lambda>s b. fst (SHA512Compress s b))
     [0x6a09e667f3bcc908, 0xbb67ae8584caa73b, 0x3c6ef372fe94f82b, 0xa54ff53a5f1d36f1,
      0x510e527fade682d1, 0x9b05688c2b3e6c1f, 0x1f83d9abfb41bd6b, 0x5be0cd19137e2179]
     (blocks 128 (md_pad 128 (replicate 8 0 @ UInt64SetBE (8 * word_of_nat (length data))) data)))) \<and>
   SHA384 data = concat (map UInt64SetBE (take 6 (foldl (\<lambda>s b. fst (SHA512Compress s b))
     [0xcbbb9d5dc1059ed8, 0x629a292a367cd507, 0x9159015a3070dd17, 0x152fecd8f70e5939,
      0x67332667ffc00b31, 0x8eb44a8768581511, 0xdb0c2e0d64f98fa7, 0x47b5481dbefa4fa4]
     (blocks 128 (md_pad 128 (replicate 8 0 @ UInt64SetBE (8 * word_of_nat (length data))) data))))) \<and>
   length (SHA512 data) = 64 \<and> length (SHA384 data) = 48"
  using SHA512_md [of data] SHA384_md [of data] length_digests by blast

text \<open>C4: over each of the hash functions (MD5, SHA-1, RIPEMD-160, SHA-224, SHA-256, SHA-384, SHA-512)
  called with its digest size, \<open>HMAC\<close> passes its assertion, stays inside its pad arrays and returns the
  RFC 2104 value for the block size of that hash function, for keys shorter and longer than a block;
  and \<open>PBKDF2\<close> returns the first \<open>dkLen\<close> bytes of the RFC 2898 key stream T(1), T(2), ... when there is at
  least one round and the number of blocks fits its 32-bit counter.\<close>

theorem hmac_pbkdf2_correct:
  assumes "(H, hLen, B) \<in> set standard_hashes" and "rounds > 0"
    and "(dkLen + hLen - 1) div hLen < 2 ^ 32"
  shows "HMAC H hLen key data = Some (hmac_ref H B key data) \<and>
     PBKDF2 dkLen H hLen pw salt rounds = Some (take dkLen (concat
       (map (\<lambda>i. pbkdf2_F H B pw salt rounds (i + 1)) [0..<(dkLen + hLen - 1) div hLen])))"
proof -
  from standard_hash_fun [OF assms(1)] have h: "hash_fun H hLen" and B: "B = hmac_block hLen" by auto
  show ?thesis
    unfolding B using hash_fun.hmac_correct [OF h] hash_fun.pbkdf2_correct [OF h assms(2,3)] by blast
qed

theorem hmac_pbkdf2_correct_witness:
  "HMAC SHA512 64 [1] [2] = Some (hmac_ref SHA512 128 [1] [2]) \<and>
   PBKDF2 64 SHA512 64 [1] [2] 2048 = Some (take 64 (pbkdf2_F SHA512 128 [1] [2] 2048 1)) \<and>
   PBKDF2 128 SHA256 32 [1] [2] 1 = Some (take 128 (concat
     (map (\<lambda>i. pbkdf2_F SHA256 64 [1] [2] 1 (i + 1)) [0..<4])))"
  using hmac_pbkdf2_correct [of SHA512 64 128 2048 64 "[1]" "[2]" "[1]" "[2]"]
    hmac_pbkdf2_correct [of SHA256 32 64 1 128 "[1]" "[2]" "[1]" "[2]"]
  by (simp add: standard_hashes_def)

text \<open>A fresh \<open>HMACDRBG\<close> call over SHA-256 derives its key and value by the two update steps of
  HMAC-DRBG from seed, nonce and personalization string, and fills exactly \<open>outLen\<close> bytes with the
  iterates of \<open>V = HMAC(K, V)\<close>, the last one cut to what is left; the final \<open>K\<close> and \<open>V\<close> are left for the
  next call.\<close>

theorem hmacdrbg_fresh:
  assumes "K1 = hmac_ref SHA256 64 (replicate 32 0) (replicate 32 1 @ [0] @ seed @ nonce @ ps)"
    and "V1 = hmac_ref SHA256 64 K1 (replicate 32 1)"
    and "K2 = hmac_ref SHA256 64 K1 (V1 @ [1] @ seed @ nonce @ ps)" and "V2 = hmac_ref SHA256 64 K2 V1"
  shows "HMACDRBG outLen K V SHA256 32 (Some seed) (Some nonce) (Some ps) = Some
     (take outLen (concat (map (\<lambda>i. (hmac_ref SHA256 64 K2 ^^ Suc i) V2) [0..<(outLen + 31) div 32])),
      K2, (hmac_ref SHA256 64 K2 ^^ ((outLen + 31) div 32)) V2)"
  using sha256_hash.drbg_fresh_correct [of "Some seed" "Some nonce" "Some ps", OF _ refl _ _ _ _, of K1 V1 K2 V2 outLen K V] assms
  by (simp add: add.commute hmac_block_def)

theorem hmacdrbg_fresh_witness:
  "\<exists>out K V. HMACDRBG 40 [] [] SHA256 32 (Some [1]) (Some [2]) (Some [3]) = Some (out, K, V)"
  using hmacdrbg_fresh [OF refl refl refl refl, of 40 "[]" "[]" "[1]" "[2]" "[3]"] by blast

text \<open>Given sixteen hash functions with 64-byte digests and a Tiger hash with 24-byte digest, \<open>X16R\<close>
  and \<open>X16Rv2\<close> of a header of at least twelve bytes apply, in this order, the functions selected by the
  hexadecimal digits of the low eight bytes of the previous block hash (the last sixteen digits as
  displayed), \<open>X16Rv2\<close> with Tiger first for selectors 4, 6 and 15, and return the first 32 bytes.\<close>

theorem x16r_selection:
  assumes "\<And>s d. length (sph s d) = 64" and "\<And>d. length (tiger d) = 24" and "12 \<le> length data"
  shows "X16R sph data = Some (take 32 (fold sph (x16r_sel (drop 4 data)) data)) \<and>
     X16Rv2 sph tiger data = Some (take 32 (fold (x16rv2_hash sph tiger) (x16r_sel (drop 4 data)) data)) \<and>
     length (x16r_sel (drop 4 data)) = 16"
  using x16r_loop_all [of sph data "replicate 64 0"] x16rv2_loop_all [of sph tiger data "replicate 64 0"] assms
  by (simp add: X16R_def X16Rv2_def trim512to256_def length_x16r_sel)

theorem x16r_selection_witness:
  "X16R (\<lambda>s d. replicate 64 (word_of_nat s)) (replicate 80 0xab) =
     Some (take 32 (fold (\<lambda>s d. replicate 64 (word_of_nat s)) (x16r_sel (drop 4 (replicate 80 0xab)))
       (replicate 80 0xab)))"
  using x16r_selection [of "\<lambda>s d. replicate 64 (word_of_nat s)" "\<lambda>d. replicate 24 0" "replicate 80 0xab"]
  by simp

end
