(* ===== verification/BRBase58.thy ===== *)
theory BRBase58
  imports BRHash
begin

text \<open>
  \<open>BRBase58.c\<close>: base58 and base58check.  A string is the list of its characters without the terminating
  NUL; an output buffer is \<open>None\<close> for \<open>NULL\<close> or \<open>Some\<close> of its bytes, and an operation returns the
  buffer after the call with the C return value.
\<close>

section \<open>Encoding\<close>

definition base58chars :: bytes where
  "base58chars = ascii ''123456789ABCDEFGHJKLMNPQRSTUVWXYZabcdefghijkmnopqrstuvwxyz''"

fun count_leading :: "'a \<Rightarrow> 'a list \<Rightarrow> nat" where
  "count_leading z [] = 0"
| "count_leading z (x # xs) = (if x = z then Suc (count_leading z xs) else 0)"

text \<open>The inner loop of \<open>BRBase58Encode\<close>, from the last digit of \<open>buf\<close> to the first.\<close>

fun base58_enc_carry :: "nat \<Rightarrow> bytes \<Rightarrow> u32 \<Rightarrow> bytes" where
  "base58_enc_carry 0 buf carry = buf"
| "base58_enc_carry (Suc j) buf carry =
     (let carry = carry + push_bit 8 (ucast (buf ! j));
          buf = buf[j := ucast (carry mod 58)];
          carry = carry div 58
      in base58_enc_carry j buf carry)"

definition base58_enc_digits :: "bytes \<Rightarrow> bytes" where
  "base58_enc_digits data =
     (let zcount = count_leading 0 data;
          buf = replicate ((length data - zcount) * 138 div 100 + 1) 0
      in fold (\<lambda>d buf. base58_enc_carry (length buf) buf (ucast d)) (drop zcount data) buf)"

definition BRBase58Encode :: "bytes option \<Rightarrow> bytes \<Rightarrow> bytes option \<times> nat" where
  "BRBase58Encode str data =
     (let zcount = count_leading 0 data;
          buf = base58_enc_digits data;
          i = count_leading 0 buf;
          len = zcount + length buf - i + 1
      in case str of
           None \<Rightarrow> (None, len)
         | Some s \<Rightarrow>
             if len \<le> length s
             then (Some (put 0 (replicate zcount (base58chars ! 0) @
                     map (\<lambda>d. base58chars ! unat d) (drop i buf) @ [0]) s), len)
             else (Some s, 0))"

section \<open>Decoding\<close>

text \<open>The switch over the character; the value is at least 58 for a character outside the alphabet.\<close>

definition base58_digit :: "u8 \<Rightarrow> u32" where
  "base58_digit c =
     (let carry = ucast c; r = (\<lambda>a b. of_char a \<le> c \<and> c \<le> of_char b) in
      if r CHR ''1'' CHR ''9'' then carry - of_char CHR ''1''
      else if r CHR ''A'' CHR ''H'' then carry + (9 - of_char CHR ''A'')
      else if r CHR ''J'' CHR ''N'' then carry + (17 - of_char CHR ''J'')
      else if r CHR ''P'' CHR ''Z'' then carry + (22 - of_char CHR ''P'')
      else if r CHR ''a'' CHR ''k'' then carry + (33 - of_char CHR ''a'')
      else if r CHR ''m'' CHR ''z'' then carry + (44 - of_char CHR ''m'')
      else UINT32_MAX)"

fun base58_dec_carry :: "nat \<Rightarrow> bytes \<Rightarrow> u32 \<Rightarrow> bytes" where
  "base58_dec_carry 0 buf carry = buf"
| "base58_dec_carry (Suc j) buf carry =
     (let carry = carry + ucast (buf ! j) * 58;
          buf = buf[j := ucast (carry AND 0xff)];
          carry = drop_bit 8 carry
      in base58_dec_carry j buf carry)"

fun base58_dec_chars :: "bytes \<Rightarrow> bytes \<Rightarrow> bytes" where
  "base58_dec_chars [] buf = buf"
| "base58_dec_chars (c # str) buf =
     (let carry = base58_digit c in
      if carry \<ge> 58 then buf
      else base58_dec_chars str (base58_dec_carry (length buf) buf carry))"

definition BRBase58Decode :: "bytes option \<Rightarrow> bytes \<Rightarrow> bytes option \<times> nat" where
  "BRBase58Decode data str =
     (let zcount = count_leading (base58chars ! 0) str;
          str = drop zcount str;
          buf = base58_dec_chars str (replicate (length str * 733 div 1000 + 1) 0);
          i = count_leading 0 buf;
          len = zcount + length buf - i
      in case data of
           None \<Rightarrow> (None, len)
         | Some d \<Rightarrow>
             if len \<le> length d then (Some (put 0 (replicate zcount 0 @ drop i buf) d), len)
             else (Some d, 0))"

section \<open>Base58Check\<close>

definition BRBase58CheckEncode :: "bytes option \<Rightarrow> bytes \<Rightarrow> bytes option \<times> nat" where
  "BRBase58CheckEncode str data =
     (let buf = put 0 data (replicate (length data + 32) 0);
          buf = put (length data) (SHA256_2 data) buf
      in BRBase58Encode str (take (length data + 4) buf))"

definition BRBase58CheckDecode :: "bytes option \<Rightarrow> bytes \<Rightarrow> bytes option \<times> nat" where
  "BRBase58CheckDecode data str =
     (let (buf, len) = BRBase58Decode (Some (replicate (length str) 0)) str;
          buf = the buf
      in if len \<ge> 4 then
           (let len = len - 4;
                md = SHA256_2 (take len buf);
                len = (if slice len 4 buf \<noteq> take 4 md then 0 else len)
            in case data of
                 None \<Rightarrow> (None, len)
               | Some d \<Rightarrow> if len \<le> length d then (Some (put 0 (take len buf) d), len) else (Some d, 0))
         else (data, 0))"

section \<open>Numbers and digit lists\<close>

text \<open>The number a big-endian digit list denotes in base \<open>b\<close>.\<close>

definition val :: "nat \<Rightarrow> bytes \<Rightarrow> nat" where
  "val b ds = foldl (\<lambda>n d. n * b + unat d) 0 ds"

lemma val_Nil [simp]: "val b [] = 0" by (simp add: val_def)

lemma val_snoc [simp]: "val b (ds @ [d]) = val b ds * b + unat d"
  by (simp add: val_def)

lemma val_append: "val b (xs @ ys) = val b xs * b ^ length ys + val b ys"
  by (induction ys rule: rev_induct) (simp_all add: algebra_simps flip: append_assoc)

lemma val_Cons: "val b (d # ds) = unat d * b ^ length ds + val b ds"
  using val_append [of b "[d]" ds] by (simp add: val_def)

lemma val_replicate_0 [simp]: "val b (replicate n 0) = 0"
  by (induction n) (simp_all add: val_Cons)

definition digits_ok :: "nat \<Rightarrow> bytes \<Rightarrow> bool" where
  "digits_ok b ds \<longleftrightarrow> (\<forall>d \<in> set ds. unat d < b)"

lemma digits_ok_simps [simp]:
  "digits_ok b []" "digits_ok b (d # ds) \<longleftrightarrow> unat d < b \<and> digits_ok b ds"
  "digits_ok b (xs @ ys) \<longleftrightarrow> digits_ok b xs \<and> digits_ok b ys"
  by (auto simp: digits_ok_def)

lemma digits_ok_256 [simp]: "digits_ok 256 ds"
  using unat_less_pow [where ?'a = 8] by (simp add: digits_ok_def)

lemma val_less: "digits_ok b ds \<Longrightarrow> val b ds < b ^ length ds"
proof (induction ds)
  case (Cons d ds)
  then have "unat d + 1 \<le> b" "val b ds < b ^ length ds" by auto
  then have "(unat d + 1) * b ^ length ds \<le> b * b ^ length ds" by (intro mult_le_mono1)
  with Cons show ?case by (simp add: val_Cons algebra_simps)
qed simp

text \<open>Digit lists of the same length, or without leading zeros, are determined by their number.\<close>

lemma val_inj_length:
  assumes "digits_ok b xs" "digits_ok b ys" "length xs = length ys" "val b xs = val b ys"
  shows "xs = ys"
  using assms(3,1,2,4)
proof (induction xs ys rule: list_induct2)
  case (Cons x xs y ys)
  then have lt: "val b xs < b ^ length xs" "val b ys < b ^ length xs" using val_less by force+
  have q: "(u * m + v) div m = u" if "v < m" for u v m :: nat using that by simp
  have "unat x * b ^ length xs + val b xs = unat y * b ^ length xs + val b ys"
    using Cons by (simp add: val_Cons)
  then have "x = y" using q [OF lt(1), of "unat x"] q [OF lt(2), of "unat y"] by (simp add: word_unat_eq_iff)
  with Cons show ?case by (simp add: val_Cons)
qed simp

definition canonical :: "bytes \<Rightarrow> bool" where
  "canonical ds \<longleftrightarrow> (ds = [] \<or> hd ds \<noteq> 0)"

lemma canonical_lower: "canonical ds \<Longrightarrow> ds \<noteq> [] \<Longrightarrow> b ^ (length ds - 1) \<le> val b ds"
proof (cases ds)
  case (Cons d es)
  assume "canonical ds"
  with Cons have "d \<noteq> 0" by (simp add: canonical_def)
  then have "1 \<le> unat d" using unat_gt_0 [of d] by simp
  from mult_le_mono1 [OF this, of "b ^ length es"] have "b ^ length es \<le> unat d * b ^ length es"
    by (simp only: mult_1_left)
  then have "b ^ length es \<le> val b ds" unfolding Cons val_Cons by (rule trans_le_add1)
  with Cons show ?thesis by simp
qed simp

lemma val_inj_canonical:
  assumes "b > 1" "digits_ok b xs" "digits_ok b ys" "canonical xs" "canonical ys" "val b xs = val b ys"
  shows "xs = ys"
proof -
  have le: "length us \<le> length vs"
    if "digits_ok b vs" "canonical us" "val b us = val b vs" for us vs
  proof (cases "us = []")
    case False
    then have "b ^ (length us - 1) < b ^ length vs"
      using canonical_lower [OF that(2), of b] val_less [OF that(1)] that(3) by simp
    then have "length us - 1 < length vs" using assms(1) by (simp add: power_strict_increasing_iff)
    then show ?thesis by simp
  qed simp
  have "length xs = length ys" using assms le by (metis le_antisym)
  with assms show ?thesis by (intro val_inj_length)
qed

lemma count_leading_replicate: "take (count_leading z xs) xs = replicate (count_leading z xs) z"
  by (induction xs) auto

lemma count_leading_drop: "drop (count_leading z xs) xs = [] \<or> hd (drop (count_leading z xs) xs) \<noteq> z"
  by (induction xs) auto

lemma count_leading_le: "count_leading z xs \<le> length xs"
  by (induction xs) auto

lemma count_leading_append: "ys = [] \<or> hd ys \<noteq> z \<Longrightarrow> count_leading z (replicate n z @ ys) = n"
  by (induction n) (cases ys, auto)+

lemma canonical_drop: "canonical (drop (count_leading 0 ds) ds)"
  unfolding canonical_def by (rule count_leading_drop)

lemma val_drop_leading: "val b (drop (count_leading 0 ds) ds) = val b ds"
proof -
  have "val b ds = val b (take (count_leading 0 ds) ds @ drop (count_leading 0 ds) ds)" by simp
  then show ?thesis unfolding val_append count_leading_replicate by simp
qed

section \<open>The carry loops\<close>

text \<open>What both loops do: with digits below \<open>b\<close> and a bounded carry, one step splits \<open>digit * m + carry\<close>
  into a new digit and a new carry.\<close>

locale radix_loop =
  fixes loop :: "nat \<Rightarrow> bytes \<Rightarrow> u32 \<Rightarrow> bytes" and dig :: "u8 \<Rightarrow> u32 \<Rightarrow> u8" and nxt :: "u8 \<Rightarrow> u32 \<Rightarrow> u32"
    and b m cmax :: nat
  assumes loop_0: "loop 0 buf c = buf"
    and loop_Suc: "loop (Suc j) buf c = loop j (buf[j := dig (buf ! j) c]) (nxt (buf ! j) c)"
    and base: "1 < b"
    and law: "unat x < b \<Longrightarrow> unat c \<le> cmax \<Longrightarrow> unat (dig x c) + b * unat (nxt x c) = unat x * m + unat c"
    and dig_less: "unat x < b \<Longrightarrow> unat c \<le> cmax \<Longrightarrow> unat (dig x c) < b"
    and nxt_le: "unat x < b \<Longrightarrow> unat c \<le> cmax \<Longrightarrow> unat (nxt x c) \<le> cmax"
begin

lemma loop_prefix:
  assumes "j \<le> length buf" and "digits_ok b (take j buf)" and "unat c \<le> cmax"
  shows "\<exists>k. length (loop j buf c) = length buf \<and> drop j (loop j buf c) = drop j buf \<and>
     digits_ok b (take j (loop j buf c)) \<and>
     val b (take j (loop j buf c)) + k * b ^ j = val b (take j buf) * m + unat c"
  using assms
proof (induction j arbitrary: buf c)
  case 0
  then show ?case by (simp add: loop_0)
next
  case (Suc j)
  let ?x = "buf ! j" and ?r = "loop (Suc j) buf c"
  let ?buf = "buf[j := dig ?x c]" and ?c = "nxt ?x c"
  have j: "j < length buf" using Suc.prems by simp
  have tk: "take (Suc j) buf = take j buf @ [?x]" using j by (rule take_Suc_conv_app_nth)
  with Suc.prems have x: "unat ?x < b" and ok: "digits_ok b (take j buf)" by auto
  obtain k where IH: "length ?r = length buf" "drop j ?r = drop j ?buf" "digits_ok b (take j ?r)"
    "val b (take j ?r) + k * b ^ j = val b (take j buf) * m + unat ?c"
    using Suc.IH [of ?buf ?c] j ok nxt_le [OF x Suc.prems(3)] by (auto simp: loop_Suc)
  have d: "drop j ?r = dig ?x c # drop (Suc j) buf"
    unfolding IH(2) using j by (simp add: Cons_nth_drop_Suc [symmetric])
  then have "?r ! j = dig ?x c" using IH(1) j by (metis hd_drop_conv_nth list.sel(1))
  then have tr: "take (Suc j) ?r = take j ?r @ [dig ?x c]"
    using IH(1) j by (simp add: take_Suc_conv_app_nth)
  have ds: "drop (Suc j) ?r = drop (Suc j) buf" using d by (metis drop_Suc drop_tl list.sel(3))
  have "(val b (take j ?r) + k * b ^ j) * b + unat (dig ?x c) =
      val b (take j buf) * m * b + (b * unat ?c + unat (dig ?x c))"
    unfolding IH(4) by (simp add: algebra_simps)
  also have "b * unat ?c + unat (dig ?x c) = unat ?x * m + unat c"
    using law [OF x Suc.prems(3)] by simp
  finally have "val b (take (Suc j) ?r) + k * b ^ Suc j = val b (take (Suc j) buf) * m + unat c"
    unfolding tr tk by (simp add: algebra_simps)
  then show ?case using IH(1,3) ds dig_less [OF x Suc.prems(3)] tr by auto
qed

lemma loop_val:
  assumes "digits_ok b buf" and "unat c \<le> cmax" and "val b buf * m + unat c < b ^ length buf"
  shows "val b (loop (length buf) buf c) = val b buf * m + unat c"
    and "digits_ok b (loop (length buf) buf c)" and "length (loop (length buf) buf c) = length buf"
proof -
  let ?r = "loop (length buf) buf c"
  obtain k where k: "length ?r = length buf" "digits_ok b (take (length buf) ?r)"
    "val b (take (length buf) ?r) + k * b ^ length buf = val b buf * m + unat c"
    using loop_prefix [of "length buf" buf c] assms by auto
  then have "k = 0" using assms(3) by (cases k) auto
  with k show "val b ?r = val b buf * m + unat c" "digits_ok b ?r" "length ?r = length buf" by auto
qed

lemma fold_loop_val:
  assumes "digits_ok b buf" and "\<And>d. d \<in> set ds \<Longrightarrow> unat d \<le> cmax" and "cmax < m"
    and "val b buf * m ^ length ds + foldl (\<lambda>n d. n * m + unat d) 0 ds < b ^ length buf"
  shows "val b (fold (\<lambda>d buf. loop (length buf) buf d) ds buf) =
       val b buf * m ^ length ds + foldl (\<lambda>n d. n * m + unat d) 0 ds"
    and "digits_ok b (fold (\<lambda>d buf. loop (length buf) buf d) ds buf)"
    and "length (fold (\<lambda>d buf. loop (length buf) buf d) ds buf) = length buf"
proof -
  have "val b (fold (\<lambda>d buf. loop (length buf) buf d) ds buf) =
       val b buf * m ^ length ds + foldl (\<lambda>n d. n * m + unat d) 0 ds \<and>
     digits_ok b (fold (\<lambda>d buf. loop (length buf) buf d) ds buf) \<and>
     length (fold (\<lambda>d buf. loop (length buf) buf d) ds buf) = length buf"
    using assms(2,4)
  proof (induction ds rule: rev_induct)
    case (snoc d ds)
    let ?n = "val b buf * m ^ length ds + foldl (\<lambda>n d. n * m + unat d) 0 ds"
    have eq: "val b buf * m ^ length (ds @ [d]) + foldl (\<lambda>n d. n * m + unat d) 0 (ds @ [d]) = ?n * m + unat d"
      by (simp add: algebra_simps)
    with snoc.prems have lt: "?n * m + unat d < b ^ length buf" by (simp only:)
    have "1 \<le> m" using assms(3) by simp
    from mult_le_mono2 [OF this, of ?n] lt have "?n < b ^ length buf" unfolding mult_1_right by linarith
    with snoc have IH: "val b (fold (\<lambda>d buf. loop (length buf) buf d) ds buf) = ?n"
      "digits_ok b (fold (\<lambda>d buf. loop (length buf) buf d) ds buf)"
      "length (fold (\<lambda>d buf. loop (length buf) buf d) ds buf) = length buf" by auto
    have "unat d \<le> cmax" using snoc.prems by simp
    then show ?case unfolding eq using loop_val [OF IH(2), of d] lt IH by simp
  qed (use assms(1) in simp)
  then show "val b (fold (\<lambda>d buf. loop (length buf) buf d) ds buf) =
       val b buf * m ^ length ds + foldl (\<lambda>n d. n * m + unat d) 0 ds"
    and "digits_ok b (fold (\<lambda>d buf. loop (length buf) buf d) ds buf)"
    and "length (fold (\<lambda>d buf. loop (length buf) buf d) ds buf) = length buf" by simp_all
qed

end

definition enc_dig :: "u8 \<Rightarrow> u32 \<Rightarrow> u8" where "enc_dig x c = ucast ((c + push_bit 8 (ucast x)) mod 58)"
definition enc_nxt :: "u8 \<Rightarrow> u32 \<Rightarrow> u32" where "enc_nxt x c = (c + push_bit 8 (ucast x)) div 58"
definition dec_dig :: "u8 \<Rightarrow> u32 \<Rightarrow> u8" where "dec_dig x c = ucast ((c + ucast x * 58) AND 0xff)"
definition dec_nxt :: "u8 \<Rightarrow> u32 \<Rightarrow> u32" where "dec_nxt x c = drop_bit 8 (c + ucast x * 58)"

lemma unat_ucast_8_32 [simp]: "unat (ucast (x :: u8) :: u32) = unat x"
  by (simp add: unsigned_ucast_eq take_bit_nat_eq_self unsigned_less
     order.strict_trans [OF unat_less_pow])

lemma unat_ucast_32_8: "unat (ucast (x :: u32) :: u8) = unat x mod 256"
  by (simp add: unsigned_ucast_eq take_bit_eq_mod)

lemma enc_sum:
  assumes "unat x < 58" and "unat c \<le> 255"
  shows "unat (c + push_bit 8 (ucast (x :: u8)) :: u32) = unat x * 256 + unat c"
proof -
  have "push_bit 8 (ucast x :: u32) = ucast x * 256" by (simp add: push_bit_eq_mult)
  moreover have "unat (ucast x * 256 :: u32) = unat x * 256"
    using assms by (subst unat_mult_less) simp_all
  ultimately show ?thesis using assms by (subst unat_add_less) simp_all
qed

lemma dec_sum:
  assumes "unat c \<le> 57"
  shows "unat (c + ucast (x :: u8) * 58 :: u32) = unat x * 58 + unat c"
proof -
  have x: "unat x < 256" using unat_less_pow [of x] by simp
  then have "unat (ucast x * 58 :: u32) = unat x * 58" by (subst unat_mult_less) simp_all
  then show ?thesis using assms x by (subst unat_add_less) simp_all
qed

interpretation enc: radix_loop base58_enc_carry enc_dig enc_nxt 58 256 255
proof unfold_locales
  fix x :: u8 and c :: u32
  assume x: "unat x < 58" and c: "unat c \<le> 255"
  let ?n = "unat x * 256 + unat c"
  have d: "unat (enc_dig x c) = ?n mod 58" "unat (enc_nxt x c) = ?n div 58"
    unfolding enc_dig_def enc_nxt_def unat_ucast_32_8 unat_mod_distrib unat_div_distrib enc_sum [OF x c]
    by simp_all
  show "unat (enc_dig x c) + 58 * unat (enc_nxt x c) = unat x * 256 + unat c" unfolding d by simp
  show "unat (enc_dig x c) < 58" unfolding d by simp
  show "unat (enc_nxt x c) \<le> 255" unfolding d using x c by simp
qed (simp_all add: enc_dig_def enc_nxt_def Let_def)

interpretation dec: radix_loop base58_dec_carry dec_dig dec_nxt 256 58 57
proof unfold_locales
  fix x :: u8 and c :: u32
  assume c: "unat c \<le> 57"
  let ?n = "unat x * 58 + unat c"
  have x: "unat x < 256" using unat_less_pow [of x] by simp
  have d: "unat (dec_dig x c) = ?n mod 256" "unat (dec_nxt x c) = ?n div 256"
    unfolding dec_dig_def dec_nxt_def ucast_and_255 unat_ucast_32_8 unat_drop_bit dec_sum [OF c]
    by simp_all
  show "unat (dec_dig x c) + 256 * unat (dec_nxt x c) = unat x * 58 + unat c" unfolding d by simp
  show "unat (dec_dig x c) < 256" unfolding d by simp
  show "unat (dec_nxt x c) \<le> 57" unfolding d using x c by simp
qed (simp_all add: dec_dig_def dec_nxt_def Let_def)

section \<open>Buffer sizes\<close>

lemma power_swap: "((x :: nat) ^ a) ^ b = (x ^ b) ^ a"
  by (simp only: power_mult [symmetric] mult.commute)

lemma power_root_less: "(x :: nat) ^ n < y ^ n \<Longrightarrow> x < y"
  by (metis power_less_imp_less_base zero_le)

lemma enc_size_step:
  assumes "k * 138 = q * 100 + r" and "r < 100"
  shows "k * 11 < (q + 1) * (8 :: nat)"
proof -
  have "(k * 11) * 138 = (k * 138) * 11" by simp
  also have "\<dots> < ((q + 1) * 8) * 138" using assms by simp
  finally show ?thesis by simp
qed

lemma enc_size: "256 ^ k < (58 :: nat) ^ (k * 138 div 100 + 1)"
proof (rule power_root_less)
  have "(256 ^ k) ^ 8 = ((256 :: nat) ^ 8) ^ k" by (rule power_swap)
  also have "\<dots> \<le> (58 ^ 11) ^ k" by (rule power_mono) simp_all
  also have "\<dots> = 58 ^ (k * 11)" unfolding power_mult by (rule power_swap)
  also have "k * 11 < (k * 138 div 100 + 1) * 8"
    by (rule enc_size_step [OF div_mult_mod_eq [symmetric]]) simp
  then have "(58 :: nat) ^ (k * 11) < 58 ^ ((k * 138 div 100 + 1) * 8)"
    by (rule power_strict_increasing) simp
  also have "\<dots> = (58 ^ (k * 138 div 100 + 1)) ^ 8" by (simp only: power_mult)
  finally show "(256 ^ k) ^ 8 < ((58 :: nat) ^ (k * 138 div 100 + 1)) ^ 8" .
qed

lemma dec_size_step:
  assumes "k * 733 = q * 1000 + r" and "r < 1000"
  shows "k * 52 < (q + 1) * (71 :: nat)"
proof -
  have "(k * 52) * 733 = (k * 733) * 52" by simp
  also have "\<dots> < ((q + 1) * 71) * 733" using assms by simp
  finally show ?thesis by simp
qed

lemma dec_size: "58 ^ k < (256 :: nat) ^ (k * 733 div 1000 + 1)"
proof (rule power_root_less)
  have "(58 ^ k) ^ 71 = ((58 :: nat) ^ 71) ^ k" by (rule power_swap)
  also have "\<dots> \<le> (256 ^ 52) ^ k" by (rule power_mono) simp_all
  also have "\<dots> = 256 ^ (k * 52)" unfolding power_mult by (rule power_swap)
  also have "k * 52 < (k * 733 div 1000 + 1) * 71"
    by (rule dec_size_step [OF div_mult_mod_eq [symmetric]]) simp
  then have "(256 :: nat) ^ (k * 52) < 256 ^ ((k * 733 div 1000 + 1) * 71)"
    by (rule power_strict_increasing) simp
  also have "\<dots> = (256 ^ (k * 733 div 1000 + 1)) ^ 71" by (simp only: power_mult)
  finally show "(58 ^ k) ^ 71 < ((256 :: nat) ^ (k * 733 div 1000 + 1)) ^ 71" .
qed

section \<open>What the loops compute\<close>

lemma enc_digits_spec:
  "val 58 (base58_enc_digits data) = val 256 data" "digits_ok 58 (base58_enc_digits data)"
  "length (base58_enc_digits data) = (length data - count_leading 0 data) * 138 div 100 + 1"
proof -
  let ?z = "count_leading 0 data"
  let ?ds = "drop ?z data" and ?n = "(length data - ?z) * 138 div 100 + 1"
  define buf where "buf = replicate ?n (0 :: u8)"
  have buf: "length buf = ?n" "val 58 buf = 0" by (simp_all only: buf_def length_replicate val_replicate_0)
  have eq: "base58_enc_digits data =
      fold (\<lambda>d buf. base58_enc_carry (length buf) buf d) (map ucast ?ds) buf"
    unfolding base58_enc_digits_def Let_def buf_def by (simp add: fold_map comp_def del: replicate_Suc)
  have vs: "foldl (\<lambda>n d. n * 256 + unat d) 0 (map ucast ds :: u32 list) = val 256 ds" for ds
    by (simp add: val_def foldl_map)
  have "val 256 ?ds < 256 ^ length ?ds" by (rule val_less) simp
  also have "\<dots> < 58 ^ length buf" using enc_size [of "length ?ds"] by (simp only: buf length_drop)
  finally have lt: "val 58 buf * 256 ^ length (map ucast ?ds :: u32 list) +
      foldl (\<lambda>n d. n * 256 + unat d) 0 (map ucast ?ds :: u32 list) < 58 ^ length buf"
    unfolding vs buf(2) by simp
  have ok: "digits_ok 58 buf" by (simp add: digits_ok_def buf_def)
  have cm: "unat d \<le> 255" if "d \<in> set (map ucast ?ds :: u32 list)" for d
    using that unat_less_pow [where ?'a = 8] by (auto simp: less_Suc_eq_le [symmetric])
  note * = enc.fold_loop_val [OF ok cm _ lt]
  show "val 58 (base58_enc_digits data) = val 256 data"
    unfolding eq using *(1) unfolding vs val_drop_leading buf(2) by simp
  show "digits_ok 58 (base58_enc_digits data)" unfolding eq using *(2) by simp
  show "length (base58_enc_digits data) = ?n" unfolding eq using *(3) buf(1) by simp
qed

lemma base58chars_code [code]: "base58chars = [
     49, 50, 51, 52, 53, 54, 55, 56, 57, 65, 66, 67, 68, 69, 70, 71, 72, 74, 75, 76, 77, 78, 80, 81, 82, 83,
     84, 85, 86, 87, 88, 89, 90, 97, 98, 99, 100, 101, 102, 103, 104, 105, 106, 107, 109, 110, 111, 112, 113, 114, 115, 116, 117, 118, 119, 120, 121, 122]"
  by (simp add: base58chars_def ascii_def)

lemma base58chars_digit:
  "d < 58 \<Longrightarrow> base58_digit (base58chars ! d) = word_of_nat d \<and> (base58chars ! d = base58chars ! 0 \<longleftrightarrow> d = 0)"
proof -
  have "list_all (\<lambda>d. base58_digit (base58chars ! d) = word_of_nat d \<and>
      (base58chars ! d = base58chars ! 0 \<longleftrightarrow> d = 0)) [0..<58]" by code_simp
  then show "d < 58 \<Longrightarrow> ?thesis" unfolding list_all_iff by simp
qed

lemma dec_chars_spec:
  assumes "digits_ok 58 ds" and "val 256 buf * 58 ^ length ds + val 58 ds < 256 ^ length buf"
  shows "val 256 (base58_dec_chars (map (\<lambda>d. base58chars ! unat d) ds) buf) =
     val 256 buf * 58 ^ length ds + val 58 ds"
proof -
  have "base58_dec_chars (map (\<lambda>d. base58chars ! unat d) ds) buf =
      fold (\<lambda>d buf. base58_dec_carry (length buf) buf d) (map ucast ds) buf"
    using assms(1)
  proof (induction ds arbitrary: buf)
    case (Cons d ds)
    then have d: "unat d < 58" by simp
    have "(word_of_nat (unat d) :: u32) = ucast d" by (simp add: unsigned_ucast_eq flip: word_unat_eq_iff)
    with base58chars_digit [OF d] have "base58_digit (base58chars ! unat d) = ucast d" by simp
    moreover have "\<not> (58 \<le> (ucast d :: u32))" using d by (simp add: word_le_nat_alt)
    ultimately show ?case using Cons by simp
  qed simp
  moreover have "foldl (\<lambda>n d. n * 58 + unat d) 0 (map ucast ds :: u32 list) = val 58 ds"
    by (simp add: val_def foldl_map)
  moreover have "unat d \<le> 57" if "d \<in> set (map ucast ds :: u32 list)" for d
    using that assms(1) by (auto simp: digits_ok_def)
  ultimately show ?thesis using dec.fold_loop_val(1) [of buf "map ucast ds"] assms(2) by simp
qed

lemma length_dec_carry [simp]: "length (base58_dec_carry j buf c) = length buf"
  by (induction j arbitrary: buf c) (simp_all add: Let_def)

lemma length_dec_chars [simp]: "length (base58_dec_chars str buf) = length buf"
  by (induction str arbitrary: buf) (simp_all add: Let_def)

section \<open>Round trips\<close>

text \<open>The string that \<open>BRBase58Encode\<close> writes and the bytes that \<open>BRBase58Decode\<close> writes.\<close>

definition base58_string :: "bytes \<Rightarrow> bytes" where
  "base58_string data = replicate (count_leading 0 data) (base58chars ! 0) @
     map (\<lambda>d. base58chars ! unat d) (drop (count_leading 0 (base58_enc_digits data)) (base58_enc_digits data))"

definition base58_bytes :: "bytes \<Rightarrow> bytes" where
  "base58_bytes str =
     (let z = count_leading (base58chars ! 0) str;
          buf = base58_dec_chars (drop z str) (replicate (length (drop z str) * 733 div 1000 + 1) 0)
      in replicate z 0 @ drop (count_leading 0 buf) buf)"

lemma BRBase58Encode_eq: "BRBase58Encode str data =
   (case str of None \<Rightarrow> (None, length (base58_string data) + 1)
    | Some s \<Rightarrow> if length (base58_string data) + 1 \<le> length s
        then (Some (put 0 (base58_string data @ [0]) s), length (base58_string data) + 1) else (Some s, 0))"
  using count_leading_le [of 0 "base58_enc_digits data"]
  by (simp add: BRBase58Encode_def base58_string_def Let_def split: option.split)

lemma BRBase58Decode_eq: "BRBase58Decode data str =
   (case data of None \<Rightarrow> (None, length (base58_bytes str))
    | Some d \<Rightarrow> if length (base58_bytes str) \<le> length d
        then (Some (put 0 (base58_bytes str) d), length (base58_bytes str)) else (Some d, 0))"
proof -
  have l: "z + length b - count_leading 0 b = z + (length b - count_leading 0 b)" for z and b :: bytes
    using count_leading_le [of 0 b] by simp
  show ?thesis unfolding BRBase58Decode_def base58_bytes_def Let_def l
    by (simp only: length_append length_replicate length_drop)
qed

lemma base58_roundtrip: "base58_bytes (base58_string data) = data"
proof -
  let ?z = "count_leading 0 data" and ?e = "base58_enc_digits data"
  define ds where "ds = drop (count_leading 0 ?e) ?e"
  have ds: "canonical ds" "val 58 ds = val 256 data" "digits_ok 58 ds"
    using enc_digits_spec [of data] by (simp_all add: ds_def canonical_drop val_drop_leading
        digits_ok_def) (metis in_set_dropD)
  define str where "str = map (\<lambda>d. base58chars ! unat d) ds"
  have "str = [] \<or> hd str \<noteq> base58chars ! 0"
  proof (cases ds)
    case (Cons d es)
    with ds have "unat d < 58" "unat d \<noteq> 0" by (auto simp: canonical_def unat_eq_0)
    with Cons show ?thesis using base58chars_digit [of "unat d"] by (simp add: str_def)
  qed (simp add: str_def)
  then have z: "count_leading (base58chars ! 0) (base58_string data) = ?z"
    "drop ?z (base58_string data) = str"
    by (simp_all add: base58_string_def str_def ds_def count_leading_append)
  define buf where "buf = replicate (length str * 733 div 1000 + 1) (0 :: u8)"
  have buf: "length buf = length ds * 733 div 1000 + 1" "val 256 buf = 0"
    by (simp_all only: buf_def str_def length_map length_replicate val_replicate_0)
  have "val 58 ds < 58 ^ length ds" using ds(3) by (rule val_less)
  also have "\<dots> < 256 ^ length buf" unfolding buf(1) by (rule dec_size)
  finally have v: "val 256 (base58_dec_chars str buf) = val 256 data"
    unfolding str_def using ds buf(2) by (subst dec_chars_spec) simp_all
  let ?r = "base58_dec_chars str buf"
  have "drop (count_leading 0 ?r) ?r = drop ?z data"
    by (rule val_inj_canonical [of 256]) (simp_all add: canonical_drop val_drop_leading v)
  then have "base58_bytes (base58_string data) = replicate ?z 0 @ drop ?z data"
    unfolding base58_bytes_def z Let_def buf_def by simp
  then show ?thesis using count_leading_replicate [of 0 data] by (metis append_take_drop_id)
qed

lemma length_base58_string: "length data \<le> length (base58_string data)"
proof -
  let ?z = "count_leading 0 data" and ?e = "base58_enc_digits data"
  define ds where "ds = drop (count_leading 0 ?e) ?e"
  have ds: "val 58 ds = val 256 (drop ?z data)" "digits_ok 58 ds"
    using enc_digits_spec [of data] by (simp_all add: ds_def val_drop_leading digits_ok_def)
       (metis in_set_dropD)
  have "length (drop ?z data) \<le> length ds"
  proof (cases "drop ?z data = []")
    case False
    then have "256 ^ (length (drop ?z data) - 1) \<le> val 256 (drop ?z data)"
      by (intro canonical_lower canonical_drop)
    also have "\<dots> < 58 ^ length ds" using val_less [OF ds(2)] ds(1) by simp
    also have "\<dots> \<le> 256 ^ length ds" by (rule power_mono) simp_all
    finally have "length (drop ?z data) - 1 < length ds" by (rule power_less_imp_less_exp [rotated]) simp
    then show ?thesis by simp
  qed simp
  then show ?thesis by (simp add: base58_string_def ds_def)
qed

lemma BRBase58CheckEncode_eq:
  "BRBase58CheckEncode str data = BRBase58Encode str (data @ take 4 (SHA256_2 data))"
proof -
  have "put 0 data (replicate (length data + 32) 0) = data @ replicate 32 0"
    by (simp add: put_def)
  moreover have "put (length data) (SHA256_2 data) (data @ replicate 32 0) = data @ SHA256_2 data"
    by (simp add: put_def)
  ultimately show ?thesis by (simp add: BRBase58CheckEncode_def Let_def)
qed

lemma BRBase58CheckDecode_bytes:
  assumes "length (base58_bytes str) \<le> length str"
  shows "BRBase58CheckDecode (Some d) str =
   (let buf = base58_bytes str; len = length buf - 4 in
    if 4 \<le> length buf \<and> drop len buf = take 4 (SHA256_2 (take len buf))
    then (if len \<le> length d then (Some (put 0 (take len buf) d), len) else (Some d, 0))
    else (Some (if 4 \<le> length buf then put 0 [] d else d), 0))"
proof -
  let ?b = "base58_bytes str"
  have buf: "put 0 ?b (replicate (length str) 0) = ?b @ replicate (length str - length ?b) 0"
    by (simp add: put_def)
  show ?thesis using assms
    by (auto simp: BRBase58CheckDecode_def BRBase58Decode_eq buf slice_def Let_def)
qed

lemma length_base58_string_le: "length (base58_string data) \<le> length data * 138 div 100 + 1"
proof -
  let ?z = "count_leading 0 data"
  have "length (base58_string data) \<le> ?z + ((length data - ?z) * 138 div 100 + 1)"
    by (simp add: base58_string_def enc_digits_spec(3))
  also have "?z + ((length data - ?z) * 138 div 100 + 1) = ((length data - ?z) * 138 + ?z * 100) div 100 + 1"
    by simp
  also have "(length data - ?z) * 138 + ?z * 100 \<le> length data * 138"
    using count_leading_le [of 0 data] by (simp add: diff_mult_distrib)
  then have "((length data - ?z) * 138 + ?z * 100) div 100 + 1 \<le> length data * 138 div 100 + 1"
    by (intro add_right_mono div_le_mono)
  finally show ?thesis .
qed

lemma CheckDecode_check_string:
  assumes "length data \<le> length dst"
  shows "BRBase58CheckDecode (Some dst) (base58_string (data @ take 4 (SHA256_2 data))) =
     (Some (put 0 data dst), length data)"
  using assms length_base58_string [of "data @ take 4 (SHA256_2 data)"]
  by (simp add: BRBase58CheckDecode_bytes base58_roundtrip Let_def)

text \<open>A string that \<open>BRBase58Encode\<close> wrote to a buffer is NUL terminated, its length is the one
  announced for a \<open>NULL\<close> buffer, and \<open>BRBase58Decode\<close> of it writes the original bytes, leading zeros
  included; so the digit buffers of both loops, sized by 138/100 and 733/1000, never overflow.\<close>

theorem base58_encode_decode:
  assumes "BRBase58Encode (Some buf) data = (Some out, n)" and "0 < n" and "length data \<le> length dst"
  shows "BRBase58Decode (Some dst) (take (n - 1) out) = (Some (put 0 data dst), length data) \<and>
     out ! (n - 1) = 0 \<and> BRBase58Encode None data = (None, n)"
proof -
  let ?s = "base58_string data"
  have n: "n = length ?s + 1" "length ?s + 1 \<le> length buf" "out = put 0 (?s @ [0]) buf"
    using assms(1,2) by (auto simp: BRBase58Encode_eq split: if_splits)
  then have "out = ?s @ [0] @ drop n buf" by (simp add: put_def)
  then show ?thesis using n(1) assms(3)
    by (simp add: BRBase58Decode_eq base58_roundtrip BRBase58Encode_eq nth_append)
qed

theorem base58_encode_decode_witness:
  "BRBase58Encode (Some (replicate 8 7)) [0, 1, 255] = (Some (ascii ''19p'' @ [0, 7, 7, 7, 7]), 4) \<and>
   BRBase58Decode (Some [9, 9, 9, 9]) (ascii ''19p'') = (Some [0, 1, 255, 9], 3)"
proof -
  have enc: "BRBase58Encode (Some (replicate 8 7)) [0, 1, 255] = (Some (ascii ''19p'' @ [0, 7, 7, 7, 7]), 4)"
    by code_simp
  from base58_encode_decode [OF this, of "[9, 9, 9, 9]"] enc show ?thesis
    by (simp add: put_def ascii_def)
qed

text \<open>\<open>BRBase58CheckDecode\<close> of a string written by \<open>BRBase58CheckEncode\<close> returns the payload.\<close>

theorem base58check_roundtrip:
  assumes "BRBase58CheckEncode (Some buf) data = (Some out, n)" and "0 < n" and "length data \<le> length dst"
  shows "BRBase58CheckDecode (Some dst) (take (n - 1) out) = (Some (put 0 data dst), length data)"
proof -
  let ?d = "data @ take 4 (SHA256_2 data)"
  have n: "n = length (base58_string ?d) + 1" "out = put 0 (base58_string ?d @ [0]) buf"
    using assms(1,2) by (auto simp: BRBase58CheckEncode_eq BRBase58Encode_eq split: if_splits)
  then have "take (n - 1) out = base58_string ?d" by (simp add: put_def)
  then show ?thesis using CheckDecode_check_string [OF assms(3)] by simp
qed

theorem base58check_roundtrip_witness:
  "\<exists>out n. BRBase58CheckEncode (Some (replicate 64 0)) [60, 1] = (Some out, n) \<and>
     BRBase58CheckDecode (Some [0, 0, 0]) (take (n - 1) out) = (Some [60, 1, 0], 2)"
proof -
  let ?d = "[60, 1] @ take 4 (SHA256_2 [60, 1])"
  have "length (base58_string ?d) \<le> 63" using length_base58_string_le [of ?d] by simp
  then have e: "BRBase58CheckEncode (Some (replicate 64 0)) [60, 1] =
      (Some (put 0 (base58_string ?d @ [0]) (replicate 64 0)), length (base58_string ?d) + 1)"
    unfolding BRBase58CheckEncode_eq BRBase58Encode_eq by simp
  from base58check_roundtrip [OF e, of "[0, 0, 0]"] e show ?thesis
    by (intro exI) (auto simp: put_def)
qed

text \<open>C5: whatever string is decoded, when \<open>BRBase58CheckDecode\<close> reports \<open>n > 0\<close> bytes the decoded
  bytes are a payload of \<open>n\<close> bytes, which is what it wrote, followed by the first four bytes of the
  payload's double SHA-256.\<close>

theorem base58check_sound:
  assumes "BRBase58CheckDecode (Some dst) str = (out, n)" and "0 < n"
  shows "\<exists>payload. length payload = n \<and> n \<le> length dst \<and> out = Some (put 0 payload dst) \<and>
     base58_bytes str = payload @ take 4 (SHA256_2 payload)"
proof -
  let ?b = "base58_bytes str"
  have fits: "length ?b \<le> length str"
    using assms by (auto simp: BRBase58CheckDecode_def BRBase58Decode_eq split: if_splits)
  let ?p = "take (length ?b - 4) ?b"
  have "4 \<le> length ?b" "drop (length ?b - 4) ?b = take 4 (SHA256_2 ?p)" "n = length ?b - 4"
    "n \<le> length dst" "out = Some (put 0 ?p dst)"
    using assms by (auto simp: BRBase58CheckDecode_bytes [OF fits] Let_def split: if_splits)
  then show ?thesis by (intro exI [of _ ?p]) (metis append_take_drop_id diff_le_self length_take min.absorb2)
qed

theorem base58check_sound_witness:
  "\<exists>str payload. length payload = 2 \<and> base58_bytes str = payload @ take 4 (SHA256_2 payload) \<and>
     BRBase58CheckDecode (Some [0, 0]) str = (Some payload, 2)"
proof -
  have d: "BRBase58CheckDecode (Some [0, 0]) (base58_string ([60, 1] @ take 4 (SHA256_2 [60, 1]))) =
      (Some [60, 1], 2)"
    using CheckDecode_check_string [of "[60, 1]" "[0, 0]"] by (simp add: put_def)
  have "0 < (2 :: nat)" by simp
  from base58check_sound [OF d this] obtain payload where
    "length payload = 2" "Some [60, 1] = Some (put 0 payload [0, 0])"
    "base58_bytes (base58_string ([60, 1] @ take 4 (SHA256_2 [60, 1]))) = payload @ take 4 (SHA256_2 payload)"
    by blast
  moreover from this have "payload = [60, 1]" by (simp add: put_def)
  ultimately show ?thesis using d by blast
qed

end
