(* ===== verification/BRAddress.thy ===== *)
theory BRAddress
  imports BRBase58
begin

text \<open>
  \<open>BRAddress.c\<close>: variable-length integers, script elements and data pushes, and the addresses of the
  standard scripts, for the main network build.  A pointer into a script is its offset; a \<open>NULL\<close>
  result pointer is \<open>None\<close>.  Output buffers are as in base58.
\<close>

section \<open>Constants\<close>

definition OP_PUSHDATA1 :: u8 where "OP_PUSHDATA1 = 0x4c"
definition OP_PUSHDATA2 :: u8 where "OP_PUSHDATA2 = 0x4d"
definition OP_PUSHDATA4 :: u8 where "OP_PUSHDATA4 = 0x4e"
definition OP_DUP :: u8 where "OP_DUP = 0x76"
definition OP_EQUAL :: u8 where "OP_EQUAL = 0x87"
definition OP_EQUALVERIFY :: u8 where "OP_EQUALVERIFY = 0x88"
definition OP_HASH160 :: u8 where "OP_HASH160 = 0xa9"
definition OP_CHECKSIG :: u8 where "OP_CHECKSIG = 0xac"

lemmas opcode_defs = OP_PUSHDATA1_def OP_PUSHDATA2_def OP_PUSHDATA4_def OP_DUP_def OP_EQUAL_def
  OP_EQUALVERIFY_def OP_HASH160_def OP_CHECKSIG_def

definition RAVENCOIN_PUBKEY_ADDRESS :: u8 where "RAVENCOIN_PUBKEY_ADDRESS = 60"
definition RAVENCOIN_SCRIPT_ADDRESS :: u8 where "RAVENCOIN_SCRIPT_ADDRESS = 122"
definition MAX_SCRIPT_LENGTH :: nat where "MAX_SCRIPT_LENGTH = 0x100"

section \<open>Variable-length integers\<close>

text \<open>\<open>BRVarInt\<close> returns the value and what it stores in \<open>intLen\<close>; a \<open>NULL\<close> buffer is read like an
  empty one.\<close>

definition BRVarInt :: "bytes \<Rightarrow> u64 \<times> nat" where
  "BRVarInt buf =
     (let h = (if 1 \<le> length buf then buf ! 0 else 0) in
      if h = 0xfd then (if 3 \<le> length buf then ucast (UInt16GetLE (drop 1 buf)) else 0, 3)
      else if h = 0xfe then (if 5 \<le> length buf then ucast (UInt32GetLE (drop 1 buf)) else 0, 5)
      else if h = 0xff then (if 9 \<le> length buf then UInt64GetLE (drop 1 buf) else 0, 9)
      else (ucast h, 1))"

text \<open>The shape shared by the writers: nothing is written to a \<open>NULL\<close> or too small buffer; the return
  value is the size, or 0 when the buffer is too small.\<close>

definition emit :: "bytes option \<Rightarrow> bytes \<Rightarrow> bytes option \<times> nat" where
  "emit buf enc = (case buf of
     None \<Rightarrow> (None, length enc)
   | Some b \<Rightarrow> if length enc \<le> length b then (Some (put 0 enc b), length enc) else (Some b, 0))"

definition BRVarIntSet :: "bytes option \<Rightarrow> u64 \<Rightarrow> bytes option \<times> nat" where
  "BRVarIntSet buf i =
     (if i < 0xfd then emit buf [ucast i]
      else if i \<le> 0xffff then emit buf (0xfd # UInt16SetLE (ucast i))
      else if i \<le> 0xffffffff then emit buf (0xfe # UInt32SetLE (ucast i))
      else emit buf (0xff # UInt64SetLE i))"

definition BRVarIntSize :: "u64 \<Rightarrow> nat" where
  "BRVarIntSize i = snd (BRVarIntSet None i)"

section \<open>Script elements\<close>

text \<open>One turn of the loop of \<open>BRScriptElements\<close>: the new offset and the new \<open>len\<close>, which keeps its old
  value when a push header is cut off.\<close>

definition script_advance :: "bytes \<Rightarrow> nat \<Rightarrow> nat \<Rightarrow> nat \<times> nat" where
  "script_advance script off len =
     (let op = script ! off; n = length script;
          (off, len) =
            (if op = OP_PUSHDATA1 then
               (off + 1 + 1, if off + 1 + 1 \<le> n then unat (script ! (off + 1)) else len)
             else if op = OP_PUSHDATA2 then
               (off + 1 + 2, if off + 1 + 2 \<le> n then unat (UInt16GetLE (drop (off + 1) script)) else len)
             else if op = OP_PUSHDATA4 then
               (off + 1 + 4, if off + 1 + 4 \<le> n then unat (UInt32GetLE (drop (off + 1) script)) else len)
             else (off + 1, if op > OP_PUSHDATA4 then 0 else unat op))
      in (off + len, len))"

lemma script_advance_greater: "off < fst (script_advance script off len)"
  by (simp add: script_advance_def Let_def)

function script_elements :: "bytes \<Rightarrow> nat \<Rightarrow> nat \<Rightarrow> nat list \<times> nat" where
  "script_elements script off len =
     (if off < length script then
        let (off', len') = script_advance script off len;
            (elems, end') = script_elements script off' len'
        in (off # elems, end')
      else ([], off))"
  by pat_completeness auto

termination
  by (relation "measure (\<lambda>(script, off, len). length script - off)")
     (auto simp: case_prod_beta intro!: diff_less_mono2 script_advance_greater)

declare script_elements.simps [simp del]

text \<open>The first argument is \<open>None\<close> for a \<open>NULL\<close> array and \<open>Some elemsCount\<close> otherwise; the result is the
  array of element offsets and the return value.\<close>

definition BRScriptElements :: "nat option \<Rightarrow> bytes \<Rightarrow> nat list \<times> nat" where
  "BRScriptElements elems script =
     (let (offs, off) = script_elements script 0 0; i = length offs in
      case elems of
        None \<Rightarrow> ([], if off = length script then i else 0)
      | Some elemsCount \<Rightarrow>
          (take elemsCount offs, if i \<le> elemsCount \<and> off = length script then i else 0))"

text \<open>\<open>BRScriptData\<close> follows the pointer without a bound: \<open>None\<close> is a read past the script.\<close>

definition BRScriptData :: "bytes \<Rightarrow> nat \<Rightarrow> (nat option \<times> nat) option" where
  "BRScriptData script elem = do {
     op \<leftarrow> rd script elem;
     (elem, dataLen) \<leftarrow>
       (if op = OP_PUSHDATA1 then do {
          b \<leftarrow> rd script (elem + 1);
          Some (elem + 1 + 1, unat b)
        } else if op = OP_PUSHDATA2 then do {
          b \<leftarrow> rd_slice script (elem + 1) 2;
          Some (elem + 1 + 2, unat (UInt16GetLE b))
        } else if op = OP_PUSHDATA4 then do {
          b \<leftarrow> rd_slice script (elem + 1) 4;
          Some (elem + 1 + 4, unat (UInt32GetLE b))
        } else Some (elem + 1, if op > OP_PUSHDATA4 then 0 else unat op));
     Some (if dataLen > 0 then Some elem else None, dataLen)
   }"

definition BRScriptPushData :: "bytes option \<Rightarrow> bytes \<Rightarrow> bytes option \<times> nat" where
  "BRScriptPushData script data =
     (let dataLen = length data in
      if dataLen < 0x4c then emit script ([word_of_nat dataLen] @ data)
      else if dataLen < 0xff then emit script ([OP_PUSHDATA1, word_of_nat dataLen] @ data)
      else if dataLen < 0xffff then emit script ([OP_PUSHDATA2] @ UInt16SetLE (word_of_nat dataLen) @ data)
      else emit script ([OP_PUSHDATA4] @ UInt32SetLE (word_of_nat dataLen) @ data))"

section \<open>Addresses\<close>

text \<open>The element pointers that the two functions dereference are offsets inside the script (lemma
  \<open>BRScriptElements_bounds\<close> below), so reading the opcode of an element is plain indexing; reading the data of an
  element goes through \<open>BRScriptData\<close> and a bounds-checked copy.\<close>

definition BRAddressFromScriptPubKey :: "bytes option \<Rightarrow> bytes \<Rightarrow> (bytes option \<times> nat) option" where
  "BRAddressFromScriptPubKey addr script =
     (if length script = 0 \<or> length script > MAX_SCRIPT_LENGTH then Some (addr, 0)
      else
        let elems = fst (BRScriptElements (Some (snd (BRScriptElements None script))) script);
            count = snd (BRScriptElements (Some (snd (BRScriptElements None script))) script);
            op = (\<lambda>k. script ! (elems ! k))
        in do {
          data \<leftarrow>
            (if (count = 5 \<or> count = 8) \<and> op 0 = OP_DUP \<and> op 1 = OP_HASH160 \<and> op 2 = 20 \<and>
                op 3 = OP_EQUALVERIFY \<and> op 4 = OP_CHECKSIG then do {
               (d, l) \<leftarrow> BRScriptData script (elems ! 2);
               (case (if l \<noteq> 20 then None else d) of
                  None \<Rightarrow> Some None
                | Some p \<Rightarrow> do { h \<leftarrow> rd_slice script p 20; Some (Some (RAVENCOIN_PUBKEY_ADDRESS # h)) })
             } else if count = 3 \<and> op 0 = OP_HASH160 \<and> op 1 = 20 \<and> op 2 = OP_EQUAL then do {
               (d, l) \<leftarrow> BRScriptData script (elems ! 1);
               (case (if l \<noteq> 20 then None else d) of
                  None \<Rightarrow> Some None
                | Some p \<Rightarrow> do { h \<leftarrow> rd_slice script p 20; Some (Some (RAVENCOIN_SCRIPT_ADDRESS # h)) })
             } else if count = 2 \<and> (op 0 = 65 \<or> op 0 = 33) \<and> op 1 = OP_CHECKSIG then do {
               (d, l) \<leftarrow> BRScriptData script (elems ! 0);
               (case (if l \<noteq> 65 \<and> l \<noteq> 33 then None else d) of
                  None \<Rightarrow> Some None
                | Some p \<Rightarrow> do { k \<leftarrow> rd_slice script p l; Some (Some (RAVENCOIN_PUBKEY_ADDRESS # Hash160 k)) })
             } else Some None);
          Some (case data of None \<Rightarrow> (addr, 0) | Some bs \<Rightarrow> BRBase58CheckEncode addr bs)
        })"

definition BRAddressFromScriptSig :: "bytes option \<Rightarrow> bytes \<Rightarrow> (bytes option \<times> nat) option" where
  "BRAddressFromScriptSig addr script =
     (if length script = 0 \<or> length script > MAX_SCRIPT_LENGTH then Some (addr, 0)
      else
        let elems = fst (BRScriptElements (Some (snd (BRScriptElements None script))) script);
            count = snd (BRScriptElements (Some (snd (BRScriptElements None script))) script);
            op = (\<lambda>k. script ! (elems ! k))
        in do {
          data \<leftarrow>
            (if count \<ge> 2 \<and> op (count - 2) \<le> OP_PUSHDATA4 \<and> (op (count - 1) = 65 \<or> op (count - 1) = 33) then do {
               (d, l) \<leftarrow> BRScriptData script (elems ! (count - 1));
               (case (if l \<noteq> 65 \<and> l \<noteq> 33 then None else d) of
                  None \<Rightarrow> Some None
                | Some p \<Rightarrow> do { k \<leftarrow> rd_slice script p l; Some (Some (RAVENCOIN_PUBKEY_ADDRESS # Hash160 k)) })
             } else if count \<ge> 2 \<and> op (count - 2) \<le> OP_PUSHDATA4 \<and> op (count - 1) \<le> OP_PUSHDATA4 \<and>
                 op (count - 1) > 0 then do {
               (d, l) \<leftarrow> BRScriptData script (elems ! (count - 1));
               (case d of
                  None \<Rightarrow> Some None
                | Some p \<Rightarrow> do { k \<leftarrow> rd_slice script p l; Some (Some (RAVENCOIN_SCRIPT_ADDRESS # Hash160 k)) })
             } else Some None);
          Some (case data of None \<Rightarrow> (addr, 0) | Some bs \<Rightarrow> BRBase58CheckEncode addr bs)
        })"

definition BRAddressScriptPubKey :: "bytes option \<Rightarrow> bytes \<Rightarrow> bytes option \<times> nat" where
  "BRAddressScriptPubKey script addr =
     (case BRBase58CheckDecode (Some (replicate 21 0)) addr of
        (data, len) \<Rightarrow>
          if len = 21 then
            (let data = the data in
             if data ! 0 = RAVENCOIN_PUBKEY_ADDRESS
             then emit script ([OP_DUP, OP_HASH160, 20] @ slice 1 20 data @ [OP_EQUALVERIFY, OP_CHECKSIG])
             else if data ! 0 = RAVENCOIN_SCRIPT_ADDRESS
             then emit script ([OP_HASH160, 20] @ slice 1 20 data @ [OP_EQUAL])
             else (script, 0))
          else (script, 0))"

definition BRAddressIsValid :: "bytes \<Rightarrow> bool" where
  "BRAddressIsValid addr =
     (case BRBase58CheckDecode (Some (replicate 21 0)) addr of
        (data, len) \<Rightarrow> len = 21 \<and>
          (the data ! 0 = RAVENCOIN_PUBKEY_ADDRESS \<or> the data ! 0 = RAVENCOIN_SCRIPT_ADDRESS))"

text \<open>\<open>None\<close>: the function returns 0 and leaves \<open>md20\<close> alone.\<close>

definition BRAddressHash160 :: "bytes \<Rightarrow> bytes option" where
  "BRAddressHash160 addr =
     (case BRBase58CheckDecode (Some (replicate 21 0)) addr of
        (data, len) \<Rightarrow> if len = 21 then Some (slice 1 20 (the data)) else None)"

section \<open>Variable-length integers: proofs\<close>

lemma emit_None [simp]: "emit None enc = (None, length enc)"
  by (simp add: emit_def)

lemma emit_Some_iff: "emit (Some b) enc = (Some out, n) \<and> 0 < n \<longleftrightarrow>
   enc \<noteq> [] \<and> n = length enc \<and> n \<le> length b \<and> out = enc @ drop n b"
  by (auto simp: emit_def put_def)

text \<open>The bytes of the encoding of \<open>i\<close>.\<close>

definition varint :: "u64 \<Rightarrow> bytes" where
  "varint i = (if i < 0xfd then [ucast i]
      else if i \<le> 0xffff then 0xfd # UInt16SetLE (ucast i)
      else if i \<le> 0xffffffff then 0xfe # UInt32SetLE (ucast i)
      else 0xff # UInt64SetLE i)"

lemma BRVarIntSet_emit: "BRVarIntSet buf i = emit buf (varint i)"
  by (simp add: BRVarIntSet_def varint_def)

lemma BRVarIntSize_eq: "BRVarIntSize i = length (varint i)"
  by (simp add: BRVarIntSize_def BRVarIntSet_emit)

lemma length_varint_pos [simp]: "0 < length (varint i)" "varint i \<noteq> []"
  by (simp_all add: varint_def)

lemma length_varint_le: "length (varint i) \<le> 9"
  by (simp add: varint_def)

lemma ucast_ucast_le:
  fixes i :: u64
  shows "i \<le> 0xffff \<Longrightarrow> ucast (ucast i :: u16) = i" "i \<le> 0xffffffff \<Longrightarrow> ucast (ucast i :: u32) = i"
    "i < 0xfd \<Longrightarrow> ucast (ucast i :: u8) = i"
  by (simp_all add: word_unat_eq_iff unsigned_ucast_eq take_bit_eq_mod word_le_nat_alt word_less_nat_alt
      unat_mod_distrib)

lemma ucast_small: "i < 0xfd \<Longrightarrow> (ucast (i :: u64) :: u8) < 0xfd"
  by (simp add: word_less_nat_alt unsigned_ucast_eq take_bit_eq_mod)

lemma BRVarInt_varint: "BRVarInt (varint i @ rest) = (i, length (varint i))"
proof (cases "i < 0xfd")
  case True
  with ucast_small [of i] show ?thesis
    by (auto simp: BRVarInt_def varint_def Let_def ucast_ucast_le)
next
  case False
  then show ?thesis
    by (auto simp: BRVarInt_def varint_def Let_def endian_simps ucast_ucast_le)
qed

text \<open>C6: an integer written by \<open>BRVarIntSet\<close> is read back by \<open>BRVarInt\<close> with the same length, whatever
  follows it in the buffer; that length is \<open>BRVarIntSize\<close>, one of 1, 3, 5 and 9, and the shortest of them
  that fits.\<close>

theorem varint_roundtrip:
  assumes "BRVarIntSet (Some buf) i = (Some out, n)" and "0 < n"
  shows "BRVarInt out = (i, n) \<and> length out = length buf \<and> n = BRVarIntSize i \<and>
     BRVarIntSize i = (if unat i < 0xfd then 1 else if unat i < 2 ^ 16 then 3 else if unat i < 2 ^ 32 then 5 else 9)"
proof -
  have "n = length (varint i)" "n \<le> length buf" "out = varint i @ drop n buf"
    using assms emit_Some_iff [of buf "varint i" out n] by (auto simp: BRVarIntSet_emit)
  moreover have "length (varint i) =
      (if unat i < 0xfd then 1 else if unat i < 2 ^ 16 then 3 else if unat i < 2 ^ 32 then 5 else 9)"
    by (auto simp: varint_def word_less_nat_alt word_le_nat_alt)
  ultimately show ?thesis by (simp add: BRVarInt_varint BRVarIntSize_eq)
qed

theorem varint_roundtrip_witness:
  "BRVarInt [0xfd, 0x39, 0x30, 7] = (12345, 3) \<and> BRVarIntSize 12345 = 3"
proof -
  have "BRVarIntSet (Some [7, 7, 7, 7]) 12345 = (Some [0xfd, 0x39, 0x30, 7], 3)" by code_simp
  from varint_roundtrip [OF this] show ?thesis by simp
qed

section \<open>Script elements: proofs\<close>

lemma take_drop_GetLE:
  "UInt16GetLE (take 2 bs) = UInt16GetLE bs" "UInt32GetLE (take 4 bs) = UInt32GetLE bs"
  by (simp_all add: UInt16GetLE_def UInt32GetLE_def)

lemma advance_data:
  assumes "script_advance script off len = (off', l)" and "off < length script" and "off' \<le> length script"
  shows "BRScriptData script off = Some (if l > 0 then Some (off' - l) else None, l) \<and> off + l < off'"
  using assms
  by (auto simp: script_advance_def BRScriptData_def Let_def rd_def rd_slice_def slice_def take_drop_GetLE
      opcode_defs split: if_splits)

text \<open>\<open>chain script off offs\<close>: the elements \<open>offs\<close> follow each other from \<open>off\<close> to the end of the script, each
  with its data inside.\<close>

fun chain :: "bytes \<Rightarrow> nat \<Rightarrow> nat list \<Rightarrow> bool" where
  "chain script off [] \<longleftrightarrow> off = length script"
| "chain script off (p # ps) \<longleftrightarrow> p = off \<and>
     (\<exists>next l. off + l < next \<and> next \<le> length script \<and>
        BRScriptData script off = Some (if l > 0 then Some (next - l) else None, l) \<and> chain script next ps)"

lemma script_elements_stop: "length script \<le> off \<Longrightarrow> script_elements script off len = ([], off)"
  by (subst script_elements.simps) simp

lemma elements_end: "off \<le> snd (script_elements script off len)"
proof (induction script off len rule: script_elements.induct)
  case (1 script off len)
  show ?case
  proof (cases "off < length script")
    case True
    obtain off' len' where a: "script_advance script off len = (off', len')" by fastforce
    have "off < off'" using script_advance_greater [of off script len] a by simp
    with 1 [OF True a [symmetric] refl] True a show ?thesis
      by (subst script_elements.simps) (auto split: prod.split)
  qed (subst script_elements.simps, simp)
qed

lemma elements_chain:
  "script_elements script off len = (offs, length script) \<Longrightarrow> chain script off offs"
proof (induction script off len arbitrary: offs rule: script_elements.induct)
  case (1 script off len)
  show ?case
  proof (cases "off < length script")
    case True
    obtain off' len' where a: "script_advance script off len = (off', len')" by fastforce
    obtain os where os: "script_elements script off' len' = (os, length script)" "offs = off # os"
      using True 1(2) a by (subst (asm) (2) script_elements.simps) (auto split: prod.splits)
    have "off' \<le> length script" using elements_end [of off' script len'] os by simp
    with advance_data [OF a True] 1(1) [OF True a [symmetric] refl os(1)] os(2) show ?thesis by auto
  next
    case False
    with 1(2) show ?thesis by (subst (asm) script_elements.simps) auto
  qed
qed

lemma chain_nth:
  assumes "chain script off offs" and "k < length offs"
  shows "\<exists>l. let next = (if Suc k < length offs then offs ! Suc k else length script) in
     offs ! k + l < next \<and> next \<le> length script \<and>
     BRScriptData script (offs ! k) = Some (if l > 0 then Some (next - l) else None, l)"
  using assms
proof (induction offs arbitrary: off k)
  case (Cons p ps)
  then obtain nx l where c: "p = off" "off + l < nx" "nx \<le> length script" "chain script nx ps"
    "BRScriptData script off = Some (if l > 0 then Some (nx - l) else None, l)" by auto
  show ?case
  proof (cases k)
    case 0
    have "nx = (if Suc 0 < length (p # ps) then (p # ps) ! Suc 0 else length script)"
      using c(4) by (cases ps) auto
    with 0 c show ?thesis by (auto simp: Let_def)
  next
    case (Suc j)
    then have "j < length ps" using Cons.prems by simp
    from Cons.IH [OF c(4) this] show ?thesis
      unfolding Suc by (simp only: nth_Cons_Suc length_Cons Suc_less_eq)
  qed
qed simp

lemma BRScriptElements_chain:
  assumes "snd (BRScriptElements c script) = n" and "0 < n"
  shows "chain script 0 (fst (script_elements script 0 0))" "n = length (fst (script_elements script 0 0))"
    and "c = Some m \<Longrightarrow> fst (BRScriptElements c script) = fst (script_elements script 0 0)"
proof -
  obtain offs e where se: "script_elements script 0 0 = (offs, e)" by fastforce
  have *: "e = length script" "n = length offs" "\<And>m. c = Some m \<Longrightarrow> length offs \<le> m"
    using assms by (auto simp: BRScriptElements_def se Let_def split: option.splits if_splits)
  then show "chain script 0 (fst (script_elements script 0 0))"
    using elements_chain [of script 0 0 offs] se by simp
  show "n = length (fst (script_elements script 0 0))" using se * by simp
  show "fst (BRScriptElements c script) = fst (script_elements script 0 0)" if "c = Some m"
    using * that by (simp add: BRScriptElements_def se Let_def)
qed

lemma BRScriptElements_bounds:
  assumes "BRScriptElements (Some m) script = (elems, n)" and "k < n"
  shows "elems ! k < length script"
proof -
  have n: "0 < n" "snd (BRScriptElements (Some m) script) = n" using assms by auto
  note c = BRScriptElements_chain [OF n(2,1)]
  from chain_nth [OF c(1), of k] c(2,3) assms show ?thesis by (auto simp: Let_def)
qed

text \<open>C7: when \<open>BRScriptElements\<close> reports \<open>n > 0\<close> elements, the elements tile the script: each one starts
  where the previous one ends, the last ends at the end of the script, and \<open>BRScriptData\<close> of each one
  reads inside the script and returns data that ends where the element ends.  A script with a cut off
  push therefore never yields elements.\<close>

theorem script_elements_tile:
  assumes "BRScriptElements (Some m) script = (elems, n)" and "0 < n"
  shows "length elems = n \<and> elems ! 0 = 0 \<and> (\<forall>k < n. \<exists>l.
     let next = (if Suc k < n then elems ! Suc k else length script) in
     elems ! k + l < next \<and> next \<le> length script \<and>
     BRScriptData script (elems ! k) = Some (if l > 0 then Some (next - l) else None, l))"
proof -
  have n: "snd (BRScriptElements (Some m) script) = n" using assms(1) by simp
  note c = BRScriptElements_chain [OF n assms(2)]
  have e: "elems = fst (script_elements script 0 0)" using c(3) assms(1) by simp
  have "elems ! 0 = 0" using c(1,2) assms(2) unfolding e by (cases "fst (script_elements script 0 0)") auto
  with c(2) chain_nth [OF c(1)] show ?thesis unfolding e by auto
qed

theorem script_elements_tile_witness:
  "BRScriptData [0x4c, 2, 8, 9, 0xac] 0 = Some (Some 2, 2) \<and> BRScriptData [0x4c, 2, 8, 9, 0xac] 4 = Some (None, 0)"
proof -
  have "BRScriptElements (Some 2) [0x4c, 2, 8, 9, 0xac] = ([0, 4], 2)"
    by (simp add: BRScriptElements_def script_elements.simps script_advance_def opcode_defs)
  from script_elements_tile [OF this] show ?thesis
    by (auto simp: BRScriptData_def rd_def opcode_defs)
qed

section \<open>Data pushes\<close>

definition push_header :: "nat \<Rightarrow> bytes" where
  "push_header n = (if n < 0x4c then [word_of_nat n]
     else if n < 0xff then [OP_PUSHDATA1, word_of_nat n]
     else if n < 0xffff then OP_PUSHDATA2 # UInt16SetLE (word_of_nat n)
     else OP_PUSHDATA4 # UInt32SetLE (word_of_nat n))"

lemma BRScriptPushData_emit: "BRScriptPushData script data = emit script (push_header (length data) @ data)"
  by (simp add: BRScriptPushData_def push_header_def Let_def)

lemma length_push_header_pos [simp]: "0 < length (push_header n)" "push_header n \<noteq> []"
  by (simp_all add: push_header_def)

lemma push_header_advance:
  assumes "length data < 2 ^ 32" and "length pre = off"
  shows "script_advance (pre @ push_header (length data) @ data @ rest) off len =
     (off + length (push_header (length data)) + length data, length data)"
proof -
  have u8: "unat (word_of_nat n :: u8) = n" if "n < 256" for n using that by (simp add: unat_word_of_nat_less)
  have u16: "unat (word_of_nat n :: u16) = n" if "n < 65536" for n using that by (simp add: unat_word_of_nat_less)
  have u32: "unat (word_of_nat n :: u32) = n" if "n < 4294967296" for n using that by (simp add: unat_word_of_nat_less)
  show ?thesis
  proof (cases "length data < 0x4c")
    case True
    let ?w = "word_of_nat (length data) :: u8"
    have "?w \<noteq> 76" "?w \<noteq> 77" "?w \<noteq> 78" "\<not> 78 < ?w"
      using True by (auto simp: word_less_nat_alt word_unat_eq_iff u8)
    then show ?thesis using True assms
      by (auto simp: script_advance_def push_header_def Let_def nth_append opcode_defs u8)
  next
    case False
    then show ?thesis using assms
      by (auto simp: script_advance_def push_header_def Let_def nth_append opcode_defs u8 u16 u32 endian_simps)
  qed
qed

text \<open>\<open>BRScriptPushData\<close> writes one script element whose data is the given data: \<open>BRScriptElements\<close> of
  what was written reports exactly one element and \<open>BRScriptData\<close> of it returns the pushed bytes, for
  every push size below \<open>2\<^sup>32\<close>.\<close>

theorem push_data_roundtrip:
  assumes "BRScriptPushData (Some buf) data = (Some out, n)" and "0 < n" and "length data < 2 ^ 32"
  shows "BRScriptElements None (take n out) = ([], 1) \<and>
     BRScriptData out 0 = Some (if data = [] then None else Some (n - length data), length data) \<and>
     slice (n - length data) (length data) out = data \<and> BRScriptPushData None data = (None, n)"
proof -
  let ?h = "push_header (length data)"
  have out: "n = length ?h + length data" "out = ?h @ data @ drop n buf" "n \<le> length buf"
    using assms emit_Some_iff [of buf "?h @ data" out n] by (auto simp: BRScriptPushData_emit)
  have adv: "script_advance (?h @ data @ r) 0 l = (n, length data)" for r l
    using push_header_advance [OF assms(3), of "[]" 0 r l] out(1) by simp
  have "script_elements (?h @ data) 0 0 = ([0], n)"
    using adv [of "[]" 0] out(1) by (subst script_elements.simps) (simp add: script_elements_stop)
  then have "BRScriptElements None (take n out) = ([], 1)"
    using out by (simp add: BRScriptElements_def)
  moreover have "BRScriptData out 0 = Some (if length data > 0 then Some (n - length data) else None, length data)"
  proof -
    have "script_advance out 0 0 = (n, length data)" using adv [of "drop n buf" 0] out(2) by simp
    moreover have "0 < length out" "n \<le> length out" using out assms(2) by auto
    ultimately show ?thesis using advance_data by blast
  qed
  ultimately show ?thesis using out by (simp add: BRScriptPushData_emit slice_def)
qed

theorem push_data_roundtrip_witness:
  "BRScriptData ([0x4c, 80] @ replicate 80 5 @ [7, 7]) 0 = Some (Some 2, 80)"
proof -
  have "BRScriptPushData (Some (replicate 84 7)) (replicate 80 5) = (Some ([0x4c, 80] @ replicate 80 5 @ [7, 7]), 82)"
    by (simp add: BRScriptPushData_def emit_def put_def OP_PUSHDATA1_def numeral_2_eq_2)
  from push_data_roundtrip [OF this] show ?thesis by simp
qed

section \<open>Addresses: proofs\<close>

text \<open>The two standard scripts with an address, and the bytes of the address.\<close>

definition p2pkh_script :: "bytes \<Rightarrow> bytes" where
  "p2pkh_script h = [OP_DUP, OP_HASH160, 20] @ h @ [OP_EQUALVERIFY, OP_CHECKSIG]"

definition p2sh_script :: "bytes \<Rightarrow> bytes" where
  "p2sh_script h = [OP_HASH160, 20] @ h @ [OP_EQUAL]"

lemma elements_step:
  "off < length script \<Longrightarrow> script_advance script off len = (off', len') \<Longrightarrow>
   script_elements script off len = (off # fst (script_elements script off' len'), snd (script_elements script off' len'))"
  by (subst script_elements.simps) (simp add: case_prod_beta)

lemma p2pkh_elements: "length h = 20 \<Longrightarrow> script_elements (p2pkh_script h) 0 0 = ([0, 1, 2, 23, 24], 25)"
  by (simp add: elements_step script_advance_def p2pkh_script_def opcode_defs Let_def nth_append
      script_elements_stop nth_Cons')

lemma p2sh_elements: "length h = 20 \<Longrightarrow> script_elements (p2sh_script h) 0 0 = ([0, 1, 22], 23)"
  by (simp add: elements_step script_advance_def p2sh_script_def opcode_defs Let_def nth_append
      script_elements_stop nth_Cons')

lemma length_scripts [simp]: "length (p2pkh_script h) = length h + 5" "length (p2sh_script h) = length h + 3"
  by (simp_all add: p2pkh_script_def p2sh_script_def)

lemma p2pkh_address:
  assumes "length h = 20"
  shows "BRAddressFromScriptPubKey addr (p2pkh_script h) = Some (BRBase58CheckEncode addr (60 # h))"
proof -
  have e: "BRScriptElements None (p2pkh_script h) = ([], 5)"
    "BRScriptElements (Some 5) (p2pkh_script h) = ([0, 1, 2, 23, 24], 5)"
    using assms by (simp_all add: BRScriptElements_def p2pkh_elements Let_def)
  have d: "BRScriptData (p2pkh_script h) 2 = Some (Some 3, 20)" "rd_slice (p2pkh_script h) 3 20 = Some h"
    using assms by (simp_all add: BRScriptData_def p2pkh_script_def rd_def opcode_defs rd_slice_def slice_def)
  have "length (p2pkh_script h) = 25" using assms by simp
  moreover have "p2pkh_script h ! 0 = OP_DUP" "p2pkh_script h ! 1 = OP_HASH160" "p2pkh_script h ! 2 = 20"
    "p2pkh_script h ! 23 = OP_EQUALVERIFY" "p2pkh_script h ! 24 = OP_CHECKSIG"
    using assms by (simp_all add: p2pkh_script_def nth_append nth_Cons')
  ultimately show ?thesis
    by (simp add: BRAddressFromScriptPubKey_def e d MAX_SCRIPT_LENGTH_def RAVENCOIN_PUBKEY_ADDRESS_def)
qed

lemma p2sh_address:
  assumes "length h = 20"
  shows "BRAddressFromScriptPubKey addr (p2sh_script h) = Some (BRBase58CheckEncode addr (122 # h))"
proof -
  have e: "BRScriptElements None (p2sh_script h) = ([], 3)"
    "BRScriptElements (Some 3) (p2sh_script h) = ([0, 1, 22], 3)"
    using assms by (simp_all add: BRScriptElements_def p2sh_elements Let_def)
  have d: "BRScriptData (p2sh_script h) (Suc 0) = Some (Some 2, 20)" "rd_slice (p2sh_script h) 2 20 = Some h"
    using assms by (simp_all add: BRScriptData_def p2sh_script_def rd_def opcode_defs rd_slice_def slice_def)
  have "length (p2sh_script h) = 23" using assms by simp
  moreover have "p2sh_script h ! 0 = OP_HASH160" "p2sh_script h ! 1 = 20" "p2sh_script h ! 22 = OP_EQUAL"
    using assms by (simp_all add: p2sh_script_def nth_append nth_Cons')
  ultimately show ?thesis
    by (simp add: BRAddressFromScriptPubKey_def e d MAX_SCRIPT_LENGTH_def RAVENCOIN_SCRIPT_ADDRESS_def)
qed

lemma BRAddressScriptPubKey_check:
  assumes "length h = 20"
  shows "BRAddressScriptPubKey script (base58_string ((v # h) @ take 4 (SHA256_2 (v # h)))) =
     (if v = 60 then emit script (p2pkh_script h) else if v = 122 then emit script (p2sh_script h) else (script, 0))"
    and "BRAddressIsValid (base58_string ((v # h) @ take 4 (SHA256_2 (v # h)))) \<longleftrightarrow> v = 60 \<or> v = 122"
    and "BRAddressHash160 (base58_string ((v # h) @ take 4 (SHA256_2 (v # h)))) = Some h"
  using CheckDecode_check_string [of "v # h" "replicate 21 0"] assms
  by (simp_all add: BRAddressScriptPubKey_def BRAddressIsValid_def BRAddressHash160_def put_def slice_def
      RAVENCOIN_PUBKEY_ADDRESS_def RAVENCOIN_SCRIPT_ADDRESS_def p2pkh_script_def p2sh_script_def)

text \<open>The address that \<open>BRAddressFromScriptPubKey\<close> writes for a pay-to-pubkey-hash or
  pay-to-script-hash script is a valid address, \<open>BRAddressScriptPubKey\<close> of it gives the script back, and
  \<open>BRAddressHash160\<close> of it gives the hash.\<close>

theorem address_script_roundtrip:
  assumes "length h = 20" and "s = p2pkh_script h \<or> s = p2sh_script h"
    and "BRAddressFromScriptPubKey (Some abuf) s = Some (Some out, n)" and "0 < n"
  shows "BRAddressIsValid (take (n - 1) out) \<and> BRAddressHash160 (take (n - 1) out) = Some h \<and>
     BRAddressScriptPubKey None (take (n - 1) out) = (None, length s) \<and>
     (length s \<le> length sbuf \<longrightarrow>
        BRAddressScriptPubKey (Some sbuf) (take (n - 1) out) = (Some (put 0 s sbuf), length s))"
proof -
  define v :: u8 where "v = (if s = p2pkh_script h then 60 else 122)"
  let ?d = "(v # h) @ take 4 (SHA256_2 (v # h))"
  have "BRAddressFromScriptPubKey (Some abuf) s = Some (BRBase58CheckEncode (Some abuf) (v # h))"
    using assms(1,2) p2pkh_address p2sh_address by (auto simp: v_def)
  with assms(3,4) have n: "n = length (base58_string ?d) + 1" "out = put 0 (base58_string ?d @ [0]) abuf"
    by (auto simp: BRBase58CheckEncode_eq BRBase58Encode_eq split: if_splits)
  then have str: "take (n - 1) out = base58_string ?d" by (simp add: put_def)
  have "p2pkh_script h \<noteq> p2sh_script h" by (simp add: p2pkh_script_def p2sh_script_def opcode_defs)
  then show ?thesis using assms(2) BRAddressScriptPubKey_check [OF assms(1), where v = v]
    unfolding str by (auto simp: v_def emit_def)
qed

theorem address_script_roundtrip_witness:
  "\<exists>out n. BRAddressFromScriptPubKey (Some (replicate 64 0)) (p2pkh_script (replicate 20 1)) = Some (Some out, n) \<and>
     BRAddressScriptPubKey (Some (replicate 25 0)) (take (n - 1) out) = (Some (p2pkh_script (replicate 20 1)), 25)"
proof -
  let ?h = "replicate 20 1 :: bytes" and ?d = "(60 # replicate 20 1) @ take 4 (SHA256_2 (60 # replicate 20 1))"
  have "length (base58_string ?d) + 1 \<le> 64" using length_base58_string_le [of ?d] by simp
  then have e: "BRAddressFromScriptPubKey (Some (replicate 64 0)) (p2pkh_script ?h) =
      Some (Some (put 0 (base58_string ?d @ [0]) (replicate 64 0)), length (base58_string ?d) + 1)"
    by (subst p2pkh_address) (simp_all add: BRBase58CheckEncode_eq BRBase58Encode_eq del: replicate.simps)
  have len: "length ?h = 20" "length (p2pkh_script ?h) = 25" by (simp_all only: length_scripts length_replicate)
  from address_script_roundtrip [OF len(1) disjI1 [OF refl] e, of "replicate 25 0"] len(2)
  have "BRAddressScriptPubKey (Some (replicate 25 0)) (take (length (base58_string ?d) + 1 - 1)
      (put 0 (base58_string ?d @ [0]) (replicate 64 0))) = (Some (p2pkh_script ?h), 25)"
    by (simp add: put_def)
  with e show ?thesis by blast
qed

end
