(* ===== verification/BRBloomFilter.thy ===== *)
theory BRBloomFilter
  imports BRAddress
begin

text \<open>
  \<open>BRBloomFilter.c\<close>: the BIP37 bloom filters that are sent to peers.  The byte array \<open>filter\<close> with its
  \<open>length\<close> is one byte list.  \<open>None\<close> as the result of an operation stands for undefined behaviour: a
  remainder by zero or an access outside the filter or the parsed buffer.
\<close>

section \<open>State and operations\<close>

definition BLOOM_MAX_FILTER_LENGTH :: nat where "BLOOM_MAX_FILTER_LENGTH = 36000"
definition BLOOM_MAX_HASH_FUNCS :: u32 where "BLOOM_MAX_HASH_FUNCS = 50"

record BRBloomFilter =
  bloom :: bytes
  hashFuncs :: u32
  elemCount :: u64
  bloom_tweak :: u32
  bloom_flags :: u8

definition BloomFilterHash :: "BRBloomFilter \<Rightarrow> bytes \<Rightarrow> u32 \<Rightarrow> u32 option" where
  "BloomFilterHash f data hashNum =
     (let size = word_of_nat (length (bloom f)) * 8 :: u64 in
      if size = 0 then None
      else Some (ucast (ucast (Murmur3_32 data (hashNum * 0xfba4c795 + bloom_tweak f)) mod size)))"

text \<open>\<open>fpLength\<close> is the value of the floating point expression for the length, \<open>hashFor\<close> gives the value of the
  one for the number of hash functions; both as converted to the integer type of the field.\<close>

definition BRBloomFilterNew :: "nat \<Rightarrow> (nat \<Rightarrow> u32) \<Rightarrow> u32 \<Rightarrow> u8 \<Rightarrow> BRBloomFilter" where
  "BRBloomFilterNew fpLength hashFor tweak flags =
     (let len = (if fpLength > BLOOM_MAX_FILTER_LENGTH then BLOOM_MAX_FILTER_LENGTH else fpLength);
          len = (if len < 1 then 1 else len);
          funcs = hashFor len
      in \<lparr>bloom = replicate len 0,
          hashFuncs = (if funcs > BLOOM_MAX_HASH_FUNCS then BLOOM_MAX_HASH_FUNCS else funcs),
          elemCount = 0, bloom_tweak = tweak, bloom_flags = flags\<rparr>)"

text \<open>The additions to \<open>off\<close> wrap as \<open>size_t\<close>.  The inner \<open>None\<close> is the \<open>NULL\<close> result.\<close>

definition BRBloomFilterParse :: "bytes option \<Rightarrow> BRBloomFilter option option" where
  "BRBloomFilterParse buf =
     (case buf of None \<Rightarrow> Some None
      | Some buf \<Rightarrow>
          let bufLen = length buf;
              len = unat (fst (BRVarInt buf)); off = snd (BRVarInt buf);
              filter = (if len \<le> BLOOM_MAX_FILTER_LENGTH \<and> off + len \<le> bufLen
                        then Some (slice off len buf) else None);
              off1 = (off + len) mod 2 ^ 64;
              off2 = (off1 + 4) mod 2 ^ 64;
              off3 = (off2 + 4) mod 2 ^ 64;
              off4 = (off3 + 1) mod 2 ^ 64
          in do {
            funcs \<leftarrow> (if off2 \<le> bufLen then map_option UInt32GetLE (rd_slice buf off1 4) else Some 0);
            tweak \<leftarrow> (if off3 \<le> bufLen then map_option UInt32GetLE (rd_slice buf off2 4) else Some 0);
            flags \<leftarrow> (if off4 \<le> bufLen then rd buf off3 else Some 0);
            Some (map_option (\<lambda>bs. \<lparr>bloom = bs, hashFuncs = funcs, elemCount = 0, bloom_tweak = tweak,
                                    bloom_flags = flags\<rparr>) filter)
          })"

definition BRBloomFilterSerialize :: "BRBloomFilter \<Rightarrow> bytes option \<Rightarrow> bytes option \<times> nat" where
  "BRBloomFilterSerialize f buf =
     (let flen = length (bloom f); len = BRVarIntSize (word_of_nat flen) + flen + 4 + 4 + 1 in
      case buf of
        None \<Rightarrow> (None, len)
      | Some b \<Rightarrow>
          if len \<le> length b then
            (let (b, off) = BRVarIntSet (Some b) (word_of_nat flen);
                 b = put off (bloom f) (the b); off = off + flen;
                 b = put off (UInt32SetLE (hashFuncs f)) b; off = off + 4;
                 b = put off (UInt32SetLE (bloom_tweak f)) b; off = off + 4;
                 b = put off [bloom_flags f] b
             in (Some b, len))
          else (Some b, 0))"

fun bloom_contains :: "BRBloomFilter \<Rightarrow> bytes \<Rightarrow> u32 list \<Rightarrow> bool option" where
  "bloom_contains f data [] = Some True"
| "bloom_contains f data (i # is) = do {
     idx \<leftarrow> BloomFilterHash f data i;
     b \<leftarrow> rd (bloom f) (unat (drop_bit 3 idx));
     if b AND push_bit (unat (7 AND idx)) 1 = 0 then Some False else bloom_contains f data is
   }"

definition BRBloomFilterContainsData :: "BRBloomFilter \<Rightarrow> bytes option \<Rightarrow> bool option" where
  "BRBloomFilterContainsData f data =
     (case data of None \<Rightarrow> Some False
      | Some d \<Rightarrow> bloom_contains f d (map word_of_nat [0..<unat (hashFuncs f)]))"

fun bloom_insert :: "BRBloomFilter \<Rightarrow> bytes \<Rightarrow> u32 list \<Rightarrow> BRBloomFilter option" where
  "bloom_insert f data [] = Some f"
| "bloom_insert f data (i # is) = do {
     idx \<leftarrow> BloomFilterHash f data i;
     b \<leftarrow> rd (bloom f) (unat (drop_bit 3 idx));
     bloom_insert (f\<lparr>bloom := (bloom f)[unat (drop_bit 3 idx) := b OR push_bit (unat (7 AND idx)) 1]\<rparr>) data is
   }"

definition BRBloomFilterInsertData :: "BRBloomFilter \<Rightarrow> bytes option \<Rightarrow> BRBloomFilter option" where
  "BRBloomFilterInsertData f data =
     (case data of None \<Rightarrow> Some f
      | Some d \<Rightarrow> do {
          f \<leftarrow> bloom_insert f d (map word_of_nat [0..<unat (hashFuncs f)]);
          Some (f\<lparr>elemCount := elemCount f + 1\<rparr>)
        })"

section \<open>Membership\<close>

definition bloom_ok :: "BRBloomFilter \<Rightarrow> bool" where
  "bloom_ok f \<longleftrightarrow> 0 < length (bloom f) \<and> length (bloom f) \<le> BLOOM_MAX_FILTER_LENGTH"

text \<open>The filter \<open>g\<close> has the shape of \<open>f\<close> and every bit of \<open>f\<close>.\<close>

definition extends :: "BRBloomFilter \<Rightarrow> BRBloomFilter \<Rightarrow> bool" where
  "extends f g \<longleftrightarrow> length (bloom g) = length (bloom f) \<and> hashFuncs g = hashFuncs f \<and>
     bloom_tweak g = bloom_tweak f \<and> bloom_flags g = bloom_flags f \<and>
     (\<forall>j < length (bloom f). \<forall>k. bit (bloom f ! j) k \<longrightarrow> bit (bloom g ! j) k)"

lemma extends_refl: "extends f f"
  and extends_trans: "extends f g \<Longrightarrow> extends g h \<Longrightarrow> extends f h"
  by (auto simp: extends_def)

lemma extends_ok: "extends f g \<Longrightarrow> bloom_ok f \<Longrightarrow> bloom_ok g"
  by (simp add: extends_def bloom_ok_def)

lemma extends_hash: "extends f g \<Longrightarrow> BloomFilterHash g data i = BloomFilterHash f data i"
  unfolding extends_def BloomFilterHash_def by (elim conjE) (simp only:)

lemma hash_in_filter:
  assumes "bloom_ok f"
  obtains idx where "BloomFilterHash f data i = Some idx" "unat (drop_bit 3 idx) < length (bloom f)"
proof -
  let ?n = "length (bloom f)" and ?m = "ucast (Murmur3_32 data (i * 0xfba4c795 + bloom_tweak f)) :: u64"
  have n: "0 < ?n" "?n \<le> 36000" using assms by (auto simp: bloom_ok_def BLOOM_MAX_FILTER_LENGTH_def)
  have u: "unat (word_of_nat ?n :: u64) = ?n" using n by (intro unat_word_of_nat_less) simp
  have size: "unat (word_of_nat ?n * 8 :: u64) = ?n * 8"
    using n u by (subst unat_mult_less) auto
  then have ne: "(word_of_nat ?n * 8 :: u64) \<noteq> 0" using n by auto
  have "unat (?m mod (word_of_nat ?n * 8)) < ?n * 8" using n by (simp add: unat_mod_distrib size)
  moreover have "unat (ucast (?m mod (word_of_nat ?n * 8)) :: u32) = unat (?m mod (word_of_nat ?n * 8))"
    using calculation n by (simp add: unsigned_ucast_eq take_bit_nat_eq_self)
  ultimately have "unat (drop_bit 3 (ucast (?m mod (word_of_nat ?n * 8)) :: u32)) < ?n"
    by (simp add: unat_drop_bit)
  then show ?thesis using that ne by (simp add: BloomFilterHash_def Let_def)
qed

lemma test_bit_and: "(b AND 2 ^ k = 0) \<longleftrightarrow> \<not> bit (b :: u8) k"
  using bit_iff_and_push_bit_not_eq_0 [of b k] by simp

lemma contains_mono:
  assumes "bloom_ok f" "extends f g" "bloom_contains f data is = Some True"
  shows "bloom_contains g data is = Some True"
  using assms(3)
proof (induction "is")
  case (Cons i "is")
  obtain idx where idx: "BloomFilterHash f data i = Some idx" "unat (drop_bit 3 idx) < length (bloom f)"
    using hash_in_filter [OF assms(1)] by blast
  with Cons assms(2) show ?case
    by (auto simp: extends_hash [OF assms(2)] rd_def test_bit_and extends_def split: if_splits)
qed simp

lemma contains_total: "bloom_ok f \<Longrightarrow> bloom_contains f data is \<noteq> None"
proof (induction "is")
  case (Cons i "is")
  obtain idx where "BloomFilterHash f data i = Some idx" "unat (drop_bit 3 idx) < length (bloom f)"
    using hash_in_filter [OF Cons.prems] by blast
  with Cons show ?case by (auto simp: rd_def)
qed simp

lemma insert_step_extends:
  "j < length (bloom f) \<Longrightarrow> extends f (f\<lparr>bloom := (bloom f)[j := bloom f ! j OR push_bit k 1]\<rparr>)"
  by (auto simp: extends_def nth_list_update bit_or_iff)

lemma insert_extends:
  assumes "bloom_ok f"
  shows "\<exists>g. bloom_insert f data is = Some g \<and> extends f g \<and> elemCount g = elemCount f \<and>
     bloom_contains g data is = Some True"
  using assms
proof (induction "is" arbitrary: f)
  case (Cons i "is")
  obtain idx where idx: "BloomFilterHash f data i = Some idx" "unat (drop_bit 3 idx) < length (bloom f)"
    using hash_in_filter [OF Cons.prems] by blast
  let ?j = "unat (drop_bit 3 idx)" and ?k = "unat (7 AND idx)"
  let ?f = "f\<lparr>bloom := (bloom f)[?j := bloom f ! ?j OR push_bit ?k 1]\<rparr>"
  have step: "extends f ?f" by (rule insert_step_extends [OF idx(2)])
  from Cons.IH [OF extends_ok [OF step Cons.prems]] obtain g where
    g: "bloom_insert ?f data is = Some g" "extends ?f g" "elemCount g = elemCount ?f"
      "bloom_contains g data is = Some True" by blast
  have "7 AND idx = take_bit 3 idx" by (simp add: take_bit_eq_mask mask_eq_exp_minus_1 and.commute)
  then have "?k < 8" by (simp add: unsigned_take_bit_eq take_bit_nat_less_exp [of 3, simplified])
  then have "bit (bloom ?f ! ?j) ?k" using idx(2) by (simp add: bit_or_iff bit_exp_iff)
  then have "bit (bloom g ! ?j) ?k" using g(2) idx(2) by (simp add: extends_def)
  with g idx show ?case
    using extends_trans [OF step g(2)] extends_hash [OF extends_trans [OF step g(2)], of data i]
    by (auto simp: rd_def test_bit_and extends_def)
qed (simp add: extends_refl)

definition insert_all :: "BRBloomFilter \<Rightarrow> bytes list \<Rightarrow> BRBloomFilter option" where
  "insert_all f ds = fold (\<lambda>d m. m \<bind> (\<lambda>f. BRBloomFilterInsertData f (Some d))) ds (Some f)"

lemma insert_data:
  assumes "bloom_ok f"
  shows "\<exists>g. BRBloomFilterInsertData f (Some d) = Some g \<and> bloom_ok g \<and> extends f g \<and>
     elemCount g = elemCount f + 1 \<and> BRBloomFilterContainsData g (Some d) = Some True"
proof -
  let ?is = "map word_of_nat [0..<unat (hashFuncs f)]"
  obtain g where g: "bloom_insert f d ?is = Some g" "extends f g" "elemCount g = elemCount f"
    "bloom_contains g d ?is = Some True" using insert_extends [OF assms] by blast
  let ?g = "g\<lparr>elemCount := elemCount g + 1\<rparr>"
  have "extends g ?g" "extends f ?g" using g(2) by (auto simp: extends_def)
  moreover have "bloom_ok g" by (rule extends_ok [OF g(2) assms])
  ultimately have "bloom_contains ?g d ?is = Some True" "bloom_ok ?g" "hashFuncs g = hashFuncs f"
    using contains_mono g extends_ok g(2) unfolding extends_def by blast+
  with g \<open>extends f ?g\<close> show ?thesis by (simp add: BRBloomFilterInsertData_def BRBloomFilterContainsData_def)
qed

lemma contains_data_mono:
  "bloom_ok f \<Longrightarrow> extends f g \<Longrightarrow> BRBloomFilterContainsData f d = Some True \<Longrightarrow>
   BRBloomFilterContainsData g d = Some True"
  using contains_mono [of f g] by (auto simp: BRBloomFilterContainsData_def extends_def split: option.splits)

lemma insert_all_step: "insert_all f (d # ds) = BRBloomFilterInsertData f (Some d) \<bind> (\<lambda>g. insert_all g ds)"
proof (cases "BRBloomFilterInsertData f (Some d)")
  case None
  have "fold (\<lambda>d m. m \<bind> (\<lambda>f. BRBloomFilterInsertData f (Some d))) ds None = None" by (induction ds) auto
  with None show ?thesis by (simp add: insert_all_def)
qed (simp add: insert_all_def)

lemma insert_all_ok:
  "bloom_ok f \<Longrightarrow> \<exists>g. insert_all f ds = Some g \<and> bloom_ok g \<and> extends f g \<and>
     elemCount g = elemCount f + word_of_nat (length ds) \<and>
     (\<forall>d \<in> set ds. BRBloomFilterContainsData g (Some d) = Some True)"
proof (induction ds arbitrary: f)
  case (Cons d ds)
  obtain g where g: "BRBloomFilterInsertData f (Some d) = Some g" "bloom_ok g" "extends f g"
    "elemCount g = elemCount f + 1" "BRBloomFilterContainsData g (Some d) = Some True"
    using insert_data [OF Cons.prems] by blast
  from Cons.IH [OF g(2)] obtain h where h: "insert_all g ds = Some h" "bloom_ok h" "extends g h"
    "elemCount h = elemCount g + word_of_nat (length ds)"
    "\<forall>d \<in> set ds. BRBloomFilterContainsData h (Some d) = Some True" by blast
  have "BRBloomFilterContainsData h (Some d) = Some True" by (rule contains_data_mono [OF g(2) h(3) g(5)])
  with g h extends_trans [OF g(3) h(3)] show ?case by (simp add: insert_all_step)
qed (simp add: insert_all_def extends_refl)

lemma bloom_new_ok: "bloom_ok (BRBloomFilterNew len hashFor tweak flags)"
  by (simp add: bloom_ok_def BRBloomFilterNew_def Let_def BLOOM_MAX_FILTER_LENGTH_def)

text \<open>C10: a bloom filter has no false negatives.  Whatever filter \<open>BRBloomFilterNew\<close> built and whatever data
  is inserted into it, no access leaves the filter, every inserted datum is reported as contained, the
  filter keeps its size and parameters, and the element count is the number of insertions.\<close>

theorem bloom_no_false_negatives:
  fixes len hashFor tweak flags
  defines "f \<equiv> BRBloomFilterNew len hashFor tweak flags"
  shows "\<exists>g. insert_all f ds = Some g \<and> length (bloom g) = length (bloom f) \<and> hashFuncs g = hashFuncs f \<and>
     hashFuncs f \<le> 50 \<and> elemCount g = word_of_nat (length ds) \<and> (\<forall>x. BRBloomFilterContainsData g x \<noteq> None) \<and>
     (\<forall>d \<in> set ds. BRBloomFilterContainsData g (Some d) = Some True)"
proof -
  obtain g where g: "insert_all f ds = Some g" "bloom_ok g" "extends f g"
    "elemCount g = elemCount f + word_of_nat (length ds)"
    "\<forall>d \<in> set ds. BRBloomFilterContainsData g (Some d) = Some True"
    using insert_all_ok [OF bloom_new_ok] unfolding f_def by blast
  moreover have "BRBloomFilterContainsData g x \<noteq> None" for x
    using contains_total [OF g(2)] by (auto simp: BRBloomFilterContainsData_def split: option.splits)
  moreover have "elemCount f = 0" "hashFuncs f \<le> 50"
    by (auto simp: f_def BRBloomFilterNew_def Let_def BLOOM_MAX_HASH_FUNCS_def)
  ultimately show ?thesis by (simp add: extends_def)
qed

theorem bloom_no_false_negatives_witness:
  "\<exists>g. insert_all (BRBloomFilterNew 4 (\<lambda>_. 3) 7 1) [[1, 2, 3], [4, 5]] = Some g \<and>
     BRBloomFilterContainsData g (Some [4, 5]) = Some True"
  using bloom_no_false_negatives [where len = 4 and hashFor = "\<lambda>_. 3" and tweak = 7 and flags = 1
      and ds = "[[1, 2, 3], [4, 5]]"] by auto

section \<open>Serialisation\<close>

definition bloom_bytes :: "BRBloomFilter \<Rightarrow> bytes" where
  "bloom_bytes f = varint (word_of_nat (length (bloom f))) @ bloom f @ UInt32SetLE (hashFuncs f) @
     UInt32SetLE (bloom_tweak f) @ [bloom_flags f]"

lemma Serialize_emit: "BRBloomFilterSerialize f buf = emit buf (bloom_bytes f)"
proof (cases buf)
  case (Some b)
  have len: "BRVarIntSize (word_of_nat (length (bloom f))) + length (bloom f) + 4 + 4 + 1 = length (bloom_bytes f)"
    by (simp add: bloom_bytes_def BRVarIntSize_eq)
  show ?thesis
    unfolding BRBloomFilterSerialize_def Let_def len Some
    by (simp add: BRVarIntSet_emit emit_def bloom_bytes_def put_put)
qed (simp add: BRBloomFilterSerialize_def Let_def BRVarIntSize_eq bloom_bytes_def)

lemma Parse_bytes:
  assumes "length (bloom f) \<le> BLOOM_MAX_FILTER_LENGTH"
  shows "BRBloomFilterParse (Some (bloom_bytes f @ rest)) = Some (Some (f\<lparr>elemCount := 0\<rparr>))"
proof -
  let ?n = "length (bloom f)"
  define v where "v = varint (word_of_nat ?n)"
  have n: "?n \<le> 36000" using assms by (simp add: BLOOM_MAX_FILTER_LENGTH_def)
  then have u: "unat (word_of_nat ?n :: u64) = ?n" by (intro unat_word_of_nat_less) simp
  have v: "length v \<le> 9" unfolding v_def by (rule length_varint_le)
  have vi: "BRVarInt (v @ xs) = (word_of_nat ?n, length v)" for xs unfolding v_def by (rule BRVarInt_varint)
  have m: "(length v + ?n) mod 2 ^ 64 = length v + ?n" "(length v + ?n + 4) mod 2 ^ 64 = length v + ?n + 4"
    "(length v + ?n + 4 + 4) mod 2 ^ 64 = length v + ?n + 4 + 4"
    "(length v + ?n + 4 + 4 + 1) mod 2 ^ 64 = length v + ?n + 4 + 4 + 1"
    using n v by (simp_all add: mod_less)
  show ?thesis
    unfolding BRBloomFilterParse_def bloom_bytes_def v_def [symmetric] Let_def append_assoc option.case vi fst_conv snd_conv u m
    using assms by (simp add: rd_def rd_slice_def slice_def nth_append UInt32GetLE_SetLE [of _ "[]", simplified])
qed

text \<open>\<open>BRBloomFilterSerialize\<close> reports for a \<open>NULL\<close> buffer the size that it writes, refuses a smaller
  buffer, and what it writes is parsed back by \<open>BRBloomFilterParse\<close> to the same filter, apart from the
  element count, which is not sent.\<close>

theorem bloom_serialize_roundtrip:
  assumes "bloom_ok f" and "BRBloomFilterSerialize f (Some buf) = (Some out, n)"
  shows "n = (if snd (BRBloomFilterSerialize f None) \<le> length buf then snd (BRBloomFilterSerialize f None) else 0) \<and>
     (0 < n \<longrightarrow> length out = length buf \<and> BRBloomFilterParse (Some out) = Some (Some (f\<lparr>elemCount := 0\<rparr>)))"
proof -
  have e: "emit (Some buf) (bloom_bytes f) = (Some out, n)" using assms(2) by (simp add: Serialize_emit)
  have "out = bloom_bytes f @ drop n buf" "n = length (bloom_bytes f)" "n \<le> length buf" if "0 < n"
    using e that emit_Some_iff [of buf "bloom_bytes f" out n] by auto
  moreover have "length (bloom f) \<le> BLOOM_MAX_FILTER_LENGTH" using assms(1) by (simp add: bloom_ok_def)
  ultimately show ?thesis using e Parse_bytes [of f] by (auto simp: Serialize_emit emit_def split: if_splits)
qed

theorem bloom_serialize_roundtrip_witness:
  "BRBloomFilterParse (Some ([2, 0xab, 0xcd] @ [3, 0, 0, 0] @ [7, 0, 0, 0] @ [1])) =
     Some (Some \<lparr>bloom = [0xab, 0xcd], hashFuncs = 3, elemCount = 0, bloom_tweak = 7, bloom_flags = 1\<rparr>)"
proof -
  define f where "f = \<lparr>bloom = [0xab, 0xcd], hashFuncs = 3, elemCount = 5, bloom_tweak = 7, bloom_flags = 1\<rparr>"
  have "bloom_ok f" by (simp add: f_def bloom_ok_def BLOOM_MAX_FILTER_LENGTH_def)
  moreover have "BRBloomFilterSerialize f (Some [0,0,0,0,0,0,0,0,0,0,0,0]) =
     (Some ([2, 0xab, 0xcd] @ [3, 0, 0, 0] @ [7, 0, 0, 0] @ [1]), 12)" unfolding f_def by code_simp
  ultimately show ?thesis using bloom_serialize_roundtrip [of f] by (auto simp: f_def)
qed

text \<open>The bound checks of \<open>BRBloomFilterParse\<close> add the 64-bit length field to the offset without a check, so
  for a length field of \<open>2\<^sup>64 - 9 - k\<close>, with \<open>k\<close> from 1 to 4, the wrapped check passes and four bytes are read
  from \<open>k\<close> bytes before the buffer; and a filter of length 0 is accepted, for which the first lookup or
  insertion takes a remainder by zero.\<close>

theorem bloom_parse_unchecked:
  assumes "1 \<le> k" and "k \<le> 4" and "funcs \<noteq> 0" and "length rest < 2 ^ 63"
  shows "BRBloomFilterParse (Some (0xff # UInt64SetLE (word_of_nat (2 ^ 64 - 9 - k)) @ rest)) = None \<and>
    (\<exists>f. BRBloomFilterParse (Some (0 # UInt32SetLE funcs @ UInt32SetLE tweak @ flags # rest)) = Some (Some f) \<and>
      BRBloomFilterContainsData f (Some d) = None \<and> BRBloomFilterInsertData f (Some d) = None)"
proof
  let ?w = "word_of_nat (2 ^ 64 - 9 - k) :: u64"
  let ?b = "0xff # UInt64SetLE ?w @ rest"
  have u: "unat ?w = 2 ^ 64 - 9 - k" by (rule unat_word_of_nat_less) (use assms in simp)
  have "BRVarInt ?b = (?w, 9)" by (simp add: BRVarInt_def endian_simps)
  moreover have "(9 + unat ?w) mod 2 ^ 64 = 2 ^ 64 - k" unfolding u using assms by simp
  moreover have "(2 ^ 64 - k + 4) mod 2 ^ 64 = 4 - k" using assms by (simp add: le_mod_geq)
  moreover have "4 - k \<le> length ?b" by simp
  moreover have "rd_slice ?b (2 ^ 64 - k) 4 = None" using assms by (simp add: rd_slice_def)
  ultimately show "BRBloomFilterParse (Some ?b) = None"
    unfolding BRBloomFilterParse_def Let_def option.case by (simp only: fst_conv snd_conv if_True option.map bind.bind_lzero)
next
  show "\<exists>f. BRBloomFilterParse (Some (0 # UInt32SetLE funcs @ UInt32SetLE tweak @ flags # rest)) = Some (Some f) \<and>
      BRBloomFilterContainsData f (Some d) = None \<and> BRBloomFilterInsertData f (Some d) = None"
    (is "\<exists>f. ?P f \<and> _")
  proof -
    define f where "f = \<lparr>bloom = [], hashFuncs = funcs, elemCount = 0, bloom_tweak = tweak, bloom_flags = flags\<rparr>"
    have "bloom_bytes f @ rest = 0 # UInt32SetLE funcs @ UInt32SetLE tweak @ flags # rest"
      by (simp add: bloom_bytes_def f_def varint_def)
    then have P: "?P f" using Parse_bytes [of f rest] by (simp add: f_def)
    from assms(3) obtain n where "unat funcs = Suc n" by (metis not0_implies_Suc unat_eq_zero)
    then have "map word_of_nat [0..<unat funcs] = (0 :: u32) # map word_of_nat [1..<Suc n]" by (simp add: upt_conv_Cons del: upt_Suc)
    moreover have "BloomFilterHash f d 0 = None" by (simp add: BloomFilterHash_def f_def)
    ultimately have "BRBloomFilterContainsData f (Some d) = None \<and> BRBloomFilterInsertData f (Some d) = None"
      by (simp add: BRBloomFilterContainsData_def BRBloomFilterInsertData_def f_def)
    with P show ?thesis by blast
  qed
qed

theorem bloom_parse_unchecked_witness:
  "BRBloomFilterParse (Some (0xff # UInt64SetLE (word_of_nat (2 ^ 64 - 9 - 2)))) = None"
  using bloom_parse_unchecked [of 2 1 "[]"] by simp

end
