(* ===== verification/BRScript.thy ===== *)
theory BRScript
  imports BRAddress
begin

text \<open>
  \<open>BRScript.c\<close> with the asset types of \<open>BRTransaction.h\<close>: the names of the opcodes and the tests that tell
  the standard scripts and the asset scripts apart.  The tests read a script only behind a check of its
  length, so a script pointer that is \<open>NULL\<close> with length 0 behaves like the empty script.
\<close>

section \<open>Opcodes\<close>

definition OP_0 :: u8 where "OP_0 = 0x00"
definition OP_DROP :: u8 where "OP_DROP = 0x75"
definition OP_RVN_ASSET :: u8 where "OP_RVN_ASSET = 0xc0"
definition RVN_R :: u8 where "RVN_R = 114"
definition RVN_V :: u8 where "RVN_V = 118"
definition RVN_N :: u8 where "RVN_N = 110"
definition RVN_Q :: u8 where "RVN_Q = 113"
definition RVN_T :: u8 where "RVN_T = 116"
definition RVN_O :: u8 where "RVN_O = 111"

lemmas asset_opcode_defs = OP_DROP_def OP_RVN_ASSET_def RVN_R_def RVN_V_def RVN_N_def RVN_Q_def RVN_T_def RVN_O_def

text \<open>The switch of \<open>GetOpName\<close>, as the list of its cases.\<close>

definition op_cases :: "(u8 \<times> string) list" where
  "op_cases = [
    (0x00, ''0''), (0x4c, ''OP_PUSHDATA1''), (0x4d, ''OP_PUSHDATA2''), (0x4e, ''OP_PUSHDATA4''), (0x4f, ''-1''),
    (0x50, ''OP_RESERVED''), (0x51, ''1''), (0x52, ''2''), (0x53, ''3''), (0x54, ''4''), (0x55, ''5''),
    (0x56, ''6''), (0x57, ''7''), (0x58, ''8''), (0x59, ''9''), (0x5a, ''10''), (0x5b, ''11''), (0x5c, ''12''),
    (0x5d, ''13''), (0x5e, ''14''), (0x5f, ''15''), (0x60, ''16''), (0x61, ''OP_NOP''), (0x62, ''OP_VER''),
    (0x63, ''OP_IF''), (0x64, ''OP_NOTIF''), (0x65, ''OP_VERIF''), (0x66, ''OP_VERNOTIF''), (0x67, ''OP_ELSE''),
    (0x68, ''OP_ENDIF''), (0x69, ''OP_VERIFY''), (0x6a, ''OP_RETURN''), (0x6b, ''OP_TOALTSTACK''),
    (0x6c, ''OP_FROMALTSTACK''), (0x6d, ''OP_2DROP''), (0x6e, ''OP_2DUP''), (0x6f, ''OP_3DUP''),
    (0x70, ''OP_2OVER''), (0x71, ''OP_2ROT''), (0x72, ''OP_2SWAP''), (0x73, ''OP_IFDUP''), (0x74, ''OP_DEPTH''),
    (0x75, ''OP_DROP''), (0x76, ''OP_DUP''), (0x77, ''OP_NIP''), (0x78, ''OP_OVER''), (0x79, ''OP_PICK''),
    (0x7a, ''OP_ROLL''), (0x7b, ''OP_ROT''), (0x7c, ''OP_SWAP''), (0x7d, ''OP_TUCK''), (0x7e, ''OP_CAT''),
    (0x7f, ''OP_SUBSTR''), (0x80, ''OP_LEFT''), (0x81, ''OP_RIGHT''), (0x82, ''OP_SIZE''), (0x83, ''OP_INVERT''),
    (0x84, ''OP_AND''), (0x85, ''OP_OR''), (0x86, ''OP_XOR''), (0x87, ''OP_EQUAL''), (0x88, ''OP_EQUALVERIFY''),
    (0x89, ''OP_RESERVED1''), (0x8a, ''OP_RESERVED2''), (0x8b, ''OP_1ADD''), (0x8c, ''OP_1SUB''),
    (0x8d, ''OP_2MUL''), (0x8e, ''OP_2DIV''), (0x8f, ''OP_NEGATE''), (0x90, ''OP_ABS''), (0x91, ''OP_NOT''),
    (0x92, ''OP_0NOTEQUAL''), (0x93, ''OP_ADD''), (0x94, ''OP_SUB''), (0x95, ''OP_MUL''), (0x96, ''OP_DIV''),
    (0x97, ''OP_MOD''), (0x98, ''OP_LSHIFT''), (0x99, ''OP_RSHIFT''), (0x9a, ''OP_BOOLAND''),
    (0x9b, ''OP_BOOLOR''), (0x9c, ''OP_NUMEQUAL''), (0x9d, ''OP_NUMEQUALVERIFY''), (0x9e, ''OP_NUMNOTEQUAL''),
    (0x9f, ''OP_LESSTHAN''), (0xa0, ''OP_GREATERTHAN''), (0xa1, ''OP_LESSTHANOREQUAL''),
    (0xa2, ''OP_GREATERTHANOREQUAL''), (0xa3, ''OP_MIN''), (0xa4, ''OP_MAX''), (0xa5, ''OP_WITHIN''),
    (0xa6, ''OP_RIPEMD160''), (0xa7, ''OP_SHA1''), (0xa8, ''OP_SHA256''), (0xa9, ''OP_HASH160''),
    (0xaa, ''OP_HASH256''), (0xab, ''OP_CODESEPARATOR''), (0xac, ''OP_CHECKSIG''), (0xad, ''OP_CHECKSIGVERIFY''),
    (0xae, ''OP_CHECKMULTISIG''), (0xaf, ''OP_CHECKMULTISIGVERIFY''), (0xb0, ''OP_NOP1''),
    (0xb1, ''OP_CHECKLOCKTIMEVERIFY''), (0xb2, ''OP_CHECKSEQUENCEVERIFY''), (0xb3, ''OP_NOP4''),
    (0xb4, ''OP_NOP5''), (0xb5, ''OP_NOP6''), (0xb6, ''OP_NOP7''), (0xb7, ''OP_NOP8''), (0xb8, ''OP_NOP9''),
    (0xb9, ''OP_NOP10''), (0xc0, ''OP_RVN_ASSET''), (0xff, ''OP_INVALIDOPCODE'')]"

definition GetOpName :: "u8 \<Rightarrow> string" where
  "GetOpName opcode = (case map_of op_cases opcode of Some s \<Rightarrow> s | None \<Rightarrow> ''OP_UNKNOWN'')"

section \<open>Script tests\<close>

definition IsPayToPublicKeyHash :: "bytes \<Rightarrow> bool" where
  "IsPayToPublicKeyHash script \<longleftrightarrow> length script = 25 \<and> script ! 0 = OP_DUP \<and> script ! 1 = OP_HASH160 \<and>
     script ! 2 = 0x14 \<and> script ! 23 = OP_EQUALVERIFY \<and> script ! 24 = OP_CHECKSIG"

definition IsPayToScriptHash :: "bytes \<Rightarrow> bool" where
  "IsPayToScriptHash script \<longleftrightarrow> length script = 23 \<and> script ! 0 = OP_HASH160 \<and> script ! 1 = 0x14 \<and>
     script ! 22 = OP_EQUAL"

definition IsScriptNewAsset :: "bytes \<Rightarrow> bool" where
  "IsScriptNewAsset script \<longleftrightarrow> length script > 39 \<and> script ! 25 = OP_RVN_ASSET \<and> script ! 27 = RVN_R \<and>
     script ! 28 = RVN_V \<and> script ! 29 = RVN_N \<and> script ! 30 = RVN_Q"

definition IsScriptOwnerAsset :: "bytes \<Rightarrow> bool" where
  "IsScriptOwnerAsset script \<longleftrightarrow> length script > 30 \<and> script ! 25 = OP_RVN_ASSET \<and> script ! 27 = RVN_R \<and>
     script ! 28 = RVN_V \<and> script ! 29 = RVN_N \<and> script ! 30 = RVN_O"

definition IsScriptReissueAsset :: "bytes \<Rightarrow> bool" where
  "IsScriptReissueAsset script \<longleftrightarrow> length script > 30 \<and> script ! 25 = OP_RVN_ASSET \<and> script ! 27 = RVN_R \<and>
     script ! 28 = RVN_V \<and> script ! 29 = RVN_N \<and> script ! 30 = RVN_R"

definition IsScriptTransferAsset :: "bytes \<Rightarrow> bool" where
  "IsScriptTransferAsset script \<longleftrightarrow> length script > 30 \<and> script ! 25 = OP_RVN_ASSET \<and> script ! 27 = RVN_R \<and>
     script ! 28 = RVN_V \<and> script ! 29 = RVN_N \<and> script ! 30 = RVN_T"

definition IsScriptAsset :: "bytes \<Rightarrow> bool" where
  "IsScriptAsset script \<longleftrightarrow> IsScriptTransferAsset script \<or> IsScriptReissueAsset script \<or>
     IsScriptOwnerAsset script \<or> IsScriptNewAsset script"

definition IsPayToWitnessScriptHash :: "bytes \<Rightarrow> bool" where
  "IsPayToWitnessScriptHash script \<longleftrightarrow> length script = 34 \<and> script ! 0 = OP_0 \<and> script ! 1 = 0x20"

definition IsPayToPublicKey :: "bytes \<Rightarrow> bool" where
  "IsPayToPublicKey script \<longleftrightarrow>
     (if length script = 35 then (script ! 1 = 0x02 \<or> script ! 1 = 0x03) \<and> script ! 34 = OP_CHECKSIG
      else if length script = 67 then script ! 1 = 0x04 \<and> script ! 66 = OP_CHECKSIG
      else False)"

section \<open>Assets\<close>

datatype BRAssetScriptType = NEW_ASSET | TRANSFER | REISSUE | OWNER | INVALID

datatype BRAssetType = ROOT | SUB | UNIQUE | CHANNEL | VOTE

text \<open>\<open>name\<close> is the array that the pointer refers to, terminator included, or \<open>None\<close> for \<open>NULL\<close>.
  \<open>IPFSHash\<close> is the last member of the structure: its storage is the 46 declared bytes and the 7 bytes
  that pad the structure to 88 bytes.\<close>

record BRAsset =
  asset_type :: BRAssetScriptType
  name :: "bytes option"
  nameLen :: nat
  amount :: u64
  unit :: u8
  reissuable :: u8
  hasIPFS :: u8
  IPFSHash :: bytes

text \<open>The C string that starts at an array: the bytes up to the first NUL; \<open>None\<close> when there is none.\<close>

definition cstr :: "bytes \<Rightarrow> bytes option" where
  "cstr a = (if 0 \<in> set a then Some (takeWhile (\<lambda>b. b \<noteq> 0) a) else None)"

text \<open>\<open>None\<close>: an assertion fails or the name is not terminated.\<close>

definition asset_name_has :: "BRAsset \<Rightarrow> char \<Rightarrow> bool option" where
  "asset_name_has asst c = do { nm \<leftarrow> name asst; s \<leftarrow> cstr nm; Some (of_char c \<in> set s) }"

definition IsAssetNameRootAsset :: "BRAsset \<Rightarrow> bool option" where
  "IsAssetNameRootAsset asst = do {
     a \<leftarrow> asset_name_has asst CHR ''/'';
     b \<leftarrow> asset_name_has asst CHR ''#'';
     Some (if a \<or> b then False else True)
   }"

definition IsAssetNameSubAsset :: "BRAsset \<Rightarrow> bool option" where
  "IsAssetNameSubAsset asst = do { a \<leftarrow> asset_name_has asst CHR ''/''; Some (if a then True else False) }"

definition IsAssetNameUniqueAsset :: "BRAsset \<Rightarrow> bool option" where
  "IsAssetNameUniqueAsset asst = do { a \<leftarrow> asset_name_has asst CHR ''#''; Some (if a then True else False) }"

section \<open>The tests are consistent with each other\<close>

lemmas script_tests = IsScriptNewAsset_def IsScriptTransferAsset_def IsScriptReissueAsset_def IsScriptOwnerAsset_def
lemmas standard_tests = IsPayToPublicKeyHash_def IsPayToScriptHash_def IsPayToWitnessScriptHash_def IsPayToPublicKey_def

lemma op_codes_distinct: "distinct (map fst op_cases)"
  by code_simp

definition string_key :: "string \<Rightarrow> int" where
  "string_key s = foldr (\<lambda>c n. of_char c + 256 * n) s 0"

lemma op_names_distinct: "distinct (''OP_UNKNOWN'' # map snd op_cases)"
proof -
  have "distinct (map string_key (''OP_UNKNOWN'' # map snd op_cases))" by code_simp
  then show ?thesis by (simp only: distinct_map)
qed

lemma GetOpName_inj:
  assumes "GetOpName a \<noteq> ''OP_UNKNOWN''" and "GetOpName a = GetOpName b"
  shows "a = b"
proof -
  obtain s where a: "map_of op_cases a = Some s" "map_of op_cases b = Some s"
    using assms by (auto simp: GetOpName_def split: option.splits)
  then have "(a, s) \<in> set op_cases" "(b, s) \<in> set op_cases" by (simp_all add: map_of_SomeD)
  then show ?thesis using op_names_distinct unfolding distinct.simps distinct_map inj_on_def by fastforce
qed

lemma p2pkh_test_iff: "IsPayToPublicKeyHash s \<longleftrightarrow> (\<exists>h. length h = 20 \<and> s = p2pkh_script h)"
proof
  assume t: "IsPayToPublicKeyHash s"
  then have len: "length s = 25" by (simp add: IsPayToPublicKeyHash_def)
  have "s = p2pkh_script (slice 3 20 s)"
  proof (rule nth_equalityI)
    show "length s = length (p2pkh_script (slice 3 20 s))" using len by simp
    fix i assume "i < length s"
    then consider "i = 0" | "i = 1" | "i = 2" | "i = 23" | "i = 24" | "3 \<le> i \<and> i < 23" using len by linarith
    then show "s ! i = p2pkh_script (slice 3 20 s) ! i"
    proof cases
      case 6
      then obtain j where "i = 3 + j" "j < 20" using le_Suc_ex [of 3 i] by auto
      with len show ?thesis by (simp add: p2pkh_script_def nth_append slice_def nth_Cons')
    qed (use t len in \<open>simp_all add: IsPayToPublicKeyHash_def p2pkh_script_def nth_append slice_def nth_Cons'\<close>)
  qed
  with len show "\<exists>h. length h = 20 \<and> s = p2pkh_script h" by (intro exI [of _ "slice 3 20 s"]) simp
qed (auto simp: IsPayToPublicKeyHash_def p2pkh_script_def nth_append nth_Cons')

text \<open>The script tests are consistent.  An opcode with a name of its own is identified by that name; an
  asset script is of exactly one of the four kinds; no asset script passes as a standard script of an address, and no
  script passes as two of them; \<open>IsPayToPublicKeyHash\<close> accepts exactly the scripts that \<open>BRAddressScriptPubKey\<close>
  writes for a public key hash, and those are the scripts of a valid address.\<close>

theorem script_tests_consistent:
  "(GetOpName a \<noteq> ''OP_UNKNOWN'' \<and> GetOpName a = GetOpName b \<longrightarrow> a = b) \<and>
   (IsScriptAsset s \<longleftrightarrow> length (filter (\<lambda>P. P s)
       [IsScriptNewAsset, IsScriptTransferAsset, IsScriptOwnerAsset, IsScriptReissueAsset]) = 1) \<and>
   length (filter (\<lambda>P. P s) [IsScriptAsset, IsPayToPublicKeyHash, IsPayToScriptHash]) \<le> 1 \<and>
   (IsPayToPublicKeyHash s \<longleftrightarrow> (\<exists>h. length h = 20 \<and> s = p2pkh_script h \<and>
       BRAddressFromScriptPubKey addr s = Some (BRBase58CheckEncode addr (RAVENCOIN_PUBKEY_ADDRESS # h))))"
proof (intro conjI)
  show "GetOpName a \<noteq> ''OP_UNKNOWN'' \<and> GetOpName a = GetOpName b \<longrightarrow> a = b" using GetOpName_inj by blast
  show "IsScriptAsset s \<longleftrightarrow> length (filter (\<lambda>P. P s)
       [IsScriptNewAsset, IsScriptTransferAsset, IsScriptOwnerAsset, IsScriptReissueAsset]) = 1"
    by (auto simp: IsScriptAsset_def script_tests asset_opcode_defs)
  show "length (filter (\<lambda>P. P s) [IsScriptAsset, IsPayToPublicKeyHash, IsPayToScriptHash]) \<le> 1"
    by (auto simp: IsScriptAsset_def script_tests IsPayToPublicKeyHash_def IsPayToScriptHash_def)
  show "IsPayToPublicKeyHash s \<longleftrightarrow> (\<exists>h. length h = 20 \<and> s = p2pkh_script h \<and>
       BRAddressFromScriptPubKey addr s = Some (BRBase58CheckEncode addr (RAVENCOIN_PUBKEY_ADDRESS # h)))"
    using p2pkh_address by (auto simp: p2pkh_test_iff RAVENCOIN_PUBKEY_ADDRESS_def)
qed

theorem script_tests_consistent_witness:
  "GetOpName 0x76 = ''OP_DUP'' \<and> GetOpName 0x77 \<noteq> ''OP_DUP''"
proof -
  have "GetOpName 0x76 = ''OP_DUP''" by code_simp
  then show ?thesis using script_tests_consistent [of "0x76" "0x77"] by auto
qed

end
