(* ===== verification/BRAssets.thy ===== *)
theory BRAssets
  imports BRScript
begin

text \<open>
  \<open>BRAssets.c\<close>, the part that works on scripts: reading the asset of a script into a \<open>BRAsset\<close>, and writing the
  asset part of an output script behind its 25 address bytes.  \<open>None\<close> stands for undefined behaviour: a read
  outside the copied script, a write outside the output script, a failed assertion.  The checks on whole
  transactions are in the theory of the transactions.
\<close>

section \<open>Amounts and names\<close>

definition COIN :: u64 where "COIN = 100000000"

definition GetIssueAssetBurnAmount :: u64 where "GetIssueAssetBurnAmount = 500 * COIN"
definition GetReissueAssetBurnAmount :: u64 where "GetReissueAssetBurnAmount = 100 * COIN"
definition GetIssueSubAssetBurnAmount :: u64 where "GetIssueSubAssetBurnAmount = 100 * COIN"
definition GetIssueUniqueAssetBurnAmount :: u64 where "GetIssueUniqueAssetBurnAmount = 5 * COIN"

fun GetAssetScriptType :: "BRAssetScriptType \<Rightarrow> string" where
  "GetAssetScriptType TRANSFER = ''TRANSFER''"
| "GetAssetScriptType REISSUE = ''REISSUE''"
| "GetAssetScriptType NEW_ASSET = ''NEW''"
| "GetAssetScriptType OWNER = ''OWNER''"
| "GetAssetScriptType INVALID = ''INVALID''"

fun GetAssetType :: "BRAssetType \<Rightarrow> string" where
  "GetAssetType ROOT = ''ROOT''"
| "GetAssetType UNIQUE = ''UNIQUE''"
| "GetAssetType CHANNEL = ''CHANNEL''"
| "GetAssetType VOTE = ''VOTE''"
| "GetAssetType SUB = ''SUB''"

definition DecodeIPFS :: "bytes option \<Rightarrow> bytes \<Rightarrow> bytes option \<times> nat" where
  "DecodeIPFS data str = BRBase58Decode data str"

definition EncodeIPFS :: "bytes option \<Rightarrow> bytes \<Rightarrow> bytes option \<times> nat" where
  "EncodeIPFS str data = BRBase58Encode str data"

definition NewAsset :: BRAsset where
  "NewAsset = \<lparr>asset_type = NEW_ASSET, name = None, nameLen = 0, amount = 0, unit = 0, reissuable = 0,
     hasIPFS = 0, IPFSHash = replicate 53 0\<rparr>"

section \<open>Reading the asset of a script\<close>

text \<open>The copy of the script behind byte 31; for a shorter script \<open>scriptLen - 31\<close> wraps and the allocation
  of nearly \<open>2\<^sup>64\<close> bytes fails its assertion.\<close>

definition asset_script :: "bytes \<Rightarrow> bytes option" where
  "asset_script script = (if 31 \<le> length script then Some (drop 31 script) else None)"

text \<open>The name, which all four readers read in the same way: the new asset and the offset behind the name.\<close>

definition asset_read_name :: "bytes \<Rightarrow> BRAsset \<Rightarrow> (BRAsset \<times> nat) option" where
  "asset_read_name assetScript asset =
     (let name_size = unat (fst (BRVarInt assetScript)); off = snd (BRVarInt assetScript) in
      if off \<le> length assetScript then do {
        nm \<leftarrow> rd_slice assetScript off name_size;
        Some (asset\<lparr>name := Some (nm @ [0]), nameLen := name_size\<rparr>, off + name_size)
      } else Some (asset, off))"

definition asset_read_amount :: "bytes \<Rightarrow> nat \<Rightarrow> u64" where
  "asset_read_amount assetScript off =
     (if off + 8 \<le> length assetScript then UInt64GetLE (drop off assetScript) else 0)"

text \<open>The hash behind the fixed fields: 34 bytes, stored as a base58 string with its terminator, and the
  check of the closing opcode.\<close>

definition asset_read_ipfs :: "bytes \<Rightarrow> nat \<Rightarrow> BRAsset \<Rightarrow> (bool \<times> BRAsset) option" where
  "asset_read_ipfs assetScript off asset =
     (if off \<le> length assetScript + 34 then do {
        h \<leftarrow> rd_slice assetScript off 34;
        let n = snd (EncodeIPFS None h);
        s \<leftarrow> rd_slice (IPFSHash asset) 0 n;
        let asset = asset\<lparr>IPFSHash := put 0 (the (fst (EncodeIPFS (Some s) h))) (IPFSHash asset)\<rparr>;
        b \<leftarrow> rd assetScript (off + 34);
        Some (b = OP_DROP, asset)
      } else Some (True, asset))"

definition NewAssetFromScriptPubKey :: "bytes \<Rightarrow> BRAsset \<Rightarrow> (bool \<times> BRAsset) option" where
  "NewAssetFromScriptPubKey script asset =
     (if length script = 0 \<or> length script > MAX_SCRIPT_LENGTH then Some (False, asset)
      else do {
        assetScript \<leftarrow> asset_script script;
        (asset, off) \<leftarrow> asset_read_name assetScript asset;
        let asset = asset\<lparr>amount := asset_read_amount assetScript off\<rparr>;
        u \<leftarrow> rd assetScript (off + 8);
        r \<leftarrow> rd assetScript (off + 9);
        i \<leftarrow> rd assetScript (off + 10);
        let asset = asset\<lparr>unit := u, reissuable := r, hasIPFS := i\<rparr>;
        done \<leftarrow> (if i = 0 then Some True else do { b \<leftarrow> rd assetScript (off + 11); Some (b = OP_DROP) });
        if done then Some (True, asset) else asset_read_ipfs assetScript (off + 11) asset
      })"

definition TransferAssetFromScriptPubKey :: "bytes \<Rightarrow> BRAsset \<Rightarrow> (bool \<times> BRAsset) option" where
  "TransferAssetFromScriptPubKey script asset =
     (if length script = 0 \<or> length script > MAX_SCRIPT_LENGTH then Some (False, asset)
      else do {
        assetScript \<leftarrow> asset_script script;
        (asset, off) \<leftarrow> asset_read_name assetScript asset;
        let asset = asset\<lparr>amount := asset_read_amount assetScript off\<rparr>;
        b \<leftarrow> rd assetScript (off + 8);
        Some (b = OP_DROP, asset)
      })"

definition OwnerAssetFromScriptPubKey :: "bytes \<Rightarrow> BRAsset \<Rightarrow> (bool \<times> BRAsset) option" where
  "OwnerAssetFromScriptPubKey script asset =
     (if length script = 0 \<or> length script > MAX_SCRIPT_LENGTH then Some (False, asset)
      else do {
        assetScript \<leftarrow> asset_script script;
        (asset, off) \<leftarrow> asset_read_name assetScript asset;
        let (asset, off) =
          (if off + 8 < length assetScript then (asset\<lparr>amount := asset_read_amount assetScript off\<rparr>, off + 8)
           else (asset\<lparr>amount := 1 * COIN\<rparr>, off));
        b \<leftarrow> rd assetScript off;
        Some (b = OP_DROP, asset)
      })"

definition ReissueAssetFromScriptPubKey :: "bytes \<Rightarrow> BRAsset \<Rightarrow> (bool \<times> BRAsset) option" where
  "ReissueAssetFromScriptPubKey script asset =
     (if length script = 0 \<or> length script > MAX_SCRIPT_LENGTH then Some (False, asset)
      else do {
        assetScript \<leftarrow> asset_script script;
        (asset, off) \<leftarrow> asset_read_name assetScript asset;
        let asset = asset\<lparr>amount := asset_read_amount assetScript off\<rparr>;
        u \<leftarrow> rd assetScript (off + 8);
        r \<leftarrow> rd assetScript (off + 9);
        let asset = asset\<lparr>unit := u, reissuable := r\<rparr>;
        b \<leftarrow> rd assetScript (off + 10);
        if b = OP_DROP then Some (True, asset\<lparr>hasIPFS := 0\<rparr>)
        else asset_read_ipfs assetScript (off + 10) (asset\<lparr>hasIPFS := 1\<rparr>)
      })"

definition GetAssetData :: "bytes \<Rightarrow> BRAsset \<Rightarrow> (bool \<times> BRAsset) option" where
  "GetAssetData script data =
     (if IsScriptNewAsset script then NewAssetFromScriptPubKey script (data\<lparr>asset_type := NEW_ASSET\<rparr>)
      else if IsScriptTransferAsset script then TransferAssetFromScriptPubKey script (data\<lparr>asset_type := TRANSFER\<rparr>)
      else if IsScriptOwnerAsset script then OwnerAssetFromScriptPubKey script (data\<lparr>asset_type := OWNER\<rparr>)
      else if IsScriptReissueAsset script then ReissueAssetFromScriptPubKey script (data\<lparr>asset_type := REISSUE\<rparr>)
      else Some (False, data))"

section \<open>Writing an asset script\<close>

text \<open>The writers store to fixed offsets of the script without a check against \<open>scriptLen\<close>.  The marker is
  followed by the kind of the script; \<open>BRVarIntSet\<close> is given the offset, 31, as the size of the buffer.\<close>

definition asset_write_marker :: "u8 \<Rightarrow> bytes \<Rightarrow> bytes option" where
  "asset_write_marker kind script = do {
     script \<leftarrow> wr script 25 [OP_RVN_ASSET];
     script \<leftarrow> wr script 27 [RVN_R];
     script \<leftarrow> wr script 28 [RVN_V];
     script \<leftarrow> wr script 29 [RVN_N];
     wr script 30 [kind]
   }"

definition asset_write_varint :: "bytes \<Rightarrow> nat \<Rightarrow> nat \<Rightarrow> (bytes \<times> nat) option" where
  "asset_write_varint script off v = do {
     let (b, n) = BRVarIntSet (Some (replicate off 0)) (word_of_nat v);
     script \<leftarrow> wr script off (take n (the b));
     Some (script, off + n)
   }"

definition asset_write_name :: "bytes \<Rightarrow> nat \<Rightarrow> BRAsset \<Rightarrow> (bytes \<times> nat) option" where
  "asset_write_name script off asset = do {
     nm \<leftarrow> name asset;
     bs \<leftarrow> rd_slice nm 0 (nameLen asset);
     script \<leftarrow> wr script off bs;
     Some (script, off + nameLen asset)
   }"

text \<open>The push length in byte 26 and the closing opcode.\<close>

definition asset_write_end :: "bytes \<Rightarrow> nat \<Rightarrow> (bytes \<times> nat) option" where
  "asset_write_end script off = do {
     script \<leftarrow> wr script 26 [word_of_nat (off - 25 - 2)];
     script \<leftarrow> wr script off [OP_DROP];
     Some (script, off + 1)
   }"

definition asset_write_ipfs :: "bytes \<Rightarrow> nat \<Rightarrow> BRAsset \<Rightarrow> (bytes \<times> nat) option" where
  "asset_write_ipfs script off asset =
     (if hasIPFS asset = 1 then do {
        s \<leftarrow> cstr (IPFSHash asset);
        let n = snd (DecodeIPFS None s);
        script \<leftarrow> wr script off (the (fst (DecodeIPFS (Some (replicate n 0)) s)));
        Some (script, off + n)
      } else Some (script, off))"

definition BRTxOutputSetNewAssetScript :: "bytes option \<Rightarrow> BRAsset \<Rightarrow> (bytes option \<times> nat) option" where
  "BRTxOutputSetNewAssetScript script asset =
     (if asset_type asset \<noteq> NEW_ASSET then None
      else case script of
        None \<Rightarrow> Some (None, if hasIPFS asset = 0 then 25 + 6 + 1 + nameLen asset + 8 + 3 + 1
                             else 25 + 6 + 1 + nameLen asset + 8 + 3 + 1 + 34)
      | Some script \<Rightarrow>
          if length script = 0 \<or> length script > MAX_SCRIPT_LENGTH then Some (Some script, 0)
          else do {
            script \<leftarrow> asset_write_marker RVN_Q script;
            (script, off) \<leftarrow> asset_write_varint script 31 (nameLen asset);
            (script, off) \<leftarrow> asset_write_name script off asset;
            script \<leftarrow> wr script off (UInt64SetLE (amount asset));
            script \<leftarrow> wr script (off + 8) [unit asset];
            script \<leftarrow> wr script (off + 9) [reissuable asset];
            script \<leftarrow> wr script (off + 10) [hasIPFS asset];
            (script, off) \<leftarrow> asset_write_ipfs script (off + 11) asset;
            (script, off) \<leftarrow> asset_write_end script off;
            Some (Some script, off)
          })"

definition BRTxOutputSetTransferAssetScript :: "bytes option \<Rightarrow> BRAsset \<Rightarrow> (bytes option \<times> nat) option" where
  "BRTxOutputSetTransferAssetScript script asset =
     (case script of
        None \<Rightarrow> Some (None, 25 + 6 + 1 + nameLen asset + 8 + 1)
      | Some script \<Rightarrow>
          if length script = 0 \<or> length script > MAX_SCRIPT_LENGTH then Some (Some script, 0)
          else do {
            script \<leftarrow> asset_write_marker RVN_T script;
            (script, off) \<leftarrow> asset_write_varint script 31 (nameLen asset);
            (script, off) \<leftarrow> asset_write_name script off asset;
            script \<leftarrow> wr script off (UInt64SetLE (amount asset));
            (script, off) \<leftarrow> asset_write_end script (off + 8);
            Some (Some script, off)
          })"

definition BRTxOutputSetReissueAssetScript :: "bytes option \<Rightarrow> BRAsset \<Rightarrow> (bytes option \<times> nat) option" where
  "BRTxOutputSetReissueAssetScript script asset =
     (if asset_type asset = NEW_ASSET then None
      else case script of
        None \<Rightarrow> Some (None, if hasIPFS asset = 0 then 25 + 6 + 1 + nameLen asset + 8 + 3 + 1
                             else 25 + 6 + 1 + nameLen asset + 8 + 3 + 1 + 34)
      | Some script \<Rightarrow>
          if length script = 0 \<or> length script > MAX_SCRIPT_LENGTH then Some (Some script, 0)
          else do {
            script \<leftarrow> asset_write_marker RVN_R script;
            (script, off) \<leftarrow> asset_write_varint script 31 (nameLen asset);
            (script, off) \<leftarrow> asset_write_name script off asset;
            script \<leftarrow> wr script off (UInt64SetLE (amount asset));
            script \<leftarrow> wr script (off + 8) [unit asset];
            script \<leftarrow> wr script (off + 9) [reissuable asset];
            (script, off) \<leftarrow> asset_write_ipfs script (off + 10) asset;
            (script, off) \<leftarrow> asset_write_end script off;
            Some (Some script, off)
          })"

definition OWNER_TAG :: bytes where "OWNER_TAG = ascii ''!''"

definition BRTxOutputSetOwnerAssetScript :: "bytes option \<Rightarrow> BRAsset \<Rightarrow> (bytes option \<times> nat) option" where
  "BRTxOutputSetOwnerAssetScript script asset =
     (case script of
        None \<Rightarrow> Some (None, 25 + 6 + 1 + nameLen asset + 1 + 1)
      | Some script \<Rightarrow>
          if length script = 0 \<or> length script > MAX_SCRIPT_LENGTH then Some (Some script, 0)
          else do {
            script \<leftarrow> asset_write_marker RVN_O script;
            (script, off) \<leftarrow> asset_write_varint script 31 (nameLen asset + 1);
            (script, off) \<leftarrow> asset_write_name script off asset;
            script \<leftarrow> wr script off OWNER_TAG;
            (script, off) \<leftarrow> asset_write_end script (off + length OWNER_TAG);
            Some (Some script, off)
          })"

text \<open>The asset name of an ownership transfer already carries the tag.\<close>

definition BRTxOutputSetTransferOwnerAssetScript :: "bytes option \<Rightarrow> BRAsset \<Rightarrow> (bytes option \<times> nat) option" where
  "BRTxOutputSetTransferOwnerAssetScript script asset =
     (case script of
        None \<Rightarrow> Some (None, 25 + 6 + 1 + nameLen asset + 8 + 1)
      | Some script \<Rightarrow>
          if length script = 0 \<or> length script > MAX_SCRIPT_LENGTH then Some (Some script, 0)
          else do {
            script \<leftarrow> asset_write_marker RVN_T script;
            (script, off) \<leftarrow> asset_write_varint script 31 (nameLen asset);
            (script, off) \<leftarrow> asset_write_name script off asset;
            script \<leftarrow> wr script off (UInt64SetLE (amount asset));
            (script, off) \<leftarrow> asset_write_end script (off + 8);
            Some (Some script, off)
          })"

definition BRTxOutputSetTransferOwnerAssetScriptWithoutTag :: "bytes option \<Rightarrow> BRAsset \<Rightarrow> (bytes option \<times> nat) option" where
  "BRTxOutputSetTransferOwnerAssetScriptWithoutTag script asset =
     (case script of
        None \<Rightarrow> Some (None, 25 + 6 + 1 + nameLen asset + 8 + 1 + 1)
      | Some script \<Rightarrow>
          if length script = 0 \<or> length script > MAX_SCRIPT_LENGTH then Some (Some script, 0)
          else do {
            script \<leftarrow> asset_write_marker RVN_T script;
            (script, off) \<leftarrow> asset_write_varint script 31 (nameLen asset + 1);
            (script, off) \<leftarrow> asset_write_name script off asset;
            script \<leftarrow> wr script off OWNER_TAG;
            script \<leftarrow> wr script (off + length OWNER_TAG) (UInt64SetLE COIN);
            (script, off) \<leftarrow> asset_write_end script (off + length OWNER_TAG + 8);
            Some (Some script, off)
          })"

text \<open>\<open>CopyAsset\<close> gives the new name \<open>nameLen\<close> bytes and copies the string with its terminator; the fields that
  it does not set are those of \<open>NewAsset\<close>.  The string of \<open>IPFSHash\<close> fits the storage it came from.\<close>

definition CopyAsset :: "BRAsset \<Rightarrow> BRAsset option" where
  "CopyAsset asst = do {
     nm \<leftarrow> name asst;
     s \<leftarrow> cstr nm;
     copy \<leftarrow> wr (replicate (nameLen asst) 0) 0 (s @ [0]);
     let a = NewAsset\<lparr>name := Some copy, nameLen := nameLen asst, amount := amount asst,
                      asset_type := asset_type asst, reissuable := reissuable asst, unit := unit asst,
                      hasIPFS := hasIPFS asst\<rparr>;
     if hasIPFS asst = 1 then do {
       h \<leftarrow> cstr (IPFSHash asst);
       buf \<leftarrow> wr (IPFSHash a) 0 (h @ [0]);
       Some (a\<lparr>IPFSHash := buf\<rparr>)
     } else Some a
   }"


section \<open>The layout of an asset script\<close>

text \<open>25 address bytes, the marker with the push length \<open>m\<close> and the kind, and the rest.\<close>

definition layout :: "bytes \<Rightarrow> u8 \<Rightarrow> u8 \<Rightarrow> bytes \<Rightarrow> bytes" where
  "layout a m kind rest = a @ [OP_RVN_ASSET, m, RVN_R, RVN_V, RVN_N, kind] @ rest"

definition name_head :: "bytes \<Rightarrow> bytes" where
  "name_head nm = varint (word_of_nat (length nm)) @ nm"

lemma length_layout [simp]: "length (layout a m kind rest) = length a + 6 + length rest"
  by (simp add: layout_def)

lemma drop_31_layout [simp]: "length a = 25 \<Longrightarrow> drop 31 (layout a m kind rest) = rest"
  by (simp add: layout_def)

lemma take_25_layout [simp]: "length a = 25 \<Longrightarrow> take 25 (layout a m kind rest) = a"
  by (simp add: layout_def)

lemma length_name_head: "length nm < 0xfd \<Longrightarrow> length (name_head nm) = 1 + length nm"
  by (simp add: name_head_def varint_def word_less_nat_alt unat_word_of_nat_less)

lemma write_marker:
  assumes "31 \<le> length script"
  shows "asset_write_marker kind script = Some (layout (take 25 script) (script ! 26) kind (drop 31 script))"
proof -
  have "Suc (Suc (Suc (Suc (Suc (Suc 0))))) \<le> length (drop 25 script)" using assms by simp
  then obtain x0 x1 x2 x3 x4 x5 r where "drop 25 script = x0 # x1 # x2 # x3 # x4 # x5 # r"
    unfolding Suc_le_length_iff by blast
  then obtain a where s: "script = a @ x0 # x1 # x2 # x3 # x4 # x5 # r" "length a = 25"
    using assms append_take_drop_id [of 25 script] by (metis length_take min.absorb2 order_trans [OF _ assms] numeral_le_iff semiring_norm(68,69,70,71,72,73))
  show ?thesis by (simp add: s asset_write_marker_def wr_def put_def layout_def nth_append)
qed

text \<open>While a script is written, the rest is the part written so far, \<open>p\<close>, over the old contents \<open>r\<close>.\<close>

lemma put_shift: "off = length xs + n \<Longrightarrow> put off bs (xs @ ys) = xs @ put n bs ys"
  by (simp add: put_def)

lemma wr_layout:
  assumes "length a = 25" "off = 31 + length p" "length p + length bs \<le> length r"
  shows "wr (layout a m kind (put 0 p r)) off bs = Some (layout a m kind (put 0 (p @ bs) r))"
proof -
  let ?x = "a @ [OP_RVN_ASSET, m, RVN_R, RVN_V, RVN_N, kind]"
  have l: "layout a m kind ys = ?x @ ys" for ys by (simp add: layout_def)
  have "off = length ?x + length p" using assms(1,2) by simp
  then have "put off bs (?x @ ys) = ?x @ put (length p) bs ys" for ys by (rule put_shift)
  then show ?thesis unfolding l using assms by (simp add: wr_def put_put [of _ 0])
qed

lemma write_end_layout:
  assumes "length a = 25" "off = 31 + length p" "length p < length r"
  shows "asset_write_end (layout a m kind (put 0 p r)) off =
     Some (layout a (word_of_nat (4 + length p)) kind (put 0 (p @ [OP_DROP]) r), off + 1)"
proof -
  have "wr (layout a m kind ys) 26 [w] = Some (layout a w kind ys)" for w ys
    using assms(1) by (simp add: wr_def put_def layout_def)
  moreover have "wr (layout a w kind (put 0 p r)) off [OP_DROP] = Some (layout a w kind (put 0 (p @ [OP_DROP]) r))" for w
    using assms by (intro wr_layout) auto
  ultimately show ?thesis using assms(2) by (simp add: asset_write_end_def)
qed

lemma length_varint_1: "n < 0xfd \<Longrightarrow> length (varint (word_of_nat n)) = 1"
  by (simp add: varint_def word_less_nat_alt unat_word_of_nat_less)

lemma write_head:
  assumes "length a = 25" "name asset = Some (nm @ z)" "nameLen asset = length nm" "n < 0xfd" "length nm < length r"
  shows "asset_write_varint (layout a m kind r) 31 n = Some (layout a m kind (put 0 (varint (word_of_nat n)) r), 32)"
    and "asset_write_name (layout a m kind (put 0 (varint (word_of_nat n)) r)) 32 asset =
       Some (layout a m kind (put 0 (varint (word_of_nat n) @ nm) r), 32 + length nm)"
proof -
  note v = length_varint_1 [OF assms(4)]
  have r: "r = put 0 [] r" by (simp add: put_def)
  show "asset_write_varint (layout a m kind r) 31 n = Some (layout a m kind (put 0 (varint (word_of_nat n)) r), 32)"
    using wr_layout [of a 31 "[]" "varint (word_of_nat n)" r m kind] assms(1,5) v
    by (simp add: asset_write_varint_def BRVarIntSet_emit emit_def r [symmetric]) (simp add: put_def)
  show "asset_write_name (layout a m kind (put 0 (varint (word_of_nat n)) r)) 32 asset =
       Some (layout a m kind (put 0 (varint (word_of_nat n) @ nm) r), 32 + length nm)"
    using wr_layout [of a 32 "varint (word_of_nat n)" nm r m kind] assms v
    by (simp add: asset_write_name_def rd_slice_def slice_def)
qed

section \<open>Reading what was written\<close>

lemma read_head:
  assumes "length nm < 2 ^ 64"
  shows "asset_read_name (name_head nm @ rest) asset =
     Some (asset\<lparr>name := Some (nm @ [0]), nameLen := length nm\<rparr>, length (name_head nm))"
proof -
  let ?v = "varint (word_of_nat (length nm))"
  have "BRVarInt (?v @ nm @ rest) = (word_of_nat (length nm), length ?v)" by (rule BRVarInt_varint)
  moreover have "unat (word_of_nat (length nm) :: u64) = length nm" using assms by (intro unat_word_of_nat_less) simp
  ultimately show ?thesis
    by (simp add: asset_read_name_def name_head_def Let_def rd_slice_def slice_def)
qed

lemma read_amount: "off = length p \<Longrightarrow> asset_read_amount (p @ UInt64SetLE v @ rest) off = v"
  by (simp add: asset_read_amount_def endian_simps)

lemma rd_at: "off = length p \<Longrightarrow> rd (p @ x # rest) off = Some x"
  by (simp add: rd_def)

lemma base58_string_no_0: "0 \<notin> set (base58_string h)"
proof -
  have "\<forall>c \<in> set base58chars. c \<noteq> 0" unfolding base58chars_code by simp
  moreover have "length base58chars = 58" unfolding base58chars_code by simp
  ultimately have nz: "i < 58 \<Longrightarrow> base58chars ! i \<noteq> 0" for i by (metis nth_mem)
  have "\<forall>d \<in> set (base58_enc_digits h). unat d < 58" using enc_digits_spec(2) by (simp add: digits_ok_def)
  then show ?thesis using nz [of 0] nz unfolding base58_string_def by (auto dest!: in_set_dropD)
qed

lemma cstr_put:
  assumes "0 \<notin> set s" "length s < length buf"
  shows "cstr (put 0 (s @ [0]) buf) = Some s"
  using assms by (auto simp: cstr_def put_def takeWhile_tail)

text \<open>The storage of the hash is long enough for every 34-byte value.\<close>

lemma ipfs_fits: "length h = 34 \<Longrightarrow> length (base58_string h) + 1 \<le> 53"
  using length_base58_string_le [of h] by simp

lemma read_ipfs:
  assumes "length h = 34" "length (IPFSHash asset) = 53" "off = length p"
  shows "asset_read_ipfs (p @ h @ x # rest) off asset =
     Some (x = OP_DROP, asset\<lparr>IPFSHash := put 0 (base58_string h @ [0]) (IPFSHash asset)\<rparr>)"
proof -
  let ?n = "length (base58_string h) + 1"
  have n: "?n \<le> 53" by (rule ipfs_fits [OF assms(1)])
  have "EncodeIPFS None h = (None, ?n)" by (simp add: EncodeIPFS_def BRBase58Encode_eq)
  moreover have "EncodeIPFS (Some (take ?n (IPFSHash asset))) h = (Some (base58_string h @ [0]), ?n)"
    using n assms(2) by (simp add: EncodeIPFS_def BRBase58Encode_eq put_def)
  moreover have "rd_slice (p @ h @ x # rest) off 34 = Some h" "rd (p @ h @ x # rest) (off + 34) = Some x"
    using assms(1,3) by (simp_all add: rd_slice_def slice_def rd_def nth_append)
  ultimately show ?thesis using n assms by (simp add: asset_read_ipfs_def rd_slice_def slice_def)
qed

section \<open>Round trips\<close>

text \<open>An asset as the wallet hands it to a writer: a terminated name of at most 252 bytes.\<close>

definition asset_named :: "BRAsset \<Rightarrow> bytes \<Rightarrow> bool" where
  "asset_named a nm \<longleftrightarrow> name a = Some (nm @ [0]) \<and> nameLen a = length nm \<and> length nm < 0xfd"

text \<open>Either no hash, or one of 34 bytes whose first byte is not the closing opcode (an IPFS hash starts with
  0x12).\<close>

definition ipfs_of :: "BRAsset \<Rightarrow> bytes \<Rightarrow> bool" where
  "ipfs_of a h \<longleftrightarrow> (hasIPFS a = 0 \<and> h = []) \<or>
     (hasIPFS a = 1 \<and> length h = 34 \<and> hd h \<noteq> OP_DROP \<and> cstr (IPFSHash a) = Some (base58_string h))"

lemma write_ipfs_layout:
  assumes "ipfs_of asset h" "length a = 25" "off = 31 + length p" "length p + length h \<le> length r"
  shows "asset_write_ipfs (layout a m kind (put 0 p r)) off asset =
     Some (layout a m kind (put 0 (p @ h) r), off + length h)"
proof (cases "hasIPFS asset = 1")
  case True
  then have "length h = 34" "cstr (IPFSHash asset) = Some (base58_string h)" using assms(1) by (auto simp: ipfs_of_def)
  moreover have "put 0 h (replicate (length h) 0) = h" by (simp add: put_def)
  ultimately show ?thesis using True assms(2-4) wr_layout [of a off p h r m kind]
    by (simp add: asset_write_ipfs_def DecodeIPFS_def BRBase58Decode_eq base58_roundtrip)
next
  case False
  then show ?thesis using assms(1) by (auto simp: ipfs_of_def asset_write_ipfs_def)
qed

definition new_payload :: "BRAsset \<Rightarrow> bytes \<Rightarrow> bytes \<Rightarrow> bytes" where
  "new_payload a nm h = name_head nm @ UInt64SetLE (amount a) @ [unit a, reissuable a, hasIPFS a] @ h"

definition reissue_payload :: "BRAsset \<Rightarrow> bytes \<Rightarrow> bytes \<Rightarrow> bytes" where
  "reissue_payload a nm h = name_head nm @ UInt64SetLE (amount a) @ [unit a, reissuable a] @ h"

definition transfer_payload :: "u64 \<Rightarrow> bytes \<Rightarrow> bytes" where
  "transfer_payload v nm = name_head nm @ UInt64SetLE v"

text \<open>The script of a kind with a payload, written over a buffer.\<close>

definition finished :: "u8 \<Rightarrow> bytes \<Rightarrow> bytes \<Rightarrow> bytes" where
  "finished kind buf p = layout (take 25 buf) (word_of_nat (4 + length p)) kind (put 0 (p @ [OP_DROP]) (drop 31 buf))"

lemma length_payloads:
  assumes "length nm < 0xfd"
  shows "length (new_payload a nm h) = 12 + length nm + length h"
    "length (reissue_payload a nm h) = 11 + length nm + length h" "length (transfer_payload v nm) = 9 + length nm"
  using length_name_head [OF assms] by (simp_all add: new_payload_def reissue_payload_def transfer_payload_def)

lemma write_new:
  assumes "asset_named a nm" "ipfs_of a h" "asset_type a = NEW_ASSET"
    "32 + length (new_payload a nm h) \<le> length buf" "length buf \<le> 256"
  shows "BRTxOutputSetNewAssetScript (Some buf) a =
     Some (Some (finished RVN_Q buf (new_payload a nm h)), 32 + length (new_payload a nm h))"
proof -
  have n: "length nm < 0xfd" "nameLen a = length nm" "name a = Some (nm @ [0])"
    using assms(1) by (auto simp: asset_named_def)
  note len = length_payloads(1) [OF n(1), of a h]
  have a25: "length (take 25 buf) = 25" using assms(4) by simp
  have r: "length (drop 31 buf) \<ge> 13 + length nm + length h" using assms(4) len by simp
  have "length buf \<noteq> 0" using assms(4) by linarith
  moreover have "31 \<le> length buf" using assms(4) by linarith
  ultimately show ?thesis
    unfolding BRTxOutputSetNewAssetScript_def finished_def
    using assms(3-5) len n r
    by (simp add: MAX_SCRIPT_LENGTH_def write_marker write_head [OF a25 n(3)] wr_layout [OF a25]
        write_ipfs_layout [OF assms(2) a25] write_end_layout [OF a25] length_varint_1 new_payload_def name_head_def)
qed


lemma write_reissue:
  assumes "asset_named a nm" "ipfs_of a h" "asset_type a \<noteq> NEW_ASSET"
    "32 + length (reissue_payload a nm h) \<le> length buf" "length buf \<le> 256"
  shows "BRTxOutputSetReissueAssetScript (Some buf) a =
     Some (Some (finished RVN_R buf (reissue_payload a nm h)), 32 + length (reissue_payload a nm h))"
proof -
  have n: "length nm < 0xfd" "nameLen a = length nm" "name a = Some (nm @ [0])"
    using assms(1) by (auto simp: asset_named_def)
  note len = length_payloads(2) [OF n(1), of a h]
  have a25: "length (take 25 buf) = 25" using assms(4) by simp
  have r: "length (drop 31 buf) \<ge> 12 + length nm + length h" using assms(4) len by simp
  have "length buf \<noteq> 0" "31 \<le> length buf" using assms(4) by linarith+
  then show ?thesis
    unfolding BRTxOutputSetReissueAssetScript_def finished_def
    using assms(3-5) len n r
    by (simp add: MAX_SCRIPT_LENGTH_def write_marker write_head [OF a25 n(3)] wr_layout [OF a25]
        write_ipfs_layout [OF assms(2) a25] write_end_layout [OF a25] length_varint_1 reissue_payload_def name_head_def)
qed

lemma write_transfer:
  assumes "asset_named a nm" "32 + length (transfer_payload (amount a) nm) \<le> length buf" "length buf \<le> 256"
  shows "BRTxOutputSetTransferAssetScript (Some buf) a =
     Some (Some (finished RVN_T buf (transfer_payload (amount a) nm)), 32 + length (transfer_payload (amount a) nm))"
    and "BRTxOutputSetTransferOwnerAssetScript (Some buf) a =
     Some (Some (finished RVN_T buf (transfer_payload (amount a) nm)), 32 + length (transfer_payload (amount a) nm))"
proof -
  have n: "length nm < 0xfd" "nameLen a = length nm" "name a = Some (nm @ [0])"
    using assms(1) by (auto simp: asset_named_def)
  note len = length_payloads(3) [OF n(1), of "amount a"]
  have a25: "length (take 25 buf) = 25" using assms(2) by simp
  have r: "length (drop 31 buf) \<ge> 10 + length nm" using assms(2) len by simp
  have ne: "length buf \<noteq> 0" "31 \<le> length buf" using assms(2) by linarith+
  show "BRTxOutputSetTransferAssetScript (Some buf) a =
     Some (Some (finished RVN_T buf (transfer_payload (amount a) nm)), 32 + length (transfer_payload (amount a) nm))"
    unfolding BRTxOutputSetTransferAssetScript_def finished_def
    using ne assms(2,3) len n r
    by (simp add: MAX_SCRIPT_LENGTH_def write_marker write_head [OF a25 n(3)] wr_layout [OF a25]
        write_end_layout [OF a25] length_varint_1 transfer_payload_def name_head_def)
  then show "BRTxOutputSetTransferOwnerAssetScript (Some buf) a =
     Some (Some (finished RVN_T buf (transfer_payload (amount a) nm)), 32 + length (transfer_payload (amount a) nm))"
    by (simp add: BRTxOutputSetTransferOwnerAssetScript_def BRTxOutputSetTransferAssetScript_def)
qed

lemma length_OWNER_TAG [simp]: "length OWNER_TAG = 1"
  by (simp add: OWNER_TAG_def ascii_def)

lemma name_head_tag: "name_head (nm @ OWNER_TAG) = (varint (word_of_nat (length nm + 1)) @ nm) @ OWNER_TAG"
  by (simp add: name_head_def)

lemma write_owner:
  assumes "asset_named a nm" "length nm + 1 < 0xfd" "34 + length nm \<le> length buf" "length buf \<le> 256"
  shows "BRTxOutputSetOwnerAssetScript (Some buf) a =
     Some (Some (finished RVN_O buf (name_head (nm @ OWNER_TAG))), 34 + length nm)"
proof -
  have n: "nameLen a = length nm" "name a = Some (nm @ [0])" using assms(1) by (auto simp: asset_named_def)
  have a25: "length (take 25 buf) = 25" using assms(3) by simp
  have r: "length (drop 31 buf) \<ge> 3 + length nm" using assms(3) by simp
  have "length buf \<noteq> 0" "31 \<le> length buf" using assms(3) by linarith+
  moreover have "length nm < length (drop 31 buf)" using r by simp
  note wh = write_head [OF a25 n(2,1) assms(2) this, simplified]
  ultimately show ?thesis
    unfolding BRTxOutputSetOwnerAssetScript_def finished_def name_head_tag
    using assms(2-4) n r length_varint_1 [OF assms(2)]
    by (simp add: MAX_SCRIPT_LENGTH_def write_marker wh wr_layout [OF a25] write_end_layout [OF a25])
qed

lemma write_transfer_owner:
  assumes "asset_named a nm" "length nm + 1 < 0xfd" "42 + length nm \<le> length buf" "length buf \<le> 256"
  shows "BRTxOutputSetTransferOwnerAssetScriptWithoutTag (Some buf) a =
     Some (Some (finished RVN_T buf (transfer_payload COIN (nm @ OWNER_TAG))), 42 + length nm)"
proof -
  have n: "nameLen a = length nm" "name a = Some (nm @ [0])" using assms(1) by (auto simp: asset_named_def)
  have a25: "length (take 25 buf) = 25" using assms(3) by simp
  have r: "length (drop 31 buf) \<ge> 11 + length nm" using assms(3) by simp
  have "length buf \<noteq> 0" "31 \<le> length buf" using assms(3) by linarith+
  moreover have "length nm < length (drop 31 buf)" using r by simp
  note wh = write_head [OF a25 n(2,1) assms(2) this, simplified]
  ultimately show ?thesis
    unfolding BRTxOutputSetTransferOwnerAssetScriptWithoutTag_def finished_def transfer_payload_def name_head_tag
    using assms(2-4) n r length_varint_1 [OF assms(2)]
    by (simp add: MAX_SCRIPT_LENGTH_def write_marker wh wr_layout [OF a25] write_end_layout [OF a25])
qed

section \<open>Parsing a finished script\<close>

lemma finished_tests:
  assumes "32 + length p \<le> length buf"
  shows "length (finished kind buf p) = length buf" "take 25 (finished kind buf p) = take 25 buf"
    "asset_script (finished kind buf p) = Some (p @ OP_DROP # drop (32 + length p) buf)"
    "finished kind buf p ! 25 = OP_RVN_ASSET" "finished kind buf p ! 27 = RVN_R" "finished kind buf p ! 28 = RVN_V"
    "finished kind buf p ! 29 = RVN_N" "finished kind buf p ! 30 = kind"
proof -
  have a25: "length (take 25 buf) = 25" using assms by simp
  show len: "length (finished kind buf p) = length buf" using assms by (simp add: finished_def)
  show "take 25 (finished kind buf p) = take 25 buf" unfolding finished_def by (rule take_25_layout [OF a25])
  show "asset_script (finished kind buf p) = Some (p @ OP_DROP # drop (32 + length p) buf)"
    unfolding asset_script_def len using assms drop_31_layout [OF a25]
    by (simp add: finished_def put_def add.commute)
  show "finished kind buf p ! 25 = OP_RVN_ASSET" "finished kind buf p ! 27 = RVN_R" "finished kind buf p ! 28 = RVN_V"
    "finished kind buf p ! 29 = RVN_N" "finished kind buf p ! 30 = kind"
    using a25 assms by (simp_all add: finished_def layout_def nth_append)
qed

lemma finished_kinds:
  assumes "32 + length p \<le> length buf"
  shows "IsScriptNewAsset (finished kind buf p) \<longleftrightarrow> length buf > 39 \<and> kind = RVN_Q"
    "IsScriptTransferAsset (finished kind buf p) \<longleftrightarrow> kind = RVN_T"
    "IsScriptOwnerAsset (finished kind buf p) \<longleftrightarrow> kind = RVN_O"
    "IsScriptReissueAsset (finished kind buf p) \<longleftrightarrow> kind = RVN_R"
  using finished_tests [OF assms, of kind] assms unfolding script_tests by (simp_all only:) auto


lemma parse_finished_new:
  assumes "32 + length (new_payload a nm h) \<le> length buf" "length buf \<le> 256" "length nm < 0xfd" "ipfs_of a h"
    "length (IPFSHash d) = 53"
  shows "GetAssetData (finished RVN_Q buf (new_payload a nm h)) d = Some (True, d\<lparr>asset_type := NEW_ASSET,
     name := Some (nm @ [0]), nameLen := length nm, amount := amount a, unit := unit a, reissuable := reissuable a,
     hasIPFS := hasIPFS a, IPFSHash := (if h = [] then IPFSHash d else put 0 (base58_string h @ [0]) (IPFSHash d))\<rparr>)"
proof -
  let ?H = "length (name_head nm)" and ?A = "UInt64SetLE (amount a)" and ?E = "OP_DROP # drop (32 + length (new_payload a nm h)) buf"
  let ?S = "name_head nm @ ?A @ unit a # reissuable a # hasIPFS a # h @ ?E"
  have "39 < length buf" using assms(1) length_payloads(1) [OF assms(3), of a h] by simp
  moreover have ne: "length buf \<noteq> 0" using calculation by linarith
  moreover have "asset_script (finished RVN_Q buf (new_payload a nm h)) = Some ?S"
    using finished_tests(3) [OF assms(1)] by (simp add: new_payload_def)
  moreover have "rd ?S (?H + 8) = Some (unit a)" "rd ?S (?H + 9) = Some (reissuable a)" "rd ?S (?H + 10) = Some (hasIPFS a)"
    using rd_at [of "?H + 8" "name_head nm @ ?A"] rd_at [of "?H + 9" "name_head nm @ ?A @ [unit a]"]
      rd_at [of "?H + 10" "name_head nm @ ?A @ [unit a, reissuable a]"] by simp_all
  moreover have "asset_read_amount ?S ?H = amount a" by (rule read_amount) simp
  moreover have "asset_read_name ?S x = Some (x\<lparr>name := Some (nm @ [0]), nameLen := length nm\<rparr>, ?H)" for x
    by (rule read_head) (use assms(3) in simp)
  moreover have "(hasIPFS a = 0 \<and> h = []) \<or> (hasIPFS a = 1 \<and> h \<noteq> [] \<and> rd ?S (?H + 11) = Some (hd h) \<and> hd h \<noteq> OP_DROP \<and>
     length h = 34)"
    using assms(4) rd_at [of "?H + 11" "name_head nm @ ?A @ [unit a, reissuable a, hasIPFS a]" "hd h" "tl h @ ?E"]
    by (auto simp: ipfs_of_def length_Suc_conv eval_nat_numeral)
  moreover have "asset_read_ipfs ?S (?H + 11) x =
      Some (True, x\<lparr>IPFSHash := put 0 (base58_string h @ [0]) (IPFSHash x)\<rparr>)" if "length h = 34" "IPFSHash x = IPFSHash d" for x
    using read_ipfs [of h x "?H + 11" "name_head nm @ ?A @ [unit a, reissuable a, hasIPFS a]" OP_DROP] that assms(5) by simp
  ultimately show ?thesis using assms(2)
    by (auto simp: GetAssetData_def finished_kinds [OF assms(1)] NewAssetFromScriptPubKey_def finished_tests(1) [OF assms(1)]
        MAX_SCRIPT_LENGTH_def)
qed


lemma parse_finished_reissue:
  assumes "32 + length (reissue_payload a nm h) \<le> length buf" "length buf \<le> 256" "length nm < 0xfd" "ipfs_of a h"
    "length (IPFSHash d) = 53"
  shows "GetAssetData (finished RVN_R buf (reissue_payload a nm h)) d = Some (True, d\<lparr>asset_type := REISSUE,
     name := Some (nm @ [0]), nameLen := length nm, amount := amount a, unit := unit a, reissuable := reissuable a,
     hasIPFS := hasIPFS a, IPFSHash := (if h = [] then IPFSHash d else put 0 (base58_string h @ [0]) (IPFSHash d))\<rparr>)"
proof -
  let ?H = "length (name_head nm)" and ?A = "UInt64SetLE (amount a)"
    and ?E = "OP_DROP # drop (32 + length (reissue_payload a nm h)) buf"
  let ?S = "name_head nm @ ?A @ unit a # reissuable a # h @ ?E"
  have "length buf \<noteq> 0" using assms(1) by linarith
  moreover have "asset_script (finished RVN_R buf (reissue_payload a nm h)) = Some ?S"
    using finished_tests(3) [OF assms(1)] by (simp add: reissue_payload_def)
  moreover have "rd ?S (?H + 8) = Some (unit a)" "rd ?S (?H + 9) = Some (reissuable a)"
    using rd_at [of "?H + 8" "name_head nm @ ?A"] rd_at [of "?H + 9" "name_head nm @ ?A @ [unit a]"] by simp_all
  moreover have "asset_read_amount ?S ?H = amount a" by (rule read_amount) simp
  moreover have "asset_read_name ?S x = Some (x\<lparr>name := Some (nm @ [0]), nameLen := length nm\<rparr>, ?H)" for x
    by (rule read_head) (use assms(3) in simp)
  moreover have "(hasIPFS a = 0 \<and> h = [] \<and> rd ?S (?H + 10) = Some OP_DROP) \<or>
     (hasIPFS a = 1 \<and> h \<noteq> [] \<and> rd ?S (?H + 10) = Some (hd h) \<and> hd h \<noteq> OP_DROP \<and> length h = 34)"
    using assms(4) rd_at [of "?H + 10" "name_head nm @ ?A @ [unit a, reissuable a]" "hd (h @ ?E)" "tl (h @ ?E)"]
    by (auto simp: ipfs_of_def length_Suc_conv eval_nat_numeral)
  moreover have "asset_read_ipfs ?S (?H + 10) x =
      Some (True, x\<lparr>IPFSHash := put 0 (base58_string h @ [0]) (IPFSHash x)\<rparr>)" if "length h = 34" "IPFSHash x = IPFSHash d" for x
    using read_ipfs [of h x "?H + 10" "name_head nm @ ?A @ [unit a, reissuable a]" OP_DROP] that assms(5) by simp
  moreover have "RVN_R \<noteq> RVN_Q" "RVN_R \<noteq> RVN_T" "RVN_R \<noteq> RVN_O" by (simp_all add: asset_opcode_defs)
  ultimately show ?thesis using assms(2)
    by (auto simp: GetAssetData_def finished_kinds [OF assms(1)] ReissueAssetFromScriptPubKey_def
        finished_tests(1) [OF assms(1)] MAX_SCRIPT_LENGTH_def)
qed

lemma parse_finished_transfer:
  assumes "32 + length (transfer_payload v nm) \<le> length buf" "length buf \<le> 256" "length nm < 0xfd"
  shows "GetAssetData (finished RVN_T buf (transfer_payload v nm)) d = Some (True, d\<lparr>asset_type := TRANSFER,
     name := Some (nm @ [0]), nameLen := length nm, amount := v\<rparr>)"
proof -
  let ?H = "length (name_head nm)" and ?E = "drop (32 + length (transfer_payload v nm)) buf"
  let ?S = "name_head nm @ UInt64SetLE v @ OP_DROP # ?E"
  have "length buf \<noteq> 0" using assms(1) by linarith
  moreover have "asset_script (finished RVN_T buf (transfer_payload v nm)) = Some ?S"
    using finished_tests(3) [OF assms(1)] by (simp add: transfer_payload_def)
  moreover have "rd ?S (?H + 8) = Some OP_DROP" using rd_at [of "?H + 8" "name_head nm @ UInt64SetLE v"] by simp
  moreover have "asset_read_amount ?S ?H = v" by (rule read_amount) simp
  moreover have "asset_read_name ?S x = Some (x\<lparr>name := Some (nm @ [0]), nameLen := length nm\<rparr>, ?H)" for x
    by (rule read_head) (use assms(3) in simp)
  moreover have "RVN_T \<noteq> RVN_Q" by (simp add: asset_opcode_defs)
  ultimately show ?thesis using assms(2)
    by (simp add: GetAssetData_def finished_kinds [OF assms(1)] TransferAssetFromScriptPubKey_def
        finished_tests(1) [OF assms(1)] MAX_SCRIPT_LENGTH_def)
qed

lemma parse_finished_owner:
  assumes "32 + length (name_head nm) = length buf" "length buf \<le> 256" "length nm < 0xfd"
  shows "GetAssetData (finished RVN_O buf (name_head nm)) d = Some (True, d\<lparr>asset_type := OWNER,
     name := Some (nm @ [0]), nameLen := length nm, amount := COIN\<rparr>)"
proof -
  have le: "32 + length (name_head nm) \<le> length buf" using assms(1) by simp
  have "length buf \<noteq> 0" using assms(1) by linarith
  moreover have "asset_script (finished RVN_O buf (name_head nm)) = Some (name_head nm @ [OP_DROP])"
    using finished_tests(3) [OF le] assms(1) by simp
  moreover have "rd (name_head nm @ [OP_DROP]) (length (name_head nm)) = Some OP_DROP" by (rule rd_at) simp
  moreover have "asset_read_name (name_head nm @ [OP_DROP]) x =
     Some (x\<lparr>name := Some (nm @ [0]), nameLen := length nm\<rparr>, length (name_head nm))" for x
    by (rule read_head) (use assms(3) in simp)
  moreover have "RVN_O \<noteq> RVN_Q" "RVN_O \<noteq> RVN_T" by (simp_all add: asset_opcode_defs)
  ultimately show ?thesis using assms(2)
    by (simp add: GetAssetData_def finished_kinds [OF le] OwnerAssetFromScriptPubKey_def
        finished_tests(1) [OF le] MAX_SCRIPT_LENGTH_def)
qed

section \<open>Round trips and unchecked reads\<close>

text \<open>What a reader promises to give back of an issued asset.\<close>

definition same_issue :: "BRAsset \<Rightarrow> BRAsset \<Rightarrow> bool" where
  "same_issue a d \<longleftrightarrow> name d = name a \<and> nameLen d = nameLen a \<and> amount d = amount a \<and> unit d = unit a \<and>
     reissuable d = reissuable a \<and> hasIPFS d = hasIPFS a \<and> (hasIPFS a = 1 \<longrightarrow> cstr (IPFSHash d) = cstr (IPFSHash a))"

lemma same_issueI:
  assumes "asset_named a nm" "ipfs_of a h" "length (IPFSHash d) = 53"
  shows "same_issue a (d\<lparr>asset_type := t, name := Some (nm @ [0]), nameLen := length nm, amount := amount a, unit := unit a,
     reissuable := reissuable a, hasIPFS := hasIPFS a,
     IPFSHash := (if h = [] then IPFSHash d else put 0 (base58_string h @ [0]) (IPFSHash d))\<rparr>)"
proof -
  have "cstr (put 0 (base58_string h @ [0]) (IPFSHash d)) = Some (base58_string h)" if "length h = 34"
    using cstr_put [OF base58_string_no_0, of h "IPFSHash d"] ipfs_fits [OF that] assms(3) by simp
  then show ?thesis using assms(1,2) by (auto simp: same_issue_def asset_named_def ipfs_of_def)
qed


lemma take_pre: "n = length xs \<Longrightarrow> take n (xs @ ys) = xs"
  by simp

lemma take_finished:
  assumes "32 + length p \<le> length buf"
  shows "take (32 + length p) (finished kind buf p) = finished kind (take (32 + length p) buf) p"
proof -
  let ?m = "32 + length p"
  define x where "x = take 25 buf @ [OP_RVN_ASSET, word_of_nat (4 + length p), RVN_R, RVN_V, RVN_N, kind] @ p @ [OP_DROP]"
  have l: "finished kind b p = x @ drop ?m b" if "take 25 b = take 25 buf" for b
    unfolding finished_def layout_def put_def that x_def by (simp add: add.commute)
  have m: "?m = length x" using assms by (simp add: x_def)
  have "take 25 (take ?m buf) = take 25 buf" by (simp add: min_absorb1)
  then have "finished kind (take ?m buf) p = x" using l [of "take ?m buf"] by simp
  then show ?thesis using take_pre [OF m] l [of buf] by simp
qed

text \<open>A reissue script is one byte shorter than the size query announces; the bytes that the writer returns are a
  reissue script that \<open>GetAssetData\<close> reads back to the same asset.\<close>

theorem asset_reissue_roundtrip:
  assumes "asset_type a \<noteq> NEW_ASSET" "asset_named a nm" "ipfs_of a h" "length (IPFSHash d) = 53"
    and "BRTxOutputSetReissueAssetScript None a = Some (None, n)" "length buf = n" "n \<le> MAX_SCRIPT_LENGTH"
  shows "\<exists>s d'. BRTxOutputSetReissueAssetScript (Some buf) a = Some (Some s, n - 1) \<and> take 25 s = take 25 buf \<and>
     GetAssetData (take (n - 1) s) d = Some (True, d') \<and> asset_type d' = REISSUE \<and> same_issue a d'"
proof -
  let ?p = "reissue_payload a nm h"
  have nm: "length nm < 0xfd" "nameLen a = length nm" using assms(2) by (simp_all add: asset_named_def)
  have n: "n = 33 + length ?p"
    using assms(1,3,5) nm length_payloads(2) [OF nm(1), of a h]
    by (auto simp: BRTxOutputSetReissueAssetScript_def ipfs_of_def split: if_splits)
  have fit: "32 + length ?p \<le> length buf" "length buf \<le> 256" using assms(6,7) n by (simp_all add: MAX_SCRIPT_LENGTH_def)
  have fit': "32 + length ?p \<le> length (take (n - 1) buf)" "length (take (n - 1) buf) \<le> 256" using fit n assms(6) by simp_all
  have "take (n - 1) (finished RVN_R buf ?p) = finished RVN_R (take (n - 1) buf) ?p"
    using take_finished [OF fit(1), of RVN_R] n by simp
  then show ?thesis
    using write_reissue [OF assms(2,3,1) fit] finished_tests(2) [OF fit(1), of RVN_R] n
      parse_finished_reissue [OF fit' nm(1) assms(3,4)] same_issueI [OF assms(2-4), of REISSUE] by simp
qed


text \<open>Transfer and ownership scripts.  A transfer script reads back with the name and the amount; the ownership script of an
  asset carries the name with the tag and reads back as one whole unit of it, and so does the transfer of the ownership;
  each script is as long as its size query announces.\<close>

theorem asset_transfer_owner_roundtrip:
  assumes "asset_named a nm" "length nm + 1 < 0xfd"
    and "BRTxOutputSetTransferAssetScript None a = Some (None, n)" "length buf = n" "n \<le> MAX_SCRIPT_LENGTH"
    and "BRTxOutputSetOwnerAssetScript None a = Some (None, k)" "length obuf = k"
    and "BRTxOutputSetTransferOwnerAssetScriptWithoutTag None a = Some (None, l)" "length tbuf = l" "l \<le> MAX_SCRIPT_LENGTH"
  shows "(\<exists>s. BRTxOutputSetTransferAssetScript (Some buf) a = Some (Some s, n) \<and> length s = n \<and> take 25 s = take 25 buf \<and>
       GetAssetData s d = Some (True, d\<lparr>asset_type := TRANSFER, name := name a, nameLen := nameLen a, amount := amount a\<rparr>)) \<and>
    (\<exists>s. BRTxOutputSetOwnerAssetScript (Some obuf) a = Some (Some s, k) \<and> length s = k \<and> take 25 s = take 25 obuf \<and>
       GetAssetData s d = Some (True, d\<lparr>asset_type := OWNER, name := Some (nm @ OWNER_TAG @ [0]),
         nameLen := nameLen a + 1, amount := COIN\<rparr>)) \<and>
    (\<exists>s. BRTxOutputSetTransferOwnerAssetScriptWithoutTag (Some tbuf) a = Some (Some s, l) \<and> length s = l \<and>
       take 25 s = take 25 tbuf \<and>
       GetAssetData s d = Some (True, d\<lparr>asset_type := TRANSFER, name := Some (nm @ OWNER_TAG @ [0]),
         nameLen := nameLen a + 1, amount := COIN\<rparr>))"
proof -
  have nm: "length nm < 0xfd" "nameLen a = length nm" "name a = Some (nm @ [0])" "length (nm @ OWNER_TAG) < 0xfd"
    using assms(1,2) by (simp_all add: asset_named_def)
  note len = length_payloads(3) [OF nm(1), of "amount a"] length_payloads(3) [OF nm(4), of COIN] length_name_head [OF nm(4)]
  have n: "n = 32 + length (transfer_payload (amount a) nm)" "k = 32 + length (name_head (nm @ OWNER_TAG))"
    "l = 32 + length (transfer_payload COIN (nm @ OWNER_TAG))"
    using assms(3,6,8) nm(2) len
    by (simp_all add: BRTxOutputSetTransferAssetScript_def BRTxOutputSetOwnerAssetScript_def
        BRTxOutputSetTransferOwnerAssetScriptWithoutTag_def)
  have fit: "32 + length (transfer_payload (amount a) nm) \<le> length buf" "length buf \<le> 256"
    "32 + length (name_head (nm @ OWNER_TAG)) = length obuf" "length obuf \<le> 256" "34 + length nm \<le> length obuf"
    "32 + length (transfer_payload COIN (nm @ OWNER_TAG)) \<le> length tbuf" "length tbuf \<le> 256" "42 + length nm \<le> length tbuf"
    using n assms(4,5,7,9,10) len by (simp_all add: MAX_SCRIPT_LENGTH_def)
  note t1 = write_transfer(1) [OF assms(1) fit(1,2)] finished_tests(1,2) [OF fit(1), of RVN_T]
    parse_finished_transfer [OF fit(1,2) nm(1), of d]
  note t2 = write_owner [OF assms(1,2) fit(5,4)] finished_tests(1,2) [OF eq_refl [OF fit(3)], of RVN_O]
    parse_finished_owner [OF fit(3,4) nm(4), of d]
  note t3 = write_transfer_owner [OF assms(1,2) fit(8,7)] finished_tests(1,2) [OF fit(6), of RVN_T]
    parse_finished_transfer [OF fit(6,7) nm(4), of d]
  show ?thesis
  proof (intro conjI)
    show "\<exists>s. BRTxOutputSetTransferAssetScript (Some buf) a = Some (Some s, n) \<and> length s = n \<and> take 25 s = take 25 buf \<and>
       GetAssetData s d = Some (True, d\<lparr>asset_type := TRANSFER, name := name a, nameLen := nameLen a, amount := amount a\<rparr>)"
      using t1 n(1) nm assms(4) by simp
    show "\<exists>s. BRTxOutputSetOwnerAssetScript (Some obuf) a = Some (Some s, k) \<and> length s = k \<and> take 25 s = take 25 obuf \<and>
       GetAssetData s d = Some (True, d\<lparr>asset_type := OWNER, name := Some (nm @ OWNER_TAG @ [0]),
         nameLen := nameLen a + 1, amount := COIN\<rparr>)"
      using t2 n(2) nm assms(7) len by simp
    show "\<exists>s. BRTxOutputSetTransferOwnerAssetScriptWithoutTag (Some tbuf) a = Some (Some s, l) \<and> length s = l \<and>
       take 25 s = take 25 tbuf \<and> GetAssetData s d = Some (True, d\<lparr>asset_type := TRANSFER, name := Some (nm @ OWNER_TAG @ [0]),
         nameLen := nameLen a + 1, amount := COIN\<rparr>)"
      using t3 n(3) nm assms(9) len by simp
  qed
qed

text \<open>The readers trust the script.  A transfer script whose name length exceeds the rest of the script is copied
  past its end, and one that stops after its marker is read past its end; both are accepted by \<open>IsScriptAsset\<close>.
  \<open>CopyAsset\<close> gives a name that holds no NUL one byte too little for its terminator.\<close>

theorem asset_unchecked:
  assumes "length a = 25" "length rest < unat n" "length rest < 200" "asset_named asst nm" "0 \<notin> set nm"
  shows "IsScriptAsset (layout a m RVN_T (varint n @ rest)) \<and> GetAssetData (layout a m RVN_T (varint n @ rest)) d = None \<and>
     IsScriptAsset (layout a m RVN_T []) \<and> GetAssetData (layout a m RVN_T []) d = None \<and> CopyAsset asst = None"
proof -
  have t: "IsScriptTransferAsset (layout a m RVN_T r)" "\<not> IsScriptNewAsset (layout a m RVN_T r)" for r
    using assms(1) by (simp_all add: script_tests layout_def nth_append RVN_T_def RVN_Q_def)
  have "asset_read_name (varint n @ rest) x = None" for x
    using assms(2) by (simp add: asset_read_name_def BRVarInt_varint rd_slice_def)
  moreover have "length (varint n) + length rest \<le> 220" using length_varint_le [of n] assms(3) by simp
  ultimately have "GetAssetData (layout a m RVN_T (varint n @ rest)) d = None"
    using t assms(1) by (simp add: GetAssetData_def TransferAssetFromScriptPubKey_def asset_script_def MAX_SCRIPT_LENGTH_def)
  moreover have "GetAssetData (layout a m RVN_T []) d = None"
    using t assms(1) by (simp add: GetAssetData_def TransferAssetFromScriptPubKey_def asset_script_def MAX_SCRIPT_LENGTH_def
        asset_read_name_def BRVarInt_def rd_def)
  moreover have "cstr (nm @ [0]) = Some nm" using assms(5) cstr_put [OF assms(5), of "nm @ [0]"] by (simp add: put_def)
  then have "CopyAsset asst = None" using assms(4) by (simp add: CopyAsset_def asset_named_def wr_def)
  ultimately show ?thesis using t by (simp add: IsScriptAsset_def)
qed

section \<open>Examples\<close>

definition sample_asset :: BRAsset where
  "sample_asset = \<lparr>asset_type = NEW_ASSET, name = Some (ascii ''RAVEN'' @ [0]), nameLen = 5, amount = 1000, unit = 2,
     reissuable = 1, hasIPFS = 0, IPFSHash = replicate 53 0\<rparr>"

lemma sample_asset_named: "asset_named (sample_asset\<lparr>asset_type := t\<rparr>) (ascii ''RAVEN'')"
  by (simp add: asset_named_def sample_asset_def ascii_def)

lemma sample_ipfs: "ipfs_of (sample_asset\<lparr>asset_type := t\<rparr>) []"
  by (simp add: ipfs_of_def sample_asset_def)

lemma sample_new_type: "sample_asset\<lparr>asset_type := NEW_ASSET\<rparr> = sample_asset"
  by (simp add: sample_asset_def)

lemma length_NewAsset_ipfs: "length (IPFSHash NewAsset) = 53"
  by (simp only: NewAsset_def BRAsset.simps length_replicate)


theorem asset_reissue_roundtrip_witness:
  "\<exists>s d'. BRTxOutputSetReissueAssetScript (Some (replicate 49 7)) (sample_asset\<lparr>asset_type := REISSUE\<rparr>) = Some (Some s, 48) \<and>
     GetAssetData (take 48 s) NewAsset = Some (True, d') \<and> amount d' = 1000"
proof -
  let ?a = "sample_asset\<lparr>asset_type := REISSUE\<rparr>"
  have "BRTxOutputSetReissueAssetScript None ?a = Some (None, 49)" "asset_type ?a \<noteq> NEW_ASSET"
    by (simp_all add: BRTxOutputSetReissueAssetScript_def sample_asset_def)
  moreover have "length (replicate 49 (7 :: u8)) = 49" by (simp only: length_replicate)
  moreover have "(49 :: nat) \<le> MAX_SCRIPT_LENGTH" by (simp add: MAX_SCRIPT_LENGTH_def)
  ultimately obtain s d' where "BRTxOutputSetReissueAssetScript (Some (replicate 49 7)) ?a = Some (Some s, 49 - 1)"
    "GetAssetData (take (49 - 1) s) NewAsset = Some (True, d')" "same_issue ?a d'"
    using asset_reissue_roundtrip [of ?a "ascii ''RAVEN''" "[]" NewAsset 49 "replicate 49 7"]
      sample_asset_named sample_ipfs length_NewAsset_ipfs by blast
  then show ?thesis by (auto simp: same_issue_def sample_asset_def)
qed

theorem asset_transfer_owner_roundtrip_witness:
  "\<exists>s. BRTxOutputSetOwnerAssetScript (Some (replicate 39 7)) sample_asset = Some (Some s, 39) \<and>
     GetAssetData s NewAsset = Some (True, NewAsset\<lparr>asset_type := OWNER, name := Some (ascii ''RAVEN!'' @ [0]),
       nameLen := 6, amount := COIN\<rparr>)"
proof -
  have len: "length (replicate 46 (7 :: u8)) = 46" "length (replicate 39 (7 :: u8)) = 39" "length (replicate 47 (7 :: u8)) = 47"
    by (simp_all only: length_replicate)
  have q: "BRTxOutputSetTransferAssetScript None sample_asset = Some (None, 46)"
    "BRTxOutputSetOwnerAssetScript None sample_asset = Some (None, 39)"
    "BRTxOutputSetTransferOwnerAssetScriptWithoutTag None sample_asset = Some (None, 47)"
    by (simp_all add: BRTxOutputSetTransferAssetScript_def BRTxOutputSetOwnerAssetScript_def
        BRTxOutputSetTransferOwnerAssetScriptWithoutTag_def sample_asset_def)
  have m: "(46 :: nat) \<le> MAX_SCRIPT_LENGTH" "(47 :: nat) \<le> MAX_SCRIPT_LENGTH" by (simp_all add: MAX_SCRIPT_LENGTH_def)
  have "length (ascii ''RAVEN'') + 1 < 0xfd" by (simp add: ascii_def)
  note r = asset_transfer_owner_roundtrip [OF sample_asset_named [of NEW_ASSET, unfolded sample_new_type] this
      q(1) len(1) m(1) q(2) len(2) q(3) len(3) m(2), of NewAsset]
  have e: "ascii ''RAVEN'' @ OWNER_TAG @ [0] = ascii ''RAVEN!'' @ [0]" "nameLen sample_asset + 1 = 6"
    by (simp_all add: ascii_def OWNER_TAG_def sample_asset_def)
  from r show ?thesis unfolding e by blast
qed

theorem asset_unchecked_witness:
  "GetAssetData (layout [0,0,0,0,0,0,0,0,0,0,0,0,0,0,0,0,0,0,0,0,0,0,0,0,0] 5 RVN_T (varint 9 @ [1])) NewAsset = None \<and>
     CopyAsset sample_asset = None"
proof -
  have "0 \<notin> set (ascii ''RAVEN'')" by (simp add: ascii_def)
  with asset_unchecked [OF _ _ _ sample_asset_named [of NEW_ASSET, unfolded sample_new_type] this,
      of "[0,0,0,0,0,0,0,0,0,0,0,0,0,0,0,0,0,0,0,0,0,0,0,0,0]" "[1]" 9 5 NewAsset] show ?thesis by simp
qed

end
