(* ===== verification/BRTransaction.thy ===== *)
theory BRTransaction
  imports BRAssets BRSet "HOL-Library.Multiset"
begin

text \<open>
  \<open>BRTransaction.c\<close>: inputs, outputs and transactions, their serialisation, signature hashes, signing, size and
  fees.  An array of scripts or structures with its count is a list; a \<open>NULL\<close> script or signature is \<open>None\<close>, which the
  code tells apart from an empty one.  The result \<open>None\<close> of an operation is a failed assertion or an access
  outside an array.  \<open>int64_t\<close> amounts of inputs are words; only equality with 0 and the bytes matter.
  Allocation is taken to succeed.

  \<open>BRKey.c\<close> enters through three functions of a key: its address string (empty when \<open>BRKeyAddress\<close> fails), its
  public key and its signature of a digest.  \<open>rand\<close> is a list of the values that it will return.
\<close>

section \<open>Data\<close>

record BRTxInput =
  in_txHash :: UInt256
  in_index :: u32
  in_address :: bytes
  in_amount :: u64
  in_script :: "bytes option"
  in_signature :: "bytes option"
  in_sequence :: u32

record BRTxOutput =
  out_address :: bytes
  out_amount :: u64
  out_script :: "bytes option"

record BRTransaction =
  txHash :: UInt256
  version :: u32
  inputs :: "BRTxInput list"
  outputs :: "BRTxOutput list"
  lockTime :: u32
  blockHeight :: u32
  timestamp :: u32
  tx_asset :: "BRAsset list"
  asstCount :: nat

definition TX_VERSION :: u32 where "TX_VERSION = 1"
definition TX_LOCKTIME :: u32 where "TX_LOCKTIME = 0"
definition TX_UNCONFIRMED :: u32 where "TX_UNCONFIRMED = 0x7fffffff"
definition TX_FEE_PER_KB :: u64 where "TX_FEE_PER_KB = 1000000"
definition TX_OUTPUT_SIZE :: nat where "TX_OUTPUT_SIZE = 34"
definition TX_INPUT_SIZE :: nat where "TX_INPUT_SIZE = 148"
definition SIGHASH_ALL :: u32 where "SIGHASH_ALL = 1"
definition SIGHASH_NONE :: u32 where "SIGHASH_NONE = 2"
definition SIGHASH_SINGLE :: u32 where "SIGHASH_SINGLE = 3"
definition SIGHASH_ANYONECANPAY :: u32 where "SIGHASH_ANYONECANPAY = 0x80"
definition SIGHASH_FORKID :: u32 where "SIGHASH_FORKID = 0x40"

lemmas sighash_defs = SIGHASH_ALL_def SIGHASH_NONE_def SIGHASH_SINGLE_def SIGHASH_ANYONECANPAY_def SIGHASH_FORKID_def

definition no_address :: bytes where "no_address = replicate 36 0"

text \<open>The bytes of a script pointer with its length.\<close>

definition ptr_bytes :: "bytes option \<Rightarrow> bytes" where
  "ptr_bytes p = (case p of None \<Rightarrow> [] | Some bs \<Rightarrow> bs)"

definition zero_input :: BRTxInput where
  "zero_input = \<lparr>in_txHash = 0, in_index = 0, in_address = no_address, in_amount = 0, in_script = None,
     in_signature = None, in_sequence = 0\<rparr>"

definition TX_OUTPUT_NONE :: BRTxOutput where
  "TX_OUTPUT_NONE = \<lparr>out_address = no_address, out_amount = 0, out_script = None\<rparr>"

definition BRTransactionNew :: BRTransaction where
  "BRTransactionNew = \<lparr>txHash = 0, version = TX_VERSION, inputs = [], outputs = [], lockTime = TX_LOCKTIME,
     blockHeight = TX_UNCONFIRMED, timestamp = 0, tx_asset = [], asstCount = 0\<rparr>"

section \<open>Random numbers\<close>

text \<open>\<open>RAND_MAX\<close> is \<open>0x7fffffff\<close> on the target platforms.  The result is the number and the values not yet
  returned by \<open>rand\<close>; \<open>None\<close>: the loop needs more values than given.\<close>

definition BR_RAND_MAX :: u32 where "BR_RAND_MAX = 0x7fffffff"

definition rand_bound :: "u32 \<Rightarrow> u32" where
  "rand_bound upperBound = (if upperBound = 0 \<or> upperBound > BR_RAND_MAX then BR_RAND_MAX else upperBound)"

definition rand_reject :: "u32 \<Rightarrow> u32" where
  "rand_reject ub = ((0xffffffff - ub * 2) + 1) mod ub"

fun rand_loop :: "u32 \<Rightarrow> u32 list \<Rightarrow> (u32 \<times> u32 list) option" where
  "rand_loop ub [] = None"
| "rand_loop ub (r # rs) = (if r < rand_reject ub then rand_loop ub rs else Some (r mod ub, rs))"

definition BRRand :: "u32 \<Rightarrow> u32 list \<Rightarrow> (u32 \<times> u32 list) option" where
  "BRRand upperBound rs = rand_loop (rand_bound upperBound) rs"

section \<open>Inputs and outputs\<close>

text \<open>The script of an address, written to an array of the announced size, and the first 35 characters of
  the address.\<close>

definition address_script :: "bytes \<Rightarrow> bytes" where
  "address_script address =
     (let scriptLen = snd (BRAddressScriptPubKey None address)
      in the (fst (BRAddressScriptPubKey (Some (replicate scriptLen 0)) address)))"

definition address_field :: "bytes \<Rightarrow> bytes" where
  "address_field address = put 0 (take 35 address) no_address"

definition BRTxInputSetAddress :: "BRTxInput \<Rightarrow> bytes option \<Rightarrow> BRTxInput option" where
  "BRTxInputSetAddress input address =
     (case address of
        None \<Rightarrow> Some (input\<lparr>in_script := None, in_address := no_address\<rparr>)
      | Some a \<Rightarrow> if BRAddressIsValid a
                  then Some (input\<lparr>in_address := address_field a, in_script := Some (address_script a)\<rparr>)
                  else None)"

definition BRTxInputSetScript :: "BRTxInput \<Rightarrow> bytes option \<Rightarrow> BRTxInput option" where
  "BRTxInputSetScript input script =
     (case script of
        None \<Rightarrow> Some (input\<lparr>in_script := None, in_address := no_address\<rparr>)
      | Some s \<Rightarrow> do {
          (addr, n) \<leftarrow> BRAddressFromScriptPubKey (Some no_address) s;
          Some (input\<lparr>in_script := Some s, in_address := the addr\<rparr>)
        })"

definition BRTxInputSetSignature :: "BRTxInput \<Rightarrow> bytes option \<Rightarrow> BRTxInput option" where
  "BRTxInputSetSignature input signature =
     (case signature of
        None \<Rightarrow> Some (input\<lparr>in_signature := None\<rparr>)
      | Some s \<Rightarrow>
          if in_address input ! 0 = 0 then do {
            (addr, n) \<leftarrow> BRAddressFromScriptSig (Some (in_address input)) s;
            Some (input\<lparr>in_signature := Some s, in_address := the addr\<rparr>)
          } else Some (input\<lparr>in_signature := Some s\<rparr>))"

definition BRTxOutputSetAddress :: "BRTxOutput \<Rightarrow> bytes option \<Rightarrow> BRTxOutput option" where
  "BRTxOutputSetAddress output address =
     (case address of
        None \<Rightarrow> Some (output\<lparr>out_script := None, out_address := no_address\<rparr>)
      | Some a \<Rightarrow> if BRAddressIsValid a
                  then Some (output\<lparr>out_address := address_field a, out_script := Some (address_script a)\<rparr>)
                  else None)"

definition BRTxOutputSetScript :: "BRTxOutput \<Rightarrow> bytes option \<Rightarrow> BRTxOutput option" where
  "BRTxOutputSetScript output script =
     (case script of
        None \<Rightarrow> Some (output\<lparr>out_script := None, out_address := no_address\<rparr>)
      | Some s \<Rightarrow> do {
          (addr, n) \<leftarrow> BRAddressFromScriptPubKey (Some no_address) s;
          Some (output\<lparr>out_script := Some s, out_address := the addr\<rparr>)
        })"

section \<open>Serialisation\<close>

text \<open>The writers keep the pair of the data buffer (\<open>None\<close> for \<open>NULL\<close>) and \<open>off\<close>.  A field is written when it fits,
  and \<open>off\<close> always moves on; a nested writer gets the rest of the buffer and \<open>off\<close> moves by its result, which is 0
  when its data does not fit.\<close>

type_synonym writer_state = "bytes option \<times> nat"

definition put_field :: "bytes \<Rightarrow> writer_state \<Rightarrow> writer_state" where
  "put_field bs st = (case st of
     (None, off) \<Rightarrow> (None, off + length bs)
   | (Some d, off) \<Rightarrow> (Some (if off + length bs \<le> length d then put off bs d else d), off + length bs))"

definition put_nested :: "(bytes option \<Rightarrow> bytes option \<times> nat) \<Rightarrow> writer_state \<Rightarrow> writer_state" where
  "put_nested w st = (case st of
     (None, off) \<Rightarrow> (None, off + snd (w None))
   | (Some d, off) \<Rightarrow> (case w (Some (drop off d)) of (r, n) \<Rightarrow> (Some (take off d @ the r), off + n)))"

definition put_varint :: "nat \<Rightarrow> writer_state \<Rightarrow> writer_state" where
  "put_varint v = put_nested (\<lambda>d. BRVarIntSet d (word_of_nat v))"

definition written :: "writer_state \<Rightarrow> bytes option \<times> nat" where
  "written st = (case st of
     (None, off) \<Rightarrow> (None, off)
   | (Some d, off) \<Rightarrow> (Some d, if off \<le> length d then off else 0))"

definition TxInputData :: "BRTxInput \<Rightarrow> bytes option \<Rightarrow> bytes option \<times> nat" where
  "TxInputData input data =
     (let sig = ptr_bytes (in_signature input);
          st = put_field (UInt256Set (in_txHash input)) (data, 0);
          st = put_field (UInt32SetLE (in_index input)) st;
          st = put_varint (length sig) st;
          st = put_field sig st;
          st = (if in_amount input \<noteq> 0 then put_field (UInt64SetLE (in_amount input)) st else st);
          st = put_field (UInt32SetLE (in_sequence input)) st
      in written st)"

definition put_output :: "BRTxOutput \<Rightarrow> writer_state \<Rightarrow> writer_state" where
  "put_output output st =
     (let script = ptr_bytes (out_script output)
      in put_field script (put_varint (length script) (put_field (UInt64SetLE (out_amount output)) st)))"

text \<open>The index \<open>None\<close> stands for \<open>SIZE_MAX\<close>.\<close>

definition TransactionOutputData :: "BRTransaction \<Rightarrow> nat option \<Rightarrow> bytes option \<Rightarrow> bytes option \<times> nat" where
  "TransactionOutputData tx index data =
     written (fold put_output
       (case index of None \<Rightarrow> outputs tx | Some i \<Rightarrow> if i < length (outputs tx) then [outputs tx ! i] else []) (data, 0))"

definition TransactionWitnessData ::
    "BRTransaction \<Rightarrow> nat option \<Rightarrow> u32 \<Rightarrow> bytes option \<Rightarrow> bytes option \<times> nat" where
  "TransactionWitnessData tx index hashType data =
     (let anyoneCanPay = (hashType AND SIGHASH_ANYONECANPAY \<noteq> 0); sigHash = hashType AND 0x1f in
      case index of None \<Rightarrow> (data, 0)
      | Some i \<Rightarrow>
        if i \<ge> length (inputs tx) then (data, 0)
        else
          let st = put_field (UInt32SetLE (version tx)) (data, 0);
              st = put_field
                (if \<not> anyoneCanPay
                 then SHA256_2 (concat (map (\<lambda>inp. UInt256Set (in_txHash inp) @ UInt32SetLE (in_index inp)) (inputs tx)))
                 else UInt256Set UINT256_ZERO) st;
              st = put_field
                (if \<not> anyoneCanPay \<and> sigHash \<noteq> SIGHASH_SINGLE \<and> sigHash \<noteq> SIGHASH_NONE
                 then SHA256_2 (concat (map (\<lambda>inp. UInt32SetLE (in_sequence inp)) (inputs tx)))
                 else UInt256Set UINT256_ZERO) st;
              input = inputs tx ! i;
              input = input\<lparr>in_signature := in_script input\<rparr>;
              st = put_nested (TxInputData input) st;
              outs = (\<lambda>k. case TransactionOutputData tx k
                             (Some (replicate (snd (TransactionOutputData tx k None)) 0)) of
                           (d, n) \<Rightarrow> take n (the d));
              st = put_field
                (if sigHash \<noteq> SIGHASH_SINGLE \<and> sigHash \<noteq> SIGHASH_NONE then SHA256_2 (outs None)
                 else if sigHash = SIGHASH_SINGLE \<and> i < length (outputs tx) then SHA256_2 (outs (Some i))
                 else UInt256Set UINT256_ZERO) st;
              st = put_field (UInt32SetLE (lockTime tx)) st;
              st = put_field (UInt32SetLE hashType) st
          in written st)"

text \<open>The copy of an input that goes into the data for the signature of \<open>index\<close>, or into the whole
  transaction.\<close>

definition data_input :: "nat option \<Rightarrow> u32 \<Rightarrow> nat \<Rightarrow> BRTxInput \<Rightarrow> BRTxInput" where
  "data_input index sigHash i input =
     (if index = Some i \<or> (index = None \<and> in_signature input = None) then
        (let input = input\<lparr>in_signature := in_script input\<rparr>
         in if index = Some i then input\<lparr>in_amount := 0\<rparr> else input)
      else if index \<noteq> None then
        (let input = input\<lparr>in_signature := Some []\<rparr>;
             input = (if sigHash = SIGHASH_NONE \<or> sigHash = SIGHASH_SINGLE then input\<lparr>in_sequence := 0\<rparr> else input)
         in input\<lparr>in_amount := 0\<rparr>)
      else input\<lparr>in_amount := 0\<rparr>)"

definition put_inputs :: "BRTxInput list \<Rightarrow> writer_state \<Rightarrow> writer_state" where
  "put_inputs ins = fold (\<lambda>inp. put_nested (TxInputData inp)) ins"

definition TransactionData ::
    "BRTransaction \<Rightarrow> nat option \<Rightarrow> u32 \<Rightarrow> bytes option \<Rightarrow> bytes option \<times> nat" where
  "TransactionData tx index hashType data =
     (let anyoneCanPay = (hashType AND SIGHASH_ANYONECANPAY \<noteq> 0); sigHash = hashType AND 0x1f;
          inCount = length (inputs tx); outCount = length (outputs tx) in
      if hashType AND SIGHASH_FORKID \<noteq> 0 then TransactionWitnessData tx index hashType data
      else if anyoneCanPay \<and> (case index of None \<Rightarrow> True | Some i \<Rightarrow> i \<ge> inCount) then (data, 0)
      else
        let st = put_field (UInt32SetLE (version tx)) (data, 0);
            st = (if \<not> anyoneCanPay
                  then put_inputs (map (\<lambda>(i, inp). data_input index sigHash i inp) (enumerate 0 (inputs tx)))
                         (put_varint inCount st)
                  else let input = inputs tx ! the index
                       in put_nested (TxInputData (input\<lparr>in_signature := in_script input, in_amount := 0\<rparr>))
                            (put_varint 1 st));
            st = (if sigHash \<noteq> SIGHASH_SINGLE \<and> sigHash \<noteq> SIGHASH_NONE
                  then put_nested (TransactionOutputData tx None) (put_varint outCount st)
                  else if sigHash = SIGHASH_SINGLE \<and> (case index of None \<Rightarrow> False | Some i \<Rightarrow> i < outCount)
                  then put_nested (TransactionOutputData tx index)
                         (fold (\<lambda>_. put_varint 0 \<circ> put_field (UInt64SetLE (- 1))) [0..<the index]
                            (put_varint (the index + 1) st))
                  else put_varint 0 st);
            st = put_field (UInt32SetLE (lockTime tx)) st;
            st = (if index \<noteq> None then put_field (UInt32SetLE hashType) st else st)
        in written st)"

definition BRTransactionSerialize :: "BRTransaction \<Rightarrow> bytes option \<Rightarrow> bytes option \<times> nat" where
  "BRTransactionSerialize tx buf = TransactionData tx None SIGHASH_ALL buf"

text \<open>The data as the callers take it: a buffer of the announced size is filled.\<close>

definition filled_data :: "BRTransaction \<Rightarrow> nat option \<Rightarrow> u32 \<Rightarrow> bytes" where
  "filled_data tx index hashType =
     (case TransactionData tx index hashType (Some (replicate (snd (TransactionData tx index hashType None)) 0)) of
        (d, n) \<Rightarrow> take n (the d))"

section \<open>Building transactions\<close>

definition BRTransactionAddInput ::
    "BRTransaction \<Rightarrow> UInt256 \<Rightarrow> u32 \<Rightarrow> u64 \<Rightarrow> bytes option \<Rightarrow> bytes option \<Rightarrow> u32 \<Rightarrow> BRTransaction option" where
  "BRTransactionAddInput tx h index amt script signature sequence =
     (let input = \<lparr>in_txHash = h, in_index = index, in_address = no_address, in_amount = amt, in_script = None,
                   in_signature = None, in_sequence = sequence\<rparr> in
      if UInt256IsZero h then None
      else do {
        input \<leftarrow> (if script \<noteq> None then BRTxInputSetScript input script else Some input);
        input \<leftarrow> (if signature \<noteq> None then BRTxInputSetSignature input signature else Some input);
        Some (tx\<lparr>inputs := inputs tx @ [input]\<rparr>)
      })"

definition BRTransactionAddOutput :: "BRTransaction \<Rightarrow> u64 \<Rightarrow> bytes option \<Rightarrow> BRTransaction option" where
  "BRTransactionAddOutput tx amt script = do {
     output \<leftarrow> BRTxOutputSetScript (TX_OUTPUT_NONE\<lparr>out_amount := amt\<rparr>) script;
     Some (tx\<lparr>outputs := outputs tx @ [output]\<rparr>)
   }"

definition add_inputs :: "BRTransaction \<Rightarrow> BRTxInput list \<Rightarrow> BRTransaction option" where
  "add_inputs tx ins = fold (\<lambda>i t. t \<bind> (\<lambda>tx. BRTransactionAddInput tx (in_txHash i) (in_index i) (in_amount i)
     (in_script i) (in_signature i) (in_sequence i))) ins (Some tx)"

definition add_outputs :: "BRTransaction \<Rightarrow> BRTxOutput list \<Rightarrow> BRTransaction option" where
  "add_outputs tx outs = fold (\<lambda>o' t. t \<bind> (\<lambda>tx. BRTransactionAddOutput tx (out_amount o') (out_script o'))) outs (Some tx)"

definition BRTransactionCopy :: "BRTransaction \<Rightarrow> BRTransaction option" where
  "BRTransactionCopy tx = do {
     cpy \<leftarrow> add_inputs (tx\<lparr>inputs := [], outputs := []\<rparr>) (inputs tx);
     add_outputs cpy (outputs tx)
   }"

text \<open>Fisher-Yates: \<open>i\<close> runs up to the last but one output.\<close>

fun shuffle_loop :: "nat \<Rightarrow> nat \<Rightarrow> BRTxOutput list \<Rightarrow> u32 list \<Rightarrow> (BRTxOutput list \<times> u32 list) option" where
  "shuffle_loop 0 i outs rs = Some (outs, rs)"
| "shuffle_loop (Suc n) i outs rs = do {
     (r, rs) \<leftarrow> BRRand (word_of_nat (length outs) - word_of_nat i) rs;
     let j = i + unat r;
     outs \<leftarrow> (if j \<noteq> i then
                (if j < length outs then Some (outs[i := outs ! j, j := outs ! i]) else None)
              else Some outs);
     shuffle_loop n (i + 1) outs rs
   }"

definition BRTransactionShuffleOutputs :: "BRTransaction \<Rightarrow> u32 list \<Rightarrow> (BRTransaction \<times> u32 list) option" where
  "BRTransactionShuffleOutputs tx rs = do {
     (outs, rs) \<leftarrow> shuffle_loop (length (outputs tx) - 1) 0 (outputs tx) rs;
     Some (tx\<lparr>outputs := outs\<rparr>, rs)
   }"

definition input_size :: "BRTxInput \<Rightarrow> nat" where
  "input_size input = (case in_signature input of
     Some s \<Rightarrow> 32 + 4 + BRVarIntSize (word_of_nat (length s)) + length s + 4
   | None \<Rightarrow> TX_INPUT_SIZE)"

definition output_size :: "BRTxOutput \<Rightarrow> nat" where
  "output_size output = (let l = length (ptr_bytes (out_script output)) in 8 + BRVarIntSize (word_of_nat l) + l)"

definition BRTransactionSize :: "BRTransaction \<Rightarrow> nat" where
  "BRTransactionSize tx =
     8 + BRVarIntSize (word_of_nat (length (inputs tx))) + BRVarIntSize (word_of_nat (length (outputs tx))) +
     sum_list (map input_size (inputs tx)) + sum_list (map output_size (outputs tx))"

definition BRTransactionStandardFee :: "BRTransaction \<Rightarrow> u64" where
  "BRTransactionStandardFee tx = word_of_nat ((BRTransactionSize tx + 999) div 1000) * TX_FEE_PER_KB"

definition BRTransactionIsSigned :: "BRTransaction \<Rightarrow> bool" where
  "BRTransactionIsSigned tx \<longleftrightarrow> list_all (\<lambda>i. in_signature i \<noteq> None) (inputs tx)"

definition BRTransactionIsStandard :: "BRTransaction \<Rightarrow> bool" where
  "BRTransactionIsStandard tx = True"

section \<open>Signing\<close>

record 'k key_ops =
  keyAddress :: "'k \<Rightarrow> bytes"
  keyPubKey :: "'k \<Rightarrow> bytes"
  keySign :: "'k \<Rightarrow> bytes \<Rightarrow> bytes"

text \<open>The position of the first key whose address is the given one.\<close>

fun find_key :: "bytes list \<Rightarrow> bytes \<Rightarrow> nat \<Rightarrow> nat" where
  "find_key [] a j = j"
| "find_key (x # xs) a j = (if x = a then j else find_key xs a (j + 1))"

text \<open>The test for a pay-to-pubkey-hash script; \<open>None\<close>: it reads the element pointer array before its start.\<close>

definition sign_pkh_test :: "bytes \<Rightarrow> nat list \<Rightarrow> nat \<Rightarrow> bool option" where
  "sign_pkh_test script elems elemsCount =
     (if elemsCount \<ge> 2 then
        if script ! (elems ! (elemsCount - 2)) = OP_EQUALVERIFY then Some True
        else if elemsCount \<ge> 5 then Some (script ! (elems ! (elemsCount - 5)) = OP_EQUALVERIFY)
        else None
      else Some False)"

definition sign_input :: "'k key_ops \<Rightarrow> 'k list \<Rightarrow> nat \<Rightarrow> BRTransaction \<Rightarrow> BRTransaction option" where
  "sign_input ops keys i tx =
     (let input = inputs tx ! i; script = ptr_bytes (in_script input) in do {
        (addr, n) \<leftarrow> BRAddressFromScriptPubKey (Some no_address) script;
        if n = 0 then Some tx
        else
          let address = take (n - 1) (the addr); j = find_key (map (keyAddress ops) keys) address 0 in
          if j \<ge> length keys then Some tx
          else do {
            let count = snd (BRScriptElements None script);
            let (elems, elemsCount) = BRScriptElements (Some count) script;
            let pubKey = keyPubKey ops (keys ! j);
            let buf = replicate (1 + 73 + 1 + length pubKey) 0;
            pkh \<leftarrow> sign_pkh_test script elems elemsCount;
            let md = SHA256_2 (filled_data tx (Some i) SIGHASH_ALL);
            let sig = keySign ops (keys ! j) md @ [ucast SIGHASH_ALL];
            let (b1, n1) = BRScriptPushData (Some buf) sig;
            let (b2, n2) = (if pkh then BRScriptPushData (Some (drop n1 (the b1))) pubKey else (Some (drop n1 (the b1)), 0));
            input \<leftarrow> BRTxInputSetSignature input (Some (take (n1 + n2) (take n1 (the b1) @ the b2)));
            Some (tx\<lparr>inputs := (inputs tx)[i := input]\<rparr>)
          }
      })"

fun sign_inputs :: "'k key_ops \<Rightarrow> 'k list \<Rightarrow> nat list \<Rightarrow> BRTransaction \<Rightarrow> BRTransaction option" where
  "sign_inputs ops keys [] tx = Some tx"
| "sign_inputs ops keys (i # is) tx = sign_input ops keys i tx \<bind> sign_inputs ops keys is"

definition BRTransactionSign :: "'k key_ops \<Rightarrow> BRTransaction \<Rightarrow> 'k list \<Rightarrow> (BRTransaction \<times> bool) option" where
  "BRTransactionSign ops tx keys = do {
     tx \<leftarrow> sign_inputs ops keys [0..<length (inputs tx)] tx;
     Some (if BRTransactionIsSigned tx then (tx\<lparr>txHash := UInt256Get (SHA256_2 (filled_data tx None 0))\<rparr>, True)
           else (tx, False))
   }"

section \<open>Identity\<close>

definition BRTransactionHash :: "BRTransaction \<Rightarrow> nat" where
  "BRTransactionHash tx = unat (u32_at (txHash tx) 0)"

definition BRTransactionEq :: "BRTransaction \<Rightarrow> BRTransaction \<Rightarrow> bool" where
  "BRTransactionEq tx otherTx \<longleftrightarrow> tx = otherTx \<or> UInt256Eq (txHash tx) (txHash otherTx)"

interpretation tx_set: set_contract BRTransactionHash BRTransactionEq
  by unfold_locales (auto simp: BRTransactionHash_def BRTransactionEq_def UInt256Eq_iff)


section \<open>The contract of the writers\<close>

text \<open>A writer of the bytes \<open>enc\<close>: for \<open>NULL\<close> it adds their number to \<open>off\<close>, and when they fit it puts them at \<open>off\<close>.\<close>

locale writer =
  fixes w :: "writer_state \<Rightarrow> writer_state" and enc :: bytes
  assumes null: "w (None, off) = (None, off + length enc)"
    and fits: "off + length enc \<le> length d \<Longrightarrow> w (Some d, off) = (Some (put off enc d), off + length enc)"
begin

lemma written_null: "written (w (None, 0)) = (None, length enc)"
  by (simp add: null written_def)

lemma written_fits: "length enc \<le> length d \<Longrightarrow> written (w (Some d, 0)) = (Some (put 0 enc d), length enc)"
  by (simp add: fits written_def)

end

text \<open>A whole routine that writes \<open>enc\<close> to a buffer of its own.\<close>

locale serializer =
  fixes f :: "bytes option \<Rightarrow> bytes option \<times> nat" and enc :: bytes
  assumes size: "f None = (None, length enc)"
    and store: "length enc \<le> length d \<Longrightarrow> f (Some d) = (Some (put 0 enc d), length enc)"
begin

lemma filled: "(case f (Some (replicate (snd (f None)) 0)) of (d, n) \<Rightarrow> take n (the d)) = enc"
  by (simp add: size store put_def)

end

sublocale serializer \<subseteq> writer "put_nested f" enc
proof
  fix off and d :: bytes
  show "put_nested f (None, off) = (None, off + length enc)" by (simp add: put_nested_def size)
  assume fit: "off + length enc \<le> length d"
  then have "take off d @ put 0 enc (drop off d) = put off enc d" by (simp add: put_def add.commute)
  with fit show "put_nested f (Some d, off) = (Some (put off enc d), off + length enc)"
    by (simp add: put_nested_def store)
qed

interpretation field: writer "put_field bs" bs for bs
  by unfold_locales (simp_all add: put_field_def)

lemma writer_comp:
  assumes "writer w1 e1" "writer w2 e2"
  shows "writer (\<lambda>st. w2 (w1 st)) (e1 @ e2)"
proof (rule writer.intro)
  fix off and d :: bytes
  show "w2 (w1 (None, off)) = (None, off + length (e1 @ e2))"
    by (simp add: writer.null [OF assms(1)] writer.null [OF assms(2)])
  assume "off + length (e1 @ e2) \<le> length d"
  then show "w2 (w1 (Some d, off)) = (Some (put off (e1 @ e2) d), off + length (e1 @ e2))"
    by (simp add: writer.fits [OF assms(1)] writer.fits [OF assms(2)] put_put)
qed

lemma writer_id: "writer (\<lambda>st. st) []"
  by unfold_locales (simp_all add: put_def)

lemma writer_if: "(b \<Longrightarrow> writer w1 e1) \<Longrightarrow> (\<not> b \<Longrightarrow> writer w2 e2) \<Longrightarrow>
   writer (\<lambda>st. if b then w1 st else w2 st) (if b then e1 else e2)"
  by simp

lemma writer_fold:
  assumes "\<And>x. x \<in> set xs \<Longrightarrow> writer (w x) (enc x)"
  shows "writer (fold w xs) (concat (map enc xs))"
  using assms
proof (induction xs)
  case Nil
  then show ?case using writer_id by (simp add: id_def)
next
  case (Cons x xs)
  then show ?case using writer_comp [of "w x" "enc x" "fold w xs" "concat (map enc xs)"] by (simp add: comp_def)
qed

lemma serializer_written: "writer w enc \<Longrightarrow> serializer (\<lambda>d. written (w (d, 0))) enc"
  by unfold_locales (simp_all add: writer.written_null writer.written_fits)

lemma writer_cong: "writer w enc \<Longrightarrow> (\<And>st. w' st = w st) \<Longrightarrow> enc' = enc \<Longrightarrow> writer w' enc'"
  by (simp add: writer_def)

lemma serializer_cong: "serializer f enc \<Longrightarrow> (\<And>d. f' d = f d) \<Longrightarrow> serializer f' enc"
  by (simp add: serializer_def)

interpretation varint_set: serializer "\<lambda>d. BRVarIntSet d v" "varint v" for v
  by unfold_locales (simp_all add: BRVarIntSet_emit emit_def)

lemma writer_varint: "writer (put_varint v) (varint (word_of_nat v))"
  unfolding put_varint_def by (rule varint_set.writer_axioms)

section \<open>What is written\<close>

definition input_bytes :: "BRTxInput \<Rightarrow> bytes" where
  "input_bytes inp = UInt256Set (in_txHash inp) @ UInt32SetLE (in_index inp) @
     varint (word_of_nat (length (ptr_bytes (in_signature inp)))) @ ptr_bytes (in_signature inp) @
     (if in_amount inp \<noteq> 0 then UInt64SetLE (in_amount inp) else []) @ UInt32SetLE (in_sequence inp)"

definition output_bytes :: "BRTxOutput \<Rightarrow> bytes" where
  "output_bytes out = UInt64SetLE (out_amount out) @ varint (word_of_nat (length (ptr_bytes (out_script out)))) @
     ptr_bytes (out_script out)"

definition all_bytes :: "u32 \<Rightarrow> BRTxInput list \<Rightarrow> BRTxOutput list \<Rightarrow> u32 \<Rightarrow> bytes" where
  "all_bytes ver ins outs lock = UInt32SetLE ver @ varint (word_of_nat (length ins)) @ concat (map input_bytes ins) @
     varint (word_of_nat (length outs)) @ concat (map output_bytes outs) @ UInt32SetLE lock"

interpretation tx_input: serializer "TxInputData inp" "input_bytes inp" for inp
proof -
  let ?sig = "ptr_bytes (in_signature inp)"
  let ?amt = "if in_amount inp \<noteq> 0 then UInt64SetLE (in_amount inp) else []"
  let ?w1 = "\<lambda>st. put_field (UInt32SetLE (in_index inp)) (put_field (UInt256Set (in_txHash inp)) st)"
  let ?w2 = "\<lambda>st. put_field ?sig (put_varint (length ?sig) st)"
  let ?w3 = "\<lambda>st. if in_amount inp \<noteq> 0 then put_field (UInt64SetLE (in_amount inp)) st else st"
  let ?w4 = "put_field (UInt32SetLE (in_sequence inp))"
  have "writer ?w3 ?amt" by (rule writer_if) (auto intro: field.writer_axioms writer_id)
  from writer_comp [OF writer_comp [OF writer_comp [OF field.writer_axioms field.writer_axioms]
        writer_comp [OF writer_varint field.writer_axioms]] writer_comp [OF this field.writer_axioms]]
  have "writer (\<lambda>st. ?w4 (?w3 (?w2 (?w1 st)))) (input_bytes inp)" by (simp add: input_bytes_def)
  from serializer_written [OF this] show "serializer (TxInputData inp) (input_bytes inp)"
    by (rule serializer_cong) (simp add: TxInputData_def Let_def)
qed

lemma writer_output: "writer (put_output out) (output_bytes out)"
  by (rule writer_cong [OF writer_comp [OF writer_comp [OF field.writer_axioms writer_varint] field.writer_axioms]])
     (simp_all add: put_output_def output_bytes_def Let_def)

interpretation tx_outputs: serializer "TransactionOutputData tx None" "concat (map output_bytes (outputs tx))" for tx
  by (rule serializer_cong [OF serializer_written [OF writer_fold [of "outputs tx" put_output output_bytes]]])
     (simp_all add: writer_output TransactionOutputData_def)

lemma writer_inputs: "writer (put_inputs ins) (concat (map input_bytes ins))"
  unfolding put_inputs_def by (rule writer_fold) (rule tx_input.writer_axioms)


text \<open>The wire format, from the fields of the transaction.  An input that is not signed yet shows the script of the
  output it spends, and after it the amount when the amount is known.\<close>

definition prevout_bytes :: "BRTxInput \<Rightarrow> bytes" where
  "prevout_bytes inp = UInt256Set (in_txHash inp) @ UInt32SetLE (in_index inp)"

definition script_field :: "bytes \<Rightarrow> bytes" where
  "script_field sc = varint (word_of_nat (length sc)) @ sc"

definition wire_input :: "BRTxInput \<Rightarrow> bytes" where
  "wire_input inp = prevout_bytes inp @
     (case in_signature inp of
        Some sig \<Rightarrow> script_field sig
      | None \<Rightarrow> script_field (ptr_bytes (in_script inp)) @
          (if in_amount inp = 0 then [] else UInt64SetLE (in_amount inp))) @
     UInt32SetLE (in_sequence inp)"

definition tx_bytes :: "BRTransaction \<Rightarrow> bytes" where
  "tx_bytes tx = UInt32SetLE (version tx) @
     varint (word_of_nat (length (inputs tx))) @ concat (map wire_input (inputs tx)) @
     varint (word_of_nat (length (outputs tx))) @ concat (map output_bytes (outputs tx)) @ UInt32SetLE (lockTime tx)"

text \<open>The data of a signature hash, from the fields of the transaction: the inputs and the outputs that the hash type
  covers, the script of the spent output at the signed input and empty scripts at the others, the sequence numbers of the
  others cleared for NONE and SINGLE, the hash type at the end.  For SINGLE the outputs before the signed position are blank.\<close>

definition sighash_inputs :: "BRTransaction \<Rightarrow> nat \<Rightarrow> u32 \<Rightarrow> (nat \<times> BRTxInput) list" where
  "sighash_inputs tx i ht = (if ht AND 0x80 \<noteq> 0 then [(i, inputs tx ! i)] else enumerate 0 (inputs tx))"

definition sighash_outputs :: "BRTransaction \<Rightarrow> nat \<Rightarrow> u32 \<Rightarrow> BRTxOutput list" where
  "sighash_outputs tx i ht =
     (if ht AND 0x1f = 2 then []
      else if ht AND 0x1f = 3 then
        (if i < length (outputs tx)
         then replicate i \<lparr>out_address = [], out_amount = - 1, out_script = None\<rparr> @ [outputs tx ! i] else [])
      else outputs tx)"

definition sighash_input :: "nat \<Rightarrow> u32 \<Rightarrow> nat \<times> BRTxInput \<Rightarrow> bytes" where
  "sighash_input i ht = (\<lambda>(j, inp). prevout_bytes inp @
     script_field (if j = i then ptr_bytes (in_script inp) else []) @
     UInt32SetLE (if j \<noteq> i \<and> (ht AND 0x1f = 2 \<or> ht AND 0x1f = 3) then 0 else in_sequence inp))"

definition sighash_bytes :: "BRTransaction \<Rightarrow> nat \<Rightarrow> u32 \<Rightarrow> bytes" where
  "sighash_bytes tx i ht =
     (let ins = sighash_inputs tx i ht; outs = sighash_outputs tx i ht in
      UInt32SetLE (version tx) @
      varint (word_of_nat (length ins)) @ concat (map (sighash_input i ht) ins) @
      varint (word_of_nat (length outs)) @ concat (map output_bytes outs) @
      UInt32SetLE (lockTime tx) @ UInt32SetLE ht)"

text \<open>With the fork identifier in the hash type: version, hash of the outpoints, hash of the sequence numbers, the signed
  input with script and amount (left out when it is zero), hash of the outputs, lock time and hash type.\<close>

definition fork_sighash_bytes :: "BRTransaction \<Rightarrow> nat \<Rightarrow> u32 \<Rightarrow> bytes" where
  "fork_sighash_bytes tx i ht =
     (let inp = inputs tx ! i; base = ht AND 0x1f; anyone = (ht AND 0x80 \<noteq> 0) in
      UInt32SetLE (version tx) @
      (if anyone then replicate 32 0 else SHA256_2 (concat (map prevout_bytes (inputs tx)))) @
      (if anyone \<or> base = 2 \<or> base = 3 then replicate 32 0
       else SHA256_2 (concat (map (\<lambda>x. UInt32SetLE (in_sequence x)) (inputs tx)))) @
      prevout_bytes inp @ script_field (ptr_bytes (in_script inp)) @
      (if in_amount inp = 0 then [] else UInt64SetLE (in_amount inp)) @ UInt32SetLE (in_sequence inp) @
      (if base = 3 then (if i < length (outputs tx) then SHA256_2 (output_bytes (outputs tx ! i)) else replicate 32 0)
       else if base = 2 then replicate 32 0
       else SHA256_2 (concat (map output_bytes (outputs tx)))) @
      UInt32SetLE (lockTime tx) @ UInt32SetLE ht)"

lemma data_input_whole: "input_bytes (data_input None s j inp) = wire_input inp"
  by (auto simp: input_bytes_def data_input_def wire_input_def prevout_bytes_def script_field_def ptr_bytes_def
      split: option.splits)

lemma data_input_signed: "input_bytes (data_input (Some i) (ht AND 0x1f) j inp) = sighash_input i ht (j, inp)"
  by (auto simp: input_bytes_def data_input_def sighash_input_def prevout_bytes_def script_field_def ptr_bytes_def
      sighash_defs Let_def)

lemma map_data_input_whole: "map (input_bytes \<circ> (\<lambda>(j, inp). data_input None s j inp)) (enumerate n ins) = map wire_input ins"
  by (induction ins arbitrary: n) (simp_all add: data_input_whole)

lemma map_data_input_signed:
  "map (input_bytes \<circ> (\<lambda>(j, inp). data_input (Some i) (ht AND 0x1f) j inp)) xs = map (sighash_input i ht) xs"
  by (rule map_cong) (auto simp: data_input_signed)

lemma tx_bytes_all: "tx_bytes tx = all_bytes (version tx) (map (data_input None 0 0) (inputs tx)) (outputs tx) (lockTime tx)"
  by (simp add: tx_bytes_def all_bytes_def comp_def data_input_whole)

lemma writer_all:
  "writer (\<lambda>st. put_field (UInt32SetLE (lockTime tx)) (put_nested (TransactionOutputData tx None)
      (put_varint (length (outputs tx)) (put_inputs ins (put_varint (length ins) (put_field (UInt32SetLE (version tx)) st))))))
    (all_bytes (version tx) ins (outputs tx) (lockTime tx))"
  by (rule writer_cong [OF writer_comp [OF writer_comp [OF writer_comp [OF field.writer_axioms writer_varint] writer_inputs]
        writer_comp [OF writer_comp [OF writer_varint tx_outputs.writer_axioms] field.writer_axioms]]])
     (simp_all add: all_bytes_def)

lemma hash_type_bits:
  "(0 :: u32) AND x = 0" "SIGHASH_ALL AND SIGHASH_ANYONECANPAY = 0" "SIGHASH_ALL AND SIGHASH_FORKID = 0"
  "SIGHASH_ALL AND 0x1f = SIGHASH_ALL" "SIGHASH_ALL \<noteq> SIGHASH_SINGLE" "SIGHASH_ALL \<noteq> SIGHASH_NONE"
  "(0 :: u32) \<noteq> SIGHASH_SINGLE" "(0 :: u32) \<noteq> SIGHASH_NONE"
  by (simp_all add: sighash_defs)

lemma whole_data:
  assumes "ht = 0 \<or> ht = SIGHASH_ALL"
  shows "serializer (TransactionData tx None ht) (tx_bytes tx)"
proof -
  let ?ins = "map (\<lambda>(j, inp). data_input None (ht AND 0x1f) j inp) (enumerate 0 (inputs tx))"
  have "tx_bytes tx = all_bytes (version tx) ?ins (outputs tx) (lockTime tx)"
    by (simp add: tx_bytes_def all_bytes_def map_data_input_whole)
  then show ?thesis
    by (simp only:) (rule serializer_cong [OF serializer_written [OF writer_all]],
      use assms in \<open>auto simp: TransactionData_def Let_def hash_type_bits\<close>)
qed

interpretation serialize: serializer "BRTransactionSerialize tx" "tx_bytes tx" for tx
  by (rule serializer_cong [OF whole_data [of SIGHASH_ALL]]) (simp_all add: BRTransactionSerialize_def)

interpretation tx_output: serializer "TransactionOutputData tx (Some i)"
    "if i < length (outputs tx) then output_bytes (outputs tx ! i) else []" for tx i
proof -
  let ?o = "if i < length (outputs tx) then [outputs tx ! i] else []"
  have "serializer (TransactionOutputData tx (Some i)) (concat (map output_bytes ?o))"
    by (rule serializer_cong [OF serializer_written [OF writer_fold [of ?o put_output output_bytes]]])
       (simp_all add: writer_output TransactionOutputData_def)
  then show "serializer (TransactionOutputData tx (Some i))
      (if i < length (outputs tx) then output_bytes (outputs tx ! i) else [])"
    by (simp split: if_splits)
qed

lemma writer_sighash_inputs:
  "writer (\<lambda>st. if ht AND SIGHASH_ANYONECANPAY = 0
       then put_inputs (map (\<lambda>(j, inp). data_input (Some i) (ht AND 0x1f) j inp) (enumerate 0 (inputs tx)))
              (put_varint (length (inputs tx)) st)
       else put_nested (TxInputData ((inputs tx ! i)\<lparr>in_signature := in_script (inputs tx ! i), in_amount := 0\<rparr>))
              (put_varint 1 st))
     (varint (word_of_nat (length (sighash_inputs tx i ht))) @ concat (map (sighash_input i ht) (sighash_inputs tx i ht)))"
proof (cases "ht AND SIGHASH_ANYONECANPAY = 0")
  case True
  let ?ins = "map (\<lambda>(j, inp). data_input (Some i) (ht AND 0x1f) j inp) (enumerate 0 (inputs tx))"
  have w: "writer (put_inputs ?ins) (concat (map (sighash_input i ht) (enumerate 0 (inputs tx))))"
    using writer_inputs [of ?ins] by (simp only: list.map_comp map_data_input_signed)
  from writer_comp [OF writer_varint [of "length (inputs tx)"] w] True show ?thesis
    by (simp add: sighash_inputs_def sighash_defs)
next
  case False
  let ?x = "(inputs tx ! i)\<lparr>in_signature := in_script (inputs tx ! i), in_amount := 0\<rparr>"
  have "input_bytes ?x = sighash_input i ht (i, inputs tx ! i)"
    by (simp add: input_bytes_def sighash_input_def prevout_bytes_def script_field_def)
  with writer_comp [OF writer_varint [of 1] tx_input.writer_axioms [of ?x]] False show ?thesis
    by (simp add: sighash_inputs_def sighash_defs)
qed

lemma writer_blank_outputs:
  "writer (fold (\<lambda>_. put_varint 0 \<circ> put_field (UInt64SetLE (- 1))) [0..<i])
     (concat (map output_bytes (replicate i \<lparr>out_address = [], out_amount = - 1, out_script = None\<rparr>)))"
proof -
  let ?b = "\<lparr>out_address = [], out_amount = - 1, out_script = None\<rparr>"
  have "writer (put_varint 0 \<circ> put_field (UInt64SetLE (- 1))) (output_bytes ?b)"
    by (rule writer_cong [OF writer_comp [OF field.writer_axioms writer_varint [of 0]]])
       (simp_all add: output_bytes_def ptr_bytes_def)
  from writer_fold [of "[0..<i]", OF this] show ?thesis by (simp add: map_replicate_const)
qed

lemma writer_sighash_outputs:
  "writer (\<lambda>st. if ht AND 0x1f \<noteq> SIGHASH_SINGLE \<and> ht AND 0x1f \<noteq> SIGHASH_NONE
       then put_nested (TransactionOutputData tx None) (put_varint (length (outputs tx)) st)
       else if ht AND 0x1f = SIGHASH_SINGLE \<and> i < length (outputs tx)
       then put_nested (TransactionOutputData tx (Some i))
              (fold (\<lambda>_. put_varint 0 \<circ> put_field (UInt64SetLE (- 1))) [0..<i] (put_varint (i + 1) st))
       else put_varint 0 st)
     (varint (word_of_nat (length (sighash_outputs tx i ht))) @ concat (map output_bytes (sighash_outputs tx i ht)))"
proof (cases "ht AND 0x1f \<noteq> SIGHASH_SINGLE \<and> ht AND 0x1f \<noteq> SIGHASH_NONE")
  case True
  then show ?thesis
    by (intro writer_cong [OF writer_comp [OF writer_varint tx_outputs.writer_axioms]])
       (simp_all add: sighash_outputs_def sighash_defs)
next
  case False
  then show ?thesis
  proof (cases "ht AND 0x1f = SIGHASH_SINGLE \<and> i < length (outputs tx)")
    case True
    then show ?thesis
      by (intro writer_cong [OF writer_comp [OF writer_comp [OF writer_varint [of "i + 1"] writer_blank_outputs] tx_output.writer_axioms]])
         (auto simp: sighash_outputs_def sighash_defs)
  next
    case F2: False
    with False show ?thesis
      by (intro writer_cong [OF writer_varint]) (auto simp: sighash_outputs_def sighash_defs)
  qed
qed

lemma sighash_data_writer:
  assumes "ht AND SIGHASH_FORKID = 0" and "i < length (inputs tx)"
  shows "serializer (TransactionData tx (Some i) ht) (sighash_bytes tx i ht)"
proof -
  note w = writer_comp [OF writer_comp [OF writer_comp [OF field.writer_axioms writer_sighash_inputs]
      writer_sighash_outputs] writer_comp [OF field.writer_axioms field.writer_axioms]]
  have e: "sighash_bytes tx i ht = ((UInt32SetLE (version tx) @
      (varint (word_of_nat (length (sighash_inputs tx i ht))) @ concat (map (sighash_input i ht) (sighash_inputs tx i ht)))) @
      (varint (word_of_nat (length (sighash_outputs tx i ht))) @ concat (map output_bytes (sighash_outputs tx i ht)))) @
      UInt32SetLE (lockTime tx) @ UInt32SetLE ht"
    by (simp add: sighash_bytes_def Let_def)
  show ?thesis
    unfolding e
    by (rule serializer_cong [OF serializer_written [OF w]])
       (use assms in \<open>auto simp: TransactionData_def Let_def cong: if_cong\<close>)
qed

lemma sighash_fork_writer:
  assumes "ht AND SIGHASH_FORKID \<noteq> 0" and "i < length (inputs tx)"
  shows "serializer (TransactionData tx (Some i) ht) (fork_sighash_bytes tx i ht)"
proof -
  let ?x = "(inputs tx ! i)\<lparr>in_signature := in_script (inputs tx ! i)\<rparr>"
  let ?anyone = "ht AND SIGHASH_ANYONECANPAY \<noteq> 0" and ?base = "ht AND 0x1f"
  define prevouts sequences outs where
    "prevouts = (if \<not> ?anyone
       then SHA256_2 (concat (map (\<lambda>inp. UInt256Set (in_txHash inp) @ UInt32SetLE (in_index inp)) (inputs tx)))
       else UInt256Set UINT256_ZERO)" and
    "sequences = (if \<not> ?anyone \<and> ?base \<noteq> SIGHASH_SINGLE \<and> ?base \<noteq> SIGHASH_NONE
       then SHA256_2 (concat (map (\<lambda>inp. UInt32SetLE (in_sequence inp)) (inputs tx))) else UInt256Set UINT256_ZERO)" and
    "outs = (if ?base \<noteq> SIGHASH_SINGLE \<and> ?base \<noteq> SIGHASH_NONE then SHA256_2 (concat (map output_bytes (outputs tx)))
       else if ?base = SIGHASH_SINGLE \<and> i < length (outputs tx) then SHA256_2 (output_bytes (outputs tx ! i))
       else UInt256Set UINT256_ZERO)"
  have z: "UInt256Set UINT256_ZERO = replicate 32 0"
    by (simp add: UInt256Set_def UINT256_ZERO_def u8_at_def numeral_eq_Suc)
  let ?w = "\<lambda>st. put_field (UInt32SetLE ht) (put_field (UInt32SetLE (lockTime tx)) (put_field outs
      (put_nested (TxInputData ?x) (put_field sequences (put_field prevouts (put_field (UInt32SetLE (version tx)) st))))))"
  have run: "TransactionData tx (Some i) ht d = written (?w (d, 0))" for d
    using assms tx_outputs.filled [of tx] tx_output.filled [of tx i]
    by (simp add: TransactionData_def TransactionWitnessData_def Let_def prevouts_def sequences_def outs_def)
  have "fork_sighash_bytes tx i ht = (((((UInt32SetLE (version tx) @ prevouts) @ sequences) @ input_bytes ?x) @ outs) @
      UInt32SetLE (lockTime tx)) @ UInt32SetLE ht"
    by (simp add: fork_sighash_bytes_def Let_def prevouts_def sequences_def outs_def sighash_defs z prevout_bytes_def [abs_def]
        input_bytes_def script_field_def)
  moreover have "writer ?w ((((((UInt32SetLE (version tx) @ prevouts) @ sequences) @ input_bytes ?x) @ outs) @
      UInt32SetLE (lockTime tx)) @ UInt32SetLE ht)"
    by (intro writer_comp field.writer_axioms tx_input.writer_axioms)
  ultimately have "writer ?w (fork_sighash_bytes tx i ht)" by simp
  from serializer_cong [OF serializer_written [OF this] run] show ?thesis .
qed

lemma filled_whole: "ht = 0 \<or> ht = SIGHASH_ALL \<Longrightarrow> filled_data tx None ht = tx_bytes tx"
  unfolding filled_data_def by (rule serializer.filled [OF whole_data])

lemma filled_sighash:
  "i < length (inputs tx) \<Longrightarrow> ht AND SIGHASH_FORKID = 0 \<Longrightarrow> filled_data tx (Some i) ht = sighash_bytes tx i ht"
  unfolding filled_data_def by (rule serializer.filled [OF sighash_data_writer])

lemma filled_fork_sighash:
  "i < length (inputs tx) \<Longrightarrow> ht AND SIGHASH_FORKID \<noteq> 0 \<Longrightarrow> filled_data tx (Some i) ht = fork_sighash_bytes tx i ht"
  unfolding filled_data_def by (rule serializer.filled [OF sighash_fork_writer])

section \<open>Serialisation, size and signature hashes\<close>

lemma length_input_bytes: "in_amount inp = 0 \<Longrightarrow> length (input_bytes inp) =
   40 + length (varint (word_of_nat (length (ptr_bytes (in_signature inp))))) + length (ptr_bytes (in_signature inp))"
  by (simp add: input_bytes_def)

lemma signed_input: "in_signature inp \<noteq> None \<Longrightarrow> data_input None 0 0 inp = inp\<lparr>in_amount := 0\<rparr>"
  by (auto simp: data_input_def)

lemma signed_size:
  assumes "BRTransactionIsSigned tx"
  shows "BRTransactionSize tx = length (tx_bytes tx)"
proof -
  have "length (concat (map input_bytes (map (data_input None 0 0) ins))) = sum_list (map input_size ins)"
    if "list_all (\<lambda>i. in_signature i \<noteq> None) ins" for ins
    using that by (induction ins) (auto simp: signed_input length_input_bytes input_size_def ptr_bytes_def BRVarIntSize_eq)
  moreover have "length (concat (map output_bytes outs)) = sum_list (map output_size outs)" for outs
    by (induction outs) (simp_all add: output_bytes_def output_size_def BRVarIntSize_eq Let_def)
  ultimately show ?thesis
    using assms by (simp add: BRTransactionSize_def BRTransactionIsSigned_def tx_bytes_all all_bytes_def BRVarIntSize_eq)
qed

text \<open>C12: \<open>BRTransactionSerialize\<close> reports for \<open>NULL\<close> the number of bytes that it writes, and fills every large enough buffer
  with version, inputs, outputs and lock time; for a signed transaction that number is \<open>BRTransactionSize\<close>.\<close>

theorem tx_serialize:
  "BRTransactionSerialize tx None = (None, length (tx_bytes tx)) \<and>
   (length (tx_bytes tx) \<le> length buf \<longrightarrow>
      BRTransactionSerialize tx (Some buf) = (Some (put 0 (tx_bytes tx) buf), length (tx_bytes tx))) \<and>
   (BRTransactionIsSigned tx \<longrightarrow> BRTransactionSize tx = snd (BRTransactionSerialize tx None))"
  using serialize.size serialize.store signed_size by simp

text \<open>A buffer that is too small is not always refused: the writers of the parts return 0 when their part does not
  fit and the rest is written over the same place, so the result can be a positive number that is smaller than the
  size of the transaction.\<close>

theorem tx_serialize_small_buffer:
  assumes "36 \<le> length sig" "inp = zero_input\<lparr>in_signature := Some sig\<rparr>" "length buf = 20"
  shows "\<exists>out. BRTransactionSerialize (BRTransactionNew\<lparr>inputs := [inp]\<rparr>) (Some buf) = (Some out, 10) \<and>
     snd (BRTransactionSerialize (BRTransactionNew\<lparr>inputs := [inp]\<rparr>) None) > 20"
proof -
  have nested: "TxInputData x (Some d) = (Some d, 0)" if "length d < 32" "in_amount x = 0" for x d
    using that by (simp add: TxInputData_def Let_def put_field_def put_varint_def put_nested_def BRVarIntSet_emit
        emit_def written_def)
  let ?tx = "BRTransactionNew\<lparr>inputs := [inp]\<rparr>"
  have "length (tx_bytes ?tx) > 20" by (simp add: tx_bytes_all all_bytes_def BRTransactionNew_def input_bytes_def)
  moreover have "\<exists>out. BRTransactionSerialize ?tx (Some buf) = (Some out, 10)"
    using assms by (simp add: BRTransactionSerialize_def TransactionData_def Let_def hash_type_bits BRTransactionNew_def
        data_input_def zero_input_def put_inputs_def put_field_def put_varint_def put_nested_def nested BRVarIntSet_emit emit_def
        varint_def TransactionOutputData_def written_def)
  ultimately show ?thesis by (simp add: serialize.size)
qed

lemma sighash_bytes_core:
  assumes "map (\<lambda>x. x\<lparr>in_signature := None, in_amount := 0, in_address := []\<rparr>) (inputs tx) =
      map (\<lambda>x. x\<lparr>in_signature := None, in_amount := 0, in_address := []\<rparr>) ins"
    and "i < length (inputs tx)"
  shows "sighash_bytes (tx\<lparr>inputs := ins\<rparr>) i ht = sighash_bytes tx i ht"
proof -
  let ?c = "\<lambda>x. x\<lparr>in_signature := None, in_amount := 0, in_address := []\<rparr>"
  let ?d = "sighash_input i ht"
  have len: "length ins = length (inputs tx)" using assms(1) map_eq_imp_length_eq by metis
  have "?d (j, x) = ?d (j, y)" if "?c x = ?c y" for j x y
    using arg_cong [OF that, of in_txHash] arg_cong [OF that, of in_index] arg_cong [OF that, of in_script]
      arg_cong [OF that, of in_sequence] by (simp add: sighash_input_def prevout_bytes_def)
  moreover have "?c (inputs tx ! j) = ?c (ins ! j)" if "j < length ins" for j
    using arg_cong [OF assms(1), of "\<lambda>l. l ! j"] that len by simp
  ultimately have d: "?d (j, inputs tx ! j) = ?d (j, ins ! j)" if "j < length ins" for j using that by blast
  have "map ?d (enumerate 0 (inputs tx)) = map ?d (enumerate 0 ins)"
  proof (rule nth_equalityI)
    show "length (map ?d (enumerate 0 (inputs tx))) = length (map ?d (enumerate 0 ins))" using len by simp
    fix j assume "j < length (map ?d (enumerate 0 (inputs tx)))"
    then have "j < length ins" "j < length (inputs tx)" using len by simp_all
    then show "map ?d (enumerate 0 (inputs tx)) ! j = map ?d (enumerate 0 ins) ! j"
      using d [of j] by (simp only: nth_map length_enumerate nth_enumerate_eq add_0)
  qed
  then show ?thesis using len d [of i] assms(2)
    by (simp add: sighash_bytes_def sighash_inputs_def sighash_outputs_def Let_def)
qed


theorem tx_serialize_witness:
  "BRTransactionSize (BRTransactionNew\<lparr>inputs := [zero_input\<lparr>in_signature := Some [1, 2]\<rparr>]\<rparr>) = 53"
  using tx_serialize [of "BRTransactionNew\<lparr>inputs := [zero_input\<lparr>in_signature := Some [1, 2]\<rparr>]\<rparr>"]
  by (simp add: BRTransactionIsSigned_def BRTransactionNew_def zero_input_def tx_bytes_all all_bytes_def signed_input
      input_bytes_def ptr_bytes_def varint_def)

theorem tx_serialize_small_buffer_witness:
  "\<exists>out. BRTransactionSerialize (BRTransactionNew\<lparr>inputs := [zero_input\<lparr>in_signature := Some (replicate 70 1)\<rparr>]\<rparr>)
     (Some (replicate 20 0)) = (Some out, 10)"
proof -
  have "36 \<le> length (replicate 70 (1 :: u8))" "length (replicate 20 (0 :: u8)) = 20" by (simp_all only: length_replicate)
  then show ?thesis using tx_serialize_small_buffer [OF _ refl] by blast
qed



section \<open>Addresses of scripts\<close>

lemma element_data:
  assumes "k < snd (BRScriptElements (Some m) script)"
  shows "\<exists>d l. BRScriptData script (fst (BRScriptElements (Some m) script) ! k) = Some (d, l) \<and>
     (\<forall>p. d = Some p \<longrightarrow> rd_slice script p l = Some (slice p l script))"
proof -
  note c = BRScriptElements_chain [OF refl, of "Some m" script]
  have n: "0 < snd (BRScriptElements (Some m) script)" using assms by linarith
  obtain l nx where l: "BRScriptData script (fst (BRScriptElements (Some m) script) ! k) =
      Some (if l > 0 then Some (nx - l) else None, l)" "nx \<le> length script"
      "fst (BRScriptElements (Some m) script) ! k + l < nx"
    using chain_nth [OF c(1) [OF n], of k] c(2) [OF n] c(3) [OF n refl] assms by (auto simp: Let_def)
  then show ?thesis by (auto simp: rd_slice_def)
qed

lemma CheckEncode_Some: "\<exists>b n. BRBase58CheckEncode (Some a) x = (Some b, n)"
  by (simp add: BRBase58CheckEncode_eq BRBase58Encode_eq)

text \<open>Computing the address of a script never reads outside the script.\<close>

lemma address_total: "\<exists>b n. BRAddressFromScriptPubKey (Some a) script = Some (Some b, n)"
proof -
  define E where "E = BRScriptElements (Some (snd (BRScriptElements None script))) script"
  have d: "\<exists>d l. BRScriptData script (fst E ! k) = Some (d, l) \<and> (\<forall>p. d = Some p \<longrightarrow> rd_slice script p l = Some (slice p l script))"
    if "k < snd E" for k using element_data that unfolding E_def by blast
  show ?thesis
    unfolding BRAddressFromScriptPubKey_def E_def [symmetric] Let_def
    using d [of 0] d [of 1] d [of 2]
    by (auto split: option.splits simp: CheckEncode_Some)
qed

lemma sig_address_total: "\<exists>b n. BRAddressFromScriptSig (Some a) script = Some (Some b, n)"
proof -
  define E where "E = BRScriptElements (Some (snd (BRScriptElements None script))) script"
  have d: "\<exists>d l. BRScriptData script (fst E ! k) = Some (d, l) \<and> (\<forall>p. d = Some p \<longrightarrow> rd_slice script p l = Some (slice p l script))"
    if "k < snd E" for k using element_data that unfolding E_def by blast
  show ?thesis
    unfolding BRAddressFromScriptSig_def E_def [symmetric] Let_def
    using d [of "snd E - 1"]
    by (auto split: option.splits simp: CheckEncode_Some)
qed


lemma no_address_facts: "length no_address = 36" "no_address ! 0 = 0"
  by (simp_all only: no_address_def length_replicate) (simp add: no_address_def)

section \<open>Copies\<close>

text \<open>The part of an input that is neither the address nor anything derived from it.\<close>

definition in_core :: "BRTxInput \<Rightarrow> BRTxInput" where
  "in_core x = x\<lparr>in_address := []\<rparr>"

definition out_core :: "BRTxOutput \<Rightarrow> BRTxOutput" where
  "out_core x = x\<lparr>out_address := []\<rparr>"

lemma set_script_core:
  "\<exists>x'. BRTxInputSetScript x s = Some x' \<and> in_core x' = in_core x\<lparr>in_script := s\<rparr>"
proof (cases s)
  case (Some sc)
  obtain b n where "BRAddressFromScriptPubKey (Some no_address) sc = Some (Some b, n)" using address_total by blast
  then show ?thesis by (simp add: Some BRTxInputSetScript_def in_core_def)
qed (simp add: BRTxInputSetScript_def in_core_def)

lemma set_signature_core:
  "\<exists>x'. BRTxInputSetSignature x s = Some x' \<and> in_core x' = in_core x\<lparr>in_signature := s\<rparr>"
proof (cases s)
  case (Some sc)
  obtain b n where "BRAddressFromScriptSig (Some (in_address x)) sc = Some (Some b, n)" using sig_address_total by blast
  then show ?thesis by (simp add: Some BRTxInputSetSignature_def in_core_def)
qed (simp add: BRTxInputSetSignature_def in_core_def)

lemma set_output_script_core:
  "\<exists>x'. BRTxOutputSetScript x s = Some x' \<and> out_core x' = out_core x\<lparr>out_script := s\<rparr>"
proof (cases s)
  case (Some sc)
  obtain b n where "BRAddressFromScriptPubKey (Some no_address) sc = Some (Some b, n)" using address_total by blast
  then show ?thesis by (simp add: Some BRTxOutputSetScript_def out_core_def)
qed (simp add: BRTxOutputSetScript_def out_core_def)

lemma add_input_core:
  assumes "h \<noteq> 0"
  shows "\<exists>x. BRTransactionAddInput tx h i amt s sg sq = Some (tx\<lparr>inputs := inputs tx @ [x]\<rparr>) \<and>
     in_core x = \<lparr>in_txHash = h, in_index = i, in_address = [], in_amount = amt, in_script = s, in_signature = sg, in_sequence = sq\<rparr>"
proof -
  define x0 where "x0 = \<lparr>in_txHash = h, in_index = i, in_address = no_address, in_amount = amt, in_script = None,
     in_signature = None, in_sequence = sq\<rparr>"
  obtain x1 where x1: "(if s \<noteq> None then BRTxInputSetScript x0 s else Some x0) = Some x1" "in_core x1 = in_core x0\<lparr>in_script := s\<rparr>"
    using set_script_core [of x0 s] by (cases s) (auto simp: x0_def in_core_def)
  obtain x2 where x2: "(if sg \<noteq> None then BRTxInputSetSignature x1 sg else Some x1) = Some x2"
      "in_core x2 = in_core x1\<lparr>in_signature := sg\<rparr>"
    using set_signature_core [of x1 sg] x1(2) by (cases sg) (auto simp: x0_def in_core_def)
  have "BRTransactionAddInput tx h i amt s sg sq = Some (tx\<lparr>inputs := inputs tx @ [x2]\<rparr>)"
    unfolding BRTransactionAddInput_def Let_def x0_def [symmetric] using assms
    by (simp only: UInt256IsZero_iff if_False x1(1) x2(1) bind.bind_lunit)
  then show ?thesis using x1(2) x2(2) by (auto simp: x0_def in_core_def)
qed

lemma add_output_core:
  "\<exists>x. BRTransactionAddOutput tx amt s = Some (tx\<lparr>outputs := outputs tx @ [x]\<rparr>) \<and>
     out_core x = \<lparr>out_address = [], out_amount = amt, out_script = s\<rparr>"
proof -
  obtain x where "BRTxOutputSetScript (TX_OUTPUT_NONE\<lparr>out_amount := amt\<rparr>) s = Some x"
    "out_core x = out_core (TX_OUTPUT_NONE\<lparr>out_amount := amt\<rparr>)\<lparr>out_script := s\<rparr>"
    using set_output_script_core by blast
  then show ?thesis by (intro exI [of _ x]) (simp add: BRTransactionAddOutput_def out_core_def TX_OUTPUT_NONE_def)
qed

lemma in_core_eq: "in_core x = \<lparr>in_txHash = in_txHash y, in_index = in_index y, in_address = [], in_amount = in_amount y,
    in_script = in_script y, in_signature = in_signature y, in_sequence = in_sequence y\<rparr> \<longleftrightarrow> in_core x = in_core y"
  by (cases y) (simp add: in_core_def)

lemma out_core_eq: "out_core x = \<lparr>out_address = [], out_amount = out_amount y, out_script = out_script y\<rparr> \<longleftrightarrow>
   out_core x = out_core y"
  by (cases y) (simp add: out_core_def)

lemma fold_bind_None: "fold (\<lambda>x t. t \<bind> f x) xs None = None"
  by (induction xs) auto

lemma add_inputs_core:
  "\<forall>x \<in> set ins. in_txHash x \<noteq> 0 \<Longrightarrow>
   \<exists>xs. add_inputs tx ins = Some (tx\<lparr>inputs := inputs tx @ xs\<rparr>) \<and> map in_core xs = map in_core ins"
proof (induction ins arbitrary: tx)
  case (Cons y ins)
  obtain x where x: "BRTransactionAddInput tx (in_txHash y) (in_index y) (in_amount y) (in_script y) (in_signature y) (in_sequence y) =
      Some (tx\<lparr>inputs := inputs tx @ [x]\<rparr>)" "in_core x = in_core y"
    using add_input_core [of "in_txHash y" tx "in_index y" "in_amount y" "in_script y" "in_signature y" "in_sequence y"]
      Cons.prems unfolding in_core_eq by auto
  obtain xs where "add_inputs (tx\<lparr>inputs := inputs tx @ [x]\<rparr>) ins = Some (tx\<lparr>inputs := (inputs tx @ [x]) @ xs\<rparr>)"
    "map in_core xs = map in_core ins" using Cons.IH [of "tx\<lparr>inputs := inputs tx @ [x]\<rparr>"] Cons.prems by auto
  then show ?case using x by (intro exI [of _ "x # xs"]) (simp add: add_inputs_def)
qed (simp add: add_inputs_def)

lemma add_outputs_core:
  "\<exists>xs. add_outputs tx outs = Some (tx\<lparr>outputs := outputs tx @ xs\<rparr>) \<and> map out_core xs = map out_core outs"
proof (induction outs arbitrary: tx)
  case (Cons y outs)
  obtain x where x: "BRTransactionAddOutput tx (out_amount y) (out_script y) = Some (tx\<lparr>outputs := outputs tx @ [x]\<rparr>)"
    "out_core x = out_core y" using add_output_core [of tx "out_amount y" "out_script y"] unfolding out_core_eq by blast
  obtain xs where "add_outputs (tx\<lparr>outputs := outputs tx @ [x]\<rparr>) outs = Some (tx\<lparr>outputs := (outputs tx @ [x]) @ xs\<rparr>)"
    "map out_core xs = map out_core outs" using Cons.IH [of "tx\<lparr>outputs := outputs tx @ [x]\<rparr>"] by auto
  then show ?case using x by (intro exI [of _ "x # xs"]) (simp add: add_outputs_def)
qed (simp add: add_outputs_def)

lemma input_bytes_core: "in_core x = in_core y \<Longrightarrow> input_bytes (data_input None 0 0 x) = input_bytes (data_input None 0 0 y)"
  by (cases x; cases y) (simp add: in_core_def data_input_def input_bytes_def)

lemma output_bytes_core: "out_core x = out_core y \<Longrightarrow> output_bytes x = output_bytes y"
  by (cases x; cases y) (simp add: out_core_def output_bytes_def)

lemma map_core_eq:
  assumes "map c xs = map c ys" "\<And>x y. c x = c y \<Longrightarrow> f x = f y"
  shows "map f xs = map f ys"
proof -
  have len: "length xs = length ys" using assms(1) map_eq_imp_length_eq by blast
  have "f (xs ! i) = f (ys ! i)" if "i < length xs" for i
    using arg_cong [OF assms(1), of "\<lambda>l. l ! i"] that len by (intro assms(2)) simp
  then show ?thesis using len by (simp add: list_eq_iff_nth_eq)
qed

lemma tx_bytes_core:
  assumes "map in_core (inputs tx) = map in_core (inputs tx')" "map out_core (outputs tx) = map out_core (outputs tx')"
    "version tx = version tx'" "lockTime tx = lockTime tx'"
  shows "tx_bytes tx = tx_bytes tx'"
proof -
  have "map (\<lambda>x. input_bytes (data_input None 0 0 x)) (inputs tx) = map (\<lambda>x. input_bytes (data_input None 0 0 x)) (inputs tx')"
    by (rule map_core_eq [OF assms(1) input_bytes_core])
  moreover have "map output_bytes (outputs tx) = map output_bytes (outputs tx')"
    by (rule map_core_eq [OF assms(2) output_bytes_core])
  moreover have "length (inputs tx) = length (inputs tx')" "length (outputs tx) = length (outputs tx')"
    using assms(1,2) map_eq_imp_length_eq by blast+
  ultimately show ?thesis using assms(3,4) by (simp add: tx_bytes_all all_bytes_def comp_def)
qed

text \<open>A deep copy of a transaction that spends real outputs is always made, and it is the same transaction: the same hash,
  fields and assets, input by input and output by output the same data up to the address fields, which are computed again from
  the scripts, and so the same serialisation.\<close>

theorem tx_copy:
  assumes "\<forall>x \<in> set (inputs tx). in_txHash x \<noteq> 0"
  shows "\<exists>c. BRTransactionCopy tx = Some c \<and> c = tx\<lparr>inputs := inputs c, outputs := outputs c\<rparr> \<and>
     map in_core (inputs c) = map in_core (inputs tx) \<and> map out_core (outputs c) = map out_core (outputs tx) \<and>
     BRTransactionSerialize c None = BRTransactionSerialize tx None \<and> tx_bytes c = tx_bytes tx \<and> BRTransactionEq c tx"
proof -
  obtain xs where xs: "add_inputs (tx\<lparr>inputs := [], outputs := []\<rparr>) (inputs tx) = Some (tx\<lparr>outputs := [], inputs := xs\<rparr>)"
    "map in_core xs = map in_core (inputs tx)" using add_inputs_core [OF assms, of "tx\<lparr>inputs := [], outputs := []\<rparr>"] by auto
  obtain ys where ys: "add_outputs (tx\<lparr>outputs := [], inputs := xs\<rparr>) (outputs tx) = Some (tx\<lparr>inputs := xs, outputs := ys\<rparr>)"
    "map out_core ys = map out_core (outputs tx)" using add_outputs_core [of "tx\<lparr>outputs := [], inputs := xs\<rparr>" "outputs tx"] by auto
  have "tx_bytes (tx\<lparr>inputs := xs, outputs := ys\<rparr>) = tx_bytes tx" by (rule tx_bytes_core) (use xs ys in simp_all)
  then show ?thesis using xs ys
    by (intro exI [of _ "tx\<lparr>inputs := xs, outputs := ys\<rparr>"])
       (simp add: BRTransactionCopy_def serialize.size BRTransactionEq_def UInt256Eq_iff)
qed

theorem tx_copy_witness:
  "\<exists>c. BRTransactionCopy (BRTransactionNew\<lparr>inputs := [zero_input\<lparr>in_txHash := 5\<rparr>]\<rparr>) = Some c \<and> length (inputs c) = 1"
  using tx_copy [of "BRTransactionNew\<lparr>inputs := [zero_input\<lparr>in_txHash := 5\<rparr>]\<rparr>"]
  by (auto simp: BRTransactionNew_def dest: map_eq_imp_length_eq)

section \<open>Random numbers and the shuffle\<close>

lemma rand_reject_eq:
  assumes "0 < ub" "ub \<le> BR_RAND_MAX"
  shows "unat (rand_reject ub) = 2 ^ 32 mod unat ub"
proof -
  have b: "0 < unat ub" "unat ub \<le> 0x7fffffff"
    using assms by (simp_all add: BR_RAND_MAX_def word_le_nat_alt word_less_nat_alt)
  have m: "unat (ub * 2) = unat ub * 2" using b by (subst unat_mult_less) auto
  have "unat (0xffffffff - ub * 2 :: u32) = 0xffffffff - unat ub * 2"
    using b m by (subst unat_sub) (auto simp: word_le_nat_alt)
  then have "unat (0xffffffff - ub * 2 + 1 :: u32) = 0x100000000 - unat ub * 2"
    using b by (subst unat_add_less) auto
  then have "unat (rand_reject ub) = (0x100000000 - unat ub * 2) mod unat ub"
    by (simp add: rand_reject_def unat_mod_distrib)
  also have "\<dots> = ((0x100000000 - unat ub * 2) + 2 * unat ub) mod unat ub" by simp
  also have "(0x100000000 - unat ub * 2) + 2 * unat ub = 2 ^ 32" using b by simp
  finally show ?thesis .
qed

lemma rand_loop_less: "0 < ub \<Longrightarrow> rand_loop ub rs = Some (r, rs') \<Longrightarrow> r < ub"
  by (induction ub rs rule: rand_loop.induct) (auto simp: word_less_nat_alt unat_mod_distrib split: if_splits)

lemma rand_loop_returns: "rs = r # rs' \<Longrightarrow> rand_reject ub \<le> r \<Longrightarrow> rand_loop ub rs = Some (r mod ub, rs')"
  by (auto simp: not_less [symmetric])


lemma shuffle_bound:
  assumes "i + 1 < n" "n < 2 ^ 31"
  shows "unat (word_of_nat n - word_of_nat i :: u32) = n - i"
    "rand_bound (word_of_nat n - word_of_nat i) = word_of_nat n - word_of_nat i"
    "0 < (word_of_nat n - word_of_nat i :: u32)" "(word_of_nat n - word_of_nat i :: u32) \<le> BR_RAND_MAX"
proof -
  have "word_of_nat n - word_of_nat i = (word_of_nat (n - i) :: u32)" using assms by (simp add: of_nat_diff)
  moreover have "unat (word_of_nat (n - i) :: u32) = n - i" using assms by (intro unat_word_of_nat_less) simp
  ultimately show u: "unat (word_of_nat n - word_of_nat i :: u32) = n - i" by simp
  show p: "0 < (word_of_nat n - word_of_nat i :: u32)" "(word_of_nat n - word_of_nat i :: u32) \<le> BR_RAND_MAX"
    using u assms by (simp_all add: word_less_nat_alt word_le_nat_alt BR_RAND_MAX_def)
  then show "rand_bound (word_of_nat n - word_of_nat i) = word_of_nat n - word_of_nat i"
    by (auto simp: rand_bound_def)
qed

lemma swap_perm: "i < length xs \<Longrightarrow> j < length xs \<Longrightarrow> mset (xs[i := xs ! j, j := xs ! i]) = mset xs"
  using mset_swap [of j xs i] by simp

lemma shuffle_loop_perm:
  assumes "shuffle_loop n i outs rs = Some (outs', rs')" "i + n < length outs" "length outs < 2 ^ 31"
  shows "mset outs' = mset outs"
  using assms
proof (induction n i outs rs arbitrary: outs' rs' rule: shuffle_loop.induct)
  case (2 n i outs rs)
  let ?ub = "word_of_nat (length outs) - word_of_nat i :: u32"
  note b = shuffle_bound [of i "length outs"]
  obtain r rs1 where r: "BRRand ?ub rs = Some (r, rs1)" using "2.prems"(1) by (auto split: bind_splits)
  have "r < ?ub" using rand_loop_less [of ?ub rs r rs1] b r "2.prems"(2,3) by (simp add: BRRand_def)
  then have j: "i + unat r < length outs" using b(1) "2.prems"(2,3) by (simp add: word_less_nat_alt)
  define o1 where "o1 = (if i + unat r \<noteq> i then outs[i := outs ! (i + unat r), i + unat r := outs ! i] else outs)"
  have "mset o1 = mset outs" "length o1 = length outs"
    using swap_perm [of i outs "i + unat r"] j "2.prems"(2) by (auto simp: o1_def)
  moreover have "shuffle_loop n (i + 1) o1 rs1 = Some (outs', rs')"
    using "2.prems"(1) r j by (auto simp: o1_def Let_def split: if_splits)
  moreover have "mset outs' = mset o1"
    using "2.IH" [OF r refl refl] calculation j "2.prems"(2,3) by (auto simp: o1_def split: if_splits)
  ultimately show ?case by simp
qed simp

lemma shuffle_loop_returns:
  assumes "n \<le> length rs" "\<forall>r \<in> set rs. length outs \<le> unat r" "i + n < length outs" "length outs < 2 ^ 31"
  shows "shuffle_loop n i outs rs \<noteq> None"
  using assms
proof (induction n arbitrary: i outs rs)
  case (Suc n)
  let ?ub = "word_of_nat (length outs) - word_of_nat i :: u32"
  have i: "i + 1 < length outs" using Suc.prems(3) by simp
  note b = shuffle_bound [OF i Suc.prems(4)]
  obtain r rs1 where rs: "rs = r # rs1" using Suc.prems(1) by (cases rs) auto
  have "unat (rand_reject ?ub) < unat ?ub" using rand_reject_eq [OF b(3,4)] b(1) i by simp
  then have "rand_reject ?ub \<le> r" using Suc.prems(2) rs b(1) by (auto simp: word_le_nat_alt)
  then have r: "BRRand ?ub rs = Some (r mod ?ub, rs1)" using rand_loop_returns [OF rs] b(2) by (simp add: BRRand_def)
  have "unat (r mod ?ub) < unat ?ub" using b(1) i by (simp add: unat_mod_distrib)
  then have j: "i + unat (r mod ?ub) < length outs" using b(1) i by simp
  have "shuffle_loop n (i + 1) o1 rs1 \<noteq> None" if "length o1 = length outs" for o1
    using Suc.IH [of rs1 o1 "i + 1"] Suc.prems rs that by simp
  then show ?case using r j by (simp add: Let_def del: not_None_eq)
qed simp

text \<open>\<open>BRRand\<close> returns numbers below its bound and rejects exactly the first \<open>2\<^sup>32 mod upperBound\<close> values, as its comment
  says; the shuffle of the outputs only permutes them, stays inside the array, changes nothing else, and ends as soon as \<open>rand\<close>
  gives values that are not rejected.\<close>

theorem tx_shuffle:
  assumes "length (outputs tx) < 2 ^ 31" "0 < ub" "ub \<le> BR_RAND_MAX"
  shows "unat (rand_reject ub) = 2 ^ 32 mod unat ub \<and>
    (\<forall>r rs'. BRRand ub rs = Some (r, rs') \<longrightarrow> r < ub) \<and>
    (\<forall>tx' rs'. BRTransactionShuffleOutputs tx rs = Some (tx', rs') \<longrightarrow>
       mset (outputs tx') = mset (outputs tx) \<and> tx' = tx\<lparr>outputs := outputs tx'\<rparr>) \<and>
    (length (outputs tx) \<le> length rs \<and> (\<forall>r \<in> set rs. length (outputs tx) \<le> unat r) \<longrightarrow>
       BRTransactionShuffleOutputs tx rs \<noteq> None)"
proof -
  have "rand_bound ub = ub" using assms(2,3) by (auto simp: rand_bound_def)
  then have A: "r < ub" if "BRRand ub rs = Some (r, rs')" for r rs'
    using rand_loop_less [OF assms(2)] that by (simp add: BRRand_def)
  have B: "mset outs = mset (outputs tx)"
    if "shuffle_loop (length (outputs tx) - 1) 0 (outputs tx) rs = Some (outs, rs')" for outs rs'
  proof (cases "outputs tx")
    case Nil
    then show ?thesis using that by simp
  next
    case (Cons x xs)
    then have "0 + (length (outputs tx) - 1) < length (outputs tx)" by simp
    from shuffle_loop_perm [OF that this assms(1)] show ?thesis .
  qed
  have C: "shuffle_loop (length (outputs tx) - 1) 0 (outputs tx) rs \<noteq> None"
    if "length (outputs tx) \<le> length rs" "\<forall>r \<in> set rs. length (outputs tx) \<le> unat r"
  proof (cases "outputs tx")
    case Nil
    then show ?thesis by simp
  next
    case (Cons x xs)
    then have "0 + (length (outputs tx) - 1) < length (outputs tx)" by simp
    from shuffle_loop_returns [OF _ that(2) this assms(1)] that(1) show ?thesis by linarith
  qed
  have S: "BRTransactionShuffleOutputs tx rs = map_option (\<lambda>(outs, rs'). (tx\<lparr>outputs := outs\<rparr>, rs'))
     (shuffle_loop (length (outputs tx) - 1) 0 (outputs tx) rs)"
    by (simp add: BRTransactionShuffleOutputs_def map_conv_bind_option case_prod_unfold comp_def)
  show ?thesis
  proof (intro conjI allI impI)
    show "unat (rand_reject ub) = 2 ^ 32 mod unat ub" by (rule rand_reject_eq [OF assms(2,3)])
    show "r < ub" if "BRRand ub rs = Some (r, rs')" for r rs' using A that .
    fix tx' rs' assume "BRTransactionShuffleOutputs tx rs = Some (tx', rs')"
    then obtain outs where "shuffle_loop (length (outputs tx) - 1) 0 (outputs tx) rs = Some (outs, rs')"
      "tx' = tx\<lparr>outputs := outs\<rparr>" unfolding S by auto
    then show "mset (outputs tx') = mset (outputs tx)" "tx' = tx\<lparr>outputs := outputs tx'\<rparr>" using B by simp_all
  next
    assume "length (outputs tx) \<le> length rs \<and> (\<forall>r \<in> set rs. length (outputs tx) \<le> unat r)"
    then show "BRTransactionShuffleOutputs tx rs \<noteq> None" unfolding S using C by blast
  qed
qed

theorem tx_shuffle_witness:
  "BRTransactionShuffleOutputs (BRTransactionNew\<lparr>outputs := [TX_OUTPUT_NONE, TX_OUTPUT_NONE\<lparr>out_amount := 5\<rparr>]\<rparr>) [100, 200] \<noteq> None"
proof -
  let ?tx = "BRTransactionNew\<lparr>outputs := [TX_OUTPUT_NONE, TX_OUTPUT_NONE\<lparr>out_amount := 5\<rparr>]\<rparr>"
  have "length (outputs ?tx) < 2 ^ 31" "(0 :: u32) < 7" "7 \<le> BR_RAND_MAX" by (simp_all add: BR_RAND_MAX_def)
  from tx_shuffle [OF this, of "[100, 200]"] show ?thesis by simp
qed


section \<open>Signing\<close>

text \<open>The address string of a public key hash.\<close>

definition pkh_address :: "bytes \<Rightarrow> bytes" where
  "pkh_address h = base58_string ((60 # h) @ take 4 (SHA256_2 (60 # h)))"

text \<open>The script that spends a pay-to-pubkey-hash output.\<close>

definition spend_script :: "bytes \<Rightarrow> bytes \<Rightarrow> bytes" where
  "spend_script sig pubKey = push_header (length sig + 1) @ sig @ [ucast SIGHASH_ALL] @ push_header (length pubKey) @ pubKey"

lemma find_key_nth:
  "a \<in> set as \<Longrightarrow> find_key as a j < j + length as \<and> j \<le> find_key as a j \<and> as ! (find_key as a j - j) = a"
proof (induction as arbitrary: j)
  case (Cons x as)
  show ?case
  proof (cases "x = a")
    case False
    with Cons.prems have "a \<in> set as" by auto
    from Cons.IH [OF this, of "j + 1"] False show ?thesis by (auto simp: nth_Cons' Suc_diff_le)
  qed simp
qed simp

text \<open>A script that pays to a public key hash, plain or with an asset behind it: it starts with the standard script of
  the hash and has five or eight elements.\<close>

definition pays_to_pkh :: "bytes \<Rightarrow> bytes \<Rightarrow> bool" where
  "pays_to_pkh sc h \<longleftrightarrow> length h = 20 \<and> length sc \<le> MAX_SCRIPT_LENGTH \<and> take 25 sc = p2pkh_script h \<and>
     snd (BRScriptElements None sc) \<in> {5, 8}"

text \<open>The address of the script that an input spends, if it has one.\<close>

definition script_address :: "BRTxInput \<Rightarrow> bytes option" where
  "script_address inp = (case BRAddressFromScriptPubKey (Some no_address) (ptr_bytes (in_script inp)) of
     Some (Some a, n) \<Rightarrow> if n = 0 then None else Some (take (n - 1) a)
   | _ \<Rightarrow> None)"

lemma pkh_bytes:
  assumes "length h = 20"
  shows "(p2pkh_script h @ r) ! 0 = OP_DUP" "(p2pkh_script h @ r) ! Suc 0 = OP_HASH160" "(p2pkh_script h @ r) ! 2 = 20"
    "(p2pkh_script h @ r) ! Suc (Suc 0) = 20"
    "(p2pkh_script h @ r) ! 23 = OP_EQUALVERIFY" "(p2pkh_script h @ r) ! 24 = OP_CHECKSIG"
  using assms by (simp_all add: p2pkh_script_def nth_append nth_Cons')

lemma pkh_elements:
  assumes "length h = 20"
  shows "script_elements (p2pkh_script h @ r) 0 0 =
    ([0, 1, 2, 23, 24] @ fst (script_elements (p2pkh_script h @ r) 25 0), snd (script_elements (p2pkh_script h @ r) 25 0))"
  using assms by (simp add: elements_step script_advance_def pkh_bytes opcode_defs Let_def)

lemma pays_to_pkh_elements:
  assumes "pays_to_pkh sc h"
  obtains r n es where "sc = p2pkh_script h @ r" "length h = 20" "n = 5 \<or> n = 8" "length es = n"
    "BRScriptElements None sc = ([], n)" "BRScriptElements (Some n) sc = (es, n)" "take 5 es = [0, 1, 2, 23, 24]"
proof -
  let ?t = "script_elements sc 25 0"
  have sc: "sc = p2pkh_script h @ drop 25 sc" and h: "length h = 20"
    using assms append_take_drop_id [of 25 sc] by (auto simp: pays_to_pkh_def)
  have e: "script_elements sc 0 0 = ([0, 1, 2, 23, 24] @ fst ?t, snd ?t)"
    using pkh_elements [OF h, of "drop 25 sc"] unfolding sc [symmetric] .
  have "(if snd ?t = length sc then length ([0, 1, 2, 23, 24] @ fst ?t) else 0) \<in> {5, 8}"
    using assms by (simp only: pays_to_pkh_def BRScriptElements_def e Let_def prod.case option.case snd_conv)
  then have t: "snd ?t = length sc" "5 + length (fst ?t) = 5 \<or> 5 + length (fst ?t) = 8" by (auto split: if_splits)
  show ?thesis
    by (rule that [OF sc h t(2), of "[0, 1, 2, 23, 24] @ fst ?t"]) (simp_all add: BRScriptElements_def e t(1))
qed

lemma p2pkh_pays: "length h = 20 \<Longrightarrow> pays_to_pkh (p2pkh_script h) h"
  by (simp add: pays_to_pkh_def MAX_SCRIPT_LENGTH_def BRScriptElements_def p2pkh_elements)

lemma pays_to_pkh_fun: "pays_to_pkh sc h \<Longrightarrow> pays_to_pkh sc h' \<Longrightarrow> h = h'"
  by (simp add: pays_to_pkh_def p2pkh_script_def)

lemma pkh_address_of_script:
  assumes "pays_to_pkh sc h"
  shows "BRAddressFromScriptPubKey (Some no_address) sc =
     Some (Some (put 0 (pkh_address h @ [0]) no_address), length (pkh_address h) + 1)"
proof -
  obtain r n es where sc: "sc = p2pkh_script h @ r" and h: "length h = 20" and n: "n = 5 \<or> n = 8" "length es = n"
    and e: "BRScriptElements None sc = ([], n)" "BRScriptElements (Some n) sc = (es, n)"
    and es: "take 5 es = [0, 1, 2, 23, 24]" by (rule pays_to_pkh_elements [OF assms])
  have nth: "es ! 0 = 0" "es ! Suc 0 = 1" "es ! 2 = 2" "es ! 3 = 23" "es ! 4 = 24"
    using arg_cong [OF es, of "\<lambda>l. l ! 0"] arg_cong [OF es, of "\<lambda>l. l ! 1"] arg_cong [OF es, of "\<lambda>l. l ! 2"]
      arg_cong [OF es, of "\<lambda>l. l ! 3"] arg_cong [OF es, of "\<lambda>l. l ! 4"] by simp_all
  have d: "BRScriptData sc 2 = Some (Some 3, 20)" "rd_slice sc 3 20 = Some h"
    using h by (simp_all add: sc BRScriptData_def p2pkh_script_def rd_def opcode_defs rd_slice_def slice_def)
  have b: "sc ! 0 = OP_DUP" "sc ! Suc 0 = OP_HASH160" "sc ! 2 = 20" "sc ! 23 = OP_EQUALVERIFY" "sc ! 24 = OP_CHECKSIG"
    unfolding sc by (rule pkh_bytes [OF h])+
  have ne: "sc \<noteq> []" "length sc \<le> MAX_SCRIPT_LENGTH" using assms h by (auto simp: pays_to_pkh_def p2pkh_script_def)
  have "BRAddressFromScriptPubKey (Some no_address) sc = Some (BRBase58CheckEncode (Some no_address) (60 # h))"
    using ne n(1) by (auto simp: BRAddressFromScriptPubKey_def e nth b d RAVENCOIN_PUBKEY_ADDRESS_def not_le [symmetric])
  moreover have "length (pkh_address h) \<le> 35"
    using length_base58_string_le [of "(60 # h) @ take 4 (SHA256_2 (60 # h))"] h by (simp add: pkh_address_def)
  ultimately show ?thesis
    by (simp add: BRBase58CheckEncode_eq BRBase58Encode_eq no_address_facts pkh_address_def)
qed

lemma push_two:
  assumes "length sig + 1 < 0x4c" "length pk < 0x4c"
    "BRScriptPushData (Some (replicate (1 + 73 + 1 + length pk) 0)) (sig @ [x]) = (b1, n1)"
    "BRScriptPushData (Some (drop n1 (the b1))) pk = (b2, n2)"
  shows "length sig \<le> 72 \<Longrightarrow> take (n1 + n2) (take n1 (the b1) @ the b2) =
     push_header (length sig + 1) @ sig @ [x] @ push_header (length pk) @ pk"
proof -
  let ?s = "push_header (length (sig @ [x])) @ sig @ [x]" and ?p = "push_header (length pk) @ pk"
  assume "length sig \<le> 72"
  then have len: "length ?s = length sig + 2" "length ?p = length pk + 1" using assms(1,2) by (simp_all add: push_header_def)
  have b1: "b1 = Some (put 0 ?s (replicate (75 + length pk) 0))" "n1 = length ?s"
    using assms(3) len \<open>length sig \<le> 72\<close> by (auto simp: BRScriptPushData_emit emit_def)
  then have d: "drop n1 (the b1) = replicate (75 + length pk - length ?s) 0" "take n1 (the b1) = ?s"
    by (simp_all add: put_def)
  have fit: "length ?p \<le> length (replicate (75 + length pk - length ?s) (0 :: u8))"
    using len \<open>length sig \<le> 72\<close> by (simp only: length_replicate)
  have "b2 = Some (put 0 ?p (replicate (75 + length pk - length ?s) 0))" "n2 = length ?p"
    using assms(4) unfolding d BRScriptPushData_emit emit_def option.case using fit by (simp_all only: if_True prod.inject)
  then show ?thesis unfolding b1(2) d(2) [unfolded b1(2)] by (simp add: put_def)
qed

lemma sign_input_pkh:
  fixes ops :: "'k key_ops"
  assumes "i < length (inputs tx)" "pays_to_pkh (ptr_bytes (in_script (inputs tx ! i))) h"
    "k = keys ! find_key (map (keyAddress ops) keys) (pkh_address h) 0" "pkh_address h \<in> set (map (keyAddress ops) keys)"
    "length (keySign ops k (SHA256_2 (sighash_bytes tx i SIGHASH_ALL))) \<le> 72" "length (keyPubKey ops k) < 0x4c"
  shows "\<exists>x. sign_input ops keys i tx = Some (tx\<lparr>inputs := (inputs tx)[i := x]\<rparr>) \<and> in_core x = (in_core (inputs tx ! i))
     \<lparr>in_signature := Some (spend_script (keySign ops k (SHA256_2 (sighash_bytes tx i SIGHASH_ALL))) (keyPubKey ops k))\<rparr>"
proof -
  let ?s = "ptr_bytes (in_script (inputs tx ! i))" and ?j = "find_key (map (keyAddress ops) keys) (pkh_address h) 0"
  let ?sig = "keySign ops k (SHA256_2 (sighash_bytes tx i SIGHASH_ALL))" and ?pk = "keyPubKey ops k"
  have j: "?j < length keys" using find_key_nth [OF assms(4), of 0] by simp
  obtain r n es where sc: "?s = p2pkh_script h @ r" and h: "length h = 20" and n: "n = 5 \<or> n = 8" "length es = n"
    and e: "BRScriptElements None ?s = ([], n)" "BRScriptElements (Some n) ?s = (es, n)"
    and es: "take 5 es = [0, 1, 2, 23, 24]" by (rule pays_to_pkh_elements [OF assms(2)])
  have "es ! 3 = 23" using arg_cong [OF es, of "\<lambda>l. l ! 3"] by simp
  moreover have "?s ! 23 = OP_EQUALVERIFY" unfolding sc by (rule pkh_bytes [OF h])
  ultimately have t: "sign_pkh_test ?s es n = Some True" using n by (auto simp: sign_pkh_test_def)
  obtain b1 n1 where p1: "BRScriptPushData (Some (replicate (1 + 73 + 1 + length ?pk) 0)) (?sig @ [ucast SIGHASH_ALL]) = (b1, n1)"
    by fastforce
  obtain b2 n2 where p2: "BRScriptPushData (Some (drop n1 (the b1))) ?pk = (b2, n2)" by fastforce
  have sp: "take (n1 + n2) (take n1 (the b1) @ the b2) = spend_script ?sig ?pk"
    using push_two [OF _ assms(6) p1 p2] assms(5) by (simp add: spend_script_def)
  obtain x where x: "BRTxInputSetSignature (inputs tx ! i) (Some (spend_script ?sig ?pk)) = Some x"
    "in_core x = (in_core (inputs tx ! i))\<lparr>in_signature := Some (spend_script ?sig ?pk)\<rparr>" using set_signature_core by blast
  have "take (length (pkh_address h)) (put 0 (pkh_address h @ [0]) no_address) = pkh_address h" by (simp add: put_def)
  then have "sign_input ops keys i tx = Some (tx\<lparr>inputs := (inputs tx)[i := x]\<rparr>)"
    using j x(1) sp p1 p2 assms(1,3)
    by (simp add: sign_input_def Let_def pkh_address_of_script [OF assms(2)] e t filled_sighash hash_type_bits)
  with x(2) show ?thesis by blast
qed

lemma sign_input_foreign:
  assumes "\<And>a. script_address (inputs tx ! i) = Some a \<Longrightarrow> a \<notin> set (map (keyAddress ops) keys)"
  shows "sign_input ops keys i tx = Some tx"
proof -
  obtain b n where a: "BRAddressFromScriptPubKey (Some no_address) (ptr_bytes (in_script (inputs tx ! i))) = Some (Some b, n)"
    using address_total by blast
  have "find_key as x j = j + length as" if "x \<notin> set as" for as :: "bytes list" and x j
    using that by (induction as arbitrary: j) auto
  with assms a show ?thesis by (simp add: sign_input_def Let_def script_address_def split: if_splits)
qed

lemma sign_inputs_append: "sign_inputs ops keys (xs @ ys) tx = sign_inputs ops keys xs tx \<bind> sign_inputs ops keys ys"
  by (induction xs arbitrary: tx) (auto split: bind_splits)

definition pkh_signed :: "'k key_ops \<Rightarrow> 'k list \<Rightarrow> BRTransaction \<Rightarrow> nat \<Rightarrow> BRTxInput \<Rightarrow> bool" where
  "pkh_signed ops keys tx i x \<longleftrightarrow> (\<exists>k \<in> set keys. \<exists>h. pays_to_pkh (ptr_bytes (in_script (inputs tx ! i))) h \<and>
     keyAddress ops k = pkh_address h \<and> in_core x = (in_core (inputs tx ! i))\<lparr>in_signature :=
       Some (spend_script (keySign ops k (SHA256_2 (sighash_bytes tx i SIGHASH_ALL))) (keyPubKey ops k))\<rparr>)"

text \<open>The inputs that spend a public key hash of one of the keys, and what signing makes of each input.\<close>

definition spends_key :: "'k key_ops \<Rightarrow> 'k list \<Rightarrow> BRTxInput \<Rightarrow> bool" where
  "spends_key ops keys inp \<longleftrightarrow>
     (\<exists>h. pays_to_pkh (ptr_bytes (in_script inp)) h \<and> pkh_address h \<in> set (map (keyAddress ops) keys))"

definition after_signing :: "'k key_ops \<Rightarrow> 'k list \<Rightarrow> BRTransaction \<Rightarrow> nat \<Rightarrow> BRTxInput \<Rightarrow> bool" where
  "after_signing ops keys tx i x \<longleftrightarrow>
     (if spends_key ops keys (inputs tx ! i) then pkh_signed ops keys tx i x else x = inputs tx ! i)"

lemma core_unsigned:
  assumes "in_core x = (in_core y)\<lparr>in_signature := s\<rparr>"
  shows "x\<lparr>in_signature := None, in_amount := 0, in_address := []\<rparr> = y\<lparr>in_signature := None, in_amount := 0, in_address := []\<rparr>"
  using assms by (cases x; cases y) (simp add: in_core_def)

lemma after_signing_unsigned:
  assumes "after_signing ops keys tx i x"
  shows "x\<lparr>in_signature := None, in_amount := 0, in_address := []\<rparr> =
     (inputs tx ! i)\<lparr>in_signature := None, in_amount := 0, in_address := []\<rparr>"
proof (cases "spends_key ops keys (inputs tx ! i)")
  case True
  then obtain s where "in_core x = (in_core (inputs tx ! i))\<lparr>in_signature := s\<rparr>"
    using assms by (auto simp: after_signing_def pkh_signed_def)
  from core_unsigned [OF this] show ?thesis .
qed (use assms in \<open>simp add: after_signing_def\<close>)

lemma sign_step:
  assumes ready: "\<And>a. script_address (inputs tx ! n) = Some a \<Longrightarrow> a \<in> set (map (keyAddress ops) keys) \<Longrightarrow>
      \<exists>h. pays_to_pkh (ptr_bytes (in_script (inputs tx ! n))) h"
    and key: "\<And>k d. length (keySign ops k d) \<le> 72" "\<And>k. length (keyPubKey ops k) < 0x4c"
    and n: "n < length (inputs tx)" and ins: "length ins = length (inputs tx)" "ins ! n = inputs tx ! n"
    and before: "\<And>i. i < length ins \<Longrightarrow> if i < n then after_signing ops keys tx i (ins ! i) else ins ! i = inputs tx ! i"
  shows "\<exists>x. sign_input ops keys n (tx\<lparr>inputs := ins\<rparr>) = Some (tx\<lparr>inputs := ins[n := x]\<rparr>) \<and> after_signing ops keys tx n x"
proof (cases "spends_key ops keys (inputs tx ! n)")
  case True
  then obtain h where h: "pays_to_pkh (ptr_bytes (in_script (inputs tx ! n))) h"
    "pkh_address h \<in> set (map (keyAddress ops) keys)" by (auto simp: spends_key_def)
  define k where "k = keys ! find_key (map (keyAddress ops) keys) (pkh_address h) 0"
  have k: "k \<in> set keys" "keyAddress ops k = pkh_address h"
    using find_key_nth [OF h(2), of 0] by (auto simp: k_def)
  have "map (\<lambda>x. x\<lparr>in_signature := None, in_amount := 0, in_address := []\<rparr>) (inputs tx) =
      map (\<lambda>x. x\<lparr>in_signature := None, in_amount := 0, in_address := []\<rparr>) ins"
  proof (rule nth_equalityI)
    fix i assume "i < length (map (\<lambda>x. x\<lparr>in_signature := None, in_amount := 0, in_address := []\<rparr>) (inputs tx))"
    then have i: "i < length ins" "i < length (inputs tx)" using ins(1) by simp_all
    then show "map (\<lambda>x. x\<lparr>in_signature := None, in_amount := 0, in_address := []\<rparr>) (inputs tx) ! i =
        map (\<lambda>x. x\<lparr>in_signature := None, in_amount := 0, in_address := []\<rparr>) ins ! i"
      using before [OF i(1)] after_signing_unsigned [of ops keys tx i "ins ! i"] by (simp split: if_splits)
  qed (simp add: ins(1))
  then have "sighash_bytes (tx\<lparr>inputs := ins\<rparr>) n SIGHASH_ALL = sighash_bytes tx n SIGHASH_ALL" using n by (rule sighash_bytes_core)
  then obtain x where x: "sign_input ops keys n (tx\<lparr>inputs := ins\<rparr>) = Some (tx\<lparr>inputs := ins[n := x]\<rparr>)"
    "in_core x = (in_core (inputs tx ! n))\<lparr>in_signature :=
       Some (spend_script (keySign ops k (SHA256_2 (sighash_bytes tx n SIGHASH_ALL))) (keyPubKey ops k))\<rparr>"
    using sign_input_pkh [of n "tx\<lparr>inputs := ins\<rparr>" h k keys ops] n ins h key k_def by auto
  have "pkh_signed ops keys tx n x" using k h(1) x(2) by (auto simp: pkh_signed_def)
  with x(1) True show ?thesis by (auto simp: after_signing_def)
next
  case False
  have "a \<notin> set (map (keyAddress ops) keys)" if a: "script_address (inputs tx ! n) = Some a" for a
  proof
    assume m: "a \<in> set (map (keyAddress ops) keys)"
    then obtain h where h: "pays_to_pkh (ptr_bytes (in_script (inputs tx ! n))) h" using ready [OF a] by blast
    have "a = pkh_address h" using a by (simp add: script_address_def pkh_address_of_script [OF h] put_def)
    with m h False show False by (auto simp: spends_key_def)
  qed
  then have "sign_input ops keys n (tx\<lparr>inputs := ins\<rparr>) = Some (tx\<lparr>inputs := ins\<rparr>)"
    by (intro sign_input_foreign) (simp add: ins(2))
  moreover have "ins[n := inputs tx ! n] = ins" using ins(2) by (metis list_update_id)
  ultimately show ?thesis using False by (intro exI [of _ "inputs tx ! n"]) (simp add: after_signing_def)
qed

lemma sign_inputs_all:
  assumes ready: "\<And>inp a. inp \<in> set (inputs tx) \<Longrightarrow> script_address inp = Some a \<Longrightarrow> a \<in> set (map (keyAddress ops) keys) \<Longrightarrow>
      \<exists>h. pays_to_pkh (ptr_bytes (in_script inp)) h"
    and key: "\<And>k d. length (keySign ops k d) \<le> 72" "\<And>k. length (keyPubKey ops k) < 0x4c"
  shows "n \<le> length (inputs tx) \<Longrightarrow> \<exists>ins. sign_inputs ops keys [0..<n] tx = Some (tx\<lparr>inputs := ins\<rparr>) \<and>
     length ins = length (inputs tx) \<and>
     (\<forall>i < length ins. if i < n then after_signing ops keys tx i (ins ! i) else ins ! i = inputs tx ! i)"
proof (induction n)
  case 0
  then show ?case by (intro exI [of _ "inputs tx"]) simp
next
  case (Suc n)
  then obtain ins where ins: "sign_inputs ops keys [0..<n] tx = Some (tx\<lparr>inputs := ins\<rparr>)" "length ins = length (inputs tx)"
    "\<And>i. i < length ins \<Longrightarrow> if i < n then after_signing ops keys tx i (ins ! i) else ins ! i = inputs tx ! i" by auto
  have n: "n < length (inputs tx)" using Suc.prems by simp
  then have nth: "ins ! n = inputs tx ! n" using ins(2) ins(3) [of n] by simp
  obtain x where x: "sign_input ops keys n (tx\<lparr>inputs := ins\<rparr>) = Some (tx\<lparr>inputs := ins[n := x]\<rparr>)"
    "after_signing ops keys tx n x"
    using sign_step [OF ready [of "inputs tx ! n"] key n ins(2) nth ins(3)] n by auto
  have "sign_inputs ops keys [0..<Suc n] tx = Some (tx\<lparr>inputs := ins[n := x]\<rparr>)"
    using ins(1) x(1) by (simp add: sign_inputs_append)
  moreover have "if i < Suc n then after_signing ops keys tx i (ins[n := x] ! i) else ins[n := x] ! i = inputs tx ! i"
    if "i < length (ins[n := x])" for i
    using that ins(3) [of i] x(2) by (cases "i = n") (auto simp: less_Suc_eq split: if_splits)
  ultimately show ?case using ins(2) by (intro exI [of _ "ins[n := x]"] conjI allI impI) (simp_all only: length_list_update)
qed

lemma sign_all:
  assumes "\<forall>inp \<in> set (inputs tx). \<forall>a. script_address inp = Some a \<and> a \<in> set (map (keyAddress ops) keys) \<longrightarrow>
      (\<exists>h. pays_to_pkh (ptr_bytes (in_script inp)) h)"
    and "\<forall>k d. length (keySign ops k d) \<le> 72 \<and> length (keyPubKey ops k) < 0x4c"
  shows "\<exists>tx'. BRTransactionSign ops tx keys = Some (tx', \<forall>x \<in> set (inputs tx'). in_signature x \<noteq> None) \<and>
     length (inputs tx') = length (inputs tx) \<and>
     (\<forall>i < length (inputs tx). after_signing ops keys tx i (inputs tx' ! i)) \<and>
     txHash tx' = (if \<forall>x \<in> set (inputs tx'). in_signature x \<noteq> None then UInt256Get (SHA256_2 (tx_bytes tx')) else txHash tx) \<and>
     tx' = tx\<lparr>txHash := txHash tx', inputs := inputs tx'\<rparr>"
proof -
  obtain ins where ins: "sign_inputs ops keys [0..<length (inputs tx)] tx = Some (tx\<lparr>inputs := ins\<rparr>)"
    "length ins = length (inputs tx)"
    "\<forall>i < length ins. if i < length (inputs tx) then after_signing ops keys tx i (ins ! i) else ins ! i = inputs tx ! i"
    using sign_inputs_all [of tx ops keys "length (inputs tx)"] assms by blast
  have "BRTransactionIsSigned (tx\<lparr>inputs := ins\<rparr>) \<longleftrightarrow> (\<forall>x \<in> set ins. in_signature x \<noteq> None)"
    by (simp add: BRTransactionIsSigned_def list_all_iff)
  moreover have "tx_bytes (t\<lparr>txHash := x\<rparr>) = tx_bytes t" for t x by (simp add: tx_bytes_def)
  ultimately show ?thesis using ins by (auto simp: BRTransactionSign_def filled_whole)
qed

lemma sign_all_pkh:
  assumes "\<forall>i < length (inputs tx). \<exists>h. length h = 20 \<and> in_script (inputs tx ! i) = Some (p2pkh_script h) \<and>
      pkh_address h \<in> set (map (keyAddress ops) keys)"
    and "\<forall>k d. length (keySign ops k d) \<le> 72 \<and> length (keyPubKey ops k) < 0x4c"
  shows "\<exists>tx'. BRTransactionSign ops tx keys = Some (tx', True) \<and> length (inputs tx') = length (inputs tx) \<and>
     (\<forall>i < length (inputs tx). pkh_signed ops keys tx i (inputs tx' ! i)) \<and>
     txHash tx' = UInt256Get (SHA256_2 (tx_bytes tx')) \<and> tx' = tx\<lparr>txHash := txHash tx', inputs := inputs tx'\<rparr>"
proof -
  have own: "spends_key ops keys (inputs tx ! i)" if "i < length (inputs tx)" for i
    using assms(1) that p2pkh_pays by (fastforce simp: spends_key_def ptr_bytes_def)
  then have "\<forall>inp \<in> set (inputs tx). \<forall>a. script_address inp = Some a \<and> a \<in> set (map (keyAddress ops) keys) \<longrightarrow>
      (\<exists>h. pays_to_pkh (ptr_bytes (in_script inp)) h)"
    unfolding spends_key_def by (metis in_set_conv_nth)
  from sign_all [OF this assms(2)] obtain tx' where t:
    "BRTransactionSign ops tx keys = Some (tx', \<forall>x \<in> set (inputs tx'). in_signature x \<noteq> None)"
    "length (inputs tx') = length (inputs tx)"
    "\<And>i. i < length (inputs tx) \<Longrightarrow> after_signing ops keys tx i (inputs tx' ! i)"
    "txHash tx' = (if \<forall>x \<in> set (inputs tx'). in_signature x \<noteq> None then UInt256Get (SHA256_2 (tx_bytes tx')) else txHash tx)"
    "tx' = tx\<lparr>txHash := txHash tx', inputs := inputs tx'\<rparr>" by blast
  have s: "pkh_signed ops keys tx i (inputs tx' ! i)" if "i < length (inputs tx)" for i
    using t(3) [OF that] own [OF that] by (simp add: after_signing_def)
  have "in_signature (inputs tx' ! i) \<noteq> None" if i: "i < length (inputs tx)" for i
  proof -
    obtain g where "in_core (inputs tx' ! i) = (in_core (inputs tx ! i))\<lparr>in_signature := Some g\<rparr>"
      using s [OF i] by (auto simp: pkh_signed_def)
    from arg_cong [OF this, of in_signature] show ?thesis by (simp add: in_core_def)
  qed
  then have "\<forall>x \<in> set (inputs tx'). in_signature x \<noteq> None" using t(2) by (metis in_set_conv_nth)
  then show ?thesis using t(1,2,4,5) s by auto
qed

text \<open>C14: signing.  When every input whose address is the address of one of the keys pays to a public key hash, plain or with
  an asset, \<open>BRTransactionSign\<close> returns; each of these inputs, wherever it stands among inputs of others, gets the signature
  of a matching key over the signature hash of the transaction for hash type ALL, the hash type and the public key of that key,
  and nothing else of it changes; every other input stays as it is.  The result is true exactly when every input has a
  signature afterwards, and then the transaction hash is the double SHA-256 of the signed serialisation; otherwise the hash
  is kept.\<close>

theorem tx_sign:
  assumes "\<forall>inp \<in> set (inputs tx). \<forall>a. script_address inp = Some a \<and> a \<in> set (map (keyAddress ops) keys) \<longrightarrow>
      (\<exists>h. pays_to_pkh (ptr_bytes (in_script inp)) h)"
    and "\<forall>k d. length (keySign ops k d) \<le> 72 \<and> length (keyPubKey ops k) < 0x4c"
  shows "\<exists>tx'. BRTransactionSign ops tx keys = Some (tx', \<forall>x \<in> set (inputs tx'). in_signature x \<noteq> None) \<and>
     length (inputs tx') = length (inputs tx) \<and>
     (\<forall>i < length (inputs tx). if spends_key ops keys (inputs tx ! i)
        then pkh_signed ops keys tx i (inputs tx' ! i) else inputs tx' ! i = inputs tx ! i) \<and>
     txHash tx' = (if \<forall>x \<in> set (inputs tx'). in_signature x \<noteq> None then UInt256Get (SHA256_2 (tx_bytes tx')) else txHash tx) \<and>
     tx' = tx\<lparr>txHash := txHash tx', inputs := inputs tx'\<rparr>"
  using sign_all [OF assms] unfolding after_signing_def .

text \<open>Signing a pay-to-pubkey output of one of the keys reads the array of script elements before its start: the
  test for a pay-to-pubkey-hash script looks at the fifth element from the end without checking that there are five.\<close>

theorem tx_sign_pubkey_output:
  assumes "length pk = 33" "i < length (inputs tx)" "in_script (inputs tx ! i) = Some (33 # pk @ [OP_CHECKSIG])"
    and "pkh_address (Hash160 pk) \<in> set (map (keyAddress ops) keys)"
  shows "sign_input ops keys i tx = None"
proof -
  let ?s = "33 # pk @ [OP_CHECKSIG]" and ?a = "pkh_address (Hash160 pk)"
  have "script_elements ?s 0 0 = ([0, 34], 35)"
    using assms(1) by (simp add: elements_step script_advance_def opcode_defs Let_def nth_append script_elements_stop)
  then have e: "BRScriptElements None ?s = ([], 2)" "BRScriptElements (Some 2) ?s = ([0, 34], 2)"
    using assms(1) by (simp_all add: BRScriptElements_def Let_def)
  have d: "BRScriptData ?s 0 = Some (Some 1, 33)" "rd_slice ?s 1 33 = Some pk" "?s ! 34 = OP_CHECKSIG"
    using assms(1) by (simp_all add: BRScriptData_def rd_def opcode_defs rd_slice_def slice_def nth_append)
  have "length ?a \<le> 35"
    using length_base58_string_le [of "(60 # Hash160 pk) @ take 4 (SHA256_2 (60 # Hash160 pk))"] by (simp add: pkh_address_def)
  then have "BRBase58CheckEncode (Some no_address) (60 # Hash160 pk) = (Some (put 0 (?a @ [0]) no_address), length ?a + 1)"
    by (simp add: BRBase58CheckEncode_eq BRBase58Encode_eq no_address_facts pkh_address_def)
  then have a: "BRAddressFromScriptPubKey (Some no_address) ?s = Some (Some (put 0 (?a @ [0]) no_address), length ?a + 1)"
    using assms(1) d by (simp add: BRAddressFromScriptPubKey_def e MAX_SCRIPT_LENGTH_def RAVENCOIN_PUBKEY_ADDRESS_def)
  have "take (length ?a) (put 0 (?a @ [0]) no_address) = ?a" by (simp add: put_def)
  moreover have "find_key (map (keyAddress ops) keys) ?a 0 < length keys" using find_key_nth [OF assms(4), of 0] by simp
  moreover have "sign_pkh_test ?s [0, 34] 2 = None" by (simp add: sign_pkh_test_def opcode_defs)
  ultimately show ?thesis using assms(3) a e by (simp add: sign_input_def Let_def ptr_bytes_def)
qed

text \<open>A key whose address, public key and signature are fixed byte strings.\<close>

definition sample_hash :: bytes where "sample_hash = replicate 20 1"
definition sample_pubkey :: bytes where "sample_pubkey = replicate 33 2"

lemma length_samples: "length sample_hash = 20" "length sample_pubkey = 33"
  by (simp_all only: sample_hash_def sample_pubkey_def length_replicate)

definition sample_key :: "bytes \<Rightarrow> Product_Type.unit key_ops" where
  "sample_key h = \<lparr>keyAddress = (\<lambda>_. pkh_address h), keyPubKey = (\<lambda>_. [2, 3]), keySign = (\<lambda>_ _. [4, 5, 6])\<rparr>"

theorem tx_sign_witness:
  "\<exists>tx'. BRTransactionSign (sample_key sample_hash)
     (BRTransactionNew\<lparr>inputs := [zero_input, zero_input\<lparr>in_script := Some (p2pkh_script sample_hash)\<rparr>]\<rparr>) [()] = Some (tx', False) \<and>
     inputs tx' ! 0 = zero_input \<and> in_signature (inputs tx' ! 1) \<noteq> None"
proof -
  let ?own = "zero_input\<lparr>in_script := Some (p2pkh_script sample_hash)\<rparr>"
  let ?tx = "BRTransactionNew\<lparr>inputs := [zero_input, ?own]\<rparr>" and ?ops = "sample_key sample_hash"
  have own: "spends_key ?ops [()] ?own"
    using p2pkh_pays [OF length_samples(1)] by (auto simp: spends_key_def sample_key_def ptr_bytes_def)
  have z: "ptr_bytes (in_script zero_input) = []" by (simp add: zero_input_def ptr_bytes_def)
  then have foreign: "script_address zero_input = None" "\<not> spends_key ?ops [()] zero_input"
    by (simp_all add: script_address_def BRAddressFromScriptPubKey_def spends_key_def pays_to_pkh_def p2pkh_script_def)
  have "\<forall>inp \<in> set (inputs ?tx). \<forall>a. script_address inp = Some a \<and> a \<in> set (map (keyAddress ?ops) [()]) \<longrightarrow>
      (\<exists>h. pays_to_pkh (ptr_bytes (in_script inp)) h)"
    using own foreign(1) by (auto simp: spends_key_def)
  moreover have "\<forall>k d. length (keySign ?ops k d) \<le> 72 \<and> length (keyPubKey ?ops k) < 0x4c"
    by (simp add: sample_key_def)
  ultimately obtain tx' where t: "BRTransactionSign ?ops ?tx [()] = Some (tx', \<forall>x \<in> set (inputs tx'). in_signature x \<noteq> None)"
    "length (inputs tx') = 2" "\<forall>i < 2. if spends_key ?ops [()] (inputs ?tx ! i)
       then pkh_signed ?ops [()] ?tx i (inputs tx' ! i) else inputs tx' ! i = inputs ?tx ! i"
    using tx_sign [of ?tx ?ops "[()]"] by auto
  have i: "inputs tx' ! 0 = zero_input" "pkh_signed ?ops [()] ?tx 1 (inputs tx' ! 1)"
    using t(3) [rule_format, of 0] t(3) [rule_format, of 1] own foreign by simp_all
  then obtain g where "in_core (inputs tx' ! 1) = (in_core ?own)\<lparr>in_signature := Some g\<rparr>" by (auto simp: pkh_signed_def)
  from arg_cong [OF this, of in_signature] have "in_signature (inputs tx' ! 1) \<noteq> None" by (simp add: in_core_def)
  moreover have "zero_input \<in> set (inputs tx')" "in_signature zero_input = None"
    using t(2) i(1) by (metis nth_mem zero_less_numeral) (simp add: zero_input_def)
  ultimately show ?thesis using t(1) i(1) by auto
qed

theorem tx_sign_pubkey_output_witness:
  "sign_input (sample_key (Hash160 sample_pubkey)) [()] 0
     (BRTransactionNew\<lparr>inputs := [zero_input\<lparr>in_script := Some (33 # sample_pubkey @ [OP_CHECKSIG])\<rparr>]\<rparr>) = None"
  by (rule tx_sign_pubkey_output [OF length_samples(2)]) (simp_all add: sample_key_def)

end
