(* ===== verification/Reader.thy ===== *)
theory Reader
  imports BRAddress
begin

text \<open>
  Reading a message at an offset, as the parsers of transactions and blocks do.  The offset is a \<open>size_t\<close> that is moved by lengths from the
  message and so wraps modulo \<open>2\<^sup>64\<close>; fixed fields are read under the guard \<open>off + n <= bufLen\<close> and are zero otherwise.  The predicate
  \<open>at\<close> says which bytes are in front of the offset; its lemmas let a parser step through a serialised structure.
\<close>

definition adv :: "nat \<Rightarrow> nat \<Rightarrow> nat" where
  "adv off n = (off + n) mod 2 ^ 64"

text \<open>A read that the code guards by \<open>off + n <= bufLen\<close>.\<close>

definition guarded :: "nat \<Rightarrow> (bytes \<Rightarrow> 'a) \<Rightarrow> 'a \<Rightarrow> bytes \<Rightarrow> nat \<Rightarrow> 'a option" where
  "guarded n get d buf off = (if adv off n \<le> length buf then map_option get (rd_slice buf off n) else Some d)"

text \<open>The offset is inside the buffer and the bytes from it on are \<open>xs\<close>.\<close>

definition at :: "bytes \<Rightarrow> nat \<Rightarrow> bytes \<Rightarrow> bool" where
  "at buf off xs \<longleftrightarrow> length buf < 2 ^ 63 \<and> off \<le> length buf \<and> drop off buf = xs"

lemma at_fits: "at buf off (xs @ ys) \<Longrightarrow> off + length xs \<le> length buf \<and> length buf < 2 ^ 63"
  unfolding at_def by (metis add.commute le_diff_conv2 length_append length_drop le_add1)

lemma at_adv:
  assumes "at buf off (xs @ ys)" "n = length xs"
  shows "adv off n = off + n" "at buf (adv off n) ys" "adv off n \<le> length buf"
proof -
  have le: "off + n \<le> length buf" "length buf < 2 ^ 63" using at_fits [OF assms(1)] assms(2) by auto
  then show eq: "adv off n = off + n" by (simp add: adv_def)
  have "drop (off + n) buf = drop n (xs @ ys)" using assms(1) by (simp add: at_def add.commute flip: drop_drop)
  then show "at buf (adv off n) ys" using assms le eq by (simp add: at_def)
  show "adv off n \<le> length buf" using le eq by simp
qed

lemma at_slice:
  assumes "at buf off (xs @ ys)" "n = length xs"
  shows "rd_slice buf off n = Some xs"
  using assms at_fits [OF assms(1)] by (simp add: rd_slice_def slice_def at_def)

lemma at_guarded: "at buf off (xs @ ys) \<Longrightarrow> n = length xs \<Longrightarrow> guarded n get d buf off = Some (get xs)"
  by (simp add: guarded_def at_adv(3) at_slice)

lemma at_drop: "at buf off xs \<Longrightarrow> drop off buf = xs" "at buf off xs \<Longrightarrow> off \<le> length buf"
  by (simp_all add: at_def)

lemma at_varint: "at buf off (varint v @ ys) \<Longrightarrow> BRVarInt (drop off buf) = (v, length (varint v))"
  by (simp add: at_drop BRVarInt_varint)

lemma get_set:
  "UInt32GetLE (UInt32SetLE a) = a" "UInt64GetLE (UInt64SetLE b) = b" "UInt256Get (UInt256Set c) = c"
  using UInt32GetLE_SetLE [of a "[]"] UInt64GetLE_SetLE [of b "[]"] UInt256Get_Set [of c "[]"] by simp_all

lemma at_length: "at buf off (xs @ bs @ ys) \<Longrightarrow> unat (word_of_nat (length bs) :: u64) = length bs"
  by (rule unat_word_of_nat_less) (use at_fits [of buf off "xs @ bs" ys] in simp)

lemma at_take: "at (xs @ ys) off ys \<Longrightarrow> take off (xs @ ys) = xs"
  by (metis append_same_eq append_take_drop_id at_def)

end
