(* ===== verification/BRTransactionParse.thy ===== *)
theory BRTransactionParse
  imports BRTransaction Reader
begin

text \<open>
  \<open>BRTransactionParse\<close>, the splitting of asset transactions in \<open>BRTransaction.c\<close>, and the checks of \<open>BRAssets.c\<close> on whole
  transactions.  The offset of the parser is a \<open>size_t\<close> and wraps, because it is moved by lengths read from the
  buffer.  The outer \<open>None\<close> of a result is undefined behaviour, the inner one the \<open>NULL\<close> result.
\<close>

section \<open>Parsing\<close>

definition ASSET_ACTIVATION :: u32 where "ASSET_ACTIVATION = 435456"

text \<open>One input: the input, the new offset and whether it was read as signed.\<close>

definition parse_input :: "bytes \<Rightarrow> nat \<Rightarrow> (BRTxInput \<times> nat \<times> bool) option" where
  "parse_input buf off = do {
     h \<leftarrow> guarded 32 UInt256Get UINT256_ZERO buf off;
     let off = adv off 32;
     i \<leftarrow> guarded 4 UInt32GetLE 0 buf off;
     let off = adv off 4;
     let (sLen, len) = BRVarInt (drop off buf);
     let sLen = unat sLen;
     let off = adv off len;
     let input = zero_input\<lparr>in_txHash := h, in_index := i\<rparr>;
     (input, off, sg) \<leftarrow>
       (if adv off sLen \<le> length buf then do {
          s \<leftarrow> rd_slice buf off sLen;
          (_, n) \<leftarrow> BRAddressFromScriptPubKey None s;
          if n > 0 then do {
            input \<leftarrow> BRTxInputSetScript input (Some s);
            amt \<leftarrow> guarded 8 UInt64GetLE 0 buf (adv off sLen);
            Some (input\<lparr>in_amount := amt\<rparr>, adv off 8, False)
          } else do {
            input \<leftarrow> BRTxInputSetSignature input (Some s);
            Some (input, off, True)
          }
        } else Some (input, off, True));
     let off = adv off sLen;
     q \<leftarrow> guarded 4 UInt32GetLE 0 buf off;
     Some (input\<lparr>in_sequence := q\<rparr>, adv off 4, sg)
   }"

text \<open>The loops stop early when the offset leaves the buffer; the remaining array elements stay zero.\<close>

fun parse_inputs :: "nat \<Rightarrow> bytes \<Rightarrow> nat \<Rightarrow> (BRTxInput list \<times> nat \<times> bool) option" where
  "parse_inputs 0 buf off = Some ([], off, True)"
| "parse_inputs (Suc n) buf off =
     (if off \<le> length buf then do {
        (input, off, sg) \<leftarrow> parse_input buf off;
        (ins, off, sgs) \<leftarrow> parse_inputs n buf off;
        Some (input # ins, off, sg \<and> sgs)
      } else Some (replicate (Suc n) zero_input, off, True))"

definition parse_output :: "bytes \<Rightarrow> nat \<Rightarrow> (BRTxOutput \<times> nat) option" where
  "parse_output buf off = do {
     amt \<leftarrow> guarded 8 UInt64GetLE 0 buf off;
     let off = adv off 8;
     let (sLen, len) = BRVarInt (drop off buf);
     let sLen = unat sLen;
     let off = adv off len;
     let output = TX_OUTPUT_NONE\<lparr>out_amount := amt\<rparr>;
     output \<leftarrow> (if adv off sLen \<le> length buf
                then do { s \<leftarrow> rd_slice buf off sLen; BRTxOutputSetScript output (Some s) }
                else Some output);
     Some (output, adv off sLen)
   }"

text \<open>The outputs that the loop parsed, the ones it left zero, and the offset.\<close>

fun parse_outputs :: "nat \<Rightarrow> bytes \<Rightarrow> nat \<Rightarrow> (BRTxOutput list \<times> nat \<times> nat) option" where
  "parse_outputs 0 buf off = Some ([], 0, off)"
| "parse_outputs (Suc n) buf off =
     (if off \<le> length buf then do {
        (output, off) \<leftarrow> parse_output buf off;
        (outs, k, off) \<leftarrow> parse_outputs n buf off;
        Some (output # outs, k, off)
      } else Some ([], Suc n, off))"

definition has_asset :: "BRTxOutput \<Rightarrow> bool" where
  "has_asset output = IsScriptAsset (ptr_bytes (out_script output))"

text \<open>The second loop over the outputs, with \<open>left\<close> assets still to be read.  It looks at the script of the output of the
  previous turn (at the start: the last output that was parsed) before it takes the next output.\<close>

fun parse_assets :: "BRTxOutput list \<Rightarrow> BRTxOutput \<Rightarrow> nat \<Rightarrow> BRAsset list option" where
  "parse_assets [] prev left = Some (replicate left NewAsset)"
| "parse_assets (out # outs) prev left =
     (if left = 0 then Some []
      else if ptr_bytes (out_script prev) = [] then parse_assets outs prev left
      else if has_asset out then do {
        (_, a) \<leftarrow> GetAssetData (ptr_bytes (out_script out)) NewAsset;
        as \<leftarrow> parse_assets outs out (left - 1);
        Some (a # as)
      } else parse_assets outs out left)"

text \<open>\<open>array_set_count\<close> to a larger count allocates \<open>count * size + 16\<close> bytes; when that wraps the array is too small.\<close>

definition array_fits :: "nat \<Rightarrow> nat \<Rightarrow> nat \<Rightarrow> bool" where
  "array_fits capacity sz cnt \<longleftrightarrow> cnt \<le> capacity \<or> cnt * sz + 16 < 2 ^ 64"

definition BRTransactionParse :: "bytes option \<Rightarrow> BRTransaction option option" where
  "BRTransactionParse buf = (case buf of None \<Rightarrow> Some None
   | Some buf \<Rightarrow> do {
     let tx = BRTransactionNew;
     ver \<leftarrow> guarded 4 UInt32GetLE 0 buf 0;
     let off = 4;
     let (inCount, len) = BRVarInt (drop off buf);
     let inCount = unat inCount;
     let off = adv off len;
     _ \<leftarrow> (if array_fits 1 120 inCount then Some () else None);
     (ins, off, isSigned) \<leftarrow> parse_inputs inCount buf off;
     let (outCount, len) = BRVarInt (drop off buf);
     let outCount = unat outCount;
     let off = adv off len;
     _ \<leftarrow> (if array_fits 2 64 outCount then Some () else None);
     (outs, k, off) \<leftarrow> parse_outputs outCount buf off;
     let allOuts = outs @ replicate k TX_OUTPUT_NONE;
     let count = (if blockHeight tx \<ge> ASSET_ACTIVATION then length (filter has_asset outs) else 0);
     assets \<leftarrow> (if blockHeight tx \<ge> ASSET_ACTIVATION \<and> count > 0 then parse_assets allOuts (last outs) count else Some []);
     lock \<leftarrow> guarded 4 UInt32GetLE 0 buf off;
     let off = adv off 4;
     let tx = tx\<lparr>version := ver, inputs := ins, outputs := allOuts, lockTime := lock, tx_asset := assets, asstCount := count\<rparr>;
     Some (if inCount = 0 \<or> off > length buf then None
           else if isSigned then Some (tx\<lparr>txHash := UInt256Get (SHA256_2 (take off buf))\<rparr>)
           else Some tx)
   })"

section \<open>The parser reads what the serialiser writes\<close>

text \<open>A script signature that the parser does not take for the output script of an unsigned input.\<close>

definition parses_as_signature :: "bytes \<Rightarrow> bool" where
  "parses_as_signature sig \<longleftrightarrow> BRAddressFromScriptPubKey None sig = Some (None, 0)"

lemma parse_input_at:
  assumes "at buf off (input_bytes (inp\<lparr>in_amount := 0\<rparr>) @ ys)" "in_signature inp = Some sig" "parses_as_signature sig"
  shows "\<exists>x off'. parse_input buf off = Some (x, off', True) \<and> at buf off' ys \<and>
     in_core x = in_core (inp\<lparr>in_amount := 0, in_script := None\<rparr>)"
proof -
  let ?v = "word_of_nat (length sig) :: u64"
  have a0: "at buf off (UInt256Set (in_txHash inp) @ UInt32SetLE (in_index inp) @ varint ?v @ sig @ UInt32SetLE (in_sequence inp) @ ys)"
    using assms(1,2) by (simp add: input_bytes_def ptr_bytes_def)
  define o1 where "o1 = adv off 32"
  have a1: "at buf o1 (UInt32SetLE (in_index inp) @ varint ?v @ sig @ UInt32SetLE (in_sequence inp) @ ys)"
    unfolding o1_def by (rule at_adv [OF a0]) simp
  define o2 where "o2 = adv o1 4"
  have a2: "at buf o2 (varint ?v @ sig @ UInt32SetLE (in_sequence inp) @ ys)"
    unfolding o2_def by (rule at_adv [OF a1]) simp
  define o3 where "o3 = adv o2 (length (varint ?v))"
  have a3: "at buf o3 (sig @ UInt32SetLE (in_sequence inp) @ ys)" unfolding o3_def by (rule at_adv [OF a2]) simp
  define o4 where "o4 = adv o3 (length sig)"
  have a4: "at buf o4 (UInt32SetLE (in_sequence inp) @ ys)" unfolding o4_def by (rule at_adv [OF a3]) simp
  define o5 where "o5 = adv o4 4"
  have a5: "at buf o5 ys" unfolding o5_def by (rule at_adv [OF a4]) simp
  have len: "unat ?v = length sig" by (rule at_length [OF a2])
  let ?i = "zero_input\<lparr>in_txHash := in_txHash inp, in_index := in_index inp\<rparr>"
  obtain x where x: "BRTxInputSetSignature ?i (Some sig) = Some x" "in_core x = in_core ?i\<lparr>in_signature := Some sig\<rparr>"
    using set_signature_core by blast
  have "parse_input buf off = Some (x\<lparr>in_sequence := in_sequence inp\<rparr>, o5, True)"
    using at_adv(3) [OF a3 refl]
    by (simp add: parse_input_def Let_def at_guarded [OF a0] at_guarded [OF a1, folded o1_def] at_guarded [OF a4]
        get_set o1_def [symmetric] o2_def [symmetric] at_varint [OF a2] o3_def [symmetric] len o4_def [symmetric]
        o5_def [symmetric] at_slice [OF a3] x(1) assms(3)[unfolded parses_as_signature_def])
  moreover have "in_core (x\<lparr>in_sequence := in_sequence inp\<rparr>) = in_core (inp\<lparr>in_amount := 0, in_script := None\<rparr>)"
    using x(2) assms(2) by (cases x; cases inp) (simp add: in_core_def zero_input_def)
  ultimately show ?thesis using a5 by blast
qed

lemma parse_inputs_at:
  assumes "at buf off (concat (map input_bytes (map (in_amount_update (\<lambda>_. 0)) ins)) @ ys)"
    "\<forall>inp \<in> set ins. \<exists>sig. in_signature inp = Some sig \<and> parses_as_signature sig"
  shows "\<exists>xs off'. parse_inputs (length ins) buf off = Some (xs, off', True) \<and> at buf off' ys \<and>
     map in_core xs = map (\<lambda>inp. in_core (inp\<lparr>in_amount := 0, in_script := None\<rparr>)) ins"
  using assms
proof (induction ins arbitrary: off)
  case (Cons inp ins)
  obtain sig where sig: "in_signature inp = Some sig" "parses_as_signature sig" using Cons.prems(2) by auto
  have a: "at buf off (input_bytes (inp\<lparr>in_amount := 0\<rparr>) @ concat (map input_bytes (map (in_amount_update (\<lambda>_. 0)) ins)) @ ys)"
    using Cons.prems(1) by simp
  from parse_input_at [OF a sig] obtain x off1 where x: "parse_input buf off = Some (x, off1, True)"
    "at buf off1 (concat (map input_bytes (map (in_amount_update (\<lambda>_. 0)) ins)) @ ys)"
    "in_core x = in_core (inp\<lparr>in_amount := 0, in_script := None\<rparr>)" by blast
  from Cons.IH [OF x(2)] Cons.prems(2) obtain xs off' where "parse_inputs (length ins) buf off1 = Some (xs, off', True)"
    "at buf off' ys" "map in_core xs = map (\<lambda>inp. in_core (inp\<lparr>in_amount := 0, in_script := None\<rparr>)) ins" by auto
  then show ?case using x at_drop(2) [OF a] by simp
qed simp

lemma parse_output_at:
  assumes "at buf off (output_bytes out @ ys)" "out_script out = Some scr"
  shows "\<exists>x off'. parse_output buf off = Some (x, off') \<and> at buf off' ys \<and> out_core x = out_core out"
proof -
  let ?v = "word_of_nat (length scr) :: u64"
  have a0: "at buf off (UInt64SetLE (out_amount out) @ varint ?v @ scr @ ys)"
    using assms by (simp add: output_bytes_def ptr_bytes_def)
  define o1 where "o1 = adv off 8"
  have a1: "at buf o1 (varint ?v @ scr @ ys)" unfolding o1_def by (rule at_adv [OF a0]) simp
  define o2 where "o2 = adv o1 (length (varint ?v))"
  have a2: "at buf o2 (scr @ ys)" unfolding o2_def by (rule at_adv [OF a1]) simp
  define o3 where "o3 = adv o2 (length scr)"
  have a3: "at buf o3 ys" unfolding o3_def by (rule at_adv [OF a2]) simp
  have len: "unat ?v = length scr" by (rule at_length [OF a1])
  let ?o = "TX_OUTPUT_NONE\<lparr>out_amount := out_amount out\<rparr>"
  obtain x where x: "BRTxOutputSetScript ?o (Some scr) = Some x" "out_core x = out_core ?o\<lparr>out_script := Some scr\<rparr>"
    using set_output_script_core by blast
  have "parse_output buf off = Some (x, o3)"
    using at_adv(3) [OF a2 refl]
    by (simp add: parse_output_def Let_def at_guarded [OF a0] get_set o1_def [symmetric] at_varint [OF a1]
        o2_def [symmetric] len o3_def [symmetric] at_slice [OF a2] x(1))
  moreover have "out_core x = out_core out" using x(2) assms(2)
    by (cases x; cases out) (simp add: out_core_def TX_OUTPUT_NONE_def)
  ultimately show ?thesis using a3 by blast
qed

lemma parse_outputs_at:
  assumes "at buf off (concat (map output_bytes outs) @ ys)" "\<forall>out \<in> set outs. out_script out \<noteq> None"
  shows "\<exists>xs off'. parse_outputs (length outs) buf off = Some (xs, 0, off') \<and> at buf off' ys \<and> map out_core xs = map out_core outs"
  using assms
proof (induction outs arbitrary: off)
  case (Cons out outs)
  obtain scr where scr: "out_script out = Some scr" using Cons.prems(2) by auto
  have a: "at buf off (output_bytes out @ concat (map output_bytes outs) @ ys)" using Cons.prems(1) by simp
  from parse_output_at [OF a scr] obtain x off1 where x: "parse_output buf off = Some (x, off1)"
    "at buf off1 (concat (map output_bytes outs) @ ys)" "out_core x = out_core out" by blast
  from Cons.IH [OF x(2)] Cons.prems(2) obtain xs off' where "parse_outputs (length outs) buf off1 = Some (xs, 0, off')"
    "at buf off' ys" "map out_core xs = map out_core outs" by auto
  then show ?case using x at_drop(2) [OF a] by simp
qed simp

definition asset_of :: "BRTxOutput \<Rightarrow> BRAsset" where
  "asset_of out = snd (the (GetAssetData (ptr_bytes (out_script out)) NewAsset))"

text \<open>The output has a script, and when it is an asset script its data can be read.\<close>

definition readable_output :: "BRTxOutput \<Rightarrow> bool" where
  "readable_output out \<longleftrightarrow> ptr_bytes (out_script out) \<noteq> [] \<and>
     (has_asset out \<longrightarrow> GetAssetData (ptr_bytes (out_script out)) NewAsset \<noteq> None)"

lemma readable_script: "readable_output out \<Longrightarrow> out_script out \<noteq> None"
  by (cases "out_script out") (auto simp: readable_output_def ptr_bytes_def)

lemma parse_assets_readable:
  "\<lbrakk>\<forall>out \<in> set outs. readable_output out; ptr_bytes (out_script prev) \<noteq> []\<rbrakk> \<Longrightarrow>
   parse_assets outs prev (length (filter has_asset outs)) = Some (map asset_of (filter has_asset outs))"
proof (induction outs arbitrary: prev)
  case (Cons out outs)
  show ?case
  proof (cases "filter has_asset (out # outs) = []")
    case False
    have r: "readable_output out" using Cons.prems by simp
    have IH: "parse_assets outs out (length (filter has_asset outs)) = Some (map asset_of (filter has_asset outs))"
      using Cons.prems r by (intro Cons.IH) (auto simp: readable_output_def)
    show ?thesis
    proof (cases "has_asset out")
      case True
      then obtain b a where "GetAssetData (ptr_bytes (out_script out)) NewAsset = Some (b, a)"
        using r by (auto simp: readable_output_def)
      then show ?thesis using True IH Cons.prems(2) by (simp add: asset_of_def)
    next
      case nb: False
      then have "filter has_asset outs \<noteq> []" using False by simp
      then show ?thesis using nb IH Cons.prems(2) by simp
    qed
  qed simp
qed simp

lemma core_script: "map out_core xs = map out_core ys \<Longrightarrow> map out_script xs = map out_script ys"
  by (rule map_core_eq [of out_core]) (auto simp: out_core_def elim: BRTxOutput.cases dest: arg_cong [of _ _ out_script])

lemma core_outputs:
  assumes "map out_core xs = map out_core ys"
  shows "length (filter has_asset xs) = length (filter has_asset ys)"
    "map asset_of (filter has_asset xs) = map asset_of (filter has_asset ys)"
    "(\<forall>x \<in> set xs. readable_output x) = (\<forall>y \<in> set ys. readable_output y)"
proof -
  define P where "P = (\<lambda>s. IsScriptAsset (ptr_bytes s))"
  define g where "g = (\<lambda>s. snd (the (GetAssetData (ptr_bytes s) NewAsset)))"
  define R where "R = (\<lambda>s. ptr_bytes s \<noteq> [] \<and> (P s \<longrightarrow> GetAssetData (ptr_bytes s) NewAsset \<noteq> None))"
  have e: "has_asset = P \<circ> out_script" "asset_of = g \<circ> out_script" "readable_output = R \<circ> out_script"
    by (auto simp: P_def g_def R_def has_asset_def asset_of_def readable_output_def)
  note sc = core_script [OF assms]
  have f: "map out_script (filter has_asset zs) = filter P (map out_script zs)" for zs by (simp add: e filter_map)
  show "length (filter has_asset xs) = length (filter has_asset ys)" using f [of xs] f [of ys] sc by (metis length_map)
  show "map asset_of (filter has_asset xs) = map asset_of (filter has_asset ys)"
    using f [of xs] f [of ys] sc by (metis e(2) map_map)
  have "(\<forall>z \<in> set zs. readable_output z) = (\<forall>s \<in> set (map out_script zs). R s)" for zs by (simp add: e)
  then show "(\<forall>x \<in> set xs. readable_output x) = (\<forall>y \<in> set ys. readable_output y)" using sc by metis
qed

text \<open>The transactions that a node sends: signed, with a script in every output.\<close>

definition wire_tx :: "BRTransaction \<Rightarrow> bool" where
  "wire_tx tx \<longleftrightarrow> inputs tx \<noteq> [] \<and>
     (\<forall>inp \<in> set (inputs tx). \<exists>sig. in_signature inp = Some sig \<and> parses_as_signature sig) \<and>
     (\<forall>out \<in> set (outputs tx). readable_output out)"

definition parsed :: "BRTransaction \<Rightarrow> BRTransaction \<Rightarrow> bool" where
  "parsed tx t \<longleftrightarrow> version t = version tx \<and> lockTime t = lockTime tx \<and>
     map in_core (inputs t) = map (\<lambda>inp. in_core (inp\<lparr>in_amount := 0, in_script := None\<rparr>)) (inputs tx) \<and>
     map out_core (outputs t) = map out_core (outputs tx) \<and>
     tx_asset t = map asset_of (filter has_asset (outputs tx)) \<and> asstCount t = length (filter has_asset (outputs tx)) \<and>
     blockHeight t = TX_UNCONFIRMED \<and> txHash t = UInt256Get (SHA256_2 (tx_bytes tx))"

lemma wire_inputs: "wire_tx tx \<Longrightarrow> map (data_input None 0 0) (inputs tx) = map (in_amount_update (\<lambda>_. 0)) (inputs tx)"
  by (auto simp: wire_tx_def signed_input)

lemma length_concat_ge: "(\<And>x. x \<in> set xs \<Longrightarrow> f x \<noteq> []) \<Longrightarrow> length xs \<le> length (concat (map f xs))"
proof (induction xs)
  case (Cons x xs)
  then have "length xs \<le> length (concat (map f xs))" "1 \<le> length (f x)" by (auto simp: Suc_le_eq)
  then show ?case using add_le_mono by fastforce
qed simp

lemma bytes_nonempty: "input_bytes inp \<noteq> []" "output_bytes out \<noteq> []"
  by (auto simp: input_bytes_def output_bytes_def UInt32SetLE_def UInt64SetLE_def)

lemma tx_counts: "length (inputs tx) \<le> length (tx_bytes tx)" "length (outputs tx) \<le> length (tx_bytes tx)"
  using length_concat_ge [of "map (data_input None 0 0) (inputs tx)" input_bytes] length_concat_ge [of "outputs tx" output_bytes]
  by (auto simp: bytes_nonempty tx_bytes_all all_bytes_def)

lemma parse_wire:
  assumes "wire_tx tx" and len: "length (tx_bytes tx @ rest) < 2 ^ 56"
  shows "\<exists>t. BRTransactionParse (Some (tx_bytes tx @ rest)) = Some (Some t) \<and> parsed tx t"
proof -
  define buf where "buf = tx_bytes tx @ rest"
  let ?ni = "word_of_nat (length (inputs tx)) :: u64" and ?no = "word_of_nat (length (outputs tx)) :: u64"
  let ?ins = "concat (map input_bytes (map (in_amount_update (\<lambda>_. 0)) (inputs tx)))"
  have small: "length (inputs tx) < 2 ^ 56" "length (outputs tx) < 2 ^ 56" using tx_counts [of tx] len by auto
  then have n: "unat ?ni = length (inputs tx)" "unat ?no = length (outputs tx)" by (auto intro: unat_word_of_nat_less)
  have a0: "at buf 0 (UInt32SetLE (version tx) @ varint ?ni @ ?ins @ varint ?no @ concat (map output_bytes (outputs tx)) @
      UInt32SetLE (lockTime tx) @ rest)"
    using len by (simp add: at_def buf_def tx_bytes_all all_bytes_def wire_inputs [OF assms(1)])
  have a1: "at buf 4 (varint ?ni @ ?ins @ varint ?no @ concat (map output_bytes (outputs tx)) @ UInt32SetLE (lockTime tx) @ rest)"
    using at_adv(2) [OF a0, of 4] by (simp add: adv_def)
  define o2 where "o2 = adv 4 (length (varint ?ni))"
  have a2: "at buf o2 (?ins @ varint ?no @ concat (map output_bytes (outputs tx)) @ UInt32SetLE (lockTime tx) @ rest)"
    unfolding o2_def by (rule at_adv [OF a1]) simp
  from parse_inputs_at [OF a2] assms(1) obtain xs o3 where xs: "parse_inputs (length (inputs tx)) buf o2 = Some (xs, o3, True)"
    "at buf o3 (varint ?no @ concat (map output_bytes (outputs tx)) @ UInt32SetLE (lockTime tx) @ rest)"
    "map in_core xs = map (\<lambda>inp. in_core (inp\<lparr>in_amount := 0, in_script := None\<rparr>)) (inputs tx)" by (auto simp: wire_tx_def)
  define o4 where "o4 = adv o3 (length (varint ?no))"
  have a4: "at buf o4 (concat (map output_bytes (outputs tx)) @ UInt32SetLE (lockTime tx) @ rest)"
    unfolding o4_def by (rule at_adv [OF xs(2)]) simp
  have "\<forall>out \<in> set (outputs tx). out_script out \<noteq> None"
    using assms(1) readable_script by (auto simp: wire_tx_def)
  from parse_outputs_at [OF a4 this] obtain ys o5 where ys: "parse_outputs (length (outputs tx)) buf o4 = Some (ys, 0, o5)"
    "at buf o5 (UInt32SetLE (lockTime tx) @ rest)" "map out_core ys = map out_core (outputs tx)" by blast
  define o6 where "o6 = adv o5 4"
  have a6: "at buf o6 rest" unfolding o6_def by (rule at_adv [OF ys(2)]) simp
  note co = core_outputs [OF ys(3)]
  have assets: "parse_assets ys (last ys) (length (filter has_asset ys)) = Some (map asset_of (filter has_asset ys))"
    if "filter has_asset ys \<noteq> []"
  proof (rule parse_assets_readable)
    show "\<forall>out \<in> set ys. readable_output out" using co(3) assms(1) by (simp add: wire_tx_def)
    then show "ptr_bytes (out_script (last ys)) \<noteq> []" using that by (cases ys rule: rev_cases) (auto simp: readable_output_def)
  qed
  have "BRTransactionParse (Some buf) = Some (Some (BRTransactionNew\<lparr>version := version tx, inputs := xs, outputs := ys,
     lockTime := lockTime tx, tx_asset := map asset_of (filter has_asset ys), asstCount := length (filter has_asset ys),
     txHash := UInt256Get (SHA256_2 (tx_bytes tx))\<rparr>))"
    using assms(1) small assets at_drop(2) [OF a6] at_take [OF a6 [unfolded buf_def]]
    by (simp add: BRTransactionParse_def Let_def at_guarded [OF a0] get_set at_varint [OF a1] o2_def [symmetric] n xs(1)
        array_fits_def at_varint [OF xs(2)] o4_def [symmetric] ys(1) at_guarded [OF ys(2)] o6_def [symmetric]
        ASSET_ACTIVATION_def BRTransactionNew_def TX_UNCONFIRMED_def wire_tx_def buf_def [symmetric])
  then show ?thesis using xs(3) ys(3) co by (auto simp: buf_def parsed_def BRTransactionNew_def)
qed

lemma parsed_bytes:
  assumes "wire_tx tx" "parsed tx t"
  shows "tx_bytes t = tx_bytes tx"
proof -
  have "tx_bytes t = tx_bytes (tx\<lparr>inputs := map (\<lambda>inp. inp\<lparr>in_amount := 0, in_script := None\<rparr>) (inputs tx)\<rparr>)"
    by (rule tx_bytes_core) (use assms(2) in \<open>simp_all add: parsed_def comp_def\<close>)
  also have "\<dots> = tx_bytes tx"
  proof -
    have "input_bytes (data_input None 0 0 (x\<lparr>in_amount := 0, in_script := None\<rparr>)) = input_bytes (data_input None 0 0 x)"
      if "x \<in> set (inputs tx)" for x
    proof -
      have "in_signature x \<noteq> None" using assms(1) that by (auto simp: wire_tx_def)
      then show ?thesis by (simp add: signed_input input_bytes_def)
    qed
    then have "map (\<lambda>x. input_bytes (data_input None 0 0 (x\<lparr>in_amount := 0, in_script := None\<rparr>))) (inputs tx) =
        map (\<lambda>x. input_bytes (data_input None 0 0 x)) (inputs tx)" by (intro map_cong refl)
    from arg_cong [OF this, of concat] show ?thesis by (simp add: tx_bytes_all all_bytes_def comp_def)
  qed
  finally show ?thesis .
qed

lemma parsed_signed:
  assumes "wire_tx tx" "parsed tx t"
  shows "BRTransactionIsSigned t"
proof -
  have "map in_core (inputs t) = map in_core (map (\<lambda>inp. inp\<lparr>in_amount := 0, in_script := None\<rparr>) (inputs tx))"
    using assms(2) by (simp add: parsed_def comp_def)
  then have "map in_signature (inputs t) = map in_signature (map (\<lambda>inp. inp\<lparr>in_amount := 0, in_script := None\<rparr>) (inputs tx))"
    by (rule map_core_eq) (auto simp: in_core_def dest: arg_cong [of _ _ in_signature])
  then have eq: "map in_signature (inputs t) = map in_signature (inputs tx)" by (simp add: comp_def)
  have "list_all (\<lambda>s. s \<noteq> None) (map in_signature (inputs tx))" using assms(1) by (auto simp: wire_tx_def list_all_iff)
  then show ?thesis unfolding eq [symmetric] by (simp add: BRTransactionIsSigned_def list_all_iff)
qed

text \<open>C15: a signed transaction survives the wire.  Whatever follows it in the message, the parser accepts its serialisation; the
  version, the lock time, every input and every output come back (of the inputs the amount and the spent script are not sent;
  address fields are computed again), the assets are those of the asset outputs in their order, the hash is the double SHA256 of exactly the
  bytes of the transaction, and serialising the result gives the same bytes.\<close>

theorem tx_parse_roundtrip:
  assumes "wire_tx tx" "length (tx_bytes tx @ rest) < 2 ^ 56"
  shows "\<exists>t. BRTransactionParse (Some (tx_bytes tx @ rest)) = Some (Some t) \<and> parsed tx t \<and> tx_bytes t = tx_bytes tx \<and>
     BRTransactionIsSigned t"
  using parse_wire [OF assms] parsed_bytes [OF assms(1)] parsed_signed [OF assms(1)] by blast

theorem tx_parse_roundtrip_witness:
  "\<exists>t. BRTransactionParse (Some (tx_bytes (BRTransactionNew\<lparr>inputs := [zero_input\<lparr>in_signature := Some [1, 2]\<rparr>],
       outputs := [TX_OUTPUT_NONE\<lparr>out_script := Some [0x6a]\<rparr>]\<rparr>) @ [7])) = Some (Some t) \<and> length (outputs t) = 1 \<and>
     BRTransactionIsSigned t"
proof -
  let ?tx = "BRTransactionNew\<lparr>inputs := [zero_input\<lparr>in_signature := Some [1, 2]\<rparr>],
     outputs := [TX_OUTPUT_NONE\<lparr>out_script := Some [0x6a]\<rparr>]\<rparr>"
  have sig: "parses_as_signature [1, 2]"
    by (simp add: parses_as_signature_def BRAddressFromScriptPubKey_def BRScriptElements_def script_elements.simps
        script_advance_def opcode_defs MAX_SCRIPT_LENGTH_def)
  have out: "readable_output (TX_OUTPUT_NONE\<lparr>out_script := Some [0x6a]\<rparr>)"
    by (simp add: readable_output_def ptr_bytes_def has_asset_def IsScriptAsset_def IsScriptNewAsset_def IsScriptOwnerAsset_def
       IsScriptReissueAsset_def IsScriptTransferAsset_def)
  have "wire_tx ?tx" using sig out by (simp add: wire_tx_def BRTransactionNew_def)
  moreover have "length (tx_bytes ?tx @ [7]) < 2 ^ 56"
    by (simp add: tx_bytes_all all_bytes_def BRTransactionNew_def signed_input zero_input_def input_bytes_def output_bytes_def
        TX_OUTPUT_NONE_def ptr_bytes_def varint_def)
  ultimately obtain t where "BRTransactionParse (Some (tx_bytes ?tx @ [7])) = Some (Some t)" "parsed ?tx t" "BRTransactionIsSigned t"
    using tx_parse_roundtrip [of ?tx "[7]"] by blast
  moreover from this(2) have "length (outputs t) = 1"
    by (auto simp: parsed_def BRTransactionNew_def dest: map_eq_imp_length_eq)
  ultimately show ?thesis by blast
qed

text \<open>The test \<open>off + sLen <= bufLen\<close> does not protect the parser.  When the script length of the first input is so large that
  the sum wraps past zero, the test succeeds and the signature is read far outside the buffer: every message of this form, which any
  peer can send, is undefined behaviour.\<close>

theorem tx_parse_overflow:
  assumes "length outpoint = 36" "2 ^ 64 \<le> 50 + unat sLen" "length rest < 2 ^ 56"
  shows "BRTransactionParse (Some (UInt32SetLE v @ varint 1 @ outpoint @ varint sLen @ rest)) = None"
proof -
  define buf where "buf = UInt32SetLE v @ varint 1 @ outpoint @ varint sLen @ rest"
  have big: "\<not> sLen \<le> 0xffffffff" using assms(2) unfolding word_le_nat_alt by simp
  then have l9: "length (varint sLen) = 9" by (simp add: varint_def) (simp add: word_le_nat_alt word_less_nat_alt)
  have l1: "varint 1 = [1]" by (simp add: varint_def)
  have len: "length buf = 50 + length rest" by (simp add: buf_def assms(1) l9 l1)
  obtain h ix where op: "outpoint = h @ ix" "length h = 32" "length ix = 4"
    using assms(1) that [of "take 32 outpoint" "drop 32 outpoint"] by simp
  have a0: "at buf 0 (UInt32SetLE v @ varint 1 @ outpoint @ varint sLen @ rest)" using assms(3) len by (simp add: at_def buf_def)
  have a4: "at buf 4 (varint 1 @ outpoint @ varint sLen @ rest)" using at_adv(2) [OF a0, of 4] by (simp add: adv_def)
  have a5: "at buf 5 (h @ ix @ varint sLen @ rest)" using at_adv(2) [OF a4 refl] l1 by (simp add: adv_def op)
  have a37: "at buf 37 (ix @ varint sLen @ rest)" using at_adv(2) [OF a5, of 32] by (simp add: adv_def op)
  have a41: "at buf 41 (varint sLen @ rest)" using at_adv(2) [OF a37, of 4] by (simp add: adv_def op)
  have wrap: "adv 50 (unat sLen) \<le> length buf"
  proof -
    have "adv 50 (unat sLen) = 50 + unat sLen - 2 ^ 64"
      using assms(2) unat_less_pow [of sLen] unfolding adv_def by (subst le_mod_geq) simp_all
    then show ?thesis using unat_less_pow [of sLen] len by simp
  qed
  have out: "rd_slice buf 50 (unat sLen) = None" using assms(2,3) len by (simp add: rd_slice_def)
  have "parse_input buf 5 = None"
    using wrap by (simp add: parse_input_def Let_def at_guarded [OF a5] at_guarded [OF a37] op adv_def [of 5] adv_def [of 37]
        at_varint [OF a41] adv_def [of 41] l9 out)
  then have ins: "parse_inputs (Suc 0) buf 5 = None" using at_drop(2) [OF a5] by simp
  have v1: "BRVarInt (drop 4 buf) = (1, 1)" using at_varint [OF a4] l1 by simp
  have "BRTransactionParse (Some buf) = None"
    by (simp add: BRTransactionParse_def Let_def at_guarded [OF a0] v1 adv_def [of 4] array_fits_def ins del: parse_inputs.simps)
  then show ?thesis by (simp only: buf_def)
qed

theorem tx_parse_overflow_witness:
  "BRTransactionParse (Some (UInt32SetLE 1 @ varint 1 @ (replicate 36 0) @ varint 0xffffffffffffffff @ [0])) = None"
  by (rule tx_parse_overflow) simp_all

section \<open>Splitting an asset transaction\<close>

text \<open>The parts of a transaction that issues an asset: the payments, the new asset and the ownership.  The third part owns a
  new asset structure that holds the data of the last ownership output.\<close>

definition add_outputs_if :: "(bytes \<Rightarrow> bool) \<Rightarrow> BRTransaction \<Rightarrow> BRTransaction \<Rightarrow> BRTransaction option" where
  "add_outputs_if P tx cpy = add_outputs cpy (filter (\<lambda>out. P (ptr_bytes (out_script out))) (outputs tx))"

definition owner_asset :: "BRTransaction \<Rightarrow> BRAsset option" where
  "owner_asset tx = fold (\<lambda>out a. if IsScriptOwnerAsset (ptr_bytes (out_script out))
     then a \<bind> (\<lambda>a. map_option snd (GetAssetData (ptr_bytes (out_script out)) a)) else a) (outputs tx) (Some NewAsset)"

definition zero_tx :: BRTransaction where
  "zero_tx = BRTransactionNew\<lparr>version := 0, lockTime := 0, blockHeight := 0\<rparr>"

text \<open>The caller says how many parts to allocate; further parts stay zero, fewer are an access outside the array.\<close>

definition BRTransactionDecomposeForCreation :: "BRTransaction \<Rightarrow> nat \<Rightarrow> BRTransaction list option" where
  "BRTransactionDecomposeForCreation tx txsCount = (if txsCount < 3 then None else do {
     c0 \<leftarrow> add_inputs BRTransactionNew (inputs tx);
     c0 \<leftarrow> add_outputs_if (\<lambda>s. \<not> IsScriptAsset s) tx c0;
     c1 \<leftarrow> add_outputs_if IsScriptNewAsset tx (tx\<lparr>inputs := [], outputs := []\<rparr>);
     c2 \<leftarrow> add_outputs_if IsScriptOwnerAsset tx (tx\<lparr>inputs := [], outputs := []\<rparr>);
     a \<leftarrow> owner_asset tx;
     Some ([c0, c1, c2\<lparr>tx_asset := [a]\<rparr>] @ replicate (txsCount - 3) zero_tx)
   })"

definition BRTransactionDecomposeForManagement :: "BRTransaction \<Rightarrow> nat \<Rightarrow> BRTransaction list option" where
  "BRTransactionDecomposeForManagement tx txsCount = (if txsCount < 2 then None else do {
     c0 \<leftarrow> add_inputs (tx\<lparr>inputs := [], outputs := [], tx_asset := []\<rparr>) (inputs tx);
     c0 \<leftarrow> add_outputs_if (\<lambda>s. \<not> IsScriptAsset s) tx c0;
     c1 \<leftarrow> add_outputs_if (\<lambda>s. IsScriptAsset s \<and> IsScriptReissueAsset s) tx (tx\<lparr>inputs := [], outputs := []\<rparr>);
     Some ([c0, c1] @ replicate (txsCount - 2) zero_tx)
   })"

text \<open>Splitting a transaction that issues an asset loses and invents nothing of what the parts show.  The first part has all
  the inputs and the outputs without an asset, the second the outputs that create assets, the third those that create ownership tokens,
  each in the order of the original; the three parts are made whenever every input names a real output and the ownership data can be read.\<close>

theorem tx_decompose_creation:
  assumes "\<forall>x \<in> set (inputs tx). in_txHash x \<noteq> 0" "owner_asset tx = Some a"
  shows "\<exists>c0 c1 c2. BRTransactionDecomposeForCreation tx 3 = Some [c0, c1, c2] \<and>
     map in_core (inputs c0) = map in_core (inputs tx) \<and> inputs c1 = [] \<and> inputs c2 = [] \<and>
     map out_core (outputs c0) = map out_core (filter (\<lambda>out. \<not> IsScriptAsset (ptr_bytes (out_script out))) (outputs tx)) \<and>
     map out_core (outputs c1) = map out_core (filter (\<lambda>out. IsScriptNewAsset (ptr_bytes (out_script out))) (outputs tx)) \<and>
     map out_core (outputs c2) = map out_core (filter (\<lambda>out. IsScriptOwnerAsset (ptr_bytes (out_script out))) (outputs tx)) \<and>
     txHash c1 = txHash tx \<and> txHash c2 = txHash tx \<and> tx_asset c2 = [a]"
proof -
  let ?e = "tx\<lparr>inputs := [], outputs := []\<rparr>"
  obtain xs where xs: "add_inputs BRTransactionNew (inputs tx) = Some (BRTransactionNew\<lparr>inputs := xs\<rparr>)"
    "map in_core xs = map in_core (inputs tx)"
    using add_inputs_core [OF assms(1), of BRTransactionNew] by (auto simp: BRTransactionNew_def)
  have part: "\<exists>ys. add_outputs_if P tx t = Some (t\<lparr>outputs := outputs t @ ys\<rparr>) \<and>
      map out_core ys = map out_core (filter (\<lambda>out. P (ptr_bytes (out_script out))) (outputs tx))" for P t
    unfolding add_outputs_if_def using add_outputs_core by blast
  obtain y0 where y0: "add_outputs_if (\<lambda>s. \<not> IsScriptAsset s) tx (BRTransactionNew\<lparr>inputs := xs\<rparr>) = Some (BRTransactionNew\<lparr>inputs := xs, outputs := y0\<rparr>)"
    "map out_core y0 = map out_core (filter (\<lambda>out. \<not> IsScriptAsset (ptr_bytes (out_script out))) (outputs tx))"
    using part [of "\<lambda>s. \<not> IsScriptAsset s" "BRTransactionNew\<lparr>inputs := xs\<rparr>"] by (auto simp: BRTransactionNew_def)
  obtain y1 where y1: "add_outputs_if IsScriptNewAsset tx ?e = Some (tx\<lparr>inputs := [], outputs := y1\<rparr>)"
    "map out_core y1 = map out_core (filter (\<lambda>out. IsScriptNewAsset (ptr_bytes (out_script out))) (outputs tx))"
    using part [of IsScriptNewAsset ?e] by auto
  obtain y2 where y2: "add_outputs_if IsScriptOwnerAsset tx ?e = Some (tx\<lparr>inputs := [], outputs := y2\<rparr>)"
    "map out_core y2 = map out_core (filter (\<lambda>out. IsScriptOwnerAsset (ptr_bytes (out_script out))) (outputs tx))"
    using part [of IsScriptOwnerAsset ?e] by auto
  show ?thesis using xs y0 y1 y2 assms(2) by (simp add: BRTransactionDecomposeForCreation_def)
qed

theorem tx_decompose_creation_witness:
  "\<exists>c0 c1 c2. BRTransactionDecomposeForCreation (BRTransactionNew\<lparr>inputs := [zero_input\<lparr>in_txHash := 5\<rparr>]\<rparr>) 3 = Some [c0, c1, c2]
     \<and> length (inputs c0) = 1"
  using tx_decompose_creation [of "BRTransactionNew\<lparr>inputs := [zero_input\<lparr>in_txHash := 5\<rparr>]\<rparr>" NewAsset]
  by (auto simp: BRTransactionNew_def owner_asset_def dest: map_eq_imp_length_eq)

section \<open>Asset checks on transactions\<close>

definition strIssueAssetBurnAddressMainNet :: bytes where
  "strIssueAssetBurnAddressMainNet = ascii ''RXissueAssetXXXXXXXXXXXXXXXXXhhZGt''"

definition strReissueAssetBurnAddressMainNet :: bytes where
  "strReissueAssetBurnAddressMainNet = ascii ''RXReissueAssetXXXXXXXXXXXXXXVEFAWu''"

definition field_string :: "bytes \<Rightarrow> bytes" where
  "field_string a = takeWhile (\<lambda>b. b \<noteq> 0) a"

definition CheckIssueBurnTx :: "BRTxOutput \<Rightarrow> bool" where
  "CheckIssueBurnTx txOut =
     (if out_amount txOut \<noteq> GetIssueAssetBurnAmount then False
      else if \<not> BRAddressIsValid (field_string (out_address txOut)) then False
      else if field_string (out_address txOut) \<noteq> strIssueAssetBurnAddressMainNet then False
      else True)"

definition CheckReissueBurnTx :: "BRTxOutput \<Rightarrow> bool" where
  "CheckReissueBurnTx txOut =
     (if out_amount txOut \<noteq> GetReissueAssetBurnAmount then False
      else if \<not> BRAddressIsValid (field_string (out_address txOut)) then False
      else if field_string (out_address txOut) \<noteq> strReissueAssetBurnAddressMainNet then False
      else True)"

definition CheckIssueDataTx :: "BRTxOutput \<Rightarrow> bool" where
  "CheckIssueDataTx txOut = IsScriptAsset (ptr_bytes (out_script txOut))"

definition CheckOwnerDataTx :: "BRTxOutput \<Rightarrow> bool" where
  "CheckOwnerDataTx txOut = IsScriptOwnerAsset (ptr_bytes (out_script txOut))"

definition CheckReissueDataTx :: "BRTxOutput \<Rightarrow> bool" where
  "CheckReissueDataTx txOut = IsScriptReissueAsset (ptr_bytes (out_script txOut))"

definition CheckTransferOwnerTx :: "BRTxOutput \<Rightarrow> bool" where
  "CheckTransferOwnerTx txOut = IsScriptTransferAsset (ptr_bytes (out_script txOut))"

text \<open>The \<open>foreach\<close> macro divides \<open>sizeof\<close> of the pointer by \<open>sizeof\<close> of an element, 8 by 64, so the loops run zero times.\<close>

definition foreach_count :: nat where "foreach_count = 8 div 64"

definition IsNewAsset :: "BRTransaction \<Rightarrow> bool" where
  "IsNewAsset tx =
     (let outCount = length (outputs tx) in
      if outCount < 3 then False
      else if \<not> CheckIssueDataTx (outputs tx ! (outCount - 1)) then False
      else if \<not> CheckOwnerDataTx (outputs tx ! (outCount - 2)) then False
      else list_ex CheckIssueBurnTx (take foreach_count (outputs tx)))"

definition IsReissueAsset :: "BRTransaction \<Rightarrow> bool" where
  "IsReissueAsset tx =
     (let outCount = length (outputs tx) in
      if outCount < 3 then False
      else if \<not> CheckReissueDataTx (outputs tx ! (outCount - 1)) then False
      else if \<not> list_ex CheckTransferOwnerTx (take foreach_count (outputs tx)) then False
      else list_ex CheckReissueBurnTx (take foreach_count (outputs tx)))"

definition AssetFromTransaction :: "BRTransaction \<Rightarrow> BRAsset \<Rightarrow> (bool \<times> BRAsset) option" where
  "AssetFromTransaction tx a =
     (if \<not> IsNewAsset tx then Some (False, a)
      else NewAssetFromScriptPubKey (ptr_bytes (out_script (outputs tx ! (length (outputs tx) - 1)))) a)"

definition ReissueAssetFromTransaction :: "BRTransaction \<Rightarrow> BRAsset \<Rightarrow> (bool \<times> BRAsset) option" where
  "ReissueAssetFromTransaction tx a =
     (if \<not> IsReissueAsset tx then Some (False, a)
      else ReissueAssetFromScriptPubKey (ptr_bytes (out_script (outputs tx ! (length (outputs tx) - 1)))) a)"

text \<open>\<open>OwnerFromTransaction\<close> passes a \<open>NULL\<close> asset to \<open>OwnerAssetFromScriptPubKey\<close>, whose first assertion then fails.\<close>

definition OwnerFromTransaction :: "BRTransaction \<Rightarrow> bool option" where
  "OwnerFromTransaction tx = (if IsNewAsset tx then Some False else None)"

text \<open>No transaction is ever recognised as one that issues or reissues an asset.  The loops that look for the burn payment run over
  \<open>sizeof\<close> of a pointer and so never run; the assets of a transaction are never read, and the reader of the owner token stops the program at an
  assertion.\<close>

theorem asset_checks_never_succeed:
  "\<not> IsNewAsset tx \<and> \<not> IsReissueAsset tx \<and> AssetFromTransaction tx a = Some (False, a) \<and>
   ReissueAssetFromTransaction tx a = Some (False, a) \<and> OwnerFromTransaction tx = None"
proof -
  have "\<not> IsNewAsset tx" "\<not> IsReissueAsset tx" by (auto simp: IsNewAsset_def IsReissueAsset_def Let_def foreach_count_def)
  then show ?thesis by (simp add: AssetFromTransaction_def ReissueAssetFromTransaction_def OwnerFromTransaction_def)
qed

text \<open>When the last output has no script, the second loop over the outputs skips all of them, whatever assets they carry.\<close>

lemma parse_assets_skipped: "ptr_bytes (out_script prev) = [] \<Longrightarrow> parse_assets outs prev left = Some (replicate left NewAsset)"
  by (induction outs) auto

end
