(* ===== verification/BRMerkleBlock.thy ===== *)
theory BRMerkleBlock
  imports Reader BRSet
begin

unbundle bit_operations_syntax

text \<open>
  \<open>BRMerkleBlock.c\<close>: block headers with a partial merkle tree, their parser and serialiser, the two walks over the tree, the
  proof-of-work check and the difficulty rule.  The array of hashes and its count are separate fields, because the parser can set one
  without the other; a \<open>NULL\<close> array is \<open>None\<close>.  The result \<open>None\<close> of an operation is undefined behaviour, a failed assertion or a
  loop that does not end.  The proof-of-work hashes of other libraries are parameters.
\<close>

section \<open>Data\<close>

record BRMerkleBlock =
  blockHash :: UInt256
  blk_version :: u32
  prevBlock :: UInt256
  merkleRoot :: UInt256
  blk_timestamp :: u32
  target :: u32
  nonce :: u32
  nonce64 :: u64
  mix_hash :: UInt256
  totalTx :: u32
  hashes :: "UInt256 list option"
  hashesCount :: nat
  flags :: "bytes option"
  flagsLen :: nat
  height :: u32

definition BLOCK_UNKNOWN_HEIGHT :: u32 where "BLOCK_UNKNOWN_HEIGHT = 0x7fffffff"
definition BLOCK_MAX_TIME_DRIFT :: u32 where "BLOCK_MAX_TIME_DRIFT = 2 * 60 * 60"
definition DGW_PAST_BLOCKS :: nat where "DGW_PAST_BLOCKS = 180"
definition DGW_START_BLOCK :: u32 where "DGW_START_BLOCK = 338778"
definition X16RV2ActivationTime :: u32 where "X16RV2ActivationTime = 1569945600"
definition KAWPOW_ActivationTime :: u32 where "KAWPOW_ActivationTime = 1588788000"
definition MAX_PROOF_OF_WORK :: u32 where "MAX_PROOF_OF_WORK = 0x1e00ffff"
definition DGW_TARGET_TIMESPAN :: nat where "DGW_TARGET_TIMESPAN = 1 * 60"

record pow_ops =
  pow_sph :: "nat \<Rightarrow> bytes \<Rightarrow> bytes"
  pow_tiger :: "bytes \<Rightarrow> bytes"
  light_verify :: "bytes \<Rightarrow> bytes \<Rightarrow> u64 \<Rightarrow> bytes"

definition BRMerkleBlockNew :: BRMerkleBlock where
  "BRMerkleBlockNew = \<lparr>blockHash = 0, blk_version = 0, prevBlock = 0, merkleRoot = 0, blk_timestamp = 0, target = 0, nonce = 0,
     nonce64 = 0, mix_hash = 0, totalTx = 0, hashes = None, hashesCount = 0, flags = None, flagsLen = 0,
     height = BLOCK_UNKNOWN_HEIGHT\<rparr>"

text \<open>The shift loop ends for numbers below \<open>2\<^sup>31\<close>; a negative \<open>int\<close> is shifted to -1 for ever.\<close>

fun shift_count :: "nat \<Rightarrow> nat" where
  "shift_count x = (if x div 2 = 0 then 0 else Suc (shift_count (x div 2)))"

declare shift_count.simps [simp del]

definition ceil_log2 :: "u32 \<Rightarrow> nat option" where
  "ceil_log2 x = (if 2 ^ 31 \<le> x then None else Some ((if x AND (x - 1) \<noteq> 0 then 1 else 0) + shift_count (unat x)))"

section \<open>Copies\<close>

definition BRMerkleBlockSetTxHashes ::
  "BRMerkleBlock \<Rightarrow> UInt256 list option \<Rightarrow> nat \<Rightarrow> bytes option \<Rightarrow> nat \<Rightarrow> BRMerkleBlock option" where
  "BRMerkleBlockSetTxHashes block hs hsCount fl flLen =
     (if (hs = None \<and> hsCount \<noteq> 0) \<or> (fl = None \<and> flLen \<noteq> 0) then None
      else do {
        h \<leftarrow> (if hsCount > 0 then map_option Some (rd_slice (the hs) 0 hsCount) else Some None);
        f \<leftarrow> (if flLen > 0 then map_option Some (rd_slice (the fl) 0 flLen) else Some None);
        Some (block\<lparr>hashes := h, flags := f\<rparr>)
      })"

definition BRMerkleBlockCopy :: "BRMerkleBlock \<Rightarrow> BRMerkleBlock option" where
  "BRMerkleBlockCopy block =
     BRMerkleBlockSetTxHashes (block\<lparr>hashes := None, flags := None\<rparr>) (hashes block) (hashesCount block) (flags block) (flagsLen block)"

section \<open>Parsing\<close>

definition hashes_of :: "bytes \<Rightarrow> UInt256 list" where
  "hashes_of bs = map (\<lambda>i. UInt256Get (slice (32 * i) 32 bs)) [0..<length bs div 32]"

text \<open>An array of \<open>len\<close> bytes: allocated and copied when it seems to fit into the message, otherwise \<open>NULL\<close>.\<close>

definition parse_array :: "bytes \<Rightarrow> nat \<Rightarrow> nat \<Rightarrow> bytes option option" where
  "parse_array buf off len = (if adv off len \<le> length buf then map_option Some (rd_slice buf off len) else Some None)"

definition parse_tree :: "bytes \<Rightarrow> nat \<Rightarrow> BRMerkleBlock \<Rightarrow> BRMerkleBlock option" where
  "parse_tree buf off block =
     (if adv off 4 \<le> length buf then do {
        t \<leftarrow> rd_slice buf off 4;
        let off = adv off 4;
        let (n, len) = BRVarInt (drop off buf);
        let off = adv off len;
        let len = unat n * 32 mod 2 ^ 64;
        hs \<leftarrow> parse_array buf off len;
        let off = adv off len;
        let (m, len) = BRVarInt (drop off buf);
        let off = adv off len;
        fl \<leftarrow> parse_array buf off (unat m);
        Some (block\<lparr>totalTx := UInt32GetLE t, hashes := map_option hashes_of hs, hashesCount := unat n,
                    flags := fl, flagsLen := unat m\<rparr>)
      } else Some block)"

text \<open>The header: the 80 bytes that were checked, and from the KawPow activation on 40 more that were not.\<close>

definition parse_header :: "bytes \<Rightarrow> (BRMerkleBlock \<times> nat) option" where
  "parse_header buf =
     (let block = BRMerkleBlockNew\<lparr>blk_version := UInt32GetLE (slice 0 4 buf), prevBlock := UInt256Get (slice 4 32 buf),
            merkleRoot := UInt256Get (slice 36 32 buf), blk_timestamp := UInt32GetLE (slice 68 4 buf),
            target := UInt32GetLE (slice 72 4 buf)\<rparr>
      in if blk_timestamp block < KAWPOW_ActivationTime
         then Some (block\<lparr>nonce := UInt32GetLE (slice 76 4 buf)\<rparr>, 80)
         else do {
           n \<leftarrow> rd_slice buf 80 8;
           x \<leftarrow> rd_slice buf 88 32;
           Some (block\<lparr>height := UInt32GetLE (slice 76 4 buf), nonce64 := UInt64GetLE n, mix_hash := UInt256Get x\<rparr>, 120)
         })"

definition pow_hash :: "pow_ops \<Rightarrow> bytes \<Rightarrow> BRMerkleBlock \<Rightarrow> UInt256 option" where
  "pow_hash ops hdr block =
     (if blk_timestamp block \<ge> KAWPOW_ActivationTime then
        (let header_hash = UInt256Set (UInt256Reverse (UInt256Get (SHA256_2 hdr)));
             mix = UInt256Set (UInt256Reverse (mix_hash block))
         in Some (UInt256Reverse (UInt256Get (light_verify ops header_hash mix (nonce64 block)))))
      else if blk_timestamp block \<ge> X16RV2ActivationTime then map_option UInt256Get (X16Rv2 (pow_sph ops) (pow_tiger ops) hdr)
      else map_option UInt256Get (X16R (pow_sph ops) hdr))"

definition BRMerkleBlockParse :: "pow_ops \<Rightarrow> bytes option \<Rightarrow> BRMerkleBlock option option" where
  "BRMerkleBlockParse ops buf = (case buf of None \<Rightarrow> Some None
   | Some buf \<Rightarrow>
     if length buf < 80 then Some None
     else do {
       (block, off) \<leftarrow> parse_header buf;
       block \<leftarrow> parse_tree buf off block;
       h \<leftarrow> pow_hash ops (take 80 buf) block;
       Some (Some (block\<lparr>blockHash := h\<rparr>))
     })"

section \<open>Serialisation\<close>

definition header_bytes :: "BRMerkleBlock \<Rightarrow> bytes" where
  "header_bytes block = UInt32SetLE (blk_version block) @ UInt256Set (prevBlock block) @ UInt256Set (merkleRoot block) @
     UInt32SetLE (blk_timestamp block) @ UInt32SetLE (target block) @
     (if blk_timestamp block < KAWPOW_ActivationTime then UInt32SetLE (nonce block)
      else UInt32SetLE (height block) @ UInt64SetLE (nonce64 block) @ UInt256Set (mix_hash block))"

definition put_count :: "nat \<Rightarrow> bytes \<times> nat \<Rightarrow> bytes \<times> nat" where
  "put_count n = (\<lambda>(b, off). case BRVarIntSet (Some (drop off b)) (word_of_nat n) of (v, k) \<Rightarrow> (take off b @ the v, off + k))"

definition put_array :: "nat \<Rightarrow> bytes option \<Rightarrow> bytes \<times> nat \<Rightarrow> (bytes \<times> nat) option" where
  "put_array len src = (\<lambda>(b, off). case src of None \<Rightarrow> Some (b, off + len)
     | Some s \<Rightarrow> do { s \<leftarrow> rd_slice s 0 len; b \<leftarrow> wr b off s; Some (b, off + len) })"

definition BRMerkleBlockSerialize :: "BRMerkleBlock \<Rightarrow> bytes option \<Rightarrow> (bytes option \<times> nat) option" where
  "BRMerkleBlockSerialize block buf =
     (let len = (if blk_timestamp block \<ge> KAWPOW_ActivationTime then 120 else 80);
          len = (if totalTx block > 0 then (len + 4 + BRVarIntSize (word_of_nat (hashesCount block)) + hashesCount block * 32 +
                   BRVarIntSize (word_of_nat (flagsLen block)) + flagsLen block) mod 2 ^ 64 else len)
      in case buf of None \<Rightarrow> Some (None, len)
         | Some b \<Rightarrow>
           if len \<le> length b then do {
             b \<leftarrow> wr b 0 (header_bytes block);
             let off = length (header_bytes block);
             (b, off) \<leftarrow> (if totalTx block > 0 then do {
                b \<leftarrow> wr b off (UInt32SetLE (totalTx block));
                st \<leftarrow> put_array (hashesCount block * 32) (map_option (\<lambda>hs. concat (map UInt256Set hs)) (hashes block))
                       (put_count (hashesCount block) (b, off + 4));
                put_array (flagsLen block) (flags block) (put_count (flagsLen block) st)
              } else Some (b, off));
             Some (Some b, len)
           } else Some (Some b, 0))"

section \<open>The partial merkle tree\<close>

definition block_flag :: "BRMerkleBlock \<Rightarrow> nat \<Rightarrow> bool option" where
  "block_flag block i = do { fl \<leftarrow> flags block; b \<leftarrow> rd fl (i div 8); Some (b AND push_bit (i mod 8) 1 \<noteq> 0) }"

definition block_hash :: "BRMerkleBlock \<Rightarrow> nat \<Rightarrow> UInt256 option" where
  "block_hash block i = do { hs \<leftarrow> hashes block; rd hs i }"

text \<open>\<open>flag && depth != _ceil_log2(totalTx)\<close>: whether the node has children.\<close>

definition inner_node :: "BRMerkleBlock \<Rightarrow> bool \<Rightarrow> nat \<Rightarrow> bool option" where
  "inner_node block flag depth = (if flag then map_option (\<lambda>l. depth \<noteq> l) (ceil_log2 (totalTx block)) else Some False)"

text \<open>The walks recurse at most to the depth \<open>_ceil_log2(totalTx)\<close>, which is below 32; the first argument bounds the depth of the recursion.\<close>

fun MerkleBlockTxHashesR :: "nat \<Rightarrow> BRMerkleBlock \<Rightarrow> nat \<Rightarrow> UInt256 list option \<times> nat \<times> nat \<times> nat \<Rightarrow> nat \<Rightarrow>
    (UInt256 list option \<times> nat \<times> nat \<times> nat) option" where
  "MerkleBlockTxHashesR 0 block cap st depth = None"
| "MerkleBlockTxHashesR (Suc n) block cap (txHashes, idx, hashIdx, flagIdx) depth =
     (if flagIdx div 8 < flagsLen block \<and> hashIdx < hashesCount block then do {
        flag \<leftarrow> block_flag block flagIdx;
        let flagIdx = flagIdx + 1;
        inner \<leftarrow> inner_node block flag depth;
        if \<not> inner then do {
          (txHashes, idx) \<leftarrow> (if flag \<and> idx < cap then
             (case txHashes of None \<Rightarrow> Some (None, idx + 1)
              | Some t \<Rightarrow> do { h \<leftarrow> block_hash block hashIdx; Some (Some (t[idx := h]), idx + 1) })
             else Some (txHashes, idx));
          Some (txHashes, idx, hashIdx + 1, flagIdx)
        } else do {
          st \<leftarrow> MerkleBlockTxHashesR n block cap (txHashes, idx, hashIdx, flagIdx) (depth + 1);
          MerkleBlockTxHashesR n block cap st (depth + 1)
        }
      } else Some (txHashes, idx, hashIdx, flagIdx))"

definition BRMerkleBlockTxHashes :: "BRMerkleBlock \<Rightarrow> UInt256 list option \<Rightarrow> (UInt256 list option \<times> nat) option" where
  "BRMerkleBlockTxHashes block txHashes = do {
     (t, idx, _) \<leftarrow> MerkleBlockTxHashesR 32 block (case txHashes of None \<Rightarrow> SIZE_MAX | Some t \<Rightarrow> length t) (txHashes, 0, 0, 0) 0;
     Some (t, idx)
   }"

definition hash_pair :: "UInt256 \<Rightarrow> UInt256 \<Rightarrow> UInt256" where
  "hash_pair a b = UInt256Get (SHA256_2 (UInt256Set a @ UInt256Set b))"

fun MerkleBlockRootR :: "nat \<Rightarrow> BRMerkleBlock \<Rightarrow> nat \<times> nat \<Rightarrow> nat \<Rightarrow> (UInt256 \<times> nat \<times> nat) option" where
  "MerkleBlockRootR 0 block st depth = None"
| "MerkleBlockRootR (Suc n) block (hashIdx, flagIdx) depth =
     (if flagIdx div 8 < flagsLen block \<and> hashIdx < hashesCount block then do {
        flag \<leftarrow> block_flag block flagIdx;
        let flagIdx = flagIdx + 1;
        inner \<leftarrow> inner_node block flag depth;
        if inner then do {
          (h0, st) \<leftarrow> MerkleBlockRootR n block (hashIdx, flagIdx) (depth + 1);
          (h1, hashIdx, flagIdx) \<leftarrow> MerkleBlockRootR n block st (depth + 1);
          if \<not> UInt256IsZero h0 \<and> \<not> UInt256Eq h0 h1
          then Some (hash_pair h0 (if UInt256IsZero h1 then h0 else h1), hashIdx, flagIdx)
          else Some (UINT256_ZERO, SIZE_MAX, flagIdx)
        } else do {
          h \<leftarrow> block_hash block hashIdx;
          Some (h, hashIdx + 1, flagIdx)
        }
      } else Some (UINT256_ZERO, hashIdx, flagIdx))"

section \<open>Validity\<close>

text \<open>\<open>UInt32SetLE(&t.u8[n], x)\<close> on a zero \<open>t\<close>; bytes past the end of \<open>t\<close> are undefined behaviour.\<close>

definition store32 :: "nat \<Rightarrow> u32 \<Rightarrow> UInt256 option" where
  "store32 n x = (if n + 4 \<le> 32 then Some (fold (\<lambda>(k, b) t. set_u8 t (n + k) b) (enumerate 0 (UInt32SetLE x)) UINT256_ZERO) else None)"

text \<open>The loop over the bytes from the most significant one, with \<open>i\<close> bytes left.\<close>

fun pow_check :: "UInt256 \<Rightarrow> UInt256 \<Rightarrow> nat \<Rightarrow> bool" where
  "pow_check h t 0 = True"
| "pow_check h t (Suc i) = (if u8_at h i < u8_at t i then True else if u8_at h i > u8_at t i then False else pow_check h t i)"

definition BRMerkleBlockIsValid :: "BRMerkleBlock \<Rightarrow> u32 \<Rightarrow> bool option" where
  "BRMerkleBlockIsValid block currentTime = do {
     let maxsize = drop_bit 24 MAX_PROOF_OF_WORK;
     let maxtarget = MAX_PROOF_OF_WORK AND 0x00ffffff;
     let sz = drop_bit 24 (target block);
     let tgt = target block AND 0x00ffffff;
     (root, _) \<leftarrow> MerkleBlockRootR 32 block (0, 0) 0;
     let r = \<not> (totalTx block > 0 \<and> \<not> UInt256Eq root (merkleRoot block));
     let r = (r \<and> \<not> blk_timestamp block > currentTime + BLOCK_MAX_TIME_DRIFT);
     let r = (r \<and> \<not> (tgt = 0 \<or> tgt AND 0x00800000 \<noteq> 0 \<or> sz > maxsize \<or> (sz = maxsize \<and> tgt > maxtarget)));
     t \<leftarrow> (if sz > 3 then store32 (unat sz - 3) tgt else store32 0 (drop_bit ((3 - unat sz) * 8) tgt));
     Some (r \<and> pow_check (blockHash block) t 32)
   }"

text \<open>The loop over the hashes, with the hashes not yet looked at.\<close>

fun contains_from :: "UInt256 list \<Rightarrow> nat \<Rightarrow> UInt256 \<Rightarrow> bool option" where
  "contains_from hs 0 tx = Some False"
| "contains_from [] (Suc n) tx = None"
| "contains_from (h # hs) (Suc n) tx = (if UInt256Eq h tx then Some True else contains_from hs n tx)"

definition MerkleBlockContainsTxHash :: "BRMerkleBlock \<Rightarrow> UInt256 \<Rightarrow> bool option" where
  "MerkleBlockContainsTxHash block txHash =
     (if UInt256IsZero txHash then None
      else contains_from (case hashes block of None \<Rightarrow> [] | Some hs \<Rightarrow> hs) (hashesCount block) txHash)"

section \<open>Difficulty\<close>

definition BRMerkleBlockHash :: "BRMerkleBlock \<Rightarrow> nat" where
  "BRMerkleBlockHash block = unat (u32_at (blockHash block) 0)"

definition BRMerkleBlockEq :: "BRMerkleBlock \<Rightarrow> BRMerkleBlock \<Rightarrow> bool" where
  "BRMerkleBlockEq block otherBlock \<longleftrightarrow> UInt256Eq (blockHash block) (blockHash otherBlock)"

interpretation block_set: set_contract BRMerkleBlockHash BRMerkleBlockEq
  by unfold_locales (auto simp: BRMerkleBlockHash_def BRMerkleBlockEq_def UInt256Eq_iff)

text \<open>The lookup by \<open>&currentBlock->prevBlock\<close>: a pointer to a hash stands for a block with that hash, the first field of the structure.\<close>

definition hash_key :: "UInt256 \<Rightarrow> BRMerkleBlock" where
  "hash_key h = BRMerkleBlockNew\<lparr>blockHash := h\<rparr>"

text \<open>The loop over the past blocks: the count of the next turn, the sum of the targets, the time span and the time of the previous turn.  The
  time span is an \<open>int32_t\<close> to which a 64-bit difference is added.\<close>

record dgw_state =
  blockCount :: nat
  sumTargets :: UInt256
  nActualTimespan :: u32
  lastBlockTime :: u32

definition dgw_step :: "BRMerkleBlock \<Rightarrow> dgw_state \<Rightarrow> dgw_state" where
  "dgw_step b st =
     (let t = setCompact (target b) in
      \<lparr>blockCount = blockCount st + 1,
       sumTargets = (if blockCount st = 1 then add t t else add (sumTargets st) t),
       nActualTimespan = (if lastBlockTime st > 0 then nActualTimespan st + (lastBlockTime st - blk_timestamp b) else nActualTimespan st),
       lastBlockTime = blk_timestamp b\<rparr>)"

fun dgw_loop :: "nat \<Rightarrow> BRMerkleBlock BRSet \<Rightarrow> BRMerkleBlock option \<Rightarrow> dgw_state \<Rightarrow> dgw_state option" where
  "dgw_loop 0 blockSet cur st = Some st"
| "dgw_loop (Suc n) blockSet cur st =
     (case cur of None \<Rightarrow> Some st
      | Some b \<Rightarrow>
        if height b = 0 then Some st
        else do { next \<leftarrow> BRSetGet blockSet (hash_key (prevBlock b)); dgw_loop n blockSet next (dgw_step b st) })"

definition dgw_initial :: dgw_state where
  "dgw_initial = \<lparr>blockCount = 1, sumTargets = UINT256_ZERO, nActualTimespan = 0, lastBlockTime = 0\<rparr>"

text \<open>The time span, limited to a third and to three times the target.\<close>

definition dgw_limit :: "int \<Rightarrow> int \<Rightarrow> int" where
  "dgw_limit nTarget nActual =
     (let nActual = (if nActual < nTarget div 3 then nTarget div 3 else nActual)
      in if nActual > nTarget * 3 then nTarget * 3 else nActual)"

definition dgw_result :: "dgw_state \<Rightarrow> u32 option" where
  "dgw_result st = do {
     darkTarget \<leftarrow> divide_u256 (sumTargets st) (set_u64 UINT256_ZERO 0 (word_of_nat (blockCount st)));
     let nTarget = int ((blockCount st - 1) * DGW_TARGET_TIMESPAN);
     let nActual = dgw_limit nTarget (sint (nActualTimespan st));
     darkTarget \<leftarrow> divide_u256 (multiplyThis32 darkTarget (word_of_int nActual)) (set_u64 UINT256_ZERO 0 (word_of_int nTarget));
     compact \<leftarrow> getCompact darkTarget;
     Some (if compact > MAX_PROOF_OF_WORK then MAX_PROOF_OF_WORK else compact)
   }"

definition DarkGravityWaveTarget :: "BRMerkleBlock \<Rightarrow> BRMerkleBlock BRSet \<Rightarrow> u32 option" where
  "DarkGravityWaveTarget previous blockSet = do {
     previousBlock \<leftarrow> BRSetGet blockSet previous;
     (case previousBlock of None \<Rightarrow> Some MAX_PROOF_OF_WORK
      | Some b \<Rightarrow>
        if height b = 0 \<or> height b < DGW_START_BLOCK then Some MAX_PROOF_OF_WORK
        else do { st \<leftarrow> dgw_loop DGW_PAST_BLOCKS blockSet (Some b) dgw_initial; dgw_result st })
   }"

text \<open>The static counter \<open>pastCount\<close> is passed in and returned; \<open>abs\<close> of the smallest \<open>int\<close> is undefined.\<close>

definition BRMerkleBlockVerifyDifficulty ::
  "BRMerkleBlock \<Rightarrow> BRMerkleBlock \<Rightarrow> BRMerkleBlock BRSet \<Rightarrow> nat \<Rightarrow> (bool \<times> nat) option" where
  "BRMerkleBlockVerifyDifficulty block previous blockSet pastCount =
     (let r = \<not> (\<not> UInt256Eq (prevBlock block) (blockHash previous) \<or> height block \<noteq> height previous + 1) in
      if height block \<ge> DGW_START_BLOCK then do {
        dgw \<leftarrow> DarkGravityWaveTarget previous blockSet;
        let diff = target block - dgw;
        if pastCount < DGW_PAST_BLOCKS
        then Some (if height block = 338778 then target block = 0x1b07cf3a else r, pastCount + 1)
        else if height block \<ge> 1219736 \<and> height block \<le> 1219916 then Some (True, pastCount)
        else if diff = 0x80000000 then None
        else Some (\<bar>sint diff\<bar> < 2, pastCount + 1)
      } else Some (r, pastCount))"


section \<open>The walks end\<close>

lemma shift_count_bound: "0 < x \<Longrightarrow> 2 ^ shift_count x \<le> x \<and> x < 2 ^ Suc (shift_count x)"
proof (induction x rule: shift_count.induct)
  case (1 x)
  show ?case
  proof (cases "x div 2 = 0")
    case True
    then have "x = 1" using 1(2) by (simp add: div_eq_0_iff)
    then show ?thesis by (simp add: shift_count.simps)
  next
    case False
    then have "2 ^ shift_count (x div 2) \<le> x div 2 \<and> x div 2 < 2 ^ Suc (shift_count (x div 2))" using 1 by simp
    then show ?thesis using False by (subst (1 2) shift_count.simps) auto
  qed
qed

lemma power_of_two_and:
  assumes "0 < n" "n < 2 ^ 31" "(word_of_nat n :: u32) AND (word_of_nat n - 1) = 0"
  shows "n = 2 ^ shift_count n"
proof (rule ccontr)
  let ?k = "shift_count n" and ?x = "word_of_nat n :: u32"
  assume "n \<noteq> 2 ^ ?k"
  then have b: "2 ^ ?k < n" "n < 2 ^ Suc ?k" using shift_count_bound [OF assms(1)] by auto
  have k: "?k < 31" using b(1) assms(2) power_less_imp_less_exp [of 2 ?k 31] by (meson less_trans nat_1_add_1 one_less_numeral_iff semiring_norm(76))
  have bit_n: "bit ?x ?k = odd (n div 2 ^ ?k)" "bit (?x - 1) ?k = odd ((n - 1) div 2 ^ ?k)"
  proof -
    have "?x - 1 = word_of_nat (n - 1)" using assms(1) by (simp add: of_nat_diff)
    then show "bit (?x - 1) ?k = odd ((n - 1) div 2 ^ ?k)" using k by (simp only: bit_of_nat_iff) (simp add: bit_iff_odd)
    show "bit ?x ?k = odd (n div 2 ^ ?k)" using k by (simp only: bit_of_nat_iff) (simp add: bit_iff_odd)
  qed
  have "n div 2 ^ ?k = 1" "(n - 1) div 2 ^ ?k = 1" using b by (auto intro!: div_nat_eqI)
  then have "bit (?x AND (?x - 1)) ?k" using bit_n by (simp add: bit_and_iff)
  then show False using assms(3) by simp
qed

lemma ceil_log2_spec:
  assumes "0 < n" "n < 2 ^ 31"
  shows "\<exists>h. ceil_log2 (word_of_nat n) = Some h \<and> n \<le> 2 ^ h \<and> 2 ^ h < 2 * n \<and> h \<le> 31"
proof -
  let ?k = "shift_count n"
  have u: "unat (word_of_nat n :: u32) = n" using assms(2) by (simp add: unat_word_of_nat_less)
  then have lt: "\<not> 2 ^ 31 \<le> (word_of_nat n :: u32)" using assms(2) by (simp add: word_le_nat_alt)
  have b: "2 ^ ?k \<le> n" "n < 2 ^ Suc ?k" using shift_count_bound [OF assms(1)] by auto
  have "(2 :: nat) ^ ?k < 2 ^ 31" using b(1) assms(2) by simp
  then have "?k < 31" by (rule power_less_imp_less_exp [rotated]) simp
  then have k: "?k \<le> 30" by simp
  show ?thesis
  proof (cases "(word_of_nat n :: u32) AND (word_of_nat n - 1) = 0")
    case True
    then have "n = 2 ^ ?k" using power_of_two_and assms by blast
    then show ?thesis using True lt u k assms(1) by (intro exI [of _ ?k]) (simp add: ceil_log2_def)
  next
    case False
    have "(2 ^ m :: u32) AND (2 ^ m - 1) = 0" for m
      unfolding mask_eq_exp_minus_1 [symmetric] by (rule bit_word_eqI) (auto simp: bit_simps)
    then have "(word_of_nat (2 ^ ?k) :: u32) AND (word_of_nat (2 ^ ?k) - 1) = 0" by simp
    then have "n \<noteq> 2 ^ ?k" using False by metis
    then show ?thesis using False lt u k b by (intro exI [of _ "Suc ?k"]) (simp add: ceil_log2_def)
  qed
qed

lemma ceil_log2_bound: "ceil_log2 x = Some h \<Longrightarrow> h \<le> 31"
proof -
  assume c: "ceil_log2 x = Some h"
  show "h \<le> 31"
  proof (cases "x = 0")
    case True
    then have "h = 0" using c by (simp add: ceil_log2_def shift_count.simps)
    then show ?thesis by simp
  next
    case False
    then have "0 < unat x" by (simp add: unat_gt_0)
    moreover have "unat x < 2 ^ 31" using c by (simp add: ceil_log2_def word_le_nat_alt split: if_splits)
    ultimately show ?thesis using ceil_log2_spec [of "unat x"] c by simp
  qed
qed

text \<open>A block whose arrays have the announced lengths.\<close>

definition block_ok :: "BRMerkleBlock \<Rightarrow> bool" where
  "block_ok b \<longleftrightarrow> (\<exists>hs. hashes b = Some hs \<and> length hs = hashesCount b) \<and> (\<exists>fl. flags b = Some fl \<and> length fl = flagsLen b) \<and>
     totalTx b < 2 ^ 31"

lemma block_ok_reads:
  assumes "block_ok b"
  shows "i div 8 < flagsLen b \<Longrightarrow> \<exists>f. block_flag b i = Some f" "i < hashesCount b \<Longrightarrow> \<exists>h. block_hash b i = Some h"
  using assms by (auto simp: block_ok_def block_flag_def block_hash_def rd_def)

lemma block_ok_log: "block_ok b \<Longrightarrow> \<exists>h. ceil_log2 (totalTx b) = Some h \<and> h \<le> 31"
proof -
  assume "block_ok b"
  then obtain h where "ceil_log2 (totalTx b) = Some h" by (auto simp: block_ok_def ceil_log2_def not_le)
  then show "\<exists>h. ceil_log2 (totalTx b) = Some h \<and> h \<le> 31" using ceil_log2_bound by blast
qed

lemma root_returns:
  assumes "block_ok b" "ceil_log2 (totalTx b) = Some h" "depth \<le> h" "h < depth + n"
  shows "\<exists>r. MerkleBlockRootR n b st depth = Some r"
  using assms(3,4)
proof (induction n arbitrary: st depth)
  case (Suc n)
  obtain hi fi where st: "st = (hi, fi)" by (cases st)
  show ?case
  proof (cases "fi div 8 < flagsLen b \<and> hi < hashesCount b")
    case True
    then obtain f x where f: "block_flag b fi = Some f" "block_hash b hi = Some x" using block_ok_reads [OF assms(1)] by blast
    show ?thesis
    proof (cases "f \<and> depth \<noteq> h")
      case inner: True
      then have d: "depth + 1 \<le> h" "h < depth + 1 + n" using Suc.prems by auto
      obtain h0 st0 where r0: "MerkleBlockRootR n b (hi, Suc fi) (Suc depth) = Some (h0, st0)" using Suc.IH [OF d] by (metis Suc_eq_plus1 surj_pair)
      obtain h1 hi1 fi1 where r1: "MerkleBlockRootR n b st0 (Suc depth) = Some (h1, hi1, fi1)" using Suc.IH [OF d] by (metis Suc_eq_plus1 surj_pair)
      show ?thesis using True f inner r0 r1 by (simp add: st inner_node_def assms(2))
    next
      case False
      then show ?thesis using True f by (auto simp: st inner_node_def assms(2))
    qed
  next
    case False
    then show ?thesis by (simp only: st MerkleBlockRootR.simps if_False) simp
  qed
qed simp

lemma tx_hashes_returns:
  assumes "block_ok b" "ceil_log2 (totalTx b) = Some h" "depth \<le> h" "h < depth + n"
  shows "\<exists>r. MerkleBlockTxHashesR n b cap st depth = Some r"
  using assms(3,4)
proof (induction n arbitrary: st depth)
  case (Suc n)
  obtain t ix hi fi where st: "st = (t, ix, hi, fi)" by (cases st)
  show ?case
  proof (cases "fi div 8 < flagsLen b \<and> hi < hashesCount b")
    case True
    then obtain f x where f: "block_flag b fi = Some f" "block_hash b hi = Some x" using block_ok_reads [OF assms(1)] by blast
    show ?thesis
    proof (cases "f \<and> depth \<noteq> h")
      case inner: True
      then have d: "depth + 1 \<le> h" "h < depth + 1 + n" using Suc.prems by auto
      obtain st0 where r0: "MerkleBlockTxHashesR n b cap (t, ix, hi, Suc fi) (Suc depth) = Some st0" using Suc.IH [OF d] by (metis Suc_eq_plus1)
      obtain r1 where r1: "MerkleBlockTxHashesR n b cap st0 (Suc depth) = Some r1" using Suc.IH [OF d] by (metis Suc_eq_plus1)
      show ?thesis using True f inner r0 r1 by (cases r1) (simp add: st inner_node_def assms(2))
    next
      case False
      then show ?thesis using True f by (cases t) (auto simp: st inner_node_def assms(2))
    qed
  next
    case False
    then show ?thesis by (simp only: st MerkleBlockTxHashesR.simps if_False) simp
  qed
qed simp


section \<open>The tree of BIP 37\<close>

text \<open>The rows of a merkle tree: pairs are hashed, and an odd element at the end is paired with itself.  The root is the
  single element of the last row; the height of a tree is the number of rows above its leaves.\<close>

definition node_hash :: "UInt256 \<Rightarrow> UInt256 \<Rightarrow> UInt256" where
  "node_hash x y = UInt256Get (SHA256 (SHA256 (UInt256Set x @ UInt256Set y)))"

fun pair_row :: "UInt256 list \<Rightarrow> UInt256 list" where
  "pair_row [] = []"
| "pair_row [x] = [node_hash x x]"
| "pair_row (x # y # zs) = node_hash x y # pair_row zs"

lemma length_pair_row_div: "length (pair_row xs) = (length xs + 1) div 2"
  by (induction xs rule: pair_row.induct) auto

function merkle_root :: "UInt256 list \<Rightarrow> UInt256" where
  "merkle_root ts = (if length ts \<le> 1 then hd ts else merkle_root (pair_row ts))"
  by pat_completeness auto

termination
  by (relation "measure length") (auto simp: length_pair_row_div)

function tree_height :: "nat \<Rightarrow> nat" where
  "tree_height n = (if n \<le> 1 then 0 else Suc (tree_height ((n + 1) div 2)))"
  by pat_completeness auto

termination
  by (relation "measure id") auto

declare merkle_root.simps [simp del] tree_height.simps [simp del]

lemma tree_height_1: "tree_height (Suc 0) = 0"
  by (subst tree_height.simps) simp

lemma tree_height_bounds: "0 < n \<Longrightarrow> n \<le> 2 ^ tree_height n \<and> 2 ^ tree_height n < 2 * n"
proof (induction n rule: tree_height.induct)
  case (1 n)
  show ?case
  proof (cases "n \<le> 1")
    case False
    let ?m = "(n + 1) div 2"
    have h: "tree_height n = Suc (tree_height ?m)" using False by (subst tree_height.simps) simp
    have b: "?m \<le> 2 ^ tree_height ?m" "2 ^ tree_height ?m < 2 * ?m" using 1(1) False by simp_all
    have "2 ^ tree_height ?m < n"
    proof (cases "tree_height ?m")
      case (Suc k)
      have "2 * ?m \<le> n + 1" by simp
      moreover have "2 * ?m = n" if "even n" using that by simp
      moreover have "(2 :: nat) ^ tree_height ?m = 2 * 2 ^ k" unfolding Suc by simp
      ultimately show ?thesis using b(2) by (cases "even n") presburger+
    qed (use False in simp)
    moreover have "n \<le> 2 * ?m" by presburger
    ultimately show ?thesis unfolding h using b(1) by simp
  qed (use 1(2) in \<open>simp add: tree_height.simps [of n]\<close>)
qed

lemma height_unique:
  assumes "n \<le> 2 ^ h" "2 ^ h < 2 * n" "n \<le> 2 ^ k" "2 ^ k < 2 * (n :: nat)"
  shows "h = k"
proof -
  have "(2 :: nat) ^ h < 2 ^ Suc k" "(2 :: nat) ^ k < 2 ^ Suc h" using assms by simp_all
  then have "h < Suc k" "k < Suc h" using power_less_imp_less_exp one_less_numeral_iff semiring_norm(76) by blast+
  then show ?thesis by simp
qed

lemma merkle_root_rows: "ts \<noteq> [] \<Longrightarrow> (pair_row ^^ tree_height (length ts)) ts = [merkle_root ts]"
proof (induction ts rule: merkle_root.induct)
  case (1 ts)
  show ?case
  proof (cases "length ts \<le> 1")
    case True
    then have "length ts = 1" using 1(2) by (cases ts) auto
    moreover note tree_height_1
    moreover have "merkle_root ts = hd ts" using True by (subst merkle_root.simps) simp
    ultimately show ?thesis by (cases ts) auto
  next
    case False
    have "tree_height (length ts) = Suc (tree_height (length (pair_row ts)))"
      using False by (subst tree_height.simps) (simp add: length_pair_row_div)
    moreover have "pair_row ts \<noteq> []" using False length_pair_row_div [of ts] by (cases "pair_row ts") auto
    moreover have "merkle_root ts = merkle_root (pair_row ts)" using False by (subst merkle_root.simps) simp
    ultimately show ?thesis using 1(1) False by (simp add: funpow_Suc_right del: funpow.simps)
  qed
qed

text \<open>The same tree from the top, over leaves that are at most \<open>2\<^sup>h\<close>.\<close>

fun tree_hash :: "nat \<Rightarrow> UInt256 list \<Rightarrow> UInt256" where
  "tree_hash 0 ts = hd ts"
| "tree_hash (Suc h) ts =
     (let l = tree_hash h (take (2 ^ h) ts) in node_hash l (if length ts \<le> 2 ^ h then l else tree_hash h (drop (2 ^ h) ts)))"

lemma pair_row_append: "even (length xs) \<Longrightarrow> pair_row (xs @ ys) = pair_row xs @ pair_row ys"
  by (induction xs rule: pair_row.induct) auto

lemma length_pair_row: "even (length xs) \<Longrightarrow> length (pair_row xs) = length xs div 2"
  by (induction xs rule: pair_row.induct) auto

lemma rows_append: "2 ^ h dvd length xs \<Longrightarrow> (pair_row ^^ h) (xs @ ys) = (pair_row ^^ h) xs @ (pair_row ^^ h) ys"
proof (induction h arbitrary: xs ys)
  case (Suc h)
  have ev: "even (length xs)" using Suc.prems dvd_trans [of 2 "2 ^ Suc h"] by simp
  then have "2 ^ h dvd length (pair_row xs)" using Suc.prems by (auto simp: length_pair_row elim!: dvdE)
  then show ?case using Suc.IH ev by (simp add: funpow_Suc_right pair_row_append del: funpow.simps)
qed simp

lemma rows_tree_hash: "0 < length ts \<Longrightarrow> length ts \<le> 2 ^ h \<Longrightarrow> (pair_row ^^ h) ts = [tree_hash h ts]"
proof (induction h arbitrary: ts)
  case 0
  then show ?case by (cases ts) auto
next
  case (Suc h)
  show ?case
  proof (cases "length ts \<le> 2 ^ h")
    case True
    then show ?thesis using Suc.IH [of ts] Suc.prems by (simp add: Let_def)
  next
    case False
    let ?l = "take (2 ^ h) ts" and ?r = "drop (2 ^ h) ts"
    have "(pair_row ^^ h) (?l @ ?r) = (pair_row ^^ h) ?l @ (pair_row ^^ h) ?r" using False by (intro rows_append) simp
    also have "\<dots> = [tree_hash h ?l, tree_hash h ?r]" using False Suc.prems by (simp add: Suc.IH)
    finally have "(pair_row ^^ h) ts = [tree_hash h ?l, tree_hash h ?r]" by simp
    then show ?thesis using False by (simp add: Let_def)
  qed
qed

text \<open>The encoding of a tree whose leaves are transaction hashes with the information whether they match: flag bits and hashes in
  depth-first order.\<close>

fun tree_bits :: "nat \<Rightarrow> (UInt256 \<times> bool) list \<Rightarrow> bool list" where
  "tree_bits 0 ts = [snd (hd ts)]"
| "tree_bits (Suc h) ts =
     (if list_ex snd ts
      then True # tree_bits h (take (2 ^ h) ts) @ (if length ts \<le> 2 ^ h then [] else tree_bits h (drop (2 ^ h) ts))
      else [False])"

fun tree_hashes :: "nat \<Rightarrow> (UInt256 \<times> bool) list \<Rightarrow> UInt256 list" where
  "tree_hashes 0 ts = [fst (hd ts)]"
| "tree_hashes (Suc h) ts =
     (if list_ex snd ts
      then tree_hashes h (take (2 ^ h) ts) @ (if length ts \<le> 2 ^ h then [] else tree_hashes h (drop (2 ^ h) ts))
      else [tree_hash (Suc h) (map fst ts)])"

text \<open>A tree that the defence against duplicated hashes does not reject.\<close>

fun distinct_nodes :: "nat \<Rightarrow> UInt256 list \<Rightarrow> bool" where
  "distinct_nodes 0 ts \<longleftrightarrow> hd ts \<noteq> 0"
| "distinct_nodes (Suc h) ts \<longleftrightarrow> tree_hash (Suc h) ts \<noteq> 0 \<and> distinct_nodes h (take (2 ^ h) ts) \<and>
     (length ts \<le> 2 ^ h \<or> distinct_nodes h (drop (2 ^ h) ts) \<and> tree_hash h (take (2 ^ h) ts) \<noteq> tree_hash h (drop (2 ^ h) ts))"

lemma distinct_nodes_root: "distinct_nodes h ts \<Longrightarrow> tree_hash h ts \<noteq> 0"
  by (cases h) simp_all

fun bits_at :: "BRMerkleBlock \<Rightarrow> nat \<Rightarrow> bool list \<Rightarrow> bool" where
  "bits_at b fi [] \<longleftrightarrow> True"
| "bits_at b fi (x # xs) \<longleftrightarrow> fi div 8 < flagsLen b \<and> block_flag b fi = Some x \<and> bits_at b (Suc fi) xs"

fun hashes_at :: "BRMerkleBlock \<Rightarrow> nat \<Rightarrow> UInt256 list \<Rightarrow> bool" where
  "hashes_at b hi [] \<longleftrightarrow> True"
| "hashes_at b hi (x # xs) \<longleftrightarrow> hi < hashesCount b \<and> block_hash b hi = Some x \<and> hashes_at b (Suc hi) xs"

lemma hash_pair_eq: "hash_pair x y = node_hash x y"
  by (simp add: hash_pair_def node_hash_def SHA256_2_def Let_def)

lemma bits_at_append [simp]: "bits_at b fi (xs @ ys) \<longleftrightarrow> bits_at b fi xs \<and> bits_at b (fi + length xs) ys"
  by (induction xs arbitrary: fi) auto

lemma hashes_at_append [simp]: "hashes_at b hi (xs @ ys) \<longleftrightarrow> hashes_at b hi xs \<and> hashes_at b (hi + length xs) ys"
  by (induction xs arbitrary: hi) auto

lemma list_ex_take_drop: "list_ex P ts \<longleftrightarrow> list_ex P (take n ts) \<or> list_ex P (drop n ts)"
  by (metis append_take_drop_id list_ex_append)

lemma tree_hashes_nonempty: "tree_hashes h ts \<noteq> []"
  by (induction h arbitrary: ts) auto

lemma root_walk:
  assumes "ceil_log2 (totalTx b) = Some (depth + h)" "h < n" "0 < length ts" "length ts \<le> 2 ^ h" "distinct_nodes h (map fst ts)"
    "bits_at b fi (tree_bits h ts)" "hashes_at b hi (tree_hashes h ts)"
    "length ts = 2 ^ h \<or> hi + length (tree_hashes h ts) = hashesCount b"
  shows "MerkleBlockRootR n b (hi, fi) depth =
     Some (tree_hash h (map fst ts), hi + length (tree_hashes h ts), fi + length (tree_bits h ts))"
  using assms
proof (induction h arbitrary: n depth ts hi fi)
  case 0
  then obtain m where n: "n = Suc m" by (cases n) auto
  obtain t where "ts = [t]" using "0.prems" by (cases ts) auto
  then show ?case using "0.prems" by (auto simp: n inner_node_def)
next
  case (Suc h)
  obtain m where n: "n = Suc m" "h < m" using Suc.prems(2) by (cases n) auto
  show ?case
  proof (cases "list_ex snd ts")
    case False
    then show ?thesis using Suc.prems by (simp add: n inner_node_def)
  next
    case True
    let ?l = "take (2 ^ h) ts" and ?r = "drop (2 ^ h) ts"
    let ?hi = "hi + length (tree_hashes h ?l)" and ?fi = "Suc fi + length (tree_bits h ?l)"
    have log: "ceil_log2 (totalTx b) = Some (Suc depth + h)" using Suc.prems(1) by simp
    have l: "MerkleBlockRootR m b (hi, Suc fi) (Suc depth) = Some (tree_hash h (map fst ?l), ?hi, ?fi)"
    proof (rule Suc.IH [OF log n(2)])
      show "distinct_nodes h (map fst ?l)" using Suc.prems(5) by (simp add: take_map)
      show "length ?l = 2 ^ h \<or> ?hi = hashesCount b" using Suc.prems(8) True by (cases "length ts \<le> 2 ^ h") auto
    qed (use Suc.prems True in simp_all)
    have nz: "tree_hash h (map fst ?l) \<noteq> 0" by (rule distinct_nodes_root) (use Suc.prems(5) in \<open>simp add: take_map\<close>)
    have flag: "fi div 8 < flagsLen b" "hi < hashesCount b" "block_flag b fi = Some True"
      using Suc.prems True tree_hashes_nonempty [of h ?l] by (auto simp: neq_Nil_conv)
    show ?thesis
    proof (cases "length ts \<le> 2 ^ h")
      case short: True
      then have "?hi = hashesCount b" using Suc.prems(8) True by (auto dest: arg_cong [of _ _ "\<lambda>k. k \<le> 2 ^ h"])
      then have "MerkleBlockRootR m b (?hi, ?fi) (Suc depth) = Some (UINT256_ZERO, ?hi, ?fi)"
        using n(2) by (cases m) auto
      then show ?thesis using flag log l nz short True
        by (simp add: n inner_node_def UInt256IsZero_iff UInt256Eq_iff Let_def take_map UINT256_ZERO_def hash_pair_eq)
    next
      case long: False
      have r: "MerkleBlockRootR m b (?hi, ?fi) (Suc depth) =
          Some (tree_hash h (map fst ?r), ?hi + length (tree_hashes h ?r), ?fi + length (tree_bits h ?r))"
      proof (rule Suc.IH [OF log n(2)])
        show "distinct_nodes h (map fst ?r)" using Suc.prems(5) long by (simp add: drop_map)
        show "length ?r = 2 ^ h \<or> ?hi + length (tree_hashes h ?r) = hashesCount b" using Suc.prems(8) True long by auto
      qed (use Suc.prems True long in simp_all)
      have "tree_hash h (map fst ?r) \<noteq> 0" by (rule distinct_nodes_root) (use Suc.prems(5) long in \<open>simp add: drop_map\<close>)
      moreover have "tree_hash h (map fst ?l) \<noteq> tree_hash h (map fst ?r)"
        using Suc.prems(5) long by (simp add: take_map drop_map)
      ultimately show ?thesis using flag log l r nz long True
        by (simp add: n inner_node_def UInt256IsZero_iff UInt256Eq_iff Let_def take_map drop_map UINT256_ZERO_def hash_pair_eq)
    qed
  qed
qed


definition matched :: "(UInt256 \<times> bool) list \<Rightarrow> UInt256 list" where
  "matched ts = map fst (filter snd ts)"

lemma matched_take_drop: "matched (take n ts) @ matched (drop n ts) = matched ts"
  by (simp add: matched_def flip: map_append filter_append)

lemma matched_none: "\<not> list_ex snd ts \<Longrightarrow> matched ts = []"
  by (simp add: matched_def list_ex_iff filter_empty_conv)

text \<open>What the walk that collects the matched transactions does with its array.\<close>

definition collect :: "UInt256 list \<Rightarrow> UInt256 list option \<times> nat \<Rightarrow> UInt256 list option \<times> nat" where
  "collect ms = (\<lambda>(t, idx). (map_option (put idx ms) t, idx + length ms))"

lemma put_Nil [simp]: "idx \<le> length t \<Longrightarrow> put idx [] t = t"
  by (simp add: put_def)

lemma put_one: "idx < length t \<Longrightarrow> put idx [x] t = t[idx := x]"
  by (simp add: put_def upd_conv_take_nth_drop)

lemma collect_append:
  assumes "\<forall>a. t = Some a \<longrightarrow> idx + length xs + length ys \<le> length a"
  shows "collect ys (collect xs (t, idx)) = collect (xs @ ys) (t, idx)"
  using assms by (cases t) (auto simp: collect_def put_def drop_append_ge ac_simps)

lemma tx_walk:
  assumes "ceil_log2 (totalTx b) = Some (depth + h)" "h < n" "0 < length ts" "length ts \<le> 2 ^ h"
    "bits_at b fi (tree_bits h ts)" "hashes_at b hi (tree_hashes h ts)"
    "length ts = 2 ^ h \<or> hi + length (tree_hashes h ts) = hashesCount b"
    "idx + length (matched ts) \<le> cap" "\<forall>a. t = Some a \<longrightarrow> length a = cap"
  shows "MerkleBlockTxHashesR n b cap (t, idx, hi, fi) depth =
     Some (fst (collect (matched ts) (t, idx)), snd (collect (matched ts) (t, idx)), hi + length (tree_hashes h ts), fi + length (tree_bits h ts))"
  using assms
proof (induction h arbitrary: n depth ts hi fi t idx)
  case 0
  then obtain m where n: "n = Suc m" by (cases n) auto
  obtain x where "ts = [x]" using "0.prems" by (cases ts) auto
  then show ?case using "0.prems" by (cases t; cases "snd x") (auto simp: n inner_node_def matched_def collect_def put_one)
next
  case (Suc h)
  obtain m where n: "n = Suc m" "h < m" using Suc.prems(2) by (cases n) auto
  show ?case
  proof (cases "list_ex snd ts")
    case False
    then show ?thesis using Suc.prems by (cases t) (auto simp: n inner_node_def matched_none collect_def)
  next
    case True
    let ?l = "take (2 ^ h) ts" and ?r = "drop (2 ^ h) ts"
    let ?hi = "hi + length (tree_hashes h ?l)" and ?fi = "Suc fi + length (tree_bits h ?l)"
    let ?t = "fst (collect (matched ?l) (t, idx))" and ?idx = "snd (collect (matched ?l) (t, idx))"
    have log: "ceil_log2 (totalTx b) = Some (Suc depth + h)" using Suc.prems(1) by simp
    have len: "length (matched ts) = length (matched ?l) + length (matched ?r)"
      using arg_cong [OF matched_take_drop, of length "2 ^ h" ts] by simp
    have l: "MerkleBlockTxHashesR m b cap (t, idx, hi, Suc fi) (Suc depth) = Some (?t, ?idx, ?hi, ?fi)"
    proof (rule Suc.IH [OF log n(2)])
      show "length ?l = 2 ^ h \<or> ?hi = hashesCount b" using Suc.prems(7) True by (cases "length ts \<le> 2 ^ h") auto
    qed (use Suc.prems True len in simp_all)
    have flag: "fi div 8 < flagsLen b" "hi < hashesCount b" "block_flag b fi = Some True"
      using Suc.prems True tree_hashes_nonempty [of h ?l] by (auto simp: neq_Nil_conv)
    show ?thesis
    proof (cases "length ts \<le> 2 ^ h")
      case short: True
      then have "?hi = hashesCount b" using Suc.prems(7) True by (auto dest: arg_cong [of _ _ "\<lambda>k. k \<le> 2 ^ h"])
      then have "MerkleBlockTxHashesR m b cap (?t, ?idx, ?hi, ?fi) (Suc depth) = Some (?t, ?idx, ?hi, ?fi)"
        using n(2) by (cases m) auto
      then show ?thesis using flag log l short True by (simp add: n inner_node_def)
    next
      case long: False
      have cap: "?idx + length (matched ?r) \<le> cap" "\<forall>a. ?t = Some a \<longrightarrow> length a = cap"
        using Suc.prems(8,9) len by (auto simp: collect_def)
      have "MerkleBlockTxHashesR m b cap (?t, ?idx, ?hi, ?fi) (Suc depth) =
          Some (fst (collect (matched ?r) (?t, ?idx)), snd (collect (matched ?r) (?t, ?idx)),
            ?hi + length (tree_hashes h ?r), ?fi + length (tree_bits h ?r))"
      proof (rule Suc.IH [OF log n(2)])
        show "length ?r = 2 ^ h \<or> ?hi + length (tree_hashes h ?r) = hashesCount b" using Suc.prems(7) True long by auto
      qed (use Suc.prems True long cap in simp_all)
      moreover have "collect (matched ?r) (?t, ?idx) = collect (matched ts) (t, idx)"
        using collect_append [of t idx "matched ?l" "matched ?r"] Suc.prems(8,9) len by (simp add: matched_take_drop)
      ultimately show ?thesis using flag log l long True by (simp add: n inner_node_def)
    qed
  qed
qed

text \<open>Flag bits as bytes, the first bit in the lowest place.\<close>

definition pack_bits :: "bool list \<Rightarrow> bytes" where
  "pack_bits bs = map (\<lambda>k. horner_sum of_bool 2 (take 8 (drop (8 * k) bs))) [0..<(length bs + 7) div 8]"

lemma pack_flag:
  assumes "flags b = Some (pack_bits bs)" "i < length bs"
  shows "block_flag b i = Some (bs ! i)" "i div 8 < length (pack_bits bs)"
proof -
  show lt: "i div 8 < length (pack_bits bs)" using assms(2) by (simp add: pack_bits_def)
  have "bit (pack_bits bs ! (i div 8)) (i mod 8) = bs ! (8 * (i div 8) + i mod 8)"
    using lt assms(2) by (subst nth_drop [symmetric]) (auto simp: pack_bits_def bit_horner_sum_bit_word_iff less_diff_conv)
  then show "block_flag b i = Some (bs ! i)"
    using lt assms(1) by (simp add: block_flag_def rd_def and_exp_eq_0_iff_not_bit)
qed

lemma bits_at_pack: "flags b = Some (pack_bits (xs @ ys)) \<Longrightarrow> flagsLen b = length (pack_bits (xs @ ys)) \<Longrightarrow> bits_at b (length xs) ys"
proof (induction ys arbitrary: xs)
  case (Cons y ys)
  then have "bits_at b (length (xs @ [y])) ys" by (intro Cons.IH) simp_all
  then show ?case using pack_flag [OF Cons.prems(1), of "length xs"] Cons.prems(2) by simp
qed simp

lemma hashes_at_all: "hashes b = Some (xs @ ys) \<Longrightarrow> hashesCount b = length (xs @ ys) \<Longrightarrow> hashes_at b (length xs) ys"
proof (induction ys arbitrary: xs)
  case (Cons y ys)
  then have "hashes_at b (length (xs @ [y])) ys" by (intro Cons.IH) simp_all
  then show ?case using Cons.prems by (simp add: block_hash_def rd_def)
qed simp

text \<open>The block carries the partial tree of the transactions \<open>ts\<close>.\<close>

definition carries_tree :: "BRMerkleBlock \<Rightarrow> (UInt256 \<times> bool) list \<Rightarrow> bool" where
  "carries_tree b ts \<longleftrightarrow> ts \<noteq> [] \<and> length ts < 2 ^ 31 \<and> totalTx b = word_of_nat (length ts) \<and>
     (let h = tree_height (length ts) in
      hashes b = Some (tree_hashes h ts) \<and> hashesCount b = length (tree_hashes h ts) \<and>
      flags b = Some (pack_bits (tree_bits h ts)) \<and> flagsLen b = length (pack_bits (tree_bits h ts)) \<and>
      distinct_nodes h (map fst ts))"

lemma ceil_log2_height:
  assumes "0 < n" "n < 2 ^ 31"
  shows "ceil_log2 (word_of_nat n) = Some (tree_height n)"
  using ceil_log2_spec [OF assms] tree_height_bounds [OF assms(1)] height_unique by blast

lemma carries_tree_walk:
  assumes "carries_tree b ts"
  obtains h where "h = tree_height (length ts)" "ceil_log2 (totalTx b) = Some h" "length ts \<le> 2 ^ h" "h \<le> 31"
    "bits_at b 0 (tree_bits h ts)" "hashes_at b 0 (tree_hashes h ts)" "hashesCount b = length (tree_hashes h ts)"
    "distinct_nodes h (map fst ts)"
proof -
  have n: "0 < length ts" "length ts < 2 ^ 31" "totalTx b = word_of_nat (length ts)"
    using assms by (auto simp: carries_tree_def)
  define h where "h = tree_height (length ts)"
  have h: "ceil_log2 (totalTx b) = Some h" "length ts \<le> 2 ^ h"
    using ceil_log2_height [OF n(1,2)] tree_height_bounds [OF n(1)] n(3) by (simp_all add: h_def)
  have "hashes b = Some ([] @ tree_hashes h ts)" "hashesCount b = length ([] @ tree_hashes h ts)"
    "flags b = Some (pack_bits ([] @ tree_bits h ts))" "flagsLen b = length (pack_bits ([] @ tree_bits h ts))"
    "distinct_nodes h (map fst ts)" using assms by (auto simp: carries_tree_def Let_def h_def)
  then show ?thesis
    using that [OF h_def h ceil_log2_bound [OF h(1)]] bits_at_pack [of b "[]" "tree_bits h ts"]
      hashes_at_all [of b "[]" "tree_hashes h ts"] by simp
qed

text \<open>C16: the two walks over a partial merkle tree decode what BIP 37 encodes.  For a block that carries the encoding of a list of
  transactions, of which some match, in a tree of the height at which the rows of pairs come down to one element, the root
  computed is the merkle root of all the transactions: the rows of double SHA-256 hashes of pairs, an odd element paired with
  itself, repeated until one element is left.  The transactions reported, to an array of the announced size, are the matching ones
  in their order.  The tree must have no zero hash and no two equal siblings.\<close>

theorem merkle_tree_decode:
  assumes "carries_tree b ts"
  shows "map_option fst (MerkleBlockRootR 32 b (0, 0) 0) = Some (merkle_root (map fst ts)) \<and>
     BRMerkleBlockTxHashes b None = Some (None, length (matched ts)) \<and>
     (\<forall>a. length a = length (matched ts) \<longrightarrow> BRMerkleBlockTxHashes b (Some a) = Some (Some (matched ts), length (matched ts)))"
proof -
  obtain h where h: "h = tree_height (length ts)" "ceil_log2 (totalTx b) = Some h" "length ts \<le> 2 ^ h" "h \<le> 31"
    "bits_at b 0 (tree_bits h ts)" "hashes_at b 0 (tree_hashes h ts)" "hashesCount b = length (tree_hashes h ts)"
    "distinct_nodes h (map fst ts)"
    by (rule carries_tree_walk [OF assms])
  have ne: "0 < length ts" using assms by (simp add: carries_tree_def)
  have le: "length (matched ts) \<le> SIZE_MAX"
  proof -
    have "length ts < 2 ^ 31" using assms by (simp add: carries_tree_def)
    moreover have "length (matched ts) \<le> length ts" by (simp add: matched_def)
    ultimately show ?thesis by simp
  qed
  note walk = tx_walk [where depth = 0 and h = h and n = 32 and b = b and ts = ts and fi = 0 and hi = 0 and idx = 0]
  have "MerkleBlockRootR 32 b (0, 0) 0 = Some (tree_hash h (map fst ts), length (tree_hashes h ts), length (tree_bits h ts))"
    using root_walk [of b 0 h 32 ts 0 0] h(2-) ne by simp
  moreover have "tree_hash h (map fst ts) = merkle_root (map fst ts)"
    using rows_tree_hash [of "map fst ts" h] merkle_root_rows [of "map fst ts"] h(1,3) ne by simp
  moreover have "BRMerkleBlockTxHashes b None = Some (None, length (matched ts))"
    using walk [of SIZE_MAX None] h(2-) ne le by (simp add: BRMerkleBlockTxHashes_def collect_def)
  moreover have "BRMerkleBlockTxHashes b (Some a) = Some (Some (matched ts), length (matched ts))" if "length a = length (matched ts)" for a
    using walk [of "length a" "Some a"] h(2-) ne that by (simp add: BRMerkleBlockTxHashes_def collect_def put_def)
  ultimately show ?thesis by simp
qed


theorem merkle_tree_decode_witness:
  "BRMerkleBlockTxHashes (BRMerkleBlockNew\<lparr>totalTx := 1, hashes := Some [7], hashesCount := 1, flags := Some [1], flagsLen := 1\<rparr>) (Some [0])
     = Some (Some [7], 1) \<and>
   map_option fst (MerkleBlockRootR 32
     (BRMerkleBlockNew\<lparr>totalTx := 1, hashes := Some [7], hashesCount := 1, flags := Some [1], flagsLen := 1\<rparr>) (0, 0) 0) = Some 7"
proof -
  let ?b = "BRMerkleBlockNew\<lparr>totalTx := 1, hashes := Some [7], hashesCount := 1, flags := Some [1], flagsLen := 1\<rparr>"
  have "merkle_root [7] = 7" by (subst merkle_root.simps) simp
  moreover have "carries_tree ?b [(7, True)]" by (simp add: carries_tree_def pack_bits_def tree_height_1)
  from merkle_tree_decode [OF this] have "\<forall>a. length a = 1 \<longrightarrow> BRMerkleBlockTxHashes ?b (Some a) = Some (Some [7], 1)"
    "map_option fst (MerkleBlockRootR 32 ?b (0, 0) 0) = Some (merkle_root [7])"
    by (auto simp: matched_def)
  ultimately show ?thesis by simp
qed

text \<open>The walks stop on every input.  For a block whose arrays have the announced lengths and whose transaction count is below \<open>2\<^sup>31\<close>,
  whatever the flag bits and hashes are, both walks return without reading outside the arrays; for a larger count the first
  set flag bit makes \<open>_ceil_log2\<close> shift a negative number for ever.\<close>

theorem merkle_walks_return:
  assumes "\<exists>hs. hashes b = Some hs \<and> length hs = hashesCount b" "\<exists>fl. flags b = Some fl \<and> length fl = flagsLen b"
  shows "(totalTx b < 2 ^ 31 \<longrightarrow> MerkleBlockRootR 32 b (0, 0) 0 \<noteq> None \<and> BRMerkleBlockTxHashes b a \<noteq> None) \<and>
     (2 ^ 31 \<le> totalTx b \<and> 0 < hashesCount b \<and> 0 < flagsLen b \<and> block_flag b 0 = Some True \<longrightarrow>
        MerkleBlockRootR 32 b (0, 0) 0 = None \<and> BRMerkleBlockTxHashes b a = None)"
proof (intro conjI impI)
  assume "totalTx b < 2 ^ 31"
  then have ok: "block_ok b" using assms by (simp add: block_ok_def)
  then obtain h where h: "ceil_log2 (totalTx b) = Some h" "h \<le> 31" using block_ok_log by blast
  then show "MerkleBlockRootR 32 b (0, 0) 0 \<noteq> None" using root_returns [OF ok h(1), of 0 32 "(0, 0)"] by auto
  show "BRMerkleBlockTxHashes b a \<noteq> None"
    using tx_hashes_returns [OF ok h(1), of 0 32 "case a of None \<Rightarrow> SIZE_MAX | Some t \<Rightarrow> length t" "(a, 0, 0, 0)"] h(2)
    by (auto simp: BRMerkleBlockTxHashes_def)
next
  assume big: "2 ^ 31 \<le> totalTx b \<and> 0 < hashesCount b \<and> 0 < flagsLen b \<and> block_flag b 0 = Some True"
  then have "ceil_log2 (totalTx b) = None" by (simp add: ceil_log2_def)
  then have stuck: "MerkleBlockRootR (Suc n) b (0, 0) 0 = None" "MerkleBlockTxHashesR (Suc n) b cap (a, 0, 0, 0) 0 = None" for n cap
    using big by (simp_all add: inner_node_def)
  have n32: "(32 :: nat) = Suc 31" by simp
  show "MerkleBlockRootR 32 b (0, 0) 0 = None" by (simp only: n32 stuck)
  show "BRMerkleBlockTxHashes b a = None" by (simp only: BRMerkleBlockTxHashes_def n32 stuck) simp
qed

theorem merkle_walks_return_witness:
  "MerkleBlockRootR 32 (BRMerkleBlockNew\<lparr>totalTx := 5, hashes := Some [7, 7], hashesCount := 2, flags := Some [255], flagsLen := 1\<rparr>) (0, 0) 0 \<noteq> None"
  using merkle_walks_return [of "BRMerkleBlockNew\<lparr>totalTx := 5, hashes := Some [7, 7], hashesCount := 2, flags := Some [255], flagsLen := 1\<rparr>" None]
  by simp

text \<open>C17: a transaction that the walk reports as matched need not be in the block.  Take any block, its header \<open>b\<close>, with three
  transactions, the first two hashed to \<open>m\<close> and the third, \<open>tc\<close>, matched.  A peer that announces eight transactions and puts any
  hash \<open>x\<close> twice into a subtree beside \<open>tc\<close> makes the defence against equal siblings return a zero hash for that subtree; the level
  above takes the zero for a missing branch and doubles \<open>tc\<close>.  The forged message has the same root as the honest one and is valid
  exactly when the honest one is, and \<open>x\<close> is reported as included.\<close>

theorem merkle_forged_match:
  assumes "tc \<noteq> 0" "x \<noteq> 0"
    "honest = b\<lparr>totalTx := 3, hashes := Some [m, tc], hashesCount := 2, flags := Some [0x0d], flagsLen := 1\<rparr>"
    "forged = b\<lparr>totalTx := 8, hashes := Some [m, tc, x, x], hashesCount := 4, flags := Some [0x75], flagsLen := 1\<rparr>"
  shows "BRMerkleBlockTxHashes honest (Some [0]) = Some (Some [tc], 1) \<and> BRMerkleBlockTxHashes forged (Some [0, 0]) = Some (Some [x, x], 2) \<and>
     map_option fst (MerkleBlockRootR 32 forged (0, 0) 0) = map_option fst (MerkleBlockRootR 32 honest (0, 0) 0) \<and>
     BRMerkleBlockIsValid forged now = BRMerkleBlockIsValid honest now"
proof -
  have log: "ceil_log2 8 = Some 3" "ceil_log2 3 = Some 2" by (simp_all add: ceil_log2_def shift_count.simps word_le_nat_alt)
  have ff: "block_flag forged i = Some ([True, False, True, False, True, True, True] ! i)" if "i < 7" for i
  proof -
    have "i \<in> {0, 1, 2, 3, 4, 5, 6}" using that by auto
    then show ?thesis using assms(4) by (auto simp: block_flag_def rd_def)
  qed
  have fh: "block_flag honest i = Some ([True, False, True, True] ! i)" if "i < 4" for i
  proof -
    have "i \<in> {0, 1, 2, 3}" using that by auto
    then show ?thesis using assms(3) by (auto simp: block_flag_def rd_def)
  qed
  have hf: "block_hash forged i = Some ([m, tc, x, x] ! i)" if "i < 4" for i
    using that assms(4) by (simp add: block_hash_def rd_def)
  have hh: "block_hash honest i = Some ([m, tc] ! i)" if "i < 2" for i
    using that assms(3) by (simp add: block_hash_def rd_def)
  have bf: "totalTx forged = 8" "hashesCount forged = 4" "flagsLen forged = 1" using assms(4) by simp_all
  have bh: "totalTx honest = 3" "hashesCount honest = 2" "flagsLen honest = 1" using assms(3) by simp_all
  note forged = bf ff hf inner_node_def log and honest = bh fh hh inner_node_def log
  have n32: "(32 :: nat) = Suc (Suc (Suc (Suc 28)))" by simp
  define d where "d = hash_pair tc tc"
  define r where "r = (if m \<noteq> 0 \<and> m \<noteq> d then hash_pair m (if d = 0 then m else d) else 0)"
  have "map_option fst (MerkleBlockRootR (Suc (Suc (Suc (Suc n)))) forged (0, 0) 0) = Some r" for n
    using assms(1,2) by (simp add: forged UInt256IsZero_iff UInt256Eq_iff UINT256_ZERO_def r_def d_def)
  from this [of 28, folded n32] have rf: "map_option fst (MerkleBlockRootR 32 forged (0, 0) 0) = Some r" .
  have "map_option fst (MerkleBlockRootR (Suc (Suc (Suc (Suc n)))) honest (0, 0) 0) = Some r" for n
    using assms(1) by (simp add: honest UInt256IsZero_iff UInt256Eq_iff UINT256_ZERO_def r_def d_def)
  from this [of 28, folded n32] have rh: "map_option fst (MerkleBlockRootR 32 honest (0, 0) 0) = Some r" .
  have "MerkleBlockTxHashesR (Suc (Suc (Suc (Suc n)))) forged 2 (Some [0, 0], 0, 0, 0) 0 = Some (Some [x, x], 2, 4, 7)" for n
    by (simp add: forged)
  from this [of 28, folded n32] have "BRMerkleBlockTxHashes forged (Some [0, 0]) = Some (Some [x, x], 2)"
    by (simp add: BRMerkleBlockTxHashes_def numeral_2_eq_2)
  moreover have "MerkleBlockTxHashesR (Suc (Suc (Suc (Suc n)))) honest 1 (Some [0], 0, 0, 0) 0 = Some (Some [tc], 1, 2, 4)" for n
    by (simp add: honest)
  from this [of 28, folded n32] have "BRMerkleBlockTxHashes honest (Some [0]) = Some (Some [tc], 1)"
    by (simp add: BRMerkleBlockTxHashes_def)
  moreover have "BRMerkleBlockIsValid forged now = BRMerkleBlockIsValid honest now"
    using rf rh assms(3,4) by (auto simp: BRMerkleBlockIsValid_def Let_def)
  ultimately show ?thesis by (simp only: rf rh)
qed

theorem merkle_forged_match_witness:
  "BRMerkleBlockTxHashes (BRMerkleBlockNew\<lparr>totalTx := 8, hashes := Some [3, 1, 2, 2], hashesCount := 4, flags := Some [0x75], flagsLen := 1\<rparr>)
     (Some [0, 0]) = Some (Some [2, 2], 2)"
  using merkle_forged_match [OF _ _ refl refl, where tc = 1 and x = 2 and b = BRMerkleBlockNew and m = 3] by simp

end
