(* ===== verification/BRBlockCheck.thy ===== *)
theory BRBlockCheck
  imports BRMerkleBlock
begin

unbundle bit_operations_syntax

text \<open>
  What the checks of \<open>BRMerkleBlock.c\<close> on block headers mean: proof of work, the wire format, the difficulty rule, and the inputs on which the
  code leaves its arrays.
\<close>

section \<open>Proof of work\<close>

lemma unat_u8_at: "unat (u8_at a i) = unat a div 2 ^ (8 * i) mod 2 ^ 8"
  by (simp add: u8_at_def unsigned_ucast_eq unat_drop_bit take_bit_eq_mod)

lemma low_bytes_Suc: "unat a mod 2 ^ (8 * Suc i) = 2 ^ (8 * i) * unat (u8_at a i) + unat a mod 2 ^ (8 * i)"
  using mod_mult2_eq [of "unat a" "2 ^ (8 * i)" "2 ^ 8"] by (simp add: unat_u8_at power_add mult.commute)

lemma digits_le:
  assumes "x < (b :: nat)" "y < b"
  shows "b * d + x \<le> b * e + y \<longleftrightarrow> d < e \<or> d = e \<and> x \<le> y"
proof (cases d e rule: linorder_cases)
  case less
  then have "b * Suc d \<le> b * e" by (intro mult_le_mono2) simp
  then show ?thesis using less assms by simp
next
  case greater
  then have "b * Suc e \<le> b * d" by (intro mult_le_mono2) simp
  then show ?thesis using greater assms by simp
qed simp

lemma pow_check_low: "pow_check h t n \<longleftrightarrow> unat h mod 2 ^ (8 * n) \<le> unat t mod 2 ^ (8 * n)"
proof (induction n)
  case (Suc n)
  have "unat h mod 2 ^ (8 * Suc n) \<le> unat t mod 2 ^ (8 * Suc n) \<longleftrightarrow> unat (u8_at h n) < unat (u8_at t n) \<or>
     unat (u8_at h n) = unat (u8_at t n) \<and> unat h mod 2 ^ (8 * n) \<le> unat t mod 2 ^ (8 * n)"
    unfolding low_bytes_Suc by (rule digits_le) simp_all
  then show ?case using Suc by (auto simp: word_less_nat_alt)
qed simp

lemma pow_check_le: "pow_check h t 32 \<longleftrightarrow> h \<le> t"
proof -
  have "unat x mod 2 ^ (8 * 32) = unat x" for x :: UInt256 using unat_less_pow [of x] by simp
  then show ?thesis by (simp only: pow_check_low word_le_nat_alt)
qed

lemma bit_set_u8: "bit (set_u8 a i v) n \<longleftrightarrow> (if 8 * i \<le> n \<and> n < 8 * i + 8 then n < 256 \<and> bit v (n - 8 * i) else bit a n)"
  by (auto simp: set_u8_def bit_set_limb bit_simps dest: bit_imp_le_length)

lemma store32_shift: "n \<le> 28 \<Longrightarrow> store32 n x = Some (push_bit (8 * n) (ucast x))"
proof -
  assume n: "n \<le> 28"
  have "fold (\<lambda>(k, b) t. set_u8 t (n + k) b) (enumerate 0 (UInt32SetLE x)) UINT256_ZERO = push_bit (8 * n) (ucast x)"
  proof (rule bit_word_eqI)
    fix i assume "i < LENGTH(256)"
    then show "bit (fold (\<lambda>(k, b) t. set_u8 t (n + k) b) (enumerate 0 (UInt32SetLE x)) UINT256_ZERO) i = bit (push_bit (8 * n) (ucast x) :: UInt256) i"
      using n by (auto simp: UInt32SetLE_def bit_set_u8 UINT256_ZERO_def bit_simps dest: bit_imp_le_length)
  qed
  then show ?thesis using n by (simp add: store32_def)
qed


text \<open>The number that a target in compact form stands for.\<close>

definition target_value :: "u32 \<Rightarrow> nat" where
  "target_value t = (let sz = unat (drop_bit 24 t); m = unat (t AND 0x00ffffff)
     in if sz > 3 then m * 2 ^ (8 * (sz - 3)) else m div 2 ^ (8 * (3 - sz)))"

lemma unat_and_24: "unat (t AND 0x00ffffff :: u32) = unat t mod 2 ^ 24"
proof -
  have "t AND 0x00ffffff = take_bit 24 t" by (simp add: take_bit_eq_mask mask_eq_exp_minus_1)
  then show ?thesis by (simp only: unsigned_take_bit_eq) (simp add: take_bit_eq_mod)
qed

lemma and_24_less: "unat (t AND 0x00ffffff :: u32) < 2 ^ 24"
  unfolding unat_and_24 by simp

lemma target_stored:
  assumes "drop_bit 24 t < (32 :: u32)"
  shows "\<exists>v. (if drop_bit 24 t > 3 then store32 (unat (drop_bit 24 t) - 3) (t AND 0x00ffffff)
     else store32 0 (drop_bit ((3 - unat (drop_bit 24 t)) * 8) (t AND 0x00ffffff))) = Some v \<and> unat v = target_value t"
proof (cases "drop_bit 24 t > (3 :: u32)")
  case True
  define k where "k = unat (drop_bit 24 t) - 3"
  have k: "k \<le> 28" "3 < unat (drop_bit 24 t)" using assms True by (simp_all add: k_def word_less_nat_alt)
  have "unat (t AND 0x00ffffff) * 2 ^ (8 * k) < 2 ^ 24 * 2 ^ (8 * k)" using and_24_less by simp
  also have "\<dots> = 2 ^ (24 + 8 * k)" by (simp add: power_add)
  also have "\<dots> \<le> 2 ^ 256" using k(1) by (intro power_increasing) simp_all
  finally have "unat (push_bit (8 * k) (ucast (t AND 0x00ffffff)) :: UInt256) = unat (t AND 0x00ffffff) * 2 ^ (8 * k)"
    unfolding unat_push_bit_mod by (simp only: unat_ucast_32_256 mod_less)
  then show ?thesis using True k by (simp add: store32_shift [of k] k_def [symmetric] target_value_def Let_def)
next
  case False
  define m k where "m = t AND 0x00ffffff" and "k = unat (drop_bit 24 t)"
  have "\<not> k > 3" using False by (simp add: word_less_nat_alt k_def)
  then have "target_value t = unat m div 2 ^ ((3 - k) * 8)" by (simp add: target_value_def Let_def m_def k_def mult.commute)
  moreover have "store32 0 (drop_bit ((3 - k) * 8) m) = Some (ucast (drop_bit ((3 - k) * 8) m))" by (simp add: store32_shift)
  ultimately show ?thesis using False by (simp only: m_def [symmetric] k_def [symmetric] if_False) (simp add: unat_drop_bit)
qed

lemma target_too_large: "32 \<le> (drop_bit 24 t :: u32) \<Longrightarrow> store32 (unat (drop_bit 24 t) - 3) x = None"
  by (simp add: store32_def word_le_nat_alt)

text \<open>C18: \<open>BRMerkleBlockIsValid\<close> is the proof-of-work rule.  When the exponent of the target is below 32 and the walk over the tree gives a root, the
  answer is yes exactly if the root is the one of the header (when there are transactions), the time is at most two hours ahead of the
  clock, the target is positive and not above the limit, and the block hash, as a number, is at most the target.\<close>

theorem block_valid:
  assumes "drop_bit 24 (target b) < 32" "MerkleBlockRootR 32 b (0, 0) 0 = Some (root, st)"
  shows "BRMerkleBlockIsValid b now = Some ((0 < totalTx b \<longrightarrow> root = merkleRoot b) \<and> blk_timestamp b \<le> now + 7200 \<and>
     target b AND 0x00ffffff \<noteq> 0 \<and> target b AND 0x00800000 = 0 \<and> target b \<le> MAX_PROOF_OF_WORK \<and>
     unat (blockHash b) \<le> target_value (target b))"
proof -
  obtain v where v: "(if drop_bit 24 (target b) > 3 then store32 (unat (drop_bit 24 (target b)) - 3) (target b AND 0x00ffffff)
     else store32 0 (drop_bit ((3 - unat (drop_bit 24 (target b))) * 8) (target b AND 0x00ffffff))) = Some v"
    "unat v = target_value (target b)" using target_stored [OF assms(1)] by blast
  have and23: "(target b AND 0x00ffffff) AND 0x00800000 = target b AND 0x00800000" by (simp add: and.assoc)
  have split: "unat (target b) = 2 ^ 24 * unat (drop_bit 24 (target b)) + unat (target b AND 0x00ffffff)"
    by (simp add: unat_drop_bit unat_and_24)
  have lim: "\<not> (drop_bit 24 (target b) > drop_bit 24 MAX_PROOF_OF_WORK \<or> drop_bit 24 (target b) = drop_bit 24 MAX_PROOF_OF_WORK \<and>
      target b AND 0x00ffffff > MAX_PROOF_OF_WORK AND 0x00ffffff) \<longleftrightarrow> target b \<le> MAX_PROOF_OF_WORK"
    using split and_24_less [of "target b"]
    by (auto simp: MAX_PROOF_OF_WORK_def word_le_nat_alt word_less_nat_alt not_less word_unat_eq_iff)
  have pc: "pow_check (blockHash b) v 32 \<longleftrightarrow> unat (blockHash b) \<le> target_value (target b)"
    by (simp add: pow_check_le word_le_nat_alt v(2))
  show ?thesis
    using lim by (auto simp: BRMerkleBlockIsValid_def assms(2) v(1) Let_def and23 pc UInt256Eq_iff BLOCK_MAX_TIME_DRIFT_def not_less)
qed

theorem block_valid_witness:
  "BRMerkleBlockIsValid (BRMerkleBlockNew\<lparr>target := 0x1b00ffff, blockHash := 5\<rparr>) 100 = Some True"
proof -
  let ?b = "BRMerkleBlockNew\<lparr>target := 0x1b00ffff, blockHash := 5\<rparr>"
  have "MerkleBlockRootR (Suc n) ?b (0, 0) 0 = Some (UINT256_ZERO, 0, 0)" for n by (simp add: BRMerkleBlockNew_def)
  from this [of 31] have "MerkleBlockRootR 32 ?b (0, 0) 0 = Some (UINT256_ZERO, 0, 0)" by (simp only: Suc_numeral) simp
  from block_valid [OF _ this] show ?thesis
    by (simp add: BRMerkleBlockNew_def MAX_PROOF_OF_WORK_def target_value_def Let_def)
qed


section \<open>The wire format\<close>

lemma hashes_of_Cons: "hashes_of (UInt256Set h @ bs) = h # hashes_of bs"
proof -
  have n: "length (UInt256Set h @ bs) div 32 = Suc (length bs div 32)" by simp
  have "slice (32 * Suc i) 32 (UInt256Set h @ bs) = slice (32 * i) 32 bs" for i by (simp add: slice_def)
  moreover have "slice 0 32 (UInt256Set h @ bs) = UInt256Set h" by (simp add: slice_def)
  ultimately show ?thesis unfolding hashes_of_def n upt_conv_Cons [OF zero_less_Suc]
    by (simp add: get_set map_Suc_upt [symmetric] del: upt_Suc)
qed

lemma hashes_of_bytes: "hashes_of (concat (map UInt256Set hs)) = hs"
proof (induction hs)
  case Nil
  then show ?case by (simp add: hashes_of_def)
next
  case (Cons h hs)
  then show ?case by (simp only: list.map concat.simps hashes_of_Cons)
qed

lemma length_hash_bytes: "length (concat (map UInt256Set hs)) = 32 * length hs"
  by (induction hs) simp_all

definition tree_bytes :: "BRMerkleBlock \<Rightarrow> bytes" where
  "tree_bytes b = UInt32SetLE (totalTx b) @ varint (word_of_nat (hashesCount b)) @ concat (map UInt256Set (the (hashes b))) @
     varint (word_of_nat (flagsLen b)) @ the (flags b)"

definition block_bytes :: "BRMerkleBlock \<Rightarrow> bytes" where
  "block_bytes b = header_bytes b @ (if totalTx b > 0 then tree_bytes b else [])"

text \<open>A block as the parser makes it: unused fields have their initial values, and the arrays have the announced lengths.\<close>

definition wire_block :: "BRMerkleBlock \<Rightarrow> bool" where
  "wire_block b \<longleftrightarrow> length (block_bytes b) < 2 ^ 56 \<and>
     (if blk_timestamp b < KAWPOW_ActivationTime then nonce64 b = 0 \<and> mix_hash b = 0 \<and> height b = BLOCK_UNKNOWN_HEIGHT else nonce b = 0) \<and>
     (if totalTx b > 0 then (\<exists>hs. hashes b = Some hs \<and> length hs = hashesCount b) \<and> (\<exists>fl. flags b = Some fl \<and> length fl = flagsLen b)
      else hashes b = None \<and> hashesCount b = 0 \<and> flags b = None \<and> flagsLen b = 0)"

lemma length_header: "length (header_bytes b) = (if blk_timestamp b < KAWPOW_ActivationTime then 80 else 120)"
  by (simp add: header_bytes_def)

lemma slice_skip: "n = length xs \<Longrightarrow> slice (n + k) m (xs @ ys) = slice k m ys"
  by (simp add: slice_def)

lemma slice_front: "m = length xs \<Longrightarrow> slice 0 m (xs @ ys) = xs"
  by (simp add: slice_def)

lemma parse_header_bytes:
  "\<exists>b'. parse_header (header_bytes b @ rest) = Some (b', length (header_bytes b)) \<and>
     b' = BRMerkleBlockNew\<lparr>blk_version := blk_version b, prevBlock := prevBlock b, merkleRoot := merkleRoot b,
       blk_timestamp := blk_timestamp b, target := target b,
       nonce := (if blk_timestamp b < KAWPOW_ActivationTime then nonce b else 0),
       height := (if blk_timestamp b < KAWPOW_ActivationTime then BLOCK_UNKNOWN_HEIGHT else height b),
       nonce64 := (if blk_timestamp b < KAWPOW_ActivationTime then 0 else nonce64 b),
       mix_hash := (if blk_timestamp b < KAWPOW_ActivationTime then 0 else mix_hash b)\<rparr>"
proof -
  define tl where "tl = (if blk_timestamp b < KAWPOW_ActivationTime then UInt32SetLE (nonce b)
      else UInt32SetLE (height b) @ UInt64SetLE (nonce64 b) @ UInt256Set (mix_hash b)) @ rest"
  define buf where "buf = header_bytes b @ rest"
  have buf: "buf = UInt32SetLE (blk_version b) @ UInt256Set (prevBlock b) @ UInt256Set (merkleRoot b) @ UInt32SetLE (blk_timestamp b) @
      UInt32SetLE (target b) @ tl" by (simp add: buf_def header_bytes_def tl_def)
  have f: "slice 0 4 buf = UInt32SetLE (blk_version b)" "slice 4 32 buf = UInt256Set (prevBlock b)"
    "slice 36 32 buf = UInt256Set (merkleRoot b)" "slice 68 4 buf = UInt32SetLE (blk_timestamp b)" "slice 72 4 buf = UInt32SetLE (target b)"
    by (simp_all add: buf slice_def)
  show ?thesis
  proof (cases "blk_timestamp b < KAWPOW_ActivationTime")
    case True
    have "slice 76 4 buf = UInt32SetLE (nonce b)" using True by (simp add: buf tl_def slice_def)
    then show ?thesis using True f
      by (simp add: buf_def [symmetric] parse_header_def Let_def get_set length_header) (simp add: BRMerkleBlockNew_def)
  next
    case False
    have "slice 76 4 buf = UInt32SetLE (height b)" "rd_slice buf 80 8 = Some (UInt64SetLE (nonce64 b))" "rd_slice buf 88 32 = Some (UInt256Set (mix_hash b))"
      using False by (simp_all add: buf tl_def slice_def rd_slice_def)
    then show ?thesis using False f
      by (simp add: buf_def [symmetric] parse_header_def Let_def get_set length_header) (simp add: BRMerkleBlockNew_def)
  qed
qed

lemma at_array: "at buf off (xs @ ys) \<Longrightarrow> n = length xs \<Longrightarrow> parse_array buf off n = Some (Some xs)"
  by (simp add: parse_array_def at_adv(3) at_slice)

lemma parse_tree_bytes:
  assumes "at buf off (tree_bytes b)" "hashes b = Some hs" "length hs = hashesCount b" "flags b = Some fl" "length fl = flagsLen b"
  shows "parse_tree buf off x = Some (x\<lparr>totalTx := totalTx b, hashes := Some hs, hashesCount := hashesCount b, flags := Some fl, flagsLen := flagsLen b\<rparr>)"
proof -
  let ?n = "word_of_nat (hashesCount b) :: u64" and ?m = "word_of_nat (flagsLen b) :: u64" and ?hs = "concat (map UInt256Set hs)"
  have a0: "at buf off (UInt32SetLE (totalTx b) @ varint ?n @ ?hs @ varint ?m @ fl)" using assms by (simp add: tree_bytes_def)
  define o1 where "o1 = adv off 4"
  have a1: "at buf o1 (varint ?n @ ?hs @ varint ?m @ fl)" unfolding o1_def by (rule at_adv [OF a0]) simp
  define o2 where "o2 = adv o1 (length (varint ?n))"
  have a2: "at buf o2 (?hs @ varint ?m @ fl)" unfolding o2_def by (rule at_adv [OF a1]) simp
  have len: "32 * hashesCount b < 2 ^ 63" using at_fits [OF a2] assms(3) by (simp add: length_hash_bytes)
  then have n: "unat ?n = hashesCount b" by (intro unat_word_of_nat_less) simp
  have hl: "hashesCount b * 32 mod 18446744073709551616 = length ?hs" using len by (simp add: n length_hash_bytes assms(3))
  define o3 where "o3 = adv o2 (length ?hs)"
  have a3: "at buf o3 (varint ?m @ fl)" unfolding o3_def by (rule at_adv [OF a2]) simp
  define o4 where "o4 = adv o3 (length (varint ?m))"
  have a4: "at buf o4 (fl @ [])" unfolding o4_def append_Nil2 by (rule at_adv [OF a3]) simp
  have m: "unat ?m = length fl" using at_fits [OF a4] assms(5) by (simp add: unat_word_of_nat_less)
  show ?thesis
    using at_adv(3) [OF a0, of 4] assms(5)
    by (simp add: parse_tree_def Let_def at_slice [OF a0] get_set o1_def [symmetric] at_varint [OF a1] o2_def [symmetric] hl
        at_array [OF a2] o3_def [symmetric] at_varint [OF a3] o4_def [symmetric] m at_array [OF a4] hashes_of_bytes n)
qed


lemma wr_prefix: "length p + length s \<le> length d \<Longrightarrow> wr (put 0 p d) (length p) s = Some (put 0 (p @ s) d)"
  by (simp add: wr_def put_def drop_append_ge add.commute)

lemma put_count_prefix:
  "length p + length (varint (word_of_nat n)) \<le> length d \<Longrightarrow>
   put_count n (put 0 p d, length p) = (put 0 (p @ varint (word_of_nat n)) d, length (p @ varint (word_of_nat n)))"
  by (simp add: put_count_def BRVarIntSet_emit emit_def put_def add.commute)

lemma put_array_prefix:
  "length p + length s \<le> length d \<Longrightarrow> n = length s \<Longrightarrow> put_array n (Some s) (put 0 p d, length p) = Some (put 0 (p @ s) d, length (p @ s))"
  by (simp add: put_array_def rd_slice_def slice_def wr_prefix)

lemma wire_arrays:
  assumes "wire_block b" "totalTx b > 0"
  obtains hs fl where "hashes b = Some hs" "length hs = hashesCount b" "flags b = Some fl" "length fl = flagsLen b"
  using assms by (auto simp: wire_block_def)

lemma block_size:
  assumes "wire_block b"
  shows "BRMerkleBlockSerialize b None = Some (None, length (block_bytes b))"
proof (cases "totalTx b > 0")
  case True
  obtain hs fl where "hashes b = Some hs" "length hs = hashesCount b" "flags b = Some fl" "length fl = flagsLen b"
    using wire_arrays [OF assms True] by blast
  moreover have "length (block_bytes b) < 2 ^ 56" using assms by (simp add: wire_block_def)
  ultimately show ?thesis using True
    by (cases "blk_timestamp b < KAWPOW_ActivationTime")
       (simp_all add: BRMerkleBlockSerialize_def Let_def block_bytes_def tree_bytes_def length_header BRVarIntSize_eq length_hash_bytes
        leD not_less mult.commute add.assoc)
next
  case False
  then show ?thesis by (auto simp: BRMerkleBlockSerialize_def Let_def block_bytes_def length_header)
qed

lemma block_write:
  assumes "wire_block b" "length (block_bytes b) \<le> length d"
  shows "BRMerkleBlockSerialize b (Some d) = Some (Some (put 0 (block_bytes b) d), length (block_bytes b))"
proof -
  define len where "len = (if totalTx b > 0 then ((if blk_timestamp b \<ge> KAWPOW_ActivationTime then 120 else 80) + 4 +
      BRVarIntSize (word_of_nat (hashesCount b)) + hashesCount b * 32 + BRVarIntSize (word_of_nat (flagsLen b)) + flagsLen b) mod 2 ^ 64
      else (if blk_timestamp b \<ge> KAWPOW_ActivationTime then 120 else 80))"
  have len: "len = length (block_bytes b)" using block_size [OF assms(1)] by (simp add: BRMerkleBlockSerialize_def Let_def len_def)
  let ?h = "header_bytes b"
  have w0: "wr d 0 ?h = Some (put 0 ?h d)" using assms(2) by (simp add: wr_def block_bytes_def)
  show ?thesis
  proof (cases "totalTx b > 0")
    case True
    obtain hs fl where arr: "hashes b = Some hs" "length hs = hashesCount b" "flags b = Some fl" "length fl = flagsLen b"
      using wire_arrays [OF assms(1) True] by blast
    let ?t = "?h @ UInt32SetLE (totalTx b)"
    let ?n = "?t @ varint (word_of_nat (hashesCount b))"
    let ?a = "?n @ concat (map UInt256Set hs)"
    let ?m = "?a @ varint (word_of_nat (flagsLen b))"
    have bb: "block_bytes b = ?m @ fl" using True arr by (simp add: block_bytes_def tree_bytes_def)
    have fit: "length (?m @ fl) \<le> length d" using assms(2) bb by simp
    have w1: "wr (put 0 ?h d) (length ?h) (UInt32SetLE (totalTx b)) = Some (put 0 ?t d)" using fit by (intro wr_prefix) simp
    have w2: "put_count (hashesCount b) (put 0 ?t d, length ?h + 4) = (put 0 ?n d, length ?n)"
      using put_count_prefix [of ?t "hashesCount b" d] fit by simp
    have w3: "put_array (hashesCount b * 32) (Some (concat (map UInt256Set hs))) (put 0 ?n d, length ?n) = Some (put 0 ?a d, length ?a)"
      using fit arr(2) by (intro put_array_prefix) (simp_all add: length_hash_bytes)
    have w4: "put_count (flagsLen b) (put 0 ?a d, length ?a) = (put 0 ?m d, length ?m)" using fit by (intro put_count_prefix) simp
    have w5: "put_array (flagsLen b) (Some fl) (put 0 ?m d, length ?m) = Some (put 0 (?m @ fl) d, length (?m @ fl))"
      using fit arr(4) by (intro put_array_prefix) simp_all
    have "BRMerkleBlockSerialize b (Some d) = (if len \<le> length d then do {
        x \<leftarrow> wr d 0 ?h;
        x \<leftarrow> wr x (length ?h) (UInt32SetLE (totalTx b));
        st \<leftarrow> put_array (hashesCount b * 32) (Some (concat (map UInt256Set hs))) (put_count (hashesCount b) (x, length ?h + 4));
        st \<leftarrow> put_array (flagsLen b) (Some fl) (put_count (flagsLen b) st);
        Some (Some (fst st), len)} else Some (Some d, 0))"
      using True arr by (simp add: BRMerkleBlockSerialize_def Let_def len_def split_def bind_assoc)
    then show ?thesis using assms(2) len by (simp only: w0 w1 w2 w3 w4 w5 bind.bind_lunit fst_conv if_True bb)
  next
    case False
    then show ?thesis using assms(2) len w0
      by (simp add: BRMerkleBlockSerialize_def Let_def len_def [symmetric] block_bytes_def) (auto simp: len_def split: if_splits)
  qed
qed


lemma parse_block:
  assumes "wire_block b" "pow_hash ops (take 80 (block_bytes b)) b = Some h"
  shows "BRMerkleBlockParse ops (Some (block_bytes b)) = Some (Some (b\<lparr>blockHash := h\<rparr>))"
proof -
  let ?buf = "block_bytes b"
  have long: "\<not> length ?buf < 80" by (simp add: block_bytes_def length_header)
  obtain x where x: "parse_header ?buf = Some (x, length (header_bytes b))"
    "x = b\<lparr>blockHash := 0, totalTx := 0, hashes := None, hashesCount := 0, flags := None, flagsLen := 0\<rparr>"
    using parse_header_bytes [of b "if totalTx b > 0 then tree_bytes b else []"] assms(1)
    by (auto simp: block_bytes_def wire_block_def BRMerkleBlockNew_def split: if_splits)
  have "parse_tree ?buf (length (header_bytes b)) x = Some (b\<lparr>blockHash := 0\<rparr>)"
  proof (cases "totalTx b > 0")
    case True
    obtain hs fl where arr: "hashes b = Some hs" "length hs = hashesCount b" "flags b = Some fl" "length fl = flagsLen b"
      using wire_arrays [OF assms(1) True] by blast
    have "at ?buf (length (header_bytes b)) (tree_bytes b)" using True assms(1) by (simp add: at_def block_bytes_def wire_block_def)
    from parse_tree_bytes [OF this arr] show ?thesis using arr by (simp add: x(2))
  next
    case False
    then have "adv (length (header_bytes b)) 4 = length ?buf + 4" by (simp add: block_bytes_def length_header adv_def)
    then show ?thesis using False assms(1) by (cases b) (simp add: parse_tree_def x(2) wire_block_def word_gt_0)
  qed
  moreover have "pow_hash ops hdr (b\<lparr>blockHash := 0\<rparr>) = pow_hash ops hdr b" for hdr by (simp add: pow_hash_def)
  ultimately show ?thesis using long x(1) assms(2) by (simp add: BRMerkleBlockParse_def)
qed



lemma parse_without_flags:
  assumes "length hdr < 2 ^ 32" "length hash = 32" "0 < k" "k < 2 ^ 32"
  shows "parse_tree (hdr @ UInt32SetLE x @ varint 1 @ hash @ varint (word_of_nat k)) (length hdr) b =
     Some (b\<lparr>totalTx := x, hashes := Some (hashes_of hash), hashesCount := 1, flags := None, flagsLen := k\<rparr>)"
proof -
  have small: "unat (word_of_nat k :: u64) = k" using assms(4) by (intro unat_word_of_nat_less) simp
  have v1: "varint 1 = [1]" by (simp add: varint_def)
  define buf where "buf = hdr @ UInt32SetLE x @ varint 1 @ hash @ varint (word_of_nat k)"
  have a0: "at buf (length hdr) (UInt32SetLE x @ varint 1 @ hash @ varint (word_of_nat k))"
    using assms(1,2) length_varint_le [of "word_of_nat k"] by (simp add: at_def buf_def v1)
  define o1 where "o1 = adv (length hdr) 4"
  have a1: "at buf o1 (varint 1 @ hash @ varint (word_of_nat k))" unfolding o1_def by (rule at_adv [OF a0]) simp
  define o2 where "o2 = adv o1 (length (varint 1))"
  have a2: "at buf o2 (hash @ varint (word_of_nat k))" unfolding o2_def by (rule at_adv [OF a1]) simp
  define o3 where "o3 = adv o2 32"
  have a3: "at buf o3 (varint (word_of_nat k) @ [])" unfolding o3_def append_Nil2 by (rule at_adv [OF a2]) (simp add: assms(2))
  define o4 where "o4 = adv o3 (length (varint (word_of_nat k)))"
  have "at buf o4 []" unfolding o4_def by (rule at_adv [OF a3]) simp
  then have o4: "o4 = length buf" by (simp add: at_def)
  have "length buf < 2 ^ 63" using a0 by (simp add: at_def)
  then have none: "parse_array buf o4 k = Some None" using assms(3,4) by (simp add: parse_array_def o4 adv_def)
  show ?thesis
    unfolding buf_def [symmetric]
    using at_adv(3) [OF a0, of 4]
    by (simp add: parse_tree_def Let_def at_slice [OF a0] get_set o1_def [symmetric] at_varint [OF a1] o2_def [symmetric]
        at_array [OF a2] assms(2) o3_def [symmetric] at_varint [OF a3] o4_def [symmetric] small none)
qed

lemma parse_wrapped_count:
  assumes "length hdr < 2 ^ 32"
  shows "parse_tree (hdr @ UInt32SetLE x @ varint (2 ^ 59) @ varint 1 @ [0]) (length hdr) b =
     Some (b\<lparr>totalTx := x, hashes := Some [], hashesCount := 2 ^ 59, flags := Some [0], flagsLen := 1\<rparr>)"
proof -
  have v1: "varint 1 = [1]" by (simp add: varint_def)
  define buf where "buf = hdr @ UInt32SetLE x @ varint (2 ^ 59) @ varint 1 @ [0]"
  have a0: "at buf (length hdr) (UInt32SetLE x @ varint (2 ^ 59) @ varint 1 @ [0])"
    using assms(1) length_varint_le [of "2 ^ 59"] by (simp add: at_def buf_def v1)
  define o1 where "o1 = adv (length hdr) 4"
  have a1: "at buf o1 (varint (2 ^ 59) @ varint 1 @ [0])" unfolding o1_def by (rule at_adv [OF a0]) simp
  define o2 where "o2 = adv o1 (length (varint (2 ^ 59)))"
  have a2: "at buf o2 ([] @ varint 1 @ [0])" unfolding o2_def append_Nil by (rule at_adv [OF a1]) simp
  have a3: "at buf (adv o2 0) (varint 1 @ [0])" by (rule at_adv [OF a2]) simp
  define o4 where "o4 = adv (adv o2 0) (length (varint 1))"
  have a4: "at buf o4 ([0] @ [])" unfolding o4_def append_Nil2 by (rule at_adv [OF a3]) simp
  have c: "unat (2 ^ 59 :: u64) = 2 ^ 59" by simp
  show ?thesis
    unfolding buf_def [symmetric]
    using at_adv(3) [OF a0, of 4]
    by (simp add: parse_tree_def Let_def at_slice [OF a0] get_set o1_def [symmetric] at_varint [OF a1, simplified] o2_def [symmetric, simplified]
        at_array [OF a2] at_varint [OF a3] o4_def [symmetric] at_array [OF a4] hashes_of_def)
qed

lemma walks_need_arrays:
  assumes "0 < flagsLen b" "0 < hashesCount b" "flags b = None \<or> (flags b = Some [0] \<and> hashes b = Some [])"
  shows "MerkleBlockRootR (Suc n) b (0, 0) d = None" and "BRMerkleBlockIsValid b now = None"
    and "flags b = None \<Longrightarrow> BRMerkleBlockTxHashes b t = None"
proof -
  show r: "MerkleBlockRootR (Suc n) b (0, 0) d = None" for n d
    using assms by (auto simp: block_flag_def block_hash_def rd_def inner_node_def)
  have n32: "(32 :: nat) = Suc 31" by simp
  show "BRMerkleBlockIsValid b now = None"
    unfolding BRMerkleBlockIsValid_def Let_def n32 r by simp
  show "BRMerkleBlockTxHashes b t = None" if "flags b = None"
    unfolding BRMerkleBlockTxHashes_def n32 using assms that by (simp only: MerkleBlockTxHashesR.simps) (simp add: block_flag_def rd_def)
qed

lemma pow_hash_old: "blk_timestamp b < KAWPOW_ActivationTime \<Longrightarrow> 12 \<le> length hdr \<Longrightarrow> pow_hash ops hdr b \<noteq> None"
proof -
  have sel: "\<exists>s. GetHashSelection (drop 4 hdr) i = Some s" if "i < 16" "12 \<le> length hdr" for i
    using GetHashSelection_nth [of i "drop 4 hdr"] that by simp
  have "x16r_loop sph hdr is ht \<noteq> None" if "\<forall>i \<in> set is. i < 16" "12 \<le> length hdr" for sph "is" ht
    using that
  proof (induction "is" arbitrary: ht)
    case (Cons i "is")
    then obtain s where "GetHashSelection (drop 4 hdr) i = Some s" using sel [of i] by auto
    then show ?case using Cons by (simp add: Let_def)
  qed simp
  moreover have "x16rv2_loop sph tiger hdr is ht \<noteq> None" if "\<forall>i \<in> set is. i < 16" "12 \<le> length hdr" for sph tiger "is" ht
    using that
  proof (induction "is" arbitrary: ht)
    case (Cons i "is")
    then obtain s where "GetHashSelection (drop 4 hdr) i = Some s" using sel [of i] by auto
    then show ?case using Cons by (simp add: Let_def)
  qed simp
  ultimately show "blk_timestamp b < KAWPOW_ActivationTime \<Longrightarrow> 12 \<le> length hdr \<Longrightarrow> pow_hash ops hdr b \<noteq> None"
    by (auto simp: pow_hash_def X16R_def X16Rv2_def)
qed

text \<open>A message that starts with an 80-byte header is accepted with whatever its tree parses to.\<close>

lemma parse_old_header:
  assumes "length hdr = 80" "UInt32GetLE (slice 68 4 hdr) < KAWPOW_ActivationTime"
    and "\<And>b. parse_tree (hdr @ rest) 80 b = Some (f b)" "\<And>b. blk_timestamp (f b) = blk_timestamp b"
  shows "\<exists>b h. BRMerkleBlockParse ops (Some (hdr @ rest)) = Some (Some (f b\<lparr>blockHash := h\<rparr>))"
proof -
  have "slice 68 4 (hdr @ rest) = slice 68 4 hdr" using assms(1) by (simp add: slice_def)
  then obtain b where b: "parse_header (hdr @ rest) = Some (b, 80)" "blk_timestamp b < KAWPOW_ActivationTime"
    using assms(2) by (simp add: parse_header_def Let_def)
  have "pow_hash ops hdr (f b) \<noteq> None" using b(2) assms(1,4) by (intro pow_hash_old) simp_all
  then obtain h where "pow_hash ops hdr (f b) = Some h" by blast
  then show ?thesis using b(1) assms(1,3) by (simp add: BRMerkleBlockParse_def) blast
qed

text \<open>C20: messages and headers that make the code leave its arrays.  A block message that announces flag bytes which are missing is accepted by
  \<open>BRMerkleBlockParse\<close> as a block with a \<open>NULL\<close> flag array and a positive length, and a message with a count of \<open>2\<^sup>59\<close> hashes, whose byte
  length wraps to 0 and passes the bound check, as a block with an empty array and that count; the first walk over the tree of either block, and so the validity check, reads
  outside the arrays.  The parser itself reads past the end of a message of less than 120 bytes with a timestamp from the KawPow activation on, because it
  has only checked for 80 bytes.  A target with an exponent of 32 or more makes the validity check store past the end of a 32-byte number on the stack.\<close>

theorem block_unsafe:
  assumes "length hdr = 80" "UInt32GetLE (slice 68 4 hdr) < KAWPOW_ActivationTime" "length hash = 32" "0 < k" "k < 2 ^ 32"
  shows "(\<exists>b'. BRMerkleBlockParse ops (Some (hdr @ UInt32SetLE x @ varint 1 @ hash @ varint (word_of_nat k))) = Some (Some b') \<and>
       flags b' = None \<and> flagsLen b' = k \<and> MerkleBlockRootR 32 b' (0, 0) 0 = None \<and> BRMerkleBlockTxHashes b' t = None \<and>
       BRMerkleBlockIsValid b' now = None) \<and>
     (\<exists>b'. BRMerkleBlockParse ops (Some (hdr @ UInt32SetLE x @ varint (2 ^ 59) @ varint 1 @ [0])) = Some (Some b') \<and>
       hashes b' = Some [] \<and> hashesCount b' = 2 ^ 59 \<and> MerkleBlockRootR 32 b' (0, 0) 0 = None \<and> BRMerkleBlockIsValid b' now = None) \<and>
     (80 \<le> length msg \<and> length msg < 120 \<and> UInt32GetLE (slice 68 4 msg) \<ge> KAWPOW_ActivationTime \<longrightarrow>
       BRMerkleBlockParse ops (Some msg) = None) \<and>
     (32 \<le> drop_bit 24 (target b) \<longrightarrow> BRMerkleBlockIsValid b now = None)"
proof (intro conjI impI)
  have n32: "(32 :: nat) = Suc 31" by simp
  have l: "length hdr < 2 ^ 32" using assms(1) by simp
  show "\<exists>b'. BRMerkleBlockParse ops (Some (hdr @ UInt32SetLE x @ varint 1 @ hash @ varint (word_of_nat k))) = Some (Some b') \<and>
       flags b' = None \<and> flagsLen b' = k \<and> MerkleBlockRootR 32 b' (0, 0) 0 = None \<and> BRMerkleBlockTxHashes b' t = None \<and>
       BRMerkleBlockIsValid b' now = None"
  proof -
    let ?f = "\<lambda>b. b\<lparr>totalTx := x, hashes := Some (hashes_of hash), hashesCount := 1, flags := None, flagsLen := k\<rparr>"
    obtain b h where p: "BRMerkleBlockParse ops (Some (hdr @ UInt32SetLE x @ varint 1 @ hash @ varint (word_of_nat k))) = Some (Some (?f b\<lparr>blockHash := h\<rparr>))"
      using parse_old_header [OF assms(1,2), of "UInt32SetLE x @ varint 1 @ hash @ varint (word_of_nat k)" ?f ops]
        parse_without_flags [OF l assms(3-5), of x] assms(1) by auto
    moreover have "0 < flagsLen (?f b\<lparr>blockHash := h\<rparr>)" "0 < hashesCount (?f b\<lparr>blockHash := h\<rparr>)" "flags (?f b\<lparr>blockHash := h\<rparr>) = None"
      using assms(4) by simp_all
    note walks = walks_need_arrays [OF this(1,2) disjI1 [OF this(3)]] this(3)
    ultimately show ?thesis
      using walks(1) [of 31 0] walks(2) [of now] walks(3) [OF walks(4), of t] by (intro exI [of _ "?f b\<lparr>blockHash := h\<rparr>"]) (simp only: n32, simp)
  qed
  show "\<exists>b'. BRMerkleBlockParse ops (Some (hdr @ UInt32SetLE x @ varint (2 ^ 59) @ varint 1 @ [0])) = Some (Some b') \<and>
       hashes b' = Some [] \<and> hashesCount b' = 2 ^ 59 \<and> MerkleBlockRootR 32 b' (0, 0) 0 = None \<and> BRMerkleBlockIsValid b' now = None"
  proof -
    let ?f = "\<lambda>b. b\<lparr>totalTx := x, hashes := Some [], hashesCount := 2 ^ 59, flags := Some [0], flagsLen := 1\<rparr>"
    obtain b h where p: "BRMerkleBlockParse ops (Some (hdr @ UInt32SetLE x @ varint (2 ^ 59) @ varint 1 @ [0])) = Some (Some (?f b\<lparr>blockHash := h\<rparr>))"
      using parse_old_header [OF assms(1,2), of "UInt32SetLE x @ varint (2 ^ 59) @ varint 1 @ [0]" ?f ops]
        parse_wrapped_count [OF l, of x] assms(1) by auto
    moreover have "0 < flagsLen (?f b\<lparr>blockHash := h\<rparr>)" "0 < hashesCount (?f b\<lparr>blockHash := h\<rparr>)"
      "flags (?f b\<lparr>blockHash := h\<rparr>) = Some [0] \<and> hashes (?f b\<lparr>blockHash := h\<rparr>) = Some []"
      by simp_all
    note walks = walks_need_arrays [OF this(1,2) disjI2 [OF this(3)]]
    ultimately show ?thesis
      using walks(1) [of 31 0] walks(2) [of now] by (intro exI [of _ "?f b\<lparr>blockHash := h\<rparr>"]) (simp only: n32, simp)
  qed
  show "BRMerkleBlockParse ops (Some msg) = None"
    if "80 \<le> length msg \<and> length msg < 120 \<and> UInt32GetLE (slice 68 4 msg) \<ge> KAWPOW_ActivationTime"
    using that by (auto simp: BRMerkleBlockParse_def parse_header_def Let_def rd_slice_def not_less [symmetric])
  show "BRMerkleBlockIsValid b now = None" if "32 \<le> drop_bit 24 (target b)"
  proof -
    have "\<not> drop_bit 24 (target b) \<le> 3" using that by (auto simp: word_le_nat_alt)
    then show ?thesis using target_too_large [OF that] by (simp add: BRMerkleBlockIsValid_def Let_def split_def not_le bind_eq_None_conv)
  qed
qed

theorem block_unsafe_witness:
  "\<exists>b'. BRMerkleBlockParse \<lparr>pow_sph = (\<lambda>_ _. []), pow_tiger = (\<lambda>_. []), light_verify = (\<lambda>_ _ _. [])\<rparr> (Some (replicate 80 0 @ UInt32SetLE 1 @ varint 1 @ replicate 32 0 @ varint (word_of_nat 9))) = Some (Some b') \<and>
     flags b' = None \<and> MerkleBlockRootR 32 b' (0, 0) 0 = None"
proof -
  have "length (replicate 80 (0 :: u8)) = 80" "length (replicate 32 (0 :: u8)) = 32" by (simp_all only: length_replicate)
  moreover have "UInt32GetLE (slice 68 4 (replicate 80 0)) < KAWPOW_ActivationTime"
    by (simp add: slice_def UInt32GetLE_def KAWPOW_ActivationTime_def)
  ultimately show ?thesis using block_unsafe [of "replicate 80 0" "replicate 32 0" 9] by simp blast
qed

section \<open>Difficulty\<close>

text \<open>The blocks that the loop visits, newest first.\<close>

fun past_blocks :: "nat \<Rightarrow> BRMerkleBlock BRSet \<Rightarrow> BRMerkleBlock option \<Rightarrow> BRMerkleBlock list option" where
  "past_blocks 0 blockSet cur = Some []"
| "past_blocks (Suc n) blockSet None = Some []"
| "past_blocks (Suc n) blockSet (Some b) =
     (if height b = 0 then Some []
      else do { next \<leftarrow> BRSetGet blockSet (hash_key (prevBlock b)); bs \<leftarrow> past_blocks n blockSet next; Some (b # bs) })"

lemma dgw_loop_past: "dgw_loop n blockSet cur st = map_option (\<lambda>bs. fold dgw_step bs st) (past_blocks n blockSet cur)"
proof (induction n blockSet cur arbitrary: st rule: past_blocks.induct)
  case (3 n blockSet b)
  then show ?case by (cases "BRSetGet blockSet (hash_key (prevBlock b))") (auto simp: map_conv_bind_option comp_def)
qed simp_all

lemma past_length: "past_blocks n blockSet cur = Some bs \<Longrightarrow> length bs \<le> n"
  by (induction n blockSet cur arbitrary: bs rule: past_blocks.induct) (auto split: if_splits bind_splits)

lemma past_first: "past_blocks (Suc m) blockSet (Some b) = Some bs \<Longrightarrow> height b \<noteq> 0 \<Longrightarrow> \<exists>rest. bs = b # rest"
  by (auto split: bind_splits)

abbreviation work :: "BRMerkleBlock \<Rightarrow> nat" where
  "work b \<equiv> unat (setCompact (target b))"

lemma add_targets: "unat (a :: UInt256) + unat b < 2 ^ 256 \<Longrightarrow> unat (add a b) = unat a + unat b"
  by (simp add: add_eq unat_add_less)

lemma fold_dgw:
  assumes "\<forall>b \<in> set bs. work b < 2 ^ 232 \<and> blk_timestamp b \<noteq> 0" "blockCount st \<noteq> 1" "blockCount st \<noteq> 0"
    "unat (sumTargets st) + length bs * 2 ^ 232 < 2 ^ 256" "lastBlockTime st \<noteq> 0"
  shows "blockCount (fold dgw_step bs st) = blockCount st + length bs \<and>
     unat (sumTargets (fold dgw_step bs st)) = unat (sumTargets st) + sum_list (map work bs) \<and>
     nActualTimespan (fold dgw_step bs st) = nActualTimespan st + (lastBlockTime st - (if bs = [] then lastBlockTime st else blk_timestamp (last bs)))"
  using assms
proof (induction bs arbitrary: st)
  case (Cons b bs)
  have w: "work b < 2 ^ 232" "blk_timestamp b \<noteq> 0" using Cons.prems by auto
  have sum: "unat (add (sumTargets st) (setCompact (target b))) = unat (sumTargets st) + work b"
    using Cons.prems(4) w by (intro add_targets) simp
  let ?st = "dgw_step b st"
  have st: "blockCount ?st = blockCount st + 1" "unat (sumTargets ?st) = unat (sumTargets st) + work b"
    "nActualTimespan ?st = nActualTimespan st + (lastBlockTime st - blk_timestamp b)" "lastBlockTime ?st = blk_timestamp b"
    using Cons.prems(2,5) sum by (simp_all add: dgw_step_def Let_def word_gt_0)
  have "blockCount (fold dgw_step bs ?st) = blockCount ?st + length bs \<and>
     unat (sumTargets (fold dgw_step bs ?st)) = unat (sumTargets ?st) + sum_list (map work bs) \<and>
     nActualTimespan (fold dgw_step bs ?st) = nActualTimespan ?st + (lastBlockTime ?st - (if bs = [] then lastBlockTime ?st else blk_timestamp (last bs)))"
    using Cons.prems w st by (intro Cons.IH) auto
  then show ?case using st by (auto simp: algebra_simps)
qed simp

lemma bits_le_255: "unat x < 2 ^ 255 \<Longrightarrow> unat x < 2 ^ unat (bits x) \<and> unat (bits x) \<le> 255"
  using bits_spec [of x] by (cases "x = 0") auto


lemma bit_too_high:
  fixes y :: u32
  assumes "unat y < 2 ^ k" "k \<le> n"
  shows "\<not> bit y n"
proof -
  have "(2 :: nat) ^ k \<le> 2 ^ n" using assms(2) by (intro power_increasing) simp_all
  then have "unat y < 2 ^ n" using assms(1) by linarith
  then have "unat (drop_bit n y) = 0" by (simp only: unat_drop_bit div_less)
  then have "drop_bit n y = 0" using unat_eq_zero by blast
  then show ?thesis by (simp add: bit_iff_odd_drop_bit)
qed

lemma no_high_bits:
  fixes y :: u32
  assumes "unat y < 2 ^ 24" "y AND 0x00800000 = 0"
  shows "y AND NOT 0x007fffff = 0"
proof (rule bit_word_eqI)
  fix n
  assume "n < LENGTH(32)"
  have m: "(0x007fffff :: u32) = mask 23" by (simp add: mask_eq_exp_minus_1)
  have "\<not> bit y 23" using assms(2) and_exp_eq_0_iff_not_bit [of y 23] by simp
  moreover have "\<not> bit y n" if "24 \<le> n" by (rule bit_too_high [OF assms(1) that])
  moreover have "n < 23 \<or> n = 23 \<or> 24 \<le> n" by linarith
  ultimately have "\<not> (bit y n \<and> \<not> n < 23)" by blast
  then show "bit (y AND NOT 0x007fffff) n = bit (0 :: u32) n" unfolding m by (auto simp: bit_simps)
qed

lemma getCompact_total:
  assumes "unat x < 2 ^ 255"
  shows "\<exists>c. getCompact x = Some c"
proof -
  define nb where "nb = unat (bits x)"
  define sz where "sz = (nb + 7) div 8"
  define c where "c = (if sz \<le> 3 then push_bit (8 * (3 - sz)) (u32_at x 0) else u32_at (shiftRight x (word_of_nat (8 * (sz - 3)))) 0)"
  have nb: "unat x < 2 ^ nb" "nb \<le> 255" using bits_le_255 [OF assms] by (simp_all add: nb_def)
  have sz: "nb \<le> 8 * sz" "sz \<le> 32" using nb(2) unfolding sz_def by linarith+
  have "(2 :: nat) ^ nb \<le> 2 ^ (8 * sz)" using sz(1) by (intro power_increasing) simp_all
  then have x: "unat x < 2 ^ (8 * sz)" using nb(1) by linarith
  have c24: "unat c < 2 ^ 24"
  proof (cases "sz \<le> 3")
    case True
    have "8 * sz + 8 * (3 - sz) = 24" using True by simp
    then have p: "(2 :: nat) ^ (8 * sz) * 2 ^ (8 * (3 - sz)) = 2 ^ 24" by (simp only: power_add [symmetric])
    have "unat (u32_at x 0) \<le> unat x" by (simp add: unat_u32_at)
    then have "unat (u32_at x 0) * 2 ^ (8 * (3 - sz)) < 2 ^ (8 * sz) * 2 ^ (8 * (3 - sz))" using x by simp
    moreover have "unat (push_bit (8 * (3 - sz)) (u32_at x 0)) \<le> unat (u32_at x 0) * 2 ^ (8 * (3 - sz))"
      by (subst unsigned_push_bit_eq) (metis push_bit_eq_mult take_bit_nat_less_eq_self)
    ultimately show ?thesis using True p by (simp add: c_def)
  next
    case False
    have "unat (word_of_nat (8 * (sz - 3)) :: u8) = 8 * (sz - 3)" using sz(2) by (intro unat_word_of_nat_less) simp
    then have "unat (u32_at (shiftRight x (word_of_nat (8 * (sz - 3)))) 0) \<le> unat x div 2 ^ (8 * (sz - 3))"
      by (simp add: unat_u32_at shiftRight_eq unat_drop_bit)
    moreover have "unat x div 2 ^ (8 * (sz - 3)) < 2 ^ 24"
    proof (rule less_mult_imp_div_less)
      have "24 + 8 * (sz - 3) = 8 * sz" using False by simp
      then show "unat x < 2 ^ 24 * 2 ^ (8 * (sz - 3))" using x by (simp only: power_add [symmetric])
    qed
    ultimately show ?thesis using False by (simp add: c_def)
  qed
  show ?thesis
  proof (cases "c AND 0x00800000 = 0")
    case True
    then show ?thesis using no_high_bits [OF c24 True] sz
      by (simp add: getCompact_def Let_def nb_def [symmetric] sz_def [symmetric] c_def [symmetric])
  next
    case False
    have d: "unat (drop_bit 8 c) < 2 ^ 16" using c24 by (simp add: unat_drop_bit less_mult_imp_div_less)
    have "\<not> bit (drop_bit 8 c) 23" by (rule bit_too_high [OF d]) simp
    then have "drop_bit 8 c AND 0x00800000 = 0" using and_exp_eq_0_iff_not_bit [of "drop_bit 8 c" 23] by simp
    moreover have "unat (drop_bit 8 c) < 2 ^ 24" using d by simp
    ultimately show ?thesis using no_high_bits [of "drop_bit 8 c"] False sz
      by (simp add: getCompact_def Let_def nb_def [symmetric] sz_def [symmetric] c_def [symmetric])
  qed
qed


lemma sint_small: "unat (w :: u32) < 2 ^ 31 \<Longrightarrow> sint w = int (unat w)"
proof -
  assume "unat w < 2 ^ 31"
  then have "int (unat w) < int (2 ^ 31)" by (simp only: of_nat_less_iff)
  then have "uint w < 2 ^ 31" by simp
  moreover have "- (2 ^ 31) \<le> uint w" by (rule order_trans [of _ 0]) simp_all
  ultimately show ?thesis by (simp add: sint_uint signed_take_bit_int_eq_self)
qed

text \<open>A target below the limit is a number below \<open>2\<^sup>232\<close>.\<close>

lemma setCompact_bound:
  assumes "t \<le> MAX_PROOF_OF_WORK"
  shows "unat (setCompact t) < 2 ^ 232"
proof -
  define k where "k = unat t div 2 ^ 24"
  define w where "w = set_u32 UINT256_ZERO 0 (t AND 0x007fffff)"
  have t: "unat t \<le> 0x1e00ffff" using assms by (simp add: MAX_PROOF_OF_WORK_def word_le_nat_alt)
  have "sint t = int (unat t)" using t by (intro sint_small) simp
  then have k: "sint (signed_drop_bit 24 t) = int k"
    by (simp add: sint_signed_drop_bit_eq k_def drop_bit_eq_div zdiv_int)
  have kb: "k \<le> 30" "k = 30 \<Longrightarrow> unat t mod 2 ^ 24 \<le> 0xffff"
  proof -
    have "unat t = 2 ^ 24 * k + unat t mod 2 ^ 24" by (simp add: k_def)
    then show "k \<le> 30" "k = 30 \<Longrightarrow> unat t mod 2 ^ 24 \<le> 0xffff" using t by auto
  qed
  have "t AND 0x007fffff = take_bit 23 t" by (simp add: take_bit_eq_mask mask_eq_exp_minus_1)
  then have m: "unat (t AND 0x007fffff) = unat t mod 2 ^ 23" by (simp only: unsigned_take_bit_eq) (simp add: take_bit_eq_mod)
  have w: "unat w = unat t mod 2 ^ 23"
  proof -
    have "w = ucast (t AND 0x007fffff)"
      unfolding w_def by (rule bit_word_eqI) (auto simp: bit_set_u32 UINT256_ZERO_def bit_simps dest: bit_imp_le_length)
    then show ?thesis using m by (simp only: unat_ucast_32_256)
  qed
  show ?thesis
  proof (cases "k \<le> 3")
    case True
    then have "setCompact t = shiftRight w (word_of_int (8 * (3 - int k)))"
      unfolding setCompact_def Let_def k w_def by simp
    then have "unat (setCompact t) \<le> unat w" by (simp only: shiftRight_eq unat_drop_bit div_le_dividend)
    then show ?thesis unfolding w by (rule le_less_trans) (rule less_trans [of _ "2 ^ 23"], simp_all)
  next
    case False
    define j where "j = 8 * (k - 3)"
    have "unat (word_of_int (8 * (int k - 3)) :: u8) = j"
    proof -
      have e: "8 * (int k - 3) = int j" using False by (simp add: j_def of_nat_diff)
      show ?thesis unfolding e of_int_of_nat_eq by (rule unat_word_of_nat_less) (use kb(1) in \<open>simp add: j_def\<close>)
    qed
    moreover have "setCompact t = shiftLeft w (word_of_int (8 * (int k - 3)))"
      using False unfolding setCompact_def Let_def k w_def by simp
    ultimately have "setCompact t = push_bit j w" by (simp only: shiftLeft_eq)
    then have le: "unat (setCompact t) \<le> unat w * 2 ^ j" by (simp only: unat_push_bit_mod mod_less_eq_dividend)
    have "unat w * 2 ^ j < 2 ^ 232"
    proof (cases "k = 30")
      case True
      then have "unat w \<le> 0xffff" unfolding w
      proof -
        have "unat t mod 2 ^ 23 = unat t mod 2 ^ 24 mod 2 ^ 23" by (rule mod_mod_cancel [symmetric]) simp
        also have "\<dots> \<le> unat t mod 2 ^ 24" by simp
        finally show "unat t mod 2 ^ 23 \<le> 0xffff" using kb(2) [OF True] by linarith
      qed
      then have "unat w * 2 ^ j \<le> 0xffff * 2 ^ 216" using True by (intro mult_le_mono) (simp_all add: j_def)
      then show ?thesis by simp
    next
      case f: False
      have "j \<le> 208" using f kb(1) by (simp add: j_def)
      then have "(2 :: nat) ^ j \<le> 2 ^ 208" by (intro power_increasing) simp_all
      moreover have "unat w \<le> 2 ^ 23" unfolding w by (simp add: less_imp_le)
      ultimately have "unat w * 2 ^ j \<le> 2 ^ 23 * 2 ^ 208" by (intro mult_le_mono)
      then show ?thesis by simp
    qed
    then show ?thesis using le by (rule le_less_trans [rotated])
  qed
qed

lemma set_u64_small: "unat (set_u64 UINT256_ZERO 0 w) = unat w"
  using unat_u64_sum [of "set_u64 UINT256_ZERO 0 w"] by (simp add: UINT256_ZERO_def)

text \<open>C21: the difficulty rule.  Let the set hold the previous block and let \<open>bs\<close> be the chain of at most 180 blocks that the loop finds from it, newest
  first, with positive times and targets that are within the limit.  No sum or product overflows.  The rule returns, and its result is the compact form of the
  average target, the newest block counted twice, scaled by the actual time span over the target time span of one minute per block; the actual time span is
  clamped between a third and three times the target, and so is the change of the target; the result is capped at the limit.\<close>

theorem dgw_target:
  assumes "BRSetGet blockSet previous = Some (Some b)" "DGW_START_BLOCK \<le> height b" "past_blocks 180 blockSet (Some b) = Some bs"
    "\<forall>x \<in> set bs. target x \<le> MAX_PROOF_OF_WORK \<and> blk_timestamp x \<noteq> 0"
  defines "n \<equiv> length bs"
  defines "avg \<equiv> (unat (setCompact (target b)) + sum_list (map (\<lambda>x. unat (setCompact (target x))) bs)) div (n + 1)"
  defines "span \<equiv> nat (max (20 * int n) (min (180 * int n) (sint (blk_timestamp b - blk_timestamp (last bs)))))"
  shows "\<exists>c. getCompact (word_of_nat (avg * span div (60 * n))) = Some c \<and>
     DarkGravityWaveTarget previous blockSet = Some (min c MAX_PROOF_OF_WORK) \<and>
     avg div 3 \<le> avg * span div (60 * n) \<and> avg * span div (60 * n) \<le> 3 * avg"
proof -
  have bound: "\<forall>x \<in> set bs. work x < 2 ^ 232 \<and> blk_timestamp x \<noteq> 0" using assms(4) setCompact_bound by blast
  have hb: "height b \<noteq> 0" using assms(2) by (auto simp: DGW_START_BLOCK_def)
  have "past_blocks (Suc 179) blockSet (Some b) = Some bs" using assms(3) by simp
  then obtain rest where bs: "bs = b # rest" using past_first hb by blast
  have n: "0 < n" "n \<le> 180" using past_length [OF assms(3)] by (simp_all add: n_def bs)
  define st1 where "st1 = dgw_step b dgw_initial"
  define st where "st = fold dgw_step bs dgw_initial"
  have wb: "work b < 2 ^ 232" "blk_timestamp b \<noteq> 0" using bound by (auto simp: bs)
  have s1: "blockCount st1 = 2" "unat (sumTargets st1) = 2 * work b" "nActualTimespan st1 = 0" "lastBlockTime st1 = blk_timestamp b"
    using wb by (simp_all add: st1_def dgw_initial_def dgw_step_def Let_def add_targets)
  have "blockCount (fold dgw_step rest st1) = blockCount st1 + length rest \<and>
     unat (sumTargets (fold dgw_step rest st1)) = unat (sumTargets st1) + sum_list (map work rest) \<and>
     nActualTimespan (fold dgw_step rest st1) = nActualTimespan st1 + (lastBlockTime st1 - (if rest = [] then lastBlockTime st1 else blk_timestamp (last rest)))"
    using wb n bound by (intro fold_dgw) (auto simp: s1 bs n_def)
  then have st: "blockCount st = n + 1" "unat (sumTargets st) = work b + sum_list (map work bs)"
    "nActualTimespan st = blk_timestamp b - blk_timestamp (last bs)"
    by (auto simp: st_def st1_def [symmetric] bs s1 n_def)
  have "sum_list (map work bs) \<le> length bs * 2 ^ 232"
    using bound by (intro order_trans [OF sum_list_mono [of bs work "\<lambda>_. 2 ^ 232"]]) (auto simp: sum_list_triv less_imp_le)
  then have sum: "unat (sumTargets st) < 2 ^ 240" using wb(1) n unfolding st(2) n_def [symmetric] by simp
  have w64: "unat (word_of_nat m :: u64) = m" if "m \<le> 10800" for m using that by (intro unat_word_of_nat_less) simp
  have cnt: "unat (set_u64 UINT256_ZERO 0 (word_of_nat (n + 1))) = n + 1" "unat (set_u64 UINT256_ZERO 0 (word_of_nat (60 * n))) = 60 * n"
    unfolding set_u64_small using n(2) by (intro w64; simp)+
  define q where "q = sumTargets st div set_u64 UINT256_ZERO 0 (word_of_nat (n + 1))"
  have q: "divide_u256 (sumTargets st) (set_u64 UINT256_ZERO 0 (word_of_nat (blockCount st))) = Some q"
    using sum cnt(1) n(2) unfolding q_def st(1) by (intro divide_u256_div) (auto simp: unat_0_iff [symmetric])
  have avg: "unat q = avg" unfolding q_def unat_div_distrib cnt(1) st(2) avg_def ..
  have avg_less: "avg < 2 ^ 240" using sum unfolding avg [symmetric] q_def unat_div_distrib by (meson div_le_dividend le_less_trans)
  have span: "20 * n \<le> span" "span \<le> 180 * n" unfolding span_def by auto
  have mult: "unat (multiplyThis32 q (word_of_nat span)) = avg * span"
  proof -
    have u: "unat (word_of_nat span :: u32) = span" using span n by (intro unat_word_of_nat_less) simp
    have "avg * span < 2 ^ 240 * 2 ^ 15" using avg_less span n by (intro mult_strict_mono) auto
    then have "avg * span < 2 ^ 256" by simp
    then show ?thesis unfolding multiplyThis32_eq unat_word_ariths unat_ucast_32_256 u avg by simp
  qed
  have as: "avg * span < 2 ^ 255"
  proof -
    have "avg * span < 2 ^ 240 * 2 ^ 15" using avg_less span n by (intro mult_strict_mono) auto
    then show ?thesis by simp
  qed
  define r where "r = multiplyThis32 q (word_of_nat span) div set_u64 UINT256_ZERO 0 (word_of_nat (60 * n))"
  have d2: "divide_u256 (multiplyThis32 q (word_of_nat span)) (set_u64 UINT256_ZERO 0 (word_of_nat (60 * n))) = Some r"
    using as cnt(2) n unfolding r_def mult [symmetric] by (intro divide_u256_div) (auto simp: unat_0_iff [symmetric])
  have r: "unat r = avg * span div (60 * n)" unfolding r_def unat_div_distrib cnt(2) mult ..
  then have "unat r < 2 ^ 255" using as by (metis div_le_dividend le_less_trans)
  then obtain c where c: "getCompact r = Some c" using getCompact_total by blast
  have rw: "r = word_of_nat (avg * span div (60 * n))" unfolding r [symmetric] by simp
  have limit: "dgw_limit (int (60 * n)) (sint (nActualTimespan st)) = int span" unfolding st(3) span_def dgw_limit_def Let_def by auto
  have nt: "(blockCount st - 1) * DGW_TARGET_TIMESPAN = 60 * n" by (simp add: st(1) DGW_TARGET_TIMESPAN_def)
  have "dgw_result st = Some (min c MAX_PROOF_OF_WORK)"
    unfolding dgw_result_def Let_def q nt limit bind.bind_lunit of_int_of_nat_eq d2 c by (auto simp: min_def)
  then have "DarkGravityWaveTarget previous blockSet = Some (min c MAX_PROOF_OF_WORK)"
    using assms(1) leD [OF assms(2)] hb
    by (simp add: DarkGravityWaveTarget_def dgw_loop_past DGW_PAST_BLOCKS_def assms(3) st_def [symmetric])
  moreover have "avg div 3 \<le> avg * span div (60 * n)"
  proof -
    have "avg div 3 = avg * (20 * n) div (3 * (20 * n))" using n(1) by (subst div_mult_mult2) simp_all
    also have "\<dots> \<le> avg * span div (3 * (20 * n))" using span by (intro div_le_mono mult_le_mono2)
    finally show ?thesis by simp
  qed
  moreover have "avg * span div (60 * n) \<le> 3 * avg"
  proof -
    have "avg * span div (60 * n) \<le> avg * (180 * n) div (60 * n)" using span by (intro div_le_mono mult_le_mono2)
    also have "avg * (180 * n) = 3 * avg * (60 * n)" by simp
    also have "3 * avg * (60 * n) div (60 * n) = 3 * avg" using n(1) by simp
    finally show ?thesis .
  qed
  ultimately show ?thesis using c rw by blast
qed


lemma past_two: "height b \<noteq> 0 \<Longrightarrow> BRSetGet s (hash_key (prevBlock b)) = Some None \<Longrightarrow> past_blocks 180 s (Some b) = Some [b]"
proof -
  assume a: "height b \<noteq> 0" "BRSetGet s (hash_key (prevBlock b)) = Some None"
  have "past_blocks (Suc (Suc m)) s (Some b) = Some [b]" for m using a by simp
  from this [of 178] show ?thesis by simp
qed

definition sample_block :: BRMerkleBlock where
  "sample_block = BRMerkleBlockNew\<lparr>height := 400000, target := 0x1b00ffff, blk_timestamp := 5, blockHash := 6\<rparr>"

lemma sample_set:
  "\<exists>s0 s. BRSetNew BRMerkleBlockHash BRMerkleBlockEq 0 = Some s0 \<and> BRSetAdd s0 sample_block = Some (s, None) \<and>
     BRSetGet s sample_block = Some (Some sample_block) \<and> BRSetGet s (hash_key 0) = Some None"
proof -
  obtain s0 where s0: "BRSetNew BRMerkleBlockHash BRMerkleBlockEq 0 = Some s0" "set_ok BRMerkleBlockHash BRMerkleBlockEq s0" "items s0 = {}"
    using block_set.new_ok [of 0] by auto
  have none: "BRSetGet s0 y = Some None" for y using block_set.get_absent [OF s0(2)] s0(3) by blast
  have "length (set_table s0) < LARGEST_TABLE"
    using s0(1) by (auto simp: BRSetNew_def SetInit_def tableSizes_def TABLE_SIZES_LEN_def LARGEST_TABLE_def)
  from block_set.get_add [OF s0(2) this, of sample_block] none show ?thesis using s0(1)
    by (auto simp: BRMerkleBlockEq_def UInt256Eq_iff sample_block_def hash_key_def BRMerkleBlockNew_def)
qed

theorem dgw_target_witness:
  "\<exists>s c. BRSetGet s sample_block = Some (Some sample_block) \<and> DarkGravityWaveTarget sample_block s = Some c \<and> c \<le> MAX_PROOF_OF_WORK"
proof -
  obtain s where s: "BRSetGet s sample_block = Some (Some sample_block)" "BRSetGet s (hash_key 0) = Some None" using sample_set by blast
  have "past_blocks 180 s (Some sample_block) = Some [sample_block]"
    by (rule past_two) (use s(2) in \<open>simp_all add: sample_block_def BRMerkleBlockNew_def\<close>)
  then obtain c where "DarkGravityWaveTarget sample_block s = Some (min c MAX_PROOF_OF_WORK)"
    using dgw_target [OF s(1) _ _, of "[sample_block]"] by (auto simp: sample_block_def DGW_START_BLOCK_def MAX_PROOF_OF_WORK_def)
  then show ?thesis using s(1) by (intro exI [of _ s] exI [of _ "min c MAX_PROOF_OF_WORK"]) simp
qed

text \<open>What the caller can rely on.  Below the activation height the answer is that the block follows the previous one.  From it on, and after the first 180
  calls of the program, the answer depends only on the target being within one of the computed one, and inside the exempt range of heights
  it is always yes; in both cases the result of the test that the block follows the previous one is thrown away.  During the first 180 calls the target is not
  looked at, except at the activation height, where it must be the known one.\<close>

theorem verify_difficulty:
  assumes "DarkGravityWaveTarget previous blockSet = Some d" "target b - d \<noteq> 0x80000000"
  shows "map_option fst (BRMerkleBlockVerifyDifficulty b previous blockSet pastCount) =
     Some (if height b < DGW_START_BLOCK then prevBlock b = blockHash previous \<and> height b = height previous + 1
       else if pastCount < 180 then (if height b = DGW_START_BLOCK then target b = 0x1b07cf3a
         else prevBlock b = blockHash previous \<and> height b = height previous + 1)
       else 1219736 \<le> height b \<and> height b \<le> 1219916 \<or> \<bar>sint (target b - d)\<bar> < 2)"
  using assms
  by (auto simp: BRMerkleBlockVerifyDifficulty_def Let_def DGW_START_BLOCK_def DGW_PAST_BLOCKS_def UInt256Eq_iff not_le not_less)

theorem verify_difficulty_witness:
  "\<exists>s. map_option fst (BRMerkleBlockVerifyDifficulty (BRMerkleBlockNew\<lparr>height := 1219800, target := 0x1e00ffff\<rparr>) BRMerkleBlockNew s 200) = Some True"
proof -
  obtain s where s: "BRSetNew BRMerkleBlockHash BRMerkleBlockEq 0 = Some s" "set_ok BRMerkleBlockHash BRMerkleBlockEq s" "items s = {}"
    using block_set.new_ok [of 0] by auto
  then have "BRSetGet s BRMerkleBlockNew = Some None" using block_set.get_absent [OF s(2)] by blast
  then have "DarkGravityWaveTarget BRMerkleBlockNew s = Some MAX_PROOF_OF_WORK" by (simp add: DarkGravityWaveTarget_def)
  from verify_difficulty [OF this, of "BRMerkleBlockNew\<lparr>height := 1219800, target := 0x1e00ffff\<rparr>" 200] show ?thesis
    by (intro exI [of _ s]) (simp add: MAX_PROOF_OF_WORK_def DGW_START_BLOCK_def)
qed

end
