(* ===== verification/BRWallet.thy ===== *)
theory BRWallet
  imports BRTransactionParse
begin

unbundle bit_operations_syntax

text \<open>
  \<open>BRWallet.c\<close>: the transactions of a wallet, its addresses, balance and unspent outputs.  The wallet points to its transactions; a
  pointer is represented by the hash of the transaction, which is also the key of the sets that hold them, and the structures
  themselves are the items of \<open>allTx\<close>.  The sets are the abstract sets that \<open>BRSet\<close> implements for the hash and equality functions below.  Addresses
  are strings.  \<open>None\<close> as a result is undefined behaviour or a recursion that does not end.  The lock is left out, the callbacks
  are results of the operations; the clock and the derivation of addresses from the master public key are parameters.
\<close>

section \<open>Data\<close>

type_synonym UTXO = "UInt256 \<times> u32"

definition BRUTXOHash :: "UTXO \<Rightarrow> nat" where
  "BRUTXOHash utxo = unat ((u32_at (fst utxo) 0 XOR snd utxo) * 0x01000193)"

definition BRUTXOEq :: "UTXO \<Rightarrow> UTXO \<Rightarrow> bool" where
  "BRUTXOEq utxo otherUtxo \<longleftrightarrow> UInt256Eq (fst utxo) (fst otherUtxo) \<and> snd utxo = snd otherUtxo"

interpretation utxo_set: set_contract BRUTXOHash BRUTXOEq
  by unfold_locales (auto simp: BRUTXOHash_def BRUTXOEq_def UInt256Eq_iff)

text \<open>Addresses are arrays of 36 characters that end with a zero; \<open>strncmp\<close> compares them up to the zero.\<close>

definition BRAddressHash :: "bytes \<Rightarrow> nat" where
  "BRAddressHash addr = unat (Murmur3_32 (field_string addr) 0)"

definition BRAddressEq :: "bytes \<Rightarrow> bytes \<Rightarrow> bool" where
  "BRAddressEq addr otherAddr \<longleftrightarrow> field_string addr = field_string otherAddr"

interpretation addr_set: set_contract BRAddressHash BRAddressEq
  by unfold_locales (auto simp: BRAddressHash_def BRAddressEq_def)

definition TX_MAX_SIZE :: nat where "TX_MAX_SIZE = 100000"
definition TX_MAX_LOCK_HEIGHT :: u32 where "TX_MAX_LOCK_HEIGHT = 500000000"
definition TX_MIN_OUTPUT_AMOUNT :: u64 where
  "TX_MIN_OUTPUT_AMOUNT = TX_FEE_PER_KB * 3 * (word_of_nat (TX_OUTPUT_SIZE + TX_INPUT_SIZE)) div 1000"
definition TXIN_SEQUENCE :: u32 where "TXIN_SEQUENCE = 0xffffffff"
definition DEFAULT_FEE_PER_KB :: u64 where "DEFAULT_FEE_PER_KB = (5000 * 1000 + 99) div 100"
definition MIN_FEE_PER_KB :: u64 where "MIN_FEE_PER_KB = (TX_FEE_PER_KB * 1000 + 190) div 191"
definition SEQUENCE_GAP_LIMIT_EXTERNAL :: nat where "SEQUENCE_GAP_LIMIT_EXTERNAL = 10"
definition SEQUENCE_GAP_LIMIT_INTERNAL :: nat where "SEQUENCE_GAP_LIMIT_INTERNAL = 5"

record BRWallet =
  balance :: u64
  totalSent :: u64
  totalReceived :: u64
  feePerKb :: u64
  balanceHist :: "u64 list"
  wallet_blockHeight :: u32
  utxos :: "UTXO list"
  transactions :: "UInt256 list"
  internalChain :: "bytes list"
  externalChain :: "bytes list"
  allTx :: "BRTransaction list"
  invalidTx :: "UInt256 set"
  pendingTx :: "UInt256 set"
  spentOutputs :: "UTXO set"
  usedAddrs :: "bytes set"
  allAddrs :: "bytes set"

definition getTx :: "BRWallet \<Rightarrow> UInt256 \<Rightarrow> BRTransaction option" where
  "getTx w h = List.find (\<lambda>t. txHash t = h) (allTx w)"

definition input_utxo :: "BRTxInput \<Rightarrow> UTXO" where
  "input_utxo inp = (in_txHash inp, in_index inp)"

abbreviation out_addr :: "BRTxOutput \<Rightarrow> bytes" where
  "out_addr out \<equiv> field_string (out_address out)"

section \<open>Fees\<close>

definition txFee :: "u64 \<Rightarrow> nat \<Rightarrow> u64" where
  "txFee fee_per_kb sz =
     (let standardFee = word_of_nat ((sz + 999) div 1000) * TX_FEE_PER_KB;
          fee = ((word_of_nat sz * fee_per_kb div 1000) + 99) div 100 * 100
      in if fee > standardFee then fee else standardFee)"

definition BRWalletMinOutputAmount :: "BRWallet \<Rightarrow> u64" where
  "BRWalletMinOutputAmount w =
     (let amount = (TX_MIN_OUTPUT_AMOUNT * feePerKb w + MIN_FEE_PER_KB - 1) div MIN_FEE_PER_KB
      in if amount > TX_MIN_OUTPUT_AMOUNT then amount else TX_MIN_OUTPUT_AMOUNT)"

definition BRWalletFeeForTxSize :: "BRWallet \<Rightarrow> nat \<Rightarrow> u64" where
  "BRWalletFeeForTxSize w sz = txFee (feePerKb w) sz"

section \<open>The order of the transactions\<close>

text \<open>A loop over the inputs that stops at the first success.\<close>

fun any_m :: "('a \<Rightarrow> bool option) \<Rightarrow> 'a list \<Rightarrow> bool option" where
  "any_m f [] = Some False"
| "any_m f (x # xs) = do { b \<leftarrow> f x; if b then Some True else any_m f xs }"

text \<open>The chain is searched from the end; \<open>None\<close> is \<open>SIZE_MAX\<close>.\<close>

definition txChainIndex :: "BRTransaction \<Rightarrow> bytes list \<Rightarrow> nat option" where
  "txChainIndex tx addrChain = List.find (\<lambda>i. list_ex (\<lambda>out. out_addr out = addrChain ! i) (outputs tx)) (rev [0..<length addrChain])"

text \<open>The recursion follows the inputs of the first transaction through the wallet.  On a path longer than the number of transactions one
  transaction is met twice and the recursion does not end; the bound is that number.\<close>

fun tx_ascending :: "nat \<Rightarrow> BRWallet \<Rightarrow> BRTransaction option \<Rightarrow> BRTransaction option \<Rightarrow> bool option" where
  "tx_ascending 0 w tx1 tx2 = None"
| "tx_ascending (Suc n) w tx1 tx2 =
     (case (tx1, tx2) of
        (Some t1, Some t2) \<Rightarrow>
          if blockHeight t1 > blockHeight t2 then Some True
          else if blockHeight t1 < blockHeight t2 then Some False
          else if list_ex (\<lambda>i. UInt256Eq (in_txHash i) (txHash t2)) (inputs t1) then Some True
          else if list_ex (\<lambda>i. UInt256Eq (in_txHash i) (txHash t1)) (inputs t2) then Some False
          else any_m (\<lambda>i. tx_ascending n w (getTx w (in_txHash i)) tx2) (inputs t1)
      | _ \<Rightarrow> Some False)"

definition BRWalletTxIsAscending :: "BRWallet \<Rightarrow> BRTransaction \<Rightarrow> BRTransaction \<Rightarrow> bool option" where
  "BRWalletTxIsAscending w tx1 tx2 = tx_ascending (length (allTx w) + 2) w (Some tx1) (Some tx2)"

definition BRWalletTxCompare :: "BRWallet \<Rightarrow> BRTransaction \<Rightarrow> BRTransaction \<Rightarrow> int option" where
  "BRWalletTxCompare w tx1 tx2 = do {
     a \<leftarrow> BRWalletTxIsAscending w tx1 tx2;
     if a then Some 1 else do {
       b \<leftarrow> BRWalletTxIsAscending w tx2 tx1;
       if b then Some (- 1) else do {
         let i = txChainIndex tx1 (internalChain w);
         let j = txChainIndex tx2 (if i = None then externalChain w else internalChain w);
         let i = (if i = None \<and> j \<noteq> None then txChainIndex tx1 (externalChain w) else i);
         Some (case (i, j) of (Some i, Some j) \<Rightarrow> (if i > j then 1 else if i < j then - 1 else 0) | _ \<Rightarrow> 0)
       }
     }
   }"

text \<open>The insertion loop: \<open>i\<close> entries in front have not been moved yet.\<close>

fun insert_loop :: "BRWallet \<Rightarrow> BRTransaction \<Rightarrow> UInt256 list \<Rightarrow> nat \<Rightarrow> nat option" where
  "insert_loop w tx ts 0 = Some 0"
| "insert_loop w tx ts (Suc i) = do {
     t \<leftarrow> getTx w (ts ! i);
     c \<leftarrow> BRWalletTxCompare w t tx;
     if c > 0 then insert_loop w tx ts i else Some (Suc i)
   }"

definition BRWalletInsertTx :: "BRWallet \<Rightarrow> BRTransaction \<Rightarrow> BRWallet option" where
  "BRWalletInsertTx w tx = do {
     i \<leftarrow> insert_loop w tx (transactions w) (length (transactions w));
     Some (w\<lparr>transactions := take i (transactions w) @ txHash tx # drop i (transactions w)\<rparr>)
   }"

section \<open>Which transactions concern the wallet\<close>

text \<open>The output that an input spends, when the wallet knows the transaction.\<close>

definition spent_output :: "BRWallet \<Rightarrow> BRTxInput \<Rightarrow> BRTxOutput option" where
  "spent_output w inp = do { t \<leftarrow> getTx w (in_txHash inp); rd (outputs t) (unat (in_index inp)) }"

definition is_own :: "BRWallet \<Rightarrow> BRTxOutput \<Rightarrow> bool" where
  "is_own w out \<longleftrightarrow> out_addr out \<in> allAddrs w"

definition BRWalletContainsTx :: "BRWallet \<Rightarrow> BRTransaction \<Rightarrow> bool" where
  "BRWalletContainsTx w tx \<longleftrightarrow> list_ex (is_own w) (outputs tx) \<or>
     list_ex (\<lambda>inp. case spent_output w inp of None \<Rightarrow> False | Some out \<Rightarrow> is_own w out) (inputs tx)"

section \<open>Balance and unspent outputs\<close>

definition is_invalid :: "BRWallet \<Rightarrow> BRTransaction \<Rightarrow> bool" where
  "is_invalid w tx \<longleftrightarrow> list_ex (\<lambda>inp. input_utxo inp \<in> spentOutputs w \<or> in_txHash inp \<in> invalidTx w) (inputs tx)"

definition is_pending :: "int \<Rightarrow> BRWallet \<Rightarrow> BRTransaction \<Rightarrow> bool" where
  "is_pending now w tx \<longleftrightarrow> BRTransactionSize tx > TX_MAX_SIZE \<or>
     list_ex (\<lambda>inp. (lockTime tx < TX_MAX_LOCK_HEIGHT \<and> lockTime tx > wallet_blockHeight w - 180) \<or>
       (in_sequence inp < 0xffffffff \<and> int (unat (lockTime tx)) > now) \<or> in_txHash inp \<in> pendingTx w) (inputs tx)"

fun add_outputs_loop :: "UInt256 \<Rightarrow> nat \<Rightarrow> BRTxOutput list \<Rightarrow> BRWallet \<times> u64 \<Rightarrow> BRWallet \<times> u64" where
  "add_outputs_loop h j [] st = st"
| "add_outputs_loop h j (out # outs) (w, bal) = add_outputs_loop h (j + 1) outs
     (if out_addr out \<noteq> [] then
        (let w = w\<lparr>usedAddrs := insert (out_addr out) (usedAddrs w)\<rparr>
         in if is_own w out then (w\<lparr>utxos := utxos w @ [(h, word_of_nat j)]\<rparr>, bal + out_amount out) else (w, bal))
      else (w, bal))"

fun prune_loop :: "nat \<Rightarrow> BRWallet \<times> u64 \<Rightarrow> (BRWallet \<times> u64) option" where
  "prune_loop 0 st = Some st"
| "prune_loop (Suc j) (w, bal) =
     (let u = utxos w ! j in
      if u \<notin> spentOutputs w then prune_loop j (w, bal)
      else do {
        t \<leftarrow> getTx w (fst u);
        out \<leftarrow> rd (outputs t) (unat (snd u));
        prune_loop j (w\<lparr>utxos := take j (utxos w) @ drop (Suc j) (utxos w)\<rparr>, bal - out_amount out)
      })"

text \<open>One turn of the loop over the transactions, with the running balance and the balance of the last turn that was not skipped.\<close>

definition balance_step :: "int \<Rightarrow> UInt256 \<Rightarrow> BRWallet \<times> u64 \<times> u64 \<Rightarrow> (BRWallet \<times> u64 \<times> u64) option" where
  "balance_step now h = (\<lambda>(w, bal, prev). do {
     tx \<leftarrow> getTx w h;
     if blockHeight tx = TX_UNCONFIRMED \<and> is_invalid w tx
     then Some (w\<lparr>invalidTx := insert h (invalidTx w), balanceHist := balanceHist w @ [bal]\<rparr>, bal, prev)
     else do {
       let w = w\<lparr>spentOutputs := spentOutputs w \<union> set (map input_utxo (inputs tx))\<rparr>;
       if blockHeight tx = TX_UNCONFIRMED \<and> is_pending now w tx
       then Some (w\<lparr>pendingTx := insert h (pendingTx w), balanceHist := balanceHist w @ [bal]\<rparr>, bal, prev)
       else do {
         let (w, bal) = add_outputs_loop (txHash tx) 0 (outputs tx) (w, bal);
         (w, bal) \<leftarrow> prune_loop (length (utxos w)) (w, bal);
         let w = (if prev < bal then w\<lparr>totalReceived := totalReceived w + (bal - prev)\<rparr> else w);
         let w = (if bal < prev then w\<lparr>totalSent := totalSent w + (prev - bal)\<rparr> else w);
         Some (w\<lparr>balanceHist := balanceHist w @ [bal]\<rparr>, bal, bal)
       }
     }
   })"

fun balance_loop :: "int \<Rightarrow> UInt256 list \<Rightarrow> BRWallet \<times> u64 \<times> u64 \<Rightarrow> (BRWallet \<times> u64 \<times> u64) option" where
  "balance_loop now [] st = Some st"
| "balance_loop now (h # hs) st = balance_step now h st \<bind> balance_loop now hs"

definition cleared :: "BRWallet \<Rightarrow> BRWallet" where
  "cleared w = w\<lparr>utxos := [], balanceHist := [], spentOutputs := {}, invalidTx := {}, pendingTx := {}, usedAddrs := {},
     totalSent := 0, totalReceived := 0\<rparr>"

definition BRWalletUpdateBalance :: "int \<Rightarrow> BRWallet \<Rightarrow> BRWallet option" where
  "BRWalletUpdateBalance now w = do {
     (w, bal, _) \<leftarrow> balance_loop now (transactions w) (cleared w, 0, 0);
     if length (balanceHist w) = length (transactions w) then Some (w\<lparr>balance := bal\<rparr>) else None
   }"


section \<open>Addresses\<close>

text \<open>The address with a number in a chain, derived from the master public key by \<open>BRBIP32PubKey\<close>, \<open>BRKeySetPubKey\<close> and \<open>BRKeyAddress\<close>; \<open>None\<close> when one of them
  fails.  The first argument tells the internal chain.\<close>

type_synonym derivation = "bool \<Rightarrow> nat \<Rightarrow> bytes option"

definition trailing_unused :: "bytes set \<Rightarrow> bytes list \<Rightarrow> nat" where
  "trailing_unused usedA addrs = length addrs - length (takeWhile (\<lambda>a. a \<notin> usedA) (rev addrs))"

partial_function (option) gen_addrs :: "(nat \<Rightarrow> bytes option) \<Rightarrow> bytes set \<Rightarrow> nat \<Rightarrow> nat \<Rightarrow> bytes list \<Rightarrow> (nat \<times> bytes list) option" where
  "gen_addrs derive usedA gapLimit i addrs =
     (if i + gapLimit > length addrs then
        (case derive (length addrs) of
           None \<Rightarrow> Some (i, addrs)
         | Some a \<Rightarrow> gen_addrs derive usedA gapLimit (if a \<in> usedA then length addrs + 1 else i) (addrs @ [a]))
      else Some (i, addrs))"

declare gen_addrs.simps [code]

text \<open>The unused addresses and the wallet with the extended chain.  When the array was moved the set of addresses is built again from both chains, which
  gives the same set.\<close>

definition BRWalletUnusedAddrs :: "derivation \<Rightarrow> BRWallet \<Rightarrow> nat \<Rightarrow> bool \<Rightarrow> (bytes list \<times> BRWallet) option" where
  "BRWalletUnusedAddrs derive w gapLimit internal =
     (if gapLimit = 0 then None else do {
        let addrChain = (if internal then internalChain w else externalChain w);
        (i, newChain) \<leftarrow> gen_addrs (derive internal) (usedAddrs w) gapLimit (trailing_unused (usedAddrs w) addrChain) addrChain;
        let addrs = (if i + gapLimit \<le> length newChain then slice i gapLimit newChain else []);
        let w = (if internal then w\<lparr>internalChain := newChain\<rparr> else w\<lparr>externalChain := newChain\<rparr>);
        Some (addrs, w\<lparr>allAddrs := allAddrs w \<union> set (drop (length addrChain) newChain)\<rparr>)
      })"

definition BRWalletReceiveAddress :: "derivation \<Rightarrow> BRWallet \<Rightarrow> (bytes \<times> BRWallet) option" where
  "BRWalletReceiveAddress derive w = do {
     (addrs, w) \<leftarrow> BRWalletUnusedAddrs derive w 1 False;
     Some (case addrs of [] \<Rightarrow> [] | a # _ \<Rightarrow> a, w)
   }"

text \<open>A used address is written at its position in the chain, not behind the ones written before.\<close>

fun used_writes :: "bytes set \<Rightarrow> nat \<Rightarrow> bytes list \<Rightarrow> bytes list \<Rightarrow> bytes list option" where
  "used_writes U i [] addrs = Some addrs"
| "used_writes U i (a # as) addrs =
     (if a \<notin> U then used_writes U (i + 1) as addrs
      else if i < length addrs then used_writes U (i + 1) as (addrs[i := a]) else None)"

definition BRWalletUsedAddresses :: "BRWallet \<Rightarrow> bytes list option \<Rightarrow> (bytes list option \<times> nat) option" where
  "BRWalletUsedAddresses w addrs = do {
     addrs \<leftarrow> (case addrs of None \<Rightarrow> Some None | Some as \<Rightarrow> map_option Some (used_writes (usedAddrs w) 0 (externalChain w) as));
     Some (addrs, length (filter (\<lambda>a. a \<in> usedAddrs w) (externalChain w)))
   }"

definition BRWalletAllAddrs :: "BRWallet \<Rightarrow> nat option \<Rightarrow> bytes list \<times> nat" where
  "BRWalletAllAddrs w addrsCount =
     (case addrsCount of
        None \<Rightarrow> ([], length (internalChain w) + length (externalChain w))
      | Some n \<Rightarrow> (let a = take n (internalChain w); b = take (n - length a) (externalChain w) in (a @ b, length a + length b)))"

definition BRWalletContainsAddress :: "BRWallet \<Rightarrow> bytes \<Rightarrow> bool" where
  "BRWalletContainsAddress w addr \<longleftrightarrow> addr \<in> allAddrs w"

definition BRWalletAddressIsUsed :: "BRWallet \<Rightarrow> bytes \<Rightarrow> bool" where
  "BRWalletAddressIsUsed w addr \<longleftrightarrow> addr \<in> usedAddrs w"

section \<open>Queries\<close>

definition BRWalletBalance :: "BRWallet \<Rightarrow> u64" where "BRWalletBalance w = balance w"
definition BRWalletTotalSent :: "BRWallet \<Rightarrow> u64" where "BRWalletTotalSent w = totalSent w"
definition BRWalletTotalReceived :: "BRWallet \<Rightarrow> u64" where "BRWalletTotalReceived w = totalReceived w"
definition BRWalletFeePerKb :: "BRWallet \<Rightarrow> u64" where "BRWalletFeePerKb w = feePerKb w"
definition BRWalletSetFeePerKb :: "BRWallet \<Rightarrow> u64 \<Rightarrow> BRWallet" where "BRWalletSetFeePerKb w fee = w\<lparr>feePerKb := fee\<rparr>"

definition BRWalletUTXOs :: "BRWallet \<Rightarrow> nat option \<Rightarrow> UTXO list \<times> nat" where
  "BRWalletUTXOs w cap = (case cap of None \<Rightarrow> ([], length (utxos w)) | Some n \<Rightarrow> (take n (utxos w), min n (length (utxos w))))"

definition BRWalletTransactions :: "BRWallet \<Rightarrow> nat option \<Rightarrow> UInt256 list \<times> nat" where
  "BRWalletTransactions w cap =
     (case cap of None \<Rightarrow> ([], length (transactions w)) | Some n \<Rightarrow> (take n (transactions w), min n (length (transactions w))))"

text \<open>Entries of the array whose transaction satisfies a condition, counted from the end up to the first that does not.\<close>

fun count_from_end :: "BRWallet \<Rightarrow> (BRTransaction \<Rightarrow> bool) \<Rightarrow> UInt256 list \<Rightarrow> nat option" where
  "count_from_end w P [] = Some 0"
| "count_from_end w P (h # hs) = do { t \<leftarrow> getTx w h; if P t then map_option Suc (count_from_end w P hs) else Some 0 }"

definition BRWalletTxUnconfirmedBefore :: "BRWallet \<Rightarrow> nat option \<Rightarrow> u32 \<Rightarrow> (UInt256 list \<times> nat) option" where
  "BRWalletTxUnconfirmedBefore w cap bh = do {
     n \<leftarrow> count_from_end w (\<lambda>t. blockHeight t \<ge> bh) (rev (transactions w));
     let start = length (transactions w) - n;
     Some (case cap of None \<Rightarrow> ([], n) | Some c \<Rightarrow> (slice start (min c n) (transactions w), min c n))
   }"

definition BRWalletContainsTransaction :: "BRWallet \<Rightarrow> BRTransaction \<Rightarrow> bool" where
  "BRWalletContainsTransaction w tx = BRWalletContainsTx w tx"

definition BRWalletTransactionForHash :: "BRWallet \<Rightarrow> UInt256 \<Rightarrow> BRTransaction option option" where
  "BRWalletTransactionForHash w h = (if UInt256IsZero h then None else Some (getTx w h))"

definition BRWalletAmountReceivedFromTx :: "BRWallet \<Rightarrow> BRTransaction \<Rightarrow> u64" where
  "BRWalletAmountReceivedFromTx w tx = sum_list (map out_amount (filter (is_own w) (outputs tx)))"

definition BRWalletAmountSentByTx :: "BRWallet \<Rightarrow> BRTransaction \<Rightarrow> u64" where
  "BRWalletAmountSentByTx w tx = sum_list (map (\<lambda>inp. case spent_output w inp of None \<Rightarrow> 0
     | Some out \<Rightarrow> if is_own w out then out_amount out else 0) (inputs tx))"

text \<open>Whether an output counts as a received asset, and the two modes of the function: counting all outputs, or filling an array of
  assets at the positions of the first outputs.\<close>

definition received_asset :: "BRWallet \<Rightarrow> BRTxOutput \<Rightarrow> bool" where
  "received_asset w out \<longleftrightarrow> out_amount out = 0 \<and> \<not> IsScriptTransferAsset (ptr_bytes (out_script out)) \<and> is_own w out"

fun fill_assets :: "BRWallet \<Rightarrow> BRTxOutput list \<Rightarrow> BRAsset list \<Rightarrow> (BRAsset list \<times> nat) option" where
  "fill_assets w outs [] = Some ([], 0)"
| "fill_assets w [] (a # as) = None"
| "fill_assets w (out # outs) (a # as) = do {
     (a, k) \<leftarrow> (if received_asset w out then map_option (\<lambda>(_, a). (a, 1)) (GetAssetData (ptr_bytes (out_script out)) a) else Some (a, 0));
     (as, n) \<leftarrow> fill_assets w outs as;
     Some (a # as, k + n)
   }"

definition BRWalletAssetsReceivedFromTx :: "BRWallet \<Rightarrow> BRTransaction \<Rightarrow> BRAsset list option \<Rightarrow> (BRAsset list \<times> nat) option" where
  "BRWalletAssetsReceivedFromTx w tx asset =
     (case asset of None \<Rightarrow> Some ([], length (filter (received_asset w) (outputs tx))) | Some as \<Rightarrow> fill_assets w (outputs tx) as)"

text \<open>Once the amount is \<open>UINT64_MAX\<close> both loops stop.\<close>

fun fee_inputs :: "BRWallet \<Rightarrow> BRTxInput list \<Rightarrow> u64 \<Rightarrow> u64" where
  "fee_inputs w [] amt = amt"
| "fee_inputs w (inp # ins) amt = (if amt = - 1 then amt
     else fee_inputs w ins (case spent_output w inp of None \<Rightarrow> - 1 | Some out \<Rightarrow> amt + out_amount out))"

fun fee_outputs :: "BRTxOutput list \<Rightarrow> u64 \<Rightarrow> u64" where
  "fee_outputs [] amt = amt"
| "fee_outputs (out # outs) amt = (if amt = - 1 then amt else fee_outputs outs (amt - out_amount out))"

definition BRWalletFeeForTx :: "BRWallet \<Rightarrow> BRTransaction \<Rightarrow> u64" where
  "BRWalletFeeForTx w tx = fee_outputs (outputs tx) (fee_inputs w (inputs tx) 0)"

text \<open>The last entry of the transaction in the array decides.\<close>

definition BRWalletBalanceAfterTx :: "BRWallet \<Rightarrow> BRTransaction \<Rightarrow> u64 option" where
  "BRWalletBalanceAfterTx w tx = (if \<not> BRTransactionIsSigned tx then None
     else case List.find (\<lambda>i. transactions w ! i = txHash tx) (rev [0..<length (transactions w)]) of
        None \<Rightarrow> Some (balance w) | Some i \<Rightarrow> rd (balanceHist w) i)"

section \<open>Validity of transactions\<close>

fun all_m :: "('a \<Rightarrow> bool option) \<Rightarrow> 'a list \<Rightarrow> bool option" where
  "all_m f [] = Some True"
| "all_m f (x # xs) = do { b \<leftarrow> f x; if b then all_m f xs else Some False }"

text \<open>The check of the transactions that an input spends; the hash is asserted not to be zero.\<close>

definition check_parent :: "BRWallet \<Rightarrow> (BRTransaction \<Rightarrow> bool option) \<Rightarrow> BRTxInput \<Rightarrow> bool option" where
  "check_parent w f inp = do {
     t \<leftarrow> BRWalletTransactionForHash w (in_txHash inp);
     (case t of None \<Rightarrow> Some True | Some t \<Rightarrow> f t)
   }"

fun tx_valid :: "nat \<Rightarrow> BRWallet \<Rightarrow> BRTransaction \<Rightarrow> bool option" where
  "tx_valid 0 w tx = None"
| "tx_valid (Suc n) w tx =
     (if \<not> BRTransactionIsSigned tx then None
      else if blockHeight tx \<noteq> TX_UNCONFIRMED then Some True
      else if (case getTx w (txHash tx) of
                 None \<Rightarrow> list_ex (\<lambda>inp. input_utxo inp \<in> spentOutputs w) (inputs tx)
               | Some _ \<Rightarrow> txHash tx \<in> invalidTx w) then Some False
      else all_m (check_parent w (tx_valid n w)) (inputs tx))"

definition BRWalletTransactionIsValid :: "BRWallet \<Rightarrow> BRTransaction \<Rightarrow> bool option" where
  "BRWalletTransactionIsValid w tx = tx_valid (length (allTx w) + 2) w tx"

fun tx_pending :: "nat \<Rightarrow> int \<Rightarrow> BRWallet \<Rightarrow> BRTransaction \<Rightarrow> bool option" where
  "tx_pending 0 now w tx = None"
| "tx_pending (Suc n) now w tx =
     (if \<not> BRTransactionIsSigned tx then None
      else if blockHeight tx \<noteq> TX_UNCONFIRMED then Some False
      else if BRTransactionSize tx > TX_MAX_SIZE then Some True
      else if list_ex (\<lambda>inp. in_sequence inp < 0xfffffffe \<or>
          (in_sequence inp < 0xffffffff \<and> lockTime tx < TX_MAX_LOCK_HEIGHT \<and> lockTime tx > wallet_blockHeight w + 1) \<or>
          (in_sequence inp < 0xffffffff \<and> int (unat (lockTime tx)) > now)) (inputs tx) then Some True
      else if list_ex (\<lambda>out. out_amount out < TX_MIN_OUTPUT_AMOUNT) (outputs tx) then Some True
      else map_option Not (all_m (check_parent w (\<lambda>t. map_option Not (tx_pending n now w t))) (inputs tx)))"

definition BRWalletTransactionIsPending :: "int \<Rightarrow> BRWallet \<Rightarrow> BRTransaction \<Rightarrow> bool option" where
  "BRWalletTransactionIsPending now w tx = tx_pending (length (allTx w) + 2) now w tx"

fun tx_verified :: "nat \<Rightarrow> int \<Rightarrow> BRWallet \<Rightarrow> BRTransaction \<Rightarrow> bool option" where
  "tx_verified 0 now w tx = None"
| "tx_verified (Suc n) now w tx =
     (if \<not> BRTransactionIsSigned tx then None
      else if blockHeight tx \<noteq> TX_UNCONFIRMED then Some True
      else if timestamp tx = 0 then Some False
      else do {
        v \<leftarrow> BRWalletTransactionIsValid w tx;
        if \<not> v then Some False else do {
          p \<leftarrow> BRWalletTransactionIsPending now w tx;
          if p then Some False else all_m (check_parent w (tx_verified n now w)) (inputs tx)
        }
      })"

definition BRWalletTransactionIsVerified :: "int \<Rightarrow> BRWallet \<Rightarrow> BRTransaction \<Rightarrow> bool option" where
  "BRWalletTransactionIsVerified now w tx = tx_verified (length (allTx w) + 2) now w tx"

section \<open>Changes of the history\<close>

definition add_tx :: "BRWallet \<Rightarrow> BRTransaction \<Rightarrow> BRWallet" where
  "add_tx w tx = w\<lparr>allTx := tx # filter (\<lambda>t. txHash t \<noteq> txHash tx) (allTx w)\<rparr>"

definition del_tx :: "BRWallet \<Rightarrow> UInt256 \<Rightarrow> BRWallet" where
  "del_tx w h = w\<lparr>allTx := filter (\<lambda>t. txHash t \<noteq> h) (allTx w)\<rparr>"

definition map_tx :: "BRWallet \<Rightarrow> UInt256 \<Rightarrow> (BRTransaction \<Rightarrow> BRTransaction) \<Rightarrow> BRWallet" where
  "map_tx w h f = w\<lparr>allTx := map (\<lambda>t. if txHash t = h then f t else t) (allTx w)\<rparr>"

definition both_chains :: "derivation \<Rightarrow> BRWallet \<Rightarrow> BRWallet option" where
  "both_chains derive w = do {
     (_, w) \<leftarrow> BRWalletUnusedAddrs derive w SEQUENCE_GAP_LIMIT_EXTERNAL False;
     (_, w) \<leftarrow> BRWalletUnusedAddrs derive w SEQUENCE_GAP_LIMIT_INTERNAL True;
     Some w
   }"

definition empty_wallet :: BRWallet where
  "empty_wallet = \<lparr>balance = 0, totalSent = 0, totalReceived = 0, feePerKb = DEFAULT_FEE_PER_KB, balanceHist = [], wallet_blockHeight = 0,
     utxos = [], transactions = [], internalChain = [], externalChain = [], allTx = [], invalidTx = {}, pendingTx = {}, spentOutputs = {},
     usedAddrs = {}, allAddrs = {}\<rparr>"

fun new_loop :: "BRTransaction list \<Rightarrow> BRWallet \<Rightarrow> BRWallet option" where
  "new_loop [] w = Some w"
| "new_loop (tx # txs) w =
     (if \<not> BRTransactionIsSigned tx \<or> getTx w (txHash tx) \<noteq> None then new_loop txs w
      else do {
        w \<leftarrow> BRWalletInsertTx (add_tx w tx) tx;
        new_loop txs (w\<lparr>usedAddrs := usedAddrs w \<union> set (filter (\<lambda>a. a \<noteq> []) (map out_addr (outputs tx)))\<rparr>)
      })"

definition BRWalletNew :: "derivation \<Rightarrow> int \<Rightarrow> BRTransaction list \<Rightarrow> BRWallet option option" where
  "BRWalletNew derive now txs = do {
     w \<leftarrow> new_loop txs empty_wallet;
     w \<leftarrow> both_chains derive w;
     w \<leftarrow> BRWalletUpdateBalance now w;
     Some (if txs \<noteq> [] \<and> \<not> BRWalletContainsTx w (hd txs) then None else Some w)
   }"

definition BRWalletRegisterTransaction :: "derivation \<Rightarrow> int \<Rightarrow> BRWallet \<Rightarrow> BRTransaction \<Rightarrow> (BRWallet \<times> bool) option" where
  "BRWalletRegisterTransaction derive now w tx =
     (if \<not> BRTransactionIsSigned tx then None
      else if getTx w (txHash tx) \<noteq> None then Some (w, True)
      else if BRWalletContainsTx w tx then do {
        w \<leftarrow> BRWalletInsertTx (add_tx w tx) tx;
        w \<leftarrow> BRWalletUpdateBalance now w;
        w \<leftarrow> both_chains derive w;
        Some (w, True)
      } else Some (if blockHeight tx = TX_UNCONFIRMED then add_tx w tx else w, False))"

text \<open>The transactions that spend an output of \<open>tx\<close>, found from the end of the array until an older transaction is met.\<close>

fun dependents :: "BRWallet \<Rightarrow> BRTransaction \<Rightarrow> UInt256 list \<Rightarrow> UInt256 list option" where
  "dependents w tx [] = Some []"
| "dependents w tx (h # hs) = do {
     t \<leftarrow> getTx w h;
     if blockHeight t < blockHeight tx then Some []
     else do {
       ds \<leftarrow> dependents w tx hs;
       Some (if h \<noteq> txHash tx \<and> list_ex (\<lambda>inp. UInt256Eq (in_txHash inp) (txHash tx)) (inputs t) then h # ds else ds)
     }
   }"

fun remove_last :: "'a \<Rightarrow> 'a list \<Rightarrow> 'a list" where
  "remove_last x [] = []"
| "remove_last x (y # ys) = (if x = y \<and> x \<notin> set ys then ys else y # remove_last x ys)"

fun each_m :: "('a \<Rightarrow> 's \<Rightarrow> 's option) \<Rightarrow> 'a list \<Rightarrow> 's \<Rightarrow> 's option" where
  "each_m f [] s = Some s"
| "each_m f (x # xs) s = f x s \<bind> each_m f xs"

text \<open>What \<open>txDeleted\<close> is called with, after the balance was computed without the transaction: whether to notify the user and whether to
  recommend a rescan.\<close>

definition deletion_notice :: "BRWallet \<Rightarrow> BRTransaction \<Rightarrow> (bool \<times> bool) option" where
  "deletion_notice w tx =
     (if BRWalletAmountSentByTx w tx > 0 then do {
        v \<leftarrow> BRWalletTransactionIsValid w tx;
        if v then do {
          rescan \<leftarrow> all_m (\<lambda>inp. map_option (\<lambda>t. case t of None \<Rightarrow> False | Some t \<Rightarrow> blockHeight t \<noteq> TX_UNCONFIRMED)
                             (BRWalletTransactionForHash w (in_txHash inp))) (inputs tx);
          Some (True, rescan)
        } else Some (False, False)
      } else Some (False, False))"

text \<open>The recursion removes the dependent transactions first, the one found last before the others.  Its depth is bounded by the number of
  transactions.  The result is the wallet and the calls of \<open>txDeleted\<close>.\<close>

fun remove_tx :: "nat \<Rightarrow> int \<Rightarrow> UInt256 \<Rightarrow> BRWallet \<times> (UInt256 \<times> bool \<times> bool) list \<Rightarrow> (BRWallet \<times> (UInt256 \<times> bool \<times> bool) list) option" where
  "remove_tx 0 now h st = None"
| "remove_tx (Suc n) now h (w, notes) =
     (if UInt256IsZero h then None
      else case getTx w h of None \<Rightarrow> Some (w, notes)
        | Some tx \<Rightarrow> do {
          hs \<leftarrow> dependents w tx (rev (transactions w));
          if hs \<noteq> [] then do { st \<leftarrow> each_m (remove_tx n now) (rev hs) (w, notes); remove_tx n now h st }
          else do {
            w \<leftarrow> BRWalletUpdateBalance now ((del_tx w h)\<lparr>transactions := remove_last h (transactions w)\<rparr>);
            (notify, rescan) \<leftarrow> deletion_notice w tx;
            Some (w, notes @ [(h, notify, rescan)])
          }
        })"

definition BRWalletRemoveTransaction :: "int \<Rightarrow> BRWallet \<Rightarrow> UInt256 \<Rightarrow> (BRWallet \<times> (UInt256 \<times> bool \<times> bool) list) option" where
  "BRWalletRemoveTransaction now w h = remove_tx (length (transactions w) + 2) now h (w, [])"

text \<open>The loop over the hashes: the wallet, the hashes that are reported, and whether the balance must be computed again.\<close>

fun update_loop :: "u32 \<Rightarrow> u32 \<Rightarrow> UInt256 list \<Rightarrow> BRWallet \<times> UInt256 list \<times> bool \<Rightarrow> BRWallet \<times> UInt256 list \<times> bool" where
  "update_loop bh ts [] st = st"
| "update_loop bh ts (h # hs) (w, done, need) =
     (case getTx w h of
        None \<Rightarrow> update_loop bh ts hs (w, done, need)
      | Some tx \<Rightarrow>
        if blockHeight tx = bh \<and> timestamp tx = ts then update_loop bh ts hs (w, done, need)
        else
          let tx = tx\<lparr>timestamp := ts, blockHeight := bh\<rparr>; w = map_tx w h (\<lambda>t. t\<lparr>timestamp := ts, blockHeight := bh\<rparr>) in
          if BRWalletContainsTx w tx then update_loop bh ts hs (w, done @ [h], need \<or> h \<in> pendingTx w \<or> h \<in> invalidTx w)
          else if bh \<noteq> TX_UNCONFIRMED then update_loop bh ts hs (del_tx w h, done, need)
          else update_loop bh ts hs (w, done, need))"

definition BRWalletUpdateTransactions :: "int \<Rightarrow> BRWallet \<Rightarrow> UInt256 list \<Rightarrow> u32 \<Rightarrow> u32 \<Rightarrow> (BRWallet \<times> UInt256 list) option" where
  "BRWalletUpdateTransactions now w txHashes bh ts =
     (let w = (if bh > wallet_blockHeight w then w\<lparr>wallet_blockHeight := bh\<rparr> else w);
          (w, done, need) = update_loop bh ts txHashes (w, [], False)
      in if need then map_option (\<lambda>w. (w, done)) (BRWalletUpdateBalance now w) else Some (w, done))"

definition BRWalletSetTxUnconfirmedAfter :: "int \<Rightarrow> BRWallet \<Rightarrow> u32 \<Rightarrow> (BRWallet \<times> UInt256 list) option" where
  "BRWalletSetTxUnconfirmedAfter now w bh = do {
     let w = w\<lparr>wallet_blockHeight := bh\<rparr>;
     n \<leftarrow> count_from_end w (\<lambda>t. blockHeight t > bh) (rev (transactions w));
     let hs = drop (length (transactions w) - n) (transactions w);
     let w = fold (\<lambda>h w. map_tx w h (\<lambda>t. t\<lparr>blockHeight := TX_UNCONFIRMED\<rparr>)) hs w;
     w \<leftarrow> (if n > 0 then BRWalletUpdateBalance now w else Some w);
     Some (w, hs)
   }"

end
