(* ===== verification/BRWalletBalance.thy ===== *)
theory BRWalletBalance
  imports BRWallet
begin

text \<open>
  What \<open>_BRWalletUpdateBalance\<close> computes.  The specification is a ledger: which transactions are refused because they conflict with an
  earlier one, which outputs are spent, and which of the wallet's outputs are left.  The loops of the code are first brought into closed form and
  then shown to keep the ledger invariant from one transaction to the next.
\<close>

section \<open>Specification\<close>

text \<open>The outputs of a transaction that the wallet can spend, in order.\<close>

fun own_from :: "bytes set \<Rightarrow> UInt256 \<Rightarrow> nat \<Rightarrow> BRTxOutput list \<Rightarrow> UTXO list" where
  "own_from A h j [] = []"
| "own_from A h j (out # outs) =
     (if out_addr out \<noteq> [] \<and> out_addr out \<in> A then [(h, word_of_nat j)] else []) @ own_from A h (Suc j) outs"

definition own_outputs :: "BRWallet \<Rightarrow> UInt256 \<Rightarrow> UTXO list" where
  "own_outputs w h = (case getTx w h of None \<Rightarrow> [] | Some t \<Rightarrow> own_from (allAddrs w) h 0 (outputs t))"

text \<open>The addresses that the outputs of a transaction pay to.\<close>

definition adds_used :: "BRTxOutput list \<Rightarrow> bytes set" where
  "adds_used outs = {a. a \<noteq> [] \<and> a \<in> out_addr ` set outs}"

definition used_by :: "BRWallet \<Rightarrow> UInt256 \<Rightarrow> bytes set" where
  "used_by w h = (case getTx w h of None \<Rightarrow> {} | Some t \<Rightarrow> adds_used (outputs t))"

definition inputs_of :: "BRWallet \<Rightarrow> UInt256 \<Rightarrow> UTXO set" where
  "inputs_of w h = (case getTx w h of None \<Rightarrow> {} | Some t \<Rightarrow> set (map input_utxo (inputs t)))"

definition parents_of :: "BRWallet \<Rightarrow> UInt256 \<Rightarrow> UInt256 set" where
  "parents_of w h = fst ` inputs_of w h"

definition unconfirmed :: "BRWallet \<Rightarrow> UInt256 \<Rightarrow> bool" where
  "unconfirmed w h \<longleftrightarrow> (\<exists>t. getTx w h = Some t \<and> blockHeight t = TX_UNCONFIRMED)"

definition utxo_value :: "BRWallet \<Rightarrow> UTXO \<Rightarrow> u64" where
  "utxo_value w u = (case getTx w (fst u) of None \<Rightarrow> 0 | Some t \<Rightarrow> (case rd (outputs t) (unat (snd u)) of None \<Rightarrow> 0 | Some out \<Rightarrow> out_amount out))"

text \<open>A wallet whose arrays and sets agree: every entry of the array is a registered transaction and occurs once, and no transaction has more outputs
  than a 32-bit index can name.\<close>

definition wallet_ok :: "BRWallet \<Rightarrow> bool" where
  "wallet_ok w \<longleftrightarrow> distinct (transactions w) \<and> (\<forall>h\<in>set (transactions w). getTx w h \<noteq> None) \<and>
     (\<forall>t\<in>set (allTx w). length (outputs t) \<le> 2 ^ 32)"

text \<open>The conflict rule: an unconfirmed transaction is refused when it spends an output that an earlier transaction spends which is not itself
  refused, or an output of an earlier refused transaction.\<close>

definition refused :: "BRWallet \<Rightarrow> UInt256 list \<Rightarrow> UInt256 \<Rightarrow> bool" where
  "refused w pre h \<longleftrightarrow> unconfirmed w h \<and>
     ((\<exists>h'\<in>set pre - invalidTx w. inputs_of w h' \<inter> inputs_of w h \<noteq> {}) \<or> parents_of w h \<inter> invalidTx w \<inter> set pre \<noteq> {})"

text \<open>The ledger after the transactions \<open>hs\<close>: \<open>w\<close> is the wallet with the computed fields, \<open>bal\<close> the balance.\<close>

definition ledger :: "BRWallet \<Rightarrow> UInt256 list \<Rightarrow> u64 \<Rightarrow> bool" where
  "ledger w hs bal \<longleftrightarrow>
     invalidTx w \<subseteq> set hs \<and> pendingTx w \<subseteq> set hs - invalidTx w \<and>
     (\<forall>h\<in>invalidTx w \<union> pendingTx w. unconfirmed w h) \<and>
     spentOutputs w = (\<Union>h\<in>set hs - invalidTx w. inputs_of w h) \<and>
     (\<forall>pre h post. hs = pre @ h # post \<longrightarrow> (h \<in> invalidTx w \<longleftrightarrow> refused w pre h)) \<and>
     distinct (utxos w) \<and>
     set (utxos w) \<subseteq> (\<Union>h\<in>set hs - invalidTx w - pendingTx w. set (own_outputs w h)) \<and>
     (\<Union>h\<in>set hs - invalidTx w - pendingTx w. set (own_outputs w h)) \<subseteq> set (utxos w) \<union> spentOutputs w \<and>
     set (utxos w) \<inter> spentOutputs w \<subseteq> (\<Union>h\<in>pendingTx w. inputs_of w h) \<and>
     usedAddrs w = (\<Union>h\<in>set hs - invalidTx w - pendingTx w. used_by w h) \<and>
     bal = sum_list (map (utxo_value w) (utxos w)) \<and> bal = totalReceived w - totalSent w \<and>
     length (balanceHist w) = length hs \<and> (hs \<noteq> [] \<longrightarrow> last (balanceHist w) = bal)"

lemma ledgerD:
  "ledger w hs bal \<Longrightarrow> invalidTx w \<subseteq> set hs"
  "ledger w hs bal \<Longrightarrow> pendingTx w \<subseteq> set hs - invalidTx w"
  "ledger w hs bal \<Longrightarrow> spentOutputs w = (\<Union>h\<in>set hs - invalidTx w. inputs_of w h)"
  "ledger w hs bal \<Longrightarrow> distinct (utxos w)"
  "ledger w hs bal \<Longrightarrow> set (utxos w) \<subseteq> (\<Union>h\<in>set hs - invalidTx w - pendingTx w. set (own_outputs w h))"
  "ledger w hs bal \<Longrightarrow> (\<Union>h\<in>set hs - invalidTx w - pendingTx w. set (own_outputs w h)) \<subseteq> set (utxos w) \<union> spentOutputs w"
  "ledger w hs bal \<Longrightarrow> set (utxos w) \<inter> spentOutputs w \<subseteq> (\<Union>h\<in>pendingTx w. inputs_of w h)"
  "ledger w hs bal \<Longrightarrow> usedAddrs w = (\<Union>h\<in>set hs - invalidTx w - pendingTx w. used_by w h)"
  "ledger w hs bal \<Longrightarrow> bal = sum_list (map (utxo_value w) (utxos w))"
  "ledger w hs bal \<Longrightarrow> bal = totalReceived w - totalSent w"
  "ledger w hs bal \<Longrightarrow> length (balanceHist w) = length hs"
  "ledger w hs bal \<Longrightarrow> hs \<noteq> [] \<longrightarrow> last (balanceHist w) = bal"
  by (unfold ledger_def, (elim conjE, assumption)+)

section \<open>Lookups\<close>

lemma getTx_hash: "getTx w h = Some t \<Longrightarrow> txHash t = h \<and> t \<in> set (allTx w)"
  by (auto simp: getTx_def find_Some_iff)

lemma getTx_cong: "allTx w' = allTx w \<Longrightarrow> getTx w' = getTx w"
  by (simp add: getTx_def fun_eq_iff)

lemma getTx_update [simp]:
  "getTx (w\<lparr>utxos := a\<rparr>) = getTx w" "getTx (w\<lparr>balanceHist := b\<rparr>) = getTx w" "getTx (w\<lparr>spentOutputs := c\<rparr>) = getTx w"
  "getTx (w\<lparr>invalidTx := d\<rparr>) = getTx w" "getTx (w\<lparr>pendingTx := d\<rparr>) = getTx w" "getTx (w\<lparr>usedAddrs := e\<rparr>) = getTx w"
  "getTx (w\<lparr>allAddrs := e\<rparr>) = getTx w" "getTx (w\<lparr>internalChain := f\<rparr>) = getTx w" "getTx (w\<lparr>externalChain := f\<rparr>) = getTx w"
  "getTx (w\<lparr>transactions := g\<rparr>) = getTx w" "getTx (w\<lparr>balance := i\<rparr>) = getTx w" "getTx (w\<lparr>totalSent := i\<rparr>) = getTx w"
  "getTx (w\<lparr>totalReceived := i\<rparr>) = getTx w" "getTx (w\<lparr>wallet_blockHeight := j\<rparr>) = getTx w"
  by (simp_all add: getTx_def fun_eq_iff)

text \<open>The functions of the specification depend on the transactions and the addresses only.\<close>

lemma spec_cong:
  "allTx w' = allTx w \<Longrightarrow> inputs_of w' = inputs_of w"
  "allTx w' = allTx w \<Longrightarrow> unconfirmed w' = unconfirmed w"
  "allTx w' = allTx w \<Longrightarrow> parents_of w' = parents_of w"
  "allTx w' = allTx w \<Longrightarrow> utxo_value w' = utxo_value w"
  "allTx w' = allTx w \<Longrightarrow> used_by w' = used_by w"
  "allTx w' = allTx w \<Longrightarrow> allAddrs w' = allAddrs w \<Longrightarrow> own_outputs w' = own_outputs w"
  by (simp_all add: inputs_of_def unconfirmed_def parents_of_def utxo_value_def used_by_def own_outputs_def fun_eq_iff getTx_cong [of w' w] split: option.split)

section \<open>The loop over the outputs\<close>

fun own_amount :: "bytes set \<Rightarrow> BRTxOutput list \<Rightarrow> u64" where
  "own_amount A [] = 0"
| "own_amount A (out # outs) = (if out_addr out \<noteq> [] \<and> out_addr out \<in> A then out_amount out else 0) + own_amount A outs"

lemma add_outputs_loop_eq:
  "add_outputs_loop h j outs (w, bal) =
     (w\<lparr>usedAddrs := usedAddrs w \<union> adds_used outs, utxos := utxos w @ own_from (allAddrs w) h j outs\<rparr>, bal + own_amount (allAddrs w) outs)"
proof (induction outs arbitrary: j w bal)
  case Nil
  then show ?case by (simp add: adds_used_def)
next
  case (Cons out outs)
  have "adds_used (out # outs) = (if out_addr out \<noteq> [] then {out_addr out} else {}) \<union> adds_used outs" by (auto simp: adds_used_def)
  then show ?case by (auto simp: Cons.IH is_own_def Let_def)
qed

lemma own_from_range: "u \<in> set (own_from A h j outs) \<Longrightarrow> \<exists>i<length outs. u = (h, word_of_nat (j + i))"
proof (induction outs arbitrary: j)
  case (Cons out outs)
  then have "u = (h, word_of_nat j) \<or> u \<in> set (own_from A h (Suc j) outs)" by (auto split: if_splits)
  with Cons.IH [of "Suc j"] show ?case by (metis add_0_right add_Suc_right add_Suc_shift length_Cons not_less_eq zero_less_Suc)
qed simp

lemma own_from_distinct: "j + length outs \<le> 2 ^ 32 \<Longrightarrow> distinct (own_from A h j outs)"
proof (induction outs arbitrary: j)
  case (Cons out outs)
  have "(h, word_of_nat j) \<notin> set (own_from A h (Suc j) outs)"
  proof
    assume "(h, word_of_nat j) \<in> set (own_from A h (Suc j) outs)"
    then obtain i where i: "i < length outs" "(word_of_nat j :: u32) = word_of_nat (Suc j + i)" using own_from_range by blast
    from i(2) have "unat (word_of_nat j :: u32) = unat (word_of_nat (Suc j + i) :: u32)" by (rule arg_cong)
    moreover have "unat (word_of_nat j :: u32) = j" by (rule unat_word_of_nat_less) (use Cons.prems in simp)
    moreover have "unat (word_of_nat (Suc j + i) :: u32) = Suc j + i" by (rule unat_word_of_nat_less) (use Cons.prems i(1) in simp)
    ultimately show False by linarith
  qed
  with Cons show ?case by simp
qed simp

lemma own_amount_eq:
  assumes "j + length outs \<le> 2 ^ 32" "\<And>i. i < length outs \<Longrightarrow> amt (h, word_of_nat (j + i)) = out_amount (outs ! i)"
  shows "own_amount A outs = sum_list (map amt (own_from A h j outs))"
  using assms
proof (induction outs arbitrary: j)
  case (Cons out outs)
  have "amt (h, word_of_nat j) = out_amount out" using Cons.prems(2) [of 0] by simp
  moreover have "own_amount A outs = sum_list (map amt (own_from A h (Suc j) outs))"
    using Cons.prems(1) Cons.prems(2) [of "Suc _"] by (intro Cons.IH) simp_all
  ultimately show ?case by simp
qed simp

lemma own_outputs_fact:
  assumes "wallet_ok w" "getTx w h = Some t"
  shows "distinct (own_outputs w h)" "own_outputs w h = own_from (allAddrs w) h 0 (outputs t)"
    "u \<in> set (own_outputs w h) \<Longrightarrow> fst u = h \<and> unat (snd u) < length (outputs t)"
    "own_amount (allAddrs w) (outputs t) = sum_list (map (utxo_value w) (own_outputs w h))"
proof -
  have len: "length (outputs t) \<le> 2 ^ 32" using assms getTx_hash by (auto simp: wallet_ok_def)
  show eq: "own_outputs w h = own_from (allAddrs w) h 0 (outputs t)" using assms(2) by (simp add: own_outputs_def)
  show "distinct (own_outputs w h)" unfolding eq by (rule own_from_distinct) (use len in simp)
  have small: "unat (word_of_nat i :: u32) = i" if "i < length (outputs t)" for i
    by (rule unat_word_of_nat_less) (use len that in simp)
  show "u \<in> set (own_outputs w h) \<Longrightarrow> fst u = h \<and> unat (snd u) < length (outputs t)"
    unfolding eq by (drule own_from_range) (auto simp: small)
  show "own_amount (allAddrs w) (outputs t) = sum_list (map (utxo_value w) (own_outputs w h))"
    unfolding eq by (rule own_amount_eq) (use len assms(2) small in \<open>auto simp: utxo_value_def rd_def\<close>)
qed

section \<open>The loop over the unspent outputs\<close>

lemma prune_loop_eq:
  assumes "j \<le> length (utxos w)" "\<And>u. u \<in> set (utxos w) \<Longrightarrow> \<exists>t. getTx w (fst u) = Some t \<and> unat (snd u) < length (outputs t)"
  shows "prune_loop j (w, bal) = Some (w\<lparr>utxos := filter (\<lambda>u. u \<notin> spentOutputs w) (take j (utxos w)) @ drop j (utxos w)\<rparr>,
     bal - sum_list (map (utxo_value w) (filter (\<lambda>u. u \<in> spentOutputs w) (take j (utxos w)))))"
  using assms
proof (induction j arbitrary: w bal)
  case (Suc j)
  define u where "u = utxos w ! j"
  have split: "take (Suc j) (utxos w) = take j (utxos w) @ [u]" "drop j (utxos w) = u # drop (Suc j) (utxos w)"
    using Suc.prems(1) by (simp_all add: u_def take_Suc_conv_app_nth Cons_nth_drop_Suc Suc_le_eq)
  show ?case
  proof (cases "u \<in> spentOutputs w")
    case False
    then show ?thesis using Suc.prems Suc.IH [of w bal] by (simp add: split u_def [symmetric])
  next
    case True
    define v where "v = w\<lparr>utxos := take j (utxos w) @ drop (Suc j) (utxos w)\<rparr>"
    have v: "allTx v = allTx w" "spentOutputs v = spentOutputs w" "utxos v = take j (utxos w) @ drop (Suc j) (utxos w)" by (simp_all add: v_def)
    have in_w: "set (utxos v) \<subseteq> set (utxos w)" by (auto simp: v dest: in_set_takeD in_set_dropD)
    obtain t where t: "getTx w (fst u) = Some t" "unat (snd u) < length (outputs t)"
      using Suc.prems(2) [of u] Suc.prems(1) by (auto simp: u_def)
    have "prune_loop (Suc j) (w, bal) = prune_loop j (v, bal - utxo_value w u)"
      using True t by (simp add: u_def [symmetric] rd_def utxo_value_def v_def)
    also have "\<dots> = Some (v\<lparr>utxos := filter (\<lambda>u. u \<notin> spentOutputs w) (take j (utxos w)) @ drop (Suc j) (utxos w)\<rparr>,
       bal - utxo_value w u - sum_list (map (utxo_value w) (filter (\<lambda>u. u \<in> spentOutputs w) (take j (utxos w)))))"
    proof -
      have "\<exists>t. getTx v (fst x) = Some t \<and> unat (snd x) < length (outputs t)" if "x \<in> set (utxos v)" for x
        using Suc.prems(2) [of x] in_w that by (auto simp: getTx_cong [OF v(1)])
      moreover have "j \<le> length (utxos v)" using Suc.prems(1) by (simp add: v)
      ultimately show ?thesis using Suc.IH [of v "bal - utxo_value w u"] Suc.prems(1) by (simp add: v(2,3) spec_cong(4) [OF v(1)])
    qed
    finally show ?thesis using True by (simp add: split v_def algebra_simps)
  qed
qed simp

lemma sum_list_filter_split:
  "sum_list (map f xs) = sum_list (map f (filter P xs)) + (sum_list (map f (filter (\<lambda>x. \<not> P x) xs)) :: 'b::comm_monoid_add)"
  by (induction xs) (simp_all add: ac_simps)

section \<open>One transaction\<close>

text \<open>What the computation leaves alone.\<close>

definition same_history :: "BRWallet \<Rightarrow> BRWallet \<Rightarrow> bool" where
  "same_history w w' \<longleftrightarrow> allTx w' = allTx w \<and> allAddrs w' = allAddrs w \<and> transactions w' = transactions w \<and>
     wallet_blockHeight w' = wallet_blockHeight w \<and> internalChain w' = internalChain w \<and> externalChain w' = externalChain w \<and> feePerKb w' = feePerKb w"

lemma same_history_trans: "same_history w v \<Longrightarrow> same_history v u \<Longrightarrow> same_history w u"
  by (simp add: same_history_def)

lemma same_history_ok: "same_history w w' \<Longrightarrow> wallet_ok w' = wallet_ok w"
  by (simp add: same_history_def wallet_ok_def getTx_cong [of w' w])

lemma is_invalid_iff:
  "getTx w h = Some tx \<Longrightarrow> is_invalid w tx \<longleftrightarrow> inputs_of w h \<inter> spentOutputs w \<noteq> {} \<or> parents_of w h \<inter> invalidTx w \<noteq> {}"
  by (force simp: is_invalid_def inputs_of_def parents_of_def input_utxo_def list_ex_iff)

lemma split_snoc:
  "(\<forall>pre h post. xs @ [x] = pre @ h # post \<longrightarrow> Q pre h) \<longleftrightarrow> (\<forall>pre h post. xs = pre @ h # post \<longrightarrow> Q pre h) \<and> Q xs x"
proof (intro iffI conjI allI impI)
  fix pre h post
  assume all: "\<forall>pre h post. xs @ [x] = pre @ h # post \<longrightarrow> Q pre h"
  show "Q pre h" if "xs = pre @ h # post" using all that by (metis append.assoc append_Cons)
  show "Q xs x" using all by blast
next
  fix pre h post
  assume "(\<forall>pre h post. xs = pre @ h # post \<longrightarrow> Q pre h) \<and> Q xs x" "xs @ [x] = pre @ h # post"
  then show "Q pre h" by (cases post rule: rev_cases) auto
qed

lemma ledger_snoc_cases:
  assumes "ledger w hs bal" "h \<notin> set hs"
    "allTx w' = allTx w" "allAddrs w' = allAddrs w"
    "invalidTx w' = invalidTx w \<union> (if refused w hs h then {h} else {})"
  shows "\<forall>pre x post. hs @ [h] = pre @ x # post \<longrightarrow> (x \<in> invalidTx w' \<longleftrightarrow> refused w' pre x)"
proof (unfold split_snoc, intro conjI allI impI)
  have sub: "invalidTx w \<subseteq> set hs" using assms(1) by (simp add: ledger_def)
  have same: "refused w' pre x \<longleftrightarrow> refused w pre x" if "set pre \<subseteq> set hs" for pre x
  proof -
    have "set pre - invalidTx w' = set pre - invalidTx w" "invalidTx w' \<inter> set pre = invalidTx w \<inter> set pre"
      using that assms(2,5) by (auto split: if_splits)
    then show ?thesis by (simp add: refused_def spec_cong [OF assms(3)] Int_assoc)
  qed
  show "h \<in> invalidTx w' \<longleftrightarrow> refused w' hs h" using same [of hs h] assms(2,5) sub by auto
  fix pre x post assume split: "hs = pre @ x # post"
  have "x \<in> invalidTx w \<longleftrightarrow> refused w pre x" using assms(1) split by (simp add: ledger_def)
  moreover have "x \<in> invalidTx w' \<longleftrightarrow> x \<in> invalidTx w" using assms(2,5) split by (auto split: if_splits)
  ultimately show "x \<in> invalidTx w' \<longleftrightarrow> refused w' pre x" using same [of pre x] split by auto
qed

lemma refused_iff:
  assumes "ledger w hs bal" "getTx w h = Some tx"
  shows "refused w hs h \<longleftrightarrow> blockHeight tx = TX_UNCONFIRMED \<and> is_invalid w tx"
proof -
  have "spentOutputs w = (\<Union>h\<in>set hs - invalidTx w. inputs_of w h)" "invalidTx w \<subseteq> set hs" using assms(1) by (simp_all add: ledger_def)
  then have "inputs_of w h \<inter> spentOutputs w \<noteq> {} \<longleftrightarrow> (\<exists>h'\<in>set hs - invalidTx w. inputs_of w h' \<inter> inputs_of w h \<noteq> {})"
    "parents_of w h \<inter> invalidTx w \<inter> set hs = parents_of w h \<inter> invalidTx w" by auto
  then show ?thesis using assms(2) by (simp add: refused_def is_invalid_iff unconfirmed_def)
qed

text \<open>A transaction in conflict: only the set of refused transactions and the history of balances change.\<close>

lemma ledger_refuse:
  assumes "ledger w hs bal" "h \<notin> set hs" "getTx w h = Some tx" "blockHeight tx = TX_UNCONFIRMED" "is_invalid w tx"
  shows "ledger (w\<lparr>invalidTx := insert h (invalidTx w), balanceHist := balanceHist w @ [bal]\<rparr>) (hs @ [h]) bal" (is "ledger ?w _ _")
proof -
  have "refused w hs h" using assms by (simp add: refused_iff)
  then have conf: "\<forall>pre x post. hs @ [h] = pre @ x # post \<longrightarrow> (x \<in> invalidTx ?w \<longleftrightarrow> refused ?w pre x)"
    using assms(1,2) by (intro ledger_snoc_cases) auto
  have cong: "inputs_of ?w = inputs_of w" "unconfirmed ?w = unconfirmed w" "utxo_value ?w = utxo_value w" "used_by ?w = used_by w" "own_outputs ?w = own_outputs w"
    by (intro spec_cong; simp)+
  have un: "unconfirmed w h" using assms(3,4) by (simp add: unconfirmed_def)
  have sub: "set hs - insert h (invalidTx w) = set hs - invalidTx w" using assms(2) by auto
  from assms(1,2) un conf show ?thesis
    unfolding ledger_def cong by (simp add: sub, safe) (auto simp: un)
qed

text \<open>A pending transaction also spends its inputs, but no output of it is available.\<close>

lemma ledger_pend:
  assumes "ledger w hs bal" "h \<notin> set hs" "getTx w h = Some tx" "blockHeight tx = TX_UNCONFIRMED" "\<not> is_invalid w tx"
  shows "ledger (w\<lparr>spentOutputs := spentOutputs w \<union> inputs_of w h, pendingTx := insert h (pendingTx w), balanceHist := balanceHist w @ [bal]\<rparr>)
     (hs @ [h]) bal" (is "ledger ?w _ _")
proof -
  have "\<not> refused w hs h" using assms by (simp add: refused_iff)
  then have conf: "\<forall>pre x post. hs @ [h] = pre @ x # post \<longrightarrow> (x \<in> invalidTx ?w \<longleftrightarrow> refused ?w pre x)"
    using assms(1,2) by (intro ledger_snoc_cases) auto
  have cong: "inputs_of ?w = inputs_of w" "unconfirmed ?w = unconfirmed w" "utxo_value ?w = utxo_value w" "used_by ?w = used_by w" "own_outputs ?w = own_outputs w"
    by (intro spec_cong; simp)+
  have un: "unconfirmed w h" using assms(3,4) by (simp add: unconfirmed_def)
  have h: "h \<notin> invalidTx w" using assms(1,2) by (auto simp: ledger_def)
  have sub: "set hs - invalidTx w - insert h (pendingTx w) = set hs - invalidTx w - pendingTx w"
    "insert h (set hs) - invalidTx w = insert h (set hs - invalidTx w)"
    "insert h (set hs) - invalidTx w - insert h (pendingTx w) = set hs - invalidTx w - pendingTx w" using assms(2) h by auto
  from assms(1,2) un conf h show ?thesis
    unfolding ledger_def cong by (simp add: sub un, safe) auto
qed

lemma ledger_used_finite: "ledger w hs bal \<Longrightarrow> finite (usedAddrs w)"
proof -
  assume "ledger w hs bal"
  then have "usedAddrs w = (\<Union>h\<in>set hs - invalidTx w - pendingTx w. used_by w h)" by (rule ledgerD(8))
  moreover have "finite (used_by w h)" for h by (simp add: used_by_def adds_used_def split: option.split)
  ultimately show ?thesis by simp
qed

lemma utxo_source:
  assumes "wallet_ok w" "ledger w hs bal" "u \<in> set (utxos w)"
  shows "fst u \<in> set hs - invalidTx w - pendingTx w" "u \<in> set (own_outputs w (fst u))"
    "\<exists>t. getTx w (fst u) = Some t \<and> unat (snd u) < length (outputs t)"
proof -
  have "set (utxos w) \<subseteq> (\<Union>h\<in>set hs - invalidTx w - pendingTx w. set (own_outputs w h))" using assms(2) by (simp add: ledger_def)
  then obtain x where x: "x \<in> set hs - invalidTx w - pendingTx w" "u \<in> set (own_outputs w x)" using assms(3) by blast
  then obtain t where t: "getTx w x = Some t" by (cases "getTx w x") (auto simp: own_outputs_def)
  with own_outputs_fact(3) [OF assms(1) t x(2)] x
  show "fst u \<in> set hs - invalidTx w - pendingTx w" "u \<in> set (own_outputs w (fst u))"
    "\<exists>t. getTx w (fst u) = Some t \<and> unat (snd u) < length (outputs t)" by auto
qed

text \<open>Any other transaction spends its inputs and adds its own outputs; what is left is every output that no transaction spends.\<close>

lemma ledger_accept:
  assumes "wallet_ok w" "ledger w hs bal" "h \<notin> set hs" "getTx w h = Some tx" "\<not> (blockHeight tx = TX_UNCONFIRMED \<and> is_invalid w tx)"
    "w' = w\<lparr>spentOutputs := S, utxos := filter (\<lambda>u. u \<notin> S) (utxos w @ own_outputs w h), usedAddrs := usedAddrs w \<union> used_by w h, totalReceived := r, totalSent := s,
            balanceHist := balanceHist w @ [bal']\<rparr>"
    "S = spentOutputs w \<union> inputs_of w h" "bal' = sum_list (map (utxo_value w) (filter (\<lambda>u. u \<notin> S) (utxos w @ own_outputs w h)))" "bal' = r - s"
  shows "ledger w' (hs @ [h]) bal'"
proof -
  have same: "allTx w' = allTx w" "allAddrs w' = allAddrs w" "invalidTx w' = invalidTx w" "pendingTx w' = pendingTx w" "spentOutputs w' = S"
    "utxos w' = filter (\<lambda>u. u \<notin> S) (utxos w @ own_outputs w h)" "balanceHist w' = balanceHist w @ [bal']" "totalReceived w' = r" "totalSent w' = s"
    "usedAddrs w' = usedAddrs w \<union> used_by w h"
    using assms(6) by simp_all
  have "\<not> refused w hs h" using assms by (simp add: refused_iff)
  then have conf: "\<forall>pre x post. hs @ [h] = pre @ x # post \<longrightarrow> (x \<in> invalidTx w' \<longleftrightarrow> refused w' pre x)"
    using assms(2,3) same by (intro ledger_snoc_cases) auto
  have cong: "inputs_of w' = inputs_of w" "unconfirmed w' = unconfirmed w" "utxo_value w' = utxo_value w" "used_by w' = used_by w" "own_outputs w' = own_outputs w"
    using same by (auto intro: spec_cong)
  note L = assms(2) [unfolded ledger_def]
  have h: "h \<notin> invalidTx w" "h \<notin> pendingTx w" using L assms(3) by auto
  have sub: "set (hs @ [h]) - invalidTx w = insert h (set hs - invalidTx w)"
    "insert h (set hs - invalidTx w) - pendingTx w = insert h (set hs - invalidTx w - pendingTx w)" using h by auto
  have "distinct (utxos w @ own_outputs w h)"
    using L own_outputs_fact(1,3) [OF assms(1,4)] utxo_source(1) [OF assms(1,2)] assms(3) by fastforce
  then have "distinct (utxos w')" unfolding same(6) by (rule distinct_filter)
  moreover have "set (utxos w') \<inter> S = {}" by (auto simp: same)
  moreover have "set (utxos w') \<subseteq> (\<Union>x\<in>insert h (set hs - invalidTx w - pendingTx w). set (own_outputs w x))"
    using L by (auto simp: same(6))
  moreover have "(\<Union>x\<in>insert h (set hs - invalidTx w - pendingTx w). set (own_outputs w x)) \<subseteq> set (utxos w') \<union> S"
  proof
    fix u assume "u \<in> (\<Union>x\<in>insert h (set hs - invalidTx w - pendingTx w). set (own_outputs w x))"
    then have "u \<in> set (utxos w @ own_outputs w h) \<union> spentOutputs w" using L by auto
    then show "u \<in> set (utxos w') \<union> S" using assms(7) by (auto simp: same(6))
  qed
  moreover have "usedAddrs w \<union> used_by w h = (\<Union>x\<in>insert h (set hs - invalidTx w - pendingTx w). used_by w x)" using L by auto
  moreover have "S = (\<Union>x\<in>insert h (set hs - invalidTx w). inputs_of w x)" using L assms(7) by auto
  moreover have "invalidTx w \<subseteq> set (hs @ [h])" "pendingTx w \<subseteq> insert h (set hs - invalidTx w)" using L by auto
  moreover have "\<forall>x\<in>invalidTx w \<union> pendingTx w. unconfirmed w x" "length (balanceHist w @ [bal']) = length (hs @ [h])" using L by auto
  moreover have "bal' = sum_list (map (utxo_value w) (utxos w'))" using assms(8) by (simp add: same(6))
  ultimately show ?thesis
    using conf assms(9) unfolding ledger_def cong same(3,4,5,7,8,9,10) sub by simp
qed

text \<open>One turn of the loop returns and keeps the ledger; the balance of the previous turn is the running balance.\<close>

lemma balance_step_ledger:
  assumes ok: "wallet_ok w" and L: "ledger w hs bal" and new: "h \<notin> set hs" and tx: "getTx w h = Some tx"
  shows "\<exists>w' bal'. balance_step now h (w, bal, bal) = Some (w', bal', bal') \<and> ledger w' (hs @ [h]) bal' \<and> same_history w w'"
proof -
  define S where "S = spentOutputs w \<union> inputs_of w h"
  define v where "v = w\<lparr>spentOutputs := S\<rparr>"
  have spent: "w\<lparr>spentOutputs := spentOutputs w \<union> set (map input_utxo (inputs tx))\<rparr> = v"
    using tx by (simp add: v_def S_def inputs_of_def)
  have hash: "txHash tx = h" using getTx_hash [OF tx] by simp
  consider "blockHeight tx = TX_UNCONFIRMED \<and> is_invalid w tx"
    | "\<not> (blockHeight tx = TX_UNCONFIRMED \<and> is_invalid w tx)" "blockHeight tx = TX_UNCONFIRMED \<and> is_pending now v tx"
    | "\<not> (blockHeight tx = TX_UNCONFIRMED \<and> is_invalid w tx)" "\<not> (blockHeight tx = TX_UNCONFIRMED \<and> is_pending now v tx)" by blast
  then show ?thesis
  proof cases
    case 1
    then have "balance_step now h (w, bal, bal) = Some (w\<lparr>invalidTx := insert h (invalidTx w), balanceHist := balanceHist w @ [bal]\<rparr>, bal, bal)"
      using tx by (simp add: balance_step_def)
    moreover have "same_history w (w\<lparr>invalidTx := insert h (invalidTx w), balanceHist := balanceHist w @ [bal]\<rparr>)" by (simp add: same_history_def)
    ultimately show ?thesis using ledger_refuse [OF L new tx] 1 by blast
  next
    case 2
    define w' where "w' = w\<lparr>spentOutputs := S, pendingTx := insert h (pendingTx w), balanceHist := balanceHist w @ [bal]\<rparr>"
    have "balance_step now h (w, bal, bal) = Some (w', bal, bal)"
      using 2 tx spent by (auto simp: balance_step_def v_def w'_def)
    moreover have "same_history w w'" by (simp add: same_history_def w'_def)
    moreover have "ledger w' (hs @ [h]) bal" unfolding w'_def S_def by (rule ledger_pend [OF L new tx]) (use 2 in auto)
    ultimately show ?thesis by blast
  next
    case 3
    define U where "U = utxos w @ own_outputs w h"
    define bal' where "bal' = sum_list (map (utxo_value w) (filter (\<lambda>u. u \<notin> S) U))"
    define v1 where "v1 = v\<lparr>usedAddrs := usedAddrs w \<union> used_by w h, utxos := U\<rparr>"
    have out: "add_outputs_loop h 0 (outputs tx) (v, bal) = (v1, sum_list (map (utxo_value w) U))"
      using own_outputs_fact [OF ok tx] L by (simp add: add_outputs_loop_eq v1_def v_def U_def ledger_def used_by_def tx)
    have known: "\<exists>t. getTx w (fst u) = Some t \<and> unat (snd u) < length (outputs t)" if "u \<in> set U" for u
      using that utxo_source(3) [OF ok L] own_outputs_fact(3) [OF ok tx] tx unfolding U_def set_append by (metis Un_iff)
    have v1: "getTx v1 = getTx w" "utxo_value v1 = utxo_value w" by (simp add: v1_def v_def, rule spec_cong(4)) (simp add: v1_def v_def)
    have v1': "utxos v1 = U" "spentOutputs v1 = S" by (simp_all add: v1_def v_def)
    have "prune_loop (length U) (v1, sum_list (map (utxo_value w) U)) = Some (v1\<lparr>utxos := filter (\<lambda>u. u \<notin> S) U\<rparr>, bal')"
      using prune_loop_eq [of "length U" v1 "sum_list (map (utxo_value w) U)"] known sum_list_filter_split [of "utxo_value w" U "\<lambda>u. u \<in> S"]
      by (simp add: v1 v1' bal'_def algebra_simps)
    then have "balance_step now h (w, bal, bal) = Some (
        let w1 = v1\<lparr>utxos := filter (\<lambda>u. u \<notin> S) U\<rparr>;
            w2 = (if bal < bal' then w1\<lparr>totalReceived := totalReceived w1 + (bal' - bal)\<rparr> else w1);
            w3 = (if bal' < bal then w2\<lparr>totalSent := totalSent w2 + (bal - bal')\<rparr> else w2)
        in (w3\<lparr>balanceHist := balanceHist w3 @ [bal']\<rparr>, bal', bal'))"
      using 3 by (auto simp: balance_step_def tx spent [simplified] out hash Let_def v1')
    then have step: "balance_step now h (w, bal, bal) = Some (w\<lparr>spentOutputs := S, utxos := filter (\<lambda>u. u \<notin> S) (utxos w @ own_outputs w h),
        usedAddrs := usedAddrs w \<union> used_by w h,
        totalReceived := totalReceived w + (if bal < bal' then bal' - bal else 0), totalSent := totalSent w + (if bal' < bal then bal - bal' else 0),
        balanceHist := balanceHist w @ [bal']\<rparr>, bal', bal')" (is "_ = Some (?w', _)")
      by (auto simp: v1_def v_def U_def Let_def)
    moreover have "same_history w ?w'" by (simp add: same_history_def)
    moreover have "ledger ?w' (hs @ [h]) bal'"
    proof (rule ledger_accept [OF ok L new tx 3(1) refl S_def])
      show "bal' = sum_list (map (utxo_value w) (filter (\<lambda>u. u \<notin> S) (utxos w @ own_outputs w h)))" by (simp add: bal'_def U_def)
      have "bal = totalReceived w - totalSent w" by (rule ledgerD(10) [OF L])
      then show "bal' = totalReceived w + (if bal < bal' then bal' - bal else 0) - (totalSent w + (if bal' < bal then bal - bal' else 0))"
        by (auto simp: not_less algebra_simps)
    qed
    ultimately show ?thesis by blast
  qed
qed

lemma balance_loop_ledger:
  assumes "wallet_ok w" "ledger w pre bal" "distinct (pre @ hs)" "\<And>h. h \<in> set hs \<Longrightarrow> getTx w h \<noteq> None"
  shows "\<exists>w' bal'. balance_loop now hs (w, bal, bal) = Some (w', bal', bal') \<and> ledger w' (pre @ hs) bal' \<and> same_history w w'"
  using assms
proof (induction hs arbitrary: w pre bal)
  case Nil
  then show ?case by (simp add: same_history_def)
next
  case (Cons h hs)
  obtain tx where tx: "getTx w h = Some tx" using Cons.prems(4) [of h] by auto
  obtain v bal1 where v: "balance_step now h (w, bal, bal) = Some (v, bal1, bal1)" "ledger v (pre @ [h]) bal1" "same_history w v"
  proof -
    have "h \<notin> set pre" using Cons.prems(3) by auto
    from balance_step_ledger [OF Cons.prems(1,2) this tx, of now] show ?thesis using that by blast
  qed
  have "getTx v = getTx w" by (rule getTx_cong) (use v(3) in \<open>simp add: same_history_def\<close>)
  then obtain w' bal' where "balance_loop now hs (v, bal1, bal1) = Some (w', bal', bal')" "ledger w' ((pre @ [h]) @ hs) bal'" "same_history v w'"
  proof -
    have known: "\<And>x. x \<in> set hs \<Longrightarrow> getTx v x \<noteq> None" using Cons.prems(4) \<open>getTx v = getTx w\<close> by simp
    have dist: "distinct ((pre @ [h]) @ hs)" using Cons.prems(3) by simp
    have "wallet_ok v" using same_history_ok [OF v(3)] Cons.prems(1) by simp
    from Cons.IH [OF this v(2) dist known] show ?thesis using that by blast
  qed
  then show ?case using v by (auto intro: same_history_trans)
qed

section \<open>The balance of a wallet\<close>

lemma ledger_cleared: "ledger (cleared w) [] 0"
  by (simp add: ledger_def cleared_def)

lemma same_history_cleared: "same_history w (cleared w)"
  by (simp add: same_history_def cleared_def)

lemma ledger_balance: "ledger (w\<lparr>balance := b\<rparr>) = ledger w"
proof -
  have cong: "inputs_of (w\<lparr>balance := b\<rparr>) = inputs_of w" "unconfirmed (w\<lparr>balance := b\<rparr>) = unconfirmed w" "parents_of (w\<lparr>balance := b\<rparr>) = parents_of w"
    "utxo_value (w\<lparr>balance := b\<rparr>) = utxo_value w" "used_by (w\<lparr>balance := b\<rparr>) = used_by w" "own_outputs (w\<lparr>balance := b\<rparr>) = own_outputs w"
    by (intro spec_cong; simp)+
  have "refused (w\<lparr>balance := b\<rparr>) = refused w" by (simp add: refused_def cong fun_eq_iff)
  then show ?thesis by (simp add: ledger_def cong fun_eq_iff)
qed

lemma update_balance_ledger:
  assumes "wallet_ok w"
  shows "\<exists>w'. BRWalletUpdateBalance now w = Some w' \<and> ledger w' (transactions w') (balance w') \<and> same_history w w'"
proof -
  have c: "wallet_ok (cleared w)" "getTx (cleared w) = getTx w" "transactions (cleared w) = transactions w"
    using assms same_history_ok [OF same_history_cleared] by (simp_all add: cleared_def getTx_def fun_eq_iff)
  then obtain v bal where v: "balance_loop now (transactions w) (cleared w, 0, 0) = Some (v, bal, bal)" "ledger v (transactions w) bal"
    "same_history (cleared w) v"
    using balance_loop_ledger [OF c(1) ledger_cleared, of "transactions w" now] assms by (auto simp: wallet_ok_def)
  have same: "same_history w v" using v(3) same_history_cleared same_history_trans by blast
  then have len: "length (balanceHist v) = length (transactions v)" "transactions v = transactions w" using v(2) by (simp_all add: ledger_def same_history_def)
  have "ledger (v\<lparr>balance := bal\<rparr>) (transactions w) bal" using v(2) by (simp only: ledger_balance)
  moreover have "BRWalletUpdateBalance now w = Some (v\<lparr>balance := bal\<rparr>)"
    using v(1) len by (simp add: BRWalletUpdateBalance_def)
  moreover have "same_history w (v\<lparr>balance := bal\<rparr>)" using same by (simp add: same_history_def)
  ultimately show ?thesis using len(2) by auto
qed

lemma ledger_unspent:
  assumes "ledger w hs bal" "pendingTx w = {}"
  shows "set (utxos w) = (\<Union>h\<in>set hs - invalidTx w. set (own_outputs w h)) - (\<Union>h\<in>set hs - invalidTx w. inputs_of w h)"
proof -
  have eq: "U = A - S" if "U \<subseteq> A" "A \<subseteq> U \<union> S" "U \<inter> S \<subseteq> {}" for U A S :: "UTXO set" using that by blast
  have "set (utxos w) = (\<Union>h\<in>set hs - invalidTx w. set (own_outputs w h)) - spentOutputs w"
    by (rule eq) (use ledgerD(5,6,7) [OF assms(1)] assms(2) in simp_all)
  then show ?thesis by (simp only: ledgerD(3) [OF assms(1)])
qed

text \<open>C22: the balance is what the ledger says.  For a wallet whose arrays agree, \<open>_BRWalletUpdateBalance\<close> returns, changes only the computed fields, and these form
  the ledger of the transactions in their order: an unconfirmed transaction is refused exactly when it spends an output that an earlier
  transaction spends or an output of a refused one, confirmed transactions never are; the spent outputs are the inputs of the others; the unspent
  outputs are distinct own outputs of transactions that are neither refused nor pending, no such output is lost, and an output that is spent remains only while the spending
  transaction is pending; the balance is the sum of the unspent outputs and equals what was received less what was sent, and the history has one
  balance for each transaction.  When nothing is pending the unspent outputs are exactly the own outputs that no accepted transaction spends.\<close>

theorem wallet_balance:
  assumes "wallet_ok w"
  shows "\<exists>w'. BRWalletUpdateBalance now w = Some w' \<and> same_history w w' \<and> ledger w' (transactions w) (balance w') \<and>
     (pendingTx w' = {} \<longrightarrow> set (utxos w') =
        (\<Union>h\<in>set (transactions w) - invalidTx w'. set (own_outputs w' h)) - (\<Union>h\<in>set (transactions w) - invalidTx w'. inputs_of w' h))"
proof -
  obtain w' where w': "BRWalletUpdateBalance now w = Some w'" "ledger w' (transactions w') (balance w')" "same_history w w'"
    using update_balance_ledger [OF assms] by blast
  then have "transactions w' = transactions w" by (simp add: same_history_def)
  then show ?thesis using w' ledger_unspent [OF w'(2)] by auto
qed

definition sample_tx :: "UInt256 \<Rightarrow> u32 \<Rightarrow> u64 \<Rightarrow> BRTransaction" where
  "sample_tx h height amt = BRTransactionNew\<lparr>txHash := h, blockHeight := height, outputs := [\<lparr>out_address = [82], out_amount = amt, out_script = None\<rparr>]\<rparr>"

definition sample_wallet :: BRWallet where
  "sample_wallet = empty_wallet\<lparr>allTx := [sample_tx 7 100 5], transactions := [7], allAddrs := {[82]}\<rparr>"

lemma sample_wallet_ok: "wallet_ok sample_wallet"
  by (simp add: wallet_ok_def sample_wallet_def getTx_def sample_tx_def)

theorem wallet_balance_witness:
  "\<exists>w'. BRWalletUpdateBalance 0 sample_wallet = Some w' \<and> transactions w' = [7] \<and> length (balanceHist w') = 1 \<and>
     balance w' = sum_list (map (utxo_value w') (utxos w'))"
proof -
  obtain w' where w': "BRWalletUpdateBalance 0 sample_wallet = Some w'" "same_history sample_wallet w'" "ledger w' (transactions sample_wallet) (balance w')"
    using wallet_balance [OF sample_wallet_ok, of 0] by blast
  have "transactions sample_wallet = [7]" by (simp add: sample_wallet_def)
  moreover have "balance w' = sum_list (map (utxo_value w') (utxos w'))" "length (balanceHist w') = length (transactions sample_wallet)"
    by (rule ledgerD [OF w'(3)])+
  ultimately show ?thesis using w'(1,2) by (intro exI [of _ w']) (simp add: same_history_def)
qed

end
