(* ===== verification/BRWalletHistory.thy ===== *)
theory BRWalletHistory
  imports BRWalletBalance "HOL-Library.Multiset"
begin

text \<open>
  How the history of a wallet changes: insertion into the sorted array, registration, removal with the dependent transactions, new block heights, and the
  generation of addresses.  The operations are the steps of a transition system, and the invariant of the reachable wallets says that the array, the sets
  and the balance agree.
\<close>

section \<open>Ancestry\<close>

text \<open>A transaction contains the hashes of the transactions that it spends, so that no transaction is its own ancestor.  In the model this is a rank that grows
  from the transactions that are spent to the one that spends them.\<close>

definition ranked :: "BRWallet \<Rightarrow> (UInt256 \<Rightarrow> nat) \<Rightarrow> bool" where
  "ranked w r \<longleftrightarrow> (\<forall>t\<in>set (allTx w). \<forall>inp\<in>set (inputs t). r (in_txHash inp) < r (txHash t))"

definition lower :: "BRWallet \<Rightarrow> (UInt256 \<Rightarrow> nat) \<Rightarrow> UInt256 \<Rightarrow> UInt256 set" where
  "lower w r h = {x \<in> txHash ` set (allTx w). r x < r h}"

lemma lower_card: "card (lower w r h) \<le> length (allTx w)"
proof -
  have "card (lower w r h) \<le> card (txHash ` set (allTx w))" by (rule card_mono) (auto simp: lower_def)
  also have "\<dots> \<le> length (allTx w)" using card_image_le [of "set (allTx w)" txHash] card_length [of "allTx w"] by simp
  finally show ?thesis .
qed

lemma lower_less:
  assumes "ranked w r" "t \<in> set (allTx w)" "inp \<in> set (inputs t)" "getTx w (in_txHash inp) = Some p"
  shows "card (lower w r (txHash p)) < card (lower w r (txHash t))"
proof (rule psubset_card_mono)
  have p: "txHash p = in_txHash inp" "p \<in> set (allTx w)" using getTx_hash [OF assms(4)] by auto
  have "r (txHash p) < r (txHash t)" using assms p by (auto simp: ranked_def)
  then show "lower w r (txHash p) \<subset> lower w r (txHash t)" using p(2) by (force simp: lower_def)
qed (simp add: lower_def)

lemma any_m_total: "(\<And>x. x \<in> set xs \<Longrightarrow> f x \<noteq> None) \<Longrightarrow> any_m f xs \<noteq> None"
proof (induction xs)
  case (Cons x xs)
  then obtain b where "f x = Some b" by fastforce
  with Cons show ?case by (cases b) simp_all
qed simp

lemma all_m_total: "(\<And>x. x \<in> set xs \<Longrightarrow> f x \<noteq> None) \<Longrightarrow> all_m f xs \<noteq> None"
proof (induction xs)
  case (Cons x xs)
  then obtain b where "f x = Some b" by fastforce
  with Cons show ?case by (cases b) simp_all
qed simp

section \<open>The order of the array\<close>

lemma tx_ascending_total:
  assumes "ranked w r" "t1 \<in> set (allTx w)" "card (lower w r (txHash t1)) + 1 < n"
  shows "tx_ascending n w (Some t1) tx2 \<noteq> None"
  using assms(2,3)
proof (induction n arbitrary: t1)
  case (Suc n)
  have "any_m (\<lambda>i. tx_ascending n w (getTx w (in_txHash i)) tx2) (inputs t1) \<noteq> None"
  proof (rule any_m_total)
    fix i assume i: "i \<in> set (inputs t1)"
    show "tx_ascending n w (getTx w (in_txHash i)) tx2 \<noteq> None"
    proof (cases "getTx w (in_txHash i)")
      case None
      then show ?thesis using Suc.prems(2) by (cases n) auto
    next
      case (Some p)
      then show ?thesis using Suc.IH [of p] lower_less [OF assms(1) Suc.prems(1) i Some] Suc.prems(2) getTx_hash [OF Some] by auto
    qed
  qed
  then show ?case by (auto split: option.splits)
qed simp

lemma ascending_total: "ranked w r \<Longrightarrow> t1 \<in> set (allTx w) \<Longrightarrow> BRWalletTxIsAscending w t1 t2 \<noteq> None"
  unfolding BRWalletTxIsAscending_def by (rule tx_ascending_total) (use lower_card [of w r] in \<open>auto simp: less_Suc_eq_le\<close>)

lemma ascending_height:
  "blockHeight t1 > blockHeight t2 \<Longrightarrow> BRWalletTxIsAscending w t1 t2 = Some True"
  "blockHeight t1 < blockHeight t2 \<Longrightarrow> BRWalletTxIsAscending w t1 t2 = Some False"
  by (auto simp: BRWalletTxIsAscending_def)

lemma compare_total:
  assumes "ranked w r" "t1 \<in> set (allTx w)" "t2 \<in> set (allTx w)"
  shows "\<exists>c. BRWalletTxCompare w t1 t2 = Some c \<and> (c > 0 \<longrightarrow> blockHeight t2 \<le> blockHeight t1) \<and> (c \<le> 0 \<longrightarrow> blockHeight t1 \<le> blockHeight t2)"
proof -
  obtain a where a: "BRWalletTxIsAscending w t1 t2 = Some a" using ascending_total [OF assms(1,2)] by blast
  obtain b where b: "BRWalletTxIsAscending w t2 t1 = Some b" using ascending_total [OF assms(1,3)] by blast
  consider "blockHeight t2 < blockHeight t1" | "blockHeight t1 < blockHeight t2" | "blockHeight t1 = blockHeight t2"
    by fastforce
  then show ?thesis
  proof cases
    case 1
    then show ?thesis by (simp add: BRWalletTxCompare_def ascending_height)
  next
    case 2
    then show ?thesis by (simp add: BRWalletTxCompare_def ascending_height)
  next
    case 3
    then show ?thesis using a b by (simp add: BRWalletTxCompare_def Let_def)
  qed
qed

definition height_of :: "BRWallet \<Rightarrow> UInt256 \<Rightarrow> u32" where
  "height_of w h = (case getTx w h of None \<Rightarrow> 0 | Some t \<Rightarrow> blockHeight t)"

definition oldest_first :: "BRWallet \<Rightarrow> bool" where
  "oldest_first w \<longleftrightarrow> sorted_wrt (\<lambda>a b. height_of w a \<le> height_of w b) (transactions w)"

text \<open>The entry in front of the place that is found is not younger, the entries behind it are not older.\<close>

lemma insert_loop_total:
  assumes "ranked w r" "tx \<in> set (allTx w)" "\<And>h. h \<in> set ts \<Longrightarrow> getTx w h \<noteq> None" "i \<le> length ts"
  shows "\<exists>k\<le>i. insert_loop w tx ts i = Some k \<and> (k > 0 \<longrightarrow> height_of w (ts ! (k - 1)) \<le> blockHeight tx) \<and>
     (\<forall>j. k \<le> j \<and> j < i \<longrightarrow> blockHeight tx \<le> height_of w (ts ! j))"
  using assms(4)
proof (induction i)
  case (Suc i)
  obtain t where t: "getTx w (ts ! i) = Some t" using assms(3) [of "ts ! i"] Suc.prems by auto
  have h: "height_of w (ts ! i) = blockHeight t" by (simp add: height_of_def t)
  obtain c where c: "BRWalletTxCompare w t tx = Some c" "c > 0 \<longrightarrow> blockHeight tx \<le> blockHeight t" "c \<le> 0 \<longrightarrow> blockHeight t \<le> blockHeight tx"
    using compare_total [OF assms(1) _ assms(2), of t] getTx_hash [OF t] by blast
  show ?case
  proof (cases "c > 0")
    case True
    obtain k where "k \<le> i" "insert_loop w tx ts i = Some k" "k > 0 \<longrightarrow> height_of w (ts ! (k - 1)) \<le> blockHeight tx"
      "\<forall>j. k \<le> j \<and> j < i \<longrightarrow> blockHeight tx \<le> height_of w (ts ! j)" using Suc by auto
    then show ?thesis using True c t h by (intro exI [of _ k]) (auto simp: less_Suc_eq)
  next
    case False
    then show ?thesis using c t h by (intro exI [of _ "Suc i"]) auto
  qed
qed simp

lemma sorted_insert_at:
  assumes "sorted_wrt (\<lambda>a b. f a \<le> f b) xs" "k \<le> length xs" "k > 0 \<longrightarrow> f (xs ! (k - 1)) \<le> (f x :: 'b::order)" "\<forall>j. k \<le> j \<and> j < length xs \<longrightarrow> f x \<le> f (xs ! j)"
  shows "sorted_wrt (\<lambda>a b. f a \<le> f b) (take k xs @ x # drop k xs)"
proof -
  have "f y \<le> f x" if "y \<in> set (take k xs)" for y
  proof -
    obtain i where i: "i < k" "i < length xs" "y = xs ! i" using \<open>y \<in> set (take k xs)\<close> unfolding in_set_conv_nth by auto
    have "f (xs ! i) \<le> f (xs ! (k - 1))"
      using sorted_wrt_nth_less [OF assms(1), of i "k - 1"] i assms(2) by (cases "i = k - 1") auto
    then show ?thesis using assms(3) i by (auto intro: order_trans)
  qed
  moreover have "f x \<le> f y" if "y \<in> set (drop k xs)" for y
    using that assms(4) by (auto simp: in_set_conv_nth)
  moreover have "sorted_wrt (\<lambda>a b. f a \<le> f b) (take k xs @ drop k xs)" using assms(1) by simp
  ultimately show ?thesis by (auto simp: sorted_wrt_append intro: order_trans)
qed

lemma insert_tx_total:
  assumes "ranked w r" "getTx w (txHash tx) = Some tx" "\<And>h. h \<in> set (transactions w) \<Longrightarrow> getTx w h \<noteq> None"
  shows "\<exists>i\<le>length (transactions w). BRWalletInsertTx w tx = Some (w\<lparr>transactions := take i (transactions w) @ txHash tx # drop i (transactions w)\<rparr>) \<and>
     (oldest_first w \<longrightarrow> oldest_first (w\<lparr>transactions := take i (transactions w) @ txHash tx # drop i (transactions w)\<rparr>))"
proof -
  obtain i where i: "i \<le> length (transactions w)" "insert_loop w tx (transactions w) (length (transactions w)) = Some i"
    "i > 0 \<longrightarrow> height_of w (transactions w ! (i - 1)) \<le> blockHeight tx"
    "\<forall>j. i \<le> j \<and> j < length (transactions w) \<longrightarrow> blockHeight tx \<le> height_of w (transactions w ! j)"
    using insert_loop_total [OF assms(1) _ assms(3) order_refl, of tx "transactions w"] getTx_hash [OF assms(2)] by blast
  have h: "height_of w (txHash tx) = blockHeight tx" "height_of (w\<lparr>transactions := ts\<rparr>) = height_of w" for ts
    using assms(2) by (simp_all add: height_of_def fun_eq_iff)
  then show ?thesis
    using i sorted_insert_at [of "height_of w" "transactions w" i "txHash tx"]
    by (intro exI [of _ i]) (auto simp: BRWalletInsertTx_def oldest_first_def)
qed

section \<open>Addresses\<close>

text \<open>Different numbers of a chain give different addresses.\<close>

definition derivation_ok :: "derivation \<Rightarrow> bool" where
  "derivation_ok derive \<longleftrightarrow> (\<forall>c i j. derive c i \<noteq> None \<longrightarrow> derive c i = derive c j \<longrightarrow> i = j)"

lemma used_bounded:
  assumes "derivation_ok derive" "finite U"
  shows "\<exists>N. \<forall>j a. derive c j = Some a \<longrightarrow> a \<in> U \<longrightarrow> j < N"
proof -
  have "inj_on (derive c) {j. \<exists>a\<in>U. derive c j = Some a}" using assms(1) by (intro inj_onI) (simp add: derivation_ok_def, metis)
  moreover have "derive c ` {j. \<exists>a\<in>U. derive c j = Some a} \<subseteq> Some ` U" by auto
  ultimately have "finite {j. \<exists>a\<in>U. derive c j = Some a}" using assms(2) inj_on_finite by blast
  then obtain N where "\<forall>j\<in>{j. \<exists>a\<in>U. derive c j = Some a}. j < N" using finite_nat_set_iff_bounded by blast
  then show ?thesis by blast
qed

lemma trailing_unused_nth:
  "trailing_unused U xs \<le> length xs" "trailing_unused U xs \<le> j \<Longrightarrow> j < length xs \<Longrightarrow> xs ! j \<notin> U"
proof -
  show "trailing_unused U xs \<le> length xs" by (simp add: trailing_unused_def)
  assume j: "trailing_unused U xs \<le> j" "j < length xs"
  have len: "length (takeWhile (\<lambda>a. a \<notin> U) (rev xs)) \<le> length xs" using length_takeWhile_le [of "\<lambda>a. a \<notin> U" "rev xs"] by simp
  then have k: "length xs - 1 - j < length (takeWhile (\<lambda>a. a \<notin> U) (rev xs))" using j by (simp add: trailing_unused_def)
  then have "takeWhile (\<lambda>a. a \<notin> U) (rev xs) ! (length xs - 1 - j) \<notin> U" using nth_mem set_takeWhileD by fast
  then show "xs ! j \<notin> U" using takeWhile_nth [OF k] j by (simp add: rev_nth)
qed

text \<open>The position after the last used address of a chain: every address from there on is unused, and the one before it, if there is one, is used.\<close>

definition after_last_used :: "bytes set \<Rightarrow> bytes list \<Rightarrow> nat \<Rightarrow> bool" where
  "after_last_used U xs i \<longleftrightarrow> i \<le> length xs \<and> (\<forall>j. i \<le> j \<and> j < length xs \<longrightarrow> xs ! j \<notin> U) \<and> (i = 0 \<or> xs ! (i - 1) \<in> U)"

lemma trailing_unused_after: "after_last_used U xs (trailing_unused U xs)"
proof -
  let ?t = "trailing_unused U xs" and ?k = "length (takeWhile (\<lambda>a. a \<notin> U) (rev xs))"
  have "xs ! (?t - 1) \<in> U" if "0 < ?t"
  proof -
    have k: "?k < length (rev xs)" using that by (simp add: trailing_unused_def)
    then have "rev xs ! ?k \<in> U" using nth_length_takeWhile [of "\<lambda>a. a \<notin> U" "rev xs"] by simp
    then show ?thesis using k by (simp add: rev_nth trailing_unused_def)
  qed
  then show ?thesis using trailing_unused_nth by (auto simp: after_last_used_def)
qed

text \<open>The loop over the chain ends: used addresses have numbers below a bound, and after it only the gap is filled.\<close>

lemma gen_addrs_total:
  assumes "\<And>j a. derive j = Some a \<Longrightarrow> a \<in> U \<Longrightarrow> j < N" "after_last_used U xs i"
  shows "\<exists>i' ext. gen_addrs derive U gap i xs = Some (i', xs @ ext) \<and> after_last_used U (xs @ ext) i' \<and> i \<le> i' \<and>
     (\<forall>j<length ext. derive (length xs + j) = Some (ext ! j)) \<and>
     (i' + gap \<le> length (xs @ ext) \<or> derive (length (xs @ ext)) = None) \<and> length (xs @ ext) \<le> max (length xs) (i' + gap)"
  using assms(2)
proof (induction "max (i + gap) (N + gap) - length xs" arbitrary: i xs rule: less_induct)
  case less
  show ?case
  proof (cases "i + gap > length xs")
    case False
    then show ?thesis using less.prems by (intro exI [of _ i] exI [of _ "[]"]) (auto simp: gen_addrs.simps [of derive])
  next
    case more: True
    show ?thesis
    proof (cases "derive (length xs)")
      case None
      then show ?thesis using more less.prems by (intro exI [of _ i] exI [of _ "[]"]) (auto simp: gen_addrs.simps [of derive])
    next
      case (Some a)
      define i1 where "i1 = (if a \<in> U then length xs + 1 else i)"
      have i1: "i \<le> i1" "after_last_used U (xs @ [a]) i1"
        using less.prems by (auto simp: after_last_used_def i1_def nth_append less_Suc_eq)
      have "i1 + gap \<le> max (i + gap) (N + gap)" using assms(1) [OF Some] by (auto simp: i1_def)
      then have meas: "max (i1 + gap) (N + gap) - length (xs @ [a]) < max (i + gap) (N + gap) - length xs" using more by simp
      obtain i' ext where r: "gen_addrs derive U gap i1 (xs @ [a]) = Some (i', (xs @ [a]) @ ext)" "after_last_used U ((xs @ [a]) @ ext) i'" "i1 \<le> i'"
        "\<forall>j<length ext. derive (length (xs @ [a]) + j) = Some (ext ! j)"
        "i' + gap \<le> length ((xs @ [a]) @ ext) \<or> derive (length ((xs @ [a]) @ ext)) = None"
        "length ((xs @ [a]) @ ext) \<le> max (length (xs @ [a])) (i' + gap)"
        using less.hyps [OF meas i1(2)] by blast
      have "\<forall>j<length (a # ext). derive (length xs + j) = Some ((a # ext) ! j)"
        using r(4) Some by (auto simp: less_Suc_eq_0_disj)
      then show ?thesis using r more Some i1(1)
        by (intro exI [of _ i'] exI [of _ "a # ext"]) (simp add: gen_addrs.simps [of derive _ _ i xs] i1_def [symmetric])
    qed
  qed
qed

definition chain_of :: "BRWallet \<Rightarrow> bool \<Rightarrow> bytes list" where
  "chain_of w c = (if c then internalChain w else externalChain w)"

definition extend_chain :: "bool \<Rightarrow> bytes list \<Rightarrow> BRWallet \<Rightarrow> BRWallet" where
  "extend_chain c ext w = (if c then w\<lparr>internalChain := internalChain w @ ext\<rparr> else w\<lparr>externalChain := externalChain w @ ext\<rparr>)
     \<lparr>allAddrs := allAddrs w \<union> set ext\<rparr>"

lemma unused_addrs_total:
  assumes "derivation_ok derive" "finite (usedAddrs w)" "gap > 0"
  shows "\<exists>ext i. BRWalletUnusedAddrs derive w gap c =
       Some (if i + gap \<le> length (chain_of w c @ ext) then slice i gap (chain_of w c @ ext) else [], extend_chain c ext w) \<and>
     (\<forall>j<length ext. derive c (length (chain_of w c) + j) = Some (ext ! j)) \<and>
     (\<forall>j. i \<le> j \<and> j < length (chain_of w c @ ext) \<longrightarrow> (chain_of w c @ ext) ! j \<notin> usedAddrs w) \<and>
     (i + gap \<le> length (chain_of w c @ ext) \<or> derive c (length (chain_of w c @ ext)) = None) \<and>
     after_last_used (usedAddrs w) (chain_of w c @ ext) i \<and> length (chain_of w c @ ext) \<le> max (length (chain_of w c)) (i + gap)"
proof -
  obtain N where N: "\<And>j a. derive c j = Some a \<Longrightarrow> a \<in> usedAddrs w \<Longrightarrow> j < N" using used_bounded [OF assms(1,2)] by blast
  define xs where "xs = chain_of w c"
  obtain i ext where r: "gen_addrs (derive c) (usedAddrs w) gap (trailing_unused (usedAddrs w) xs) xs = Some (i, xs @ ext)"
    "after_last_used (usedAddrs w) (xs @ ext) i" "\<forall>j<length ext. derive c (length xs + j) = Some (ext ! j)"
    "i + gap \<le> length (xs @ ext) \<or> derive c (length (xs @ ext)) = None" "length (xs @ ext) \<le> max (length xs) (i + gap)"
    using gen_addrs_total [of "derive c" "usedAddrs w" N xs "trailing_unused (usedAddrs w) xs" gap] N trailing_unused_after by blast
  have "BRWalletUnusedAddrs derive w gap c = Some (if i + gap \<le> length (xs @ ext) then slice i gap (xs @ ext) else [], extend_chain c ext w)"
    using r(1) assms(3) by (auto simp: BRWalletUnusedAddrs_def Let_def xs_def chain_of_def extend_chain_def)
  then show ?thesis using r(2-5) unfolding xs_def after_last_used_def by blast
qed

section \<open>The invariant\<close>

text \<open>What the wallet can assume of a transaction: it is signed, its hash and the hashes in its inputs are not zero, and it spends transactions of lower rank.\<close>

definition tx_ok :: "(UInt256 \<Rightarrow> nat) \<Rightarrow> BRTransaction \<Rightarrow> bool" where
  "tx_ok r t \<longleftrightarrow> BRTransactionIsSigned t \<and> txHash t \<noteq> 0 \<and> length (outputs t) \<le> 2 ^ 32 \<and>
     (\<forall>inp\<in>set (inputs t). in_txHash inp \<noteq> 0 \<and> r (in_txHash inp) < r (txHash t))"

text \<open>The array holds transactions that concern the wallet, once each; the chains are the derived addresses and \<open>allAddrs\<close> holds them.\<close>

definition core_inv :: "derivation \<Rightarrow> (UInt256 \<Rightarrow> nat) \<Rightarrow> BRWallet \<Rightarrow> bool" where
  "core_inv derive r w \<longleftrightarrow> distinct (transactions w) \<and>
     (\<forall>h\<in>set (transactions w). \<exists>t. getTx w h = Some t \<and> BRWalletContainsTx w t) \<and> (\<forall>t\<in>set (allTx w). tx_ok r t) \<and>
     allAddrs w = set (internalChain w) \<union> set (externalChain w) \<and> (\<forall>c j. j < length (chain_of w c) \<longrightarrow> derive c j = Some (chain_of w c ! j))"

text \<open>The books: the unspent outputs are outputs of transactions in the array, and the balance is their sum.\<close>

definition books :: "BRWallet \<Rightarrow> bool" where
  "books w \<longleftrightarrow> distinct (utxos w) \<and>
     (\<forall>u\<in>set (utxos w). fst u \<in> set (transactions w) \<and> (\<exists>t. getTx w (fst u) = Some t \<and> unat (snd u) < length (outputs t))) \<and>
     balance w = sum_list (map (utxo_value w) (utxos w)) \<and> balance w = totalReceived w - totalSent w \<and>
     length (balanceHist w) = length (transactions w) \<and> (transactions w \<noteq> [] \<longrightarrow> last (balanceHist w) = balance w) \<and>
     invalidTx w \<union> pendingTx w \<subseteq> set (transactions w) \<and> finite (usedAddrs w)"

definition wallet_inv :: "derivation \<Rightarrow> (UInt256 \<Rightarrow> nat) \<Rightarrow> BRWallet \<Rightarrow> bool" where
  "wallet_inv derive r w \<longleftrightarrow> core_inv derive r w \<and> books w"

lemma core_inv_ok: "core_inv derive r w \<Longrightarrow> wallet_ok w"
  by (fastforce simp: core_inv_def wallet_ok_def tx_ok_def)

lemma core_inv_ranked: "core_inv derive r w \<Longrightarrow> ranked w r"
  by (simp add: core_inv_def ranked_def tx_ok_def)

lemma core_inv_tx: "core_inv derive r w \<Longrightarrow> getTx w h = Some t \<Longrightarrow> tx_ok r t"
  using getTx_hash [of w h t] by (simp add: core_inv_def)

lemma contains_cong: "getTx w' = getTx w \<Longrightarrow> allAddrs w' = allAddrs w \<Longrightarrow> BRWalletContainsTx w' = BRWalletContainsTx w"
  by (simp add: fun_eq_iff BRWalletContainsTx_def spent_output_def is_own_def list_ex_iff cong: option.case_cong)

lemma same_history_core: "same_history w w' \<Longrightarrow> core_inv derive r w \<Longrightarrow> core_inv derive r w'"
proof -
  assume same: "same_history w w'" and inv: "core_inv derive r w"
  then have "getTx w' = getTx w" "chain_of w' = chain_of w"
    by (simp_all add: same_history_def chain_of_def fun_eq_iff getTx_def)
  moreover from this same have "BRWalletContainsTx w' = BRWalletContainsTx w" by (intro contains_cong) (simp_all add: same_history_def)
  ultimately show ?thesis using same inv by (simp add: core_inv_def same_history_def)
qed

lemma ledger_books:
  assumes "wallet_ok w" "ledger w (transactions w) (balance w)"
  shows "books w"
  unfolding books_def
proof (intro conjI ballI)
  fix u assume u: "u \<in> set (utxos w)"
  show "fst u \<in> set (transactions w)" using utxo_source(1) [OF assms u] by simp
  show "\<exists>t. getTx w (fst u) = Some t \<and> unat (snd u) < length (outputs t)" by (rule utxo_source(3) [OF assms u])
next
  show "invalidTx w \<union> pendingTx w \<subseteq> set (transactions w)" using ledgerD(1,2) [OF assms(2)] by blast
qed (use ledgerD [OF assms(2)] ledger_used_finite [OF assms(2)] in simp_all)

text \<open>The balance is computed afresh from the array.\<close>

lemma update_balance_inv:
  assumes "core_inv derive r w"
  shows "\<exists>w'. BRWalletUpdateBalance now w = Some w' \<and> wallet_inv derive r w' \<and> same_history w w'"
proof -
  obtain w' where w': "BRWalletUpdateBalance now w = Some w'" "ledger w' (transactions w') (balance w')" "same_history w w'"
    using update_balance_ledger [OF core_inv_ok [OF assms]] by blast
  have "core_inv derive r w'" using same_history_core w'(3) assms by blast
  then show ?thesis using w' ledger_books [OF core_inv_ok] by (auto simp: wallet_inv_def)
qed

section \<open>Registration\<close>

lemma getTx_add: "getTx (add_tx w tx) h = (if h = txHash tx then Some tx else getTx w h)"
proof -
  have "List.find (\<lambda>t. txHash t = h) (filter (\<lambda>t. txHash t \<noteq> txHash tx) xs) = List.find (\<lambda>t. txHash t = h) xs" if "h \<noteq> txHash tx" for xs
    using that by (induction xs) auto
  then show ?thesis by (auto simp: getTx_def add_tx_def)
qed

lemma getTx_del: "getTx (del_tx w x) h = (if h = x then None else getTx w h)"
proof -
  have "List.find (\<lambda>t. txHash t = h) (filter (\<lambda>t. txHash t \<noteq> x) xs) = (if h = x then None else List.find (\<lambda>t. txHash t = h) xs)" for xs
    by (induction xs) auto
  from this [of "allTx w"] show ?thesis by (cases "h = x") (simp_all add: getTx_def del_tx_def)
qed

lemma getTx_map:
  assumes "\<And>t. txHash (f t) = txHash t"
  shows "getTx (map_tx w x f) h = map_option (\<lambda>t. if h = x then f t else t) (getTx w h)"
proof -
  have "List.find (\<lambda>t. txHash t = h) (map (\<lambda>t. if txHash t = x then f t else t) xs) =
      map_option (\<lambda>t. if h = x then f t else t) (List.find (\<lambda>t. txHash t = h) xs)" for xs
    using assms by (induction xs) auto
  then show ?thesis by (simp add: getTx_def map_tx_def)
qed

text \<open>A transaction that concerns a wallet concerns it as long as the transactions that it spends are known, and when addresses are added.\<close>

lemma concerns_mono:
  assumes "BRWalletContainsTx w t" "allAddrs w \<subseteq> allAddrs w'" "inputs t' = inputs t" "outputs t' = outputs t"
    "\<And>inp p. inp \<in> set (inputs t) \<Longrightarrow> getTx w (in_txHash inp) = Some p \<Longrightarrow> list_ex (is_own w) (outputs p) \<Longrightarrow>
       \<exists>p'. getTx w' (in_txHash inp) = Some p' \<and> outputs p' = outputs p"
  shows "BRWalletContainsTx w' t'"
proof (cases "list_ex (is_own w) (outputs t)")
  case True
  then show ?thesis using assms(2,4) by (auto simp: BRWalletContainsTx_def is_own_def list_ex_iff)
next
  case False
  then obtain inp out where inp: "inp \<in> set (inputs t)" "spent_output w inp = Some out" "is_own w out"
    using assms(1) by (auto simp: BRWalletContainsTx_def list_ex_iff split: option.splits)
  then obtain p where p: "getTx w (in_txHash inp) = Some p" "unat (in_index inp) < length (outputs p)" "out = outputs p ! unat (in_index inp)"
    by (cases "getTx w (in_txHash inp)") (auto simp: spent_output_def rd_Some_iff)
  then have "list_ex (is_own w) (outputs p)" using inp(3) by (auto simp: list_ex_iff)
  then obtain p' where "getTx w' (in_txHash inp) = Some p'" "outputs p' = outputs p" using assms(5) [OF inp(1) p(1)] by blast
  then have "spent_output w' inp = Some out" using p by (simp add: spent_output_def rd_def)
  moreover have "is_own w' out" using inp(3) assms(2) by (auto simp: is_own_def)
  ultimately show ?thesis using inp(1) assms(3) by (force simp: BRWalletContainsTx_def list_ex_iff)
qed

lemma add_tx_core:
  assumes inv: "core_inv derive r w" and tx: "tx_ok r tx" "getTx w (txHash tx) = None"
  shows "core_inv derive r (add_tx w tx)" "BRWalletContainsTx w t \<Longrightarrow> BRWalletContainsTx (add_tx w tx) t"
proof -
  show mono: "BRWalletContainsTx (add_tx w tx) t" if "BRWalletContainsTx w t" for t
  proof (rule concerns_mono [OF that])
    fix inp p assume "getTx w (in_txHash inp) = Some p"
    then show "\<exists>p'. getTx (add_tx w tx) (in_txHash inp) = Some p' \<and> outputs p' = outputs p" using tx(2) by (auto simp: getTx_add)
  qed (simp_all add: add_tx_def)
  have "\<exists>t. getTx (add_tx w tx) h = Some t \<and> BRWalletContainsTx (add_tx w tx) t" if "h \<in> set (transactions w)" for h
    using inv tx(2) mono that by (fastforce simp: core_inv_def getTx_add)
  moreover have "\<forall>t\<in>set (allTx (add_tx w tx)). tx_ok r t" using inv tx(1) by (auto simp: core_inv_def add_tx_def)
  ultimately show "core_inv derive r (add_tx w tx)"
    using inv by (simp add: core_inv_def) (simp add: add_tx_def chain_of_def)
qed

lemma oldest_cong:
  "transactions w' = transactions w \<Longrightarrow> (\<And>h. h \<in> set (transactions w) \<Longrightarrow> height_of w' h = height_of w h) \<Longrightarrow> oldest_first w' = oldest_first w"
proof -
  assume same: "transactions w' = transactions w" "\<And>h. h \<in> set (transactions w) \<Longrightarrow> height_of w' h = height_of w h"
  have "sorted_wrt (\<lambda>a b. height_of w' a \<le> height_of w' b) xs = sorted_wrt (\<lambda>a b. height_of w a \<le> height_of w b) xs" if "set xs \<subseteq> set (transactions w)" for xs
    using that by (induction xs) (simp_all add: same(2) subset_iff)
  then show ?thesis using same(1) by (simp add: oldest_first_def)
qed

lemma oldest_add: "txHash tx \<notin> set (transactions w) \<Longrightarrow> oldest_first w \<longrightarrow> oldest_first (add_tx w tx)"
proof -
  assume new: "txHash tx \<notin> set (transactions w)"
  have "oldest_first (add_tx w tx) = oldest_first w"
  proof (rule oldest_cong)
    show "transactions (add_tx w tx) = transactions w" by (simp add: add_tx_def)
    show "height_of (add_tx w tx) h = height_of w h" if "h \<in> set (transactions w)" for h
      using that new by (auto simp: height_of_def getTx_add)
  qed
  then show ?thesis by simp
qed

lemma insert_tx_core:
  assumes inv: "core_inv derive r w" and tx: "tx_ok r tx" "getTx w (txHash tx) = None" "BRWalletContainsTx w tx"
  shows "\<exists>w'. BRWalletInsertTx (add_tx w tx) tx = Some w' \<and> core_inv derive r w' \<and> mset (transactions w') = add_mset (txHash tx) (mset (transactions w)) \<and>
     allTx w' = allTx (add_tx w tx) \<and> (oldest_first w \<longrightarrow> oldest_first w')"
proof -
  have core: "core_inv derive r (add_tx w tx)" by (rule add_tx_core(1) [OF inv tx(1,2)])
  have trans: "transactions (add_tx w tx) = transactions w" by (simp add: add_tx_def)
  have look: "getTx (add_tx w tx) (txHash tx) = Some tx" by (simp add: getTx_add)
  have known: "\<And>h. h \<in> set (transactions (add_tx w tx)) \<Longrightarrow> getTx (add_tx w tx) h \<noteq> None" using core by (fastforce simp: core_inv_def)
  obtain i where i: "i \<le> length (transactions w)"
    "BRWalletInsertTx (add_tx w tx) tx = Some ((add_tx w tx)\<lparr>transactions := take i (transactions w) @ txHash tx # drop i (transactions w)\<rparr>)"
    "oldest_first (add_tx w tx) \<longrightarrow> oldest_first ((add_tx w tx)\<lparr>transactions := take i (transactions w) @ txHash tx # drop i (transactions w)\<rparr>)"
    using insert_tx_total [OF core_inv_ranked [OF core] look known] trans by auto
  define w' where "w' = (add_tx w tx)\<lparr>transactions := take i (transactions w) @ txHash tx # drop i (transactions w)\<rparr>"
  have new: "txHash tx \<notin> set (transactions w)" using inv tx(2) by (auto simp: core_inv_def)
  have m: "mset (transactions w') = add_mset (txHash tx) (mset (transactions w))" 
    using arg_cong [OF append_take_drop_id [of i "transactions w"], of mset] by (simp add: w'_def del: append_take_drop_id)
  then have "set (transactions w') = insert (txHash tx) (set (transactions w))" "distinct (transactions w')"
    using new inv by (metis set_mset_add_mset_insert set_mset_mset, metis core_inv_def distinct.simps(2) mset.simps(2) mset_eq_imp_distinct_iff)
  moreover have "BRWalletContainsTx w' = BRWalletContainsTx (add_tx w tx)" by (rule contains_cong) (simp_all add: w'_def)
  ultimately have "core_inv derive r w'"
    using core look add_tx_core(2) [OF inv tx(1,2,3)] trans by (auto simp: core_inv_def w'_def chain_of_def)
  moreover have "oldest_first w \<longrightarrow> oldest_first (add_tx w tx)" by (rule oldest_add [OF new])
  ultimately show ?thesis using i(2,3) m w'_def by (intro exI [of _ w']) auto
qed

text \<open>Extending a chain.\<close>

lemma extend_chain_simps [simp]:
  "getTx (extend_chain c ext w) = getTx w" "allTx (extend_chain c ext w) = allTx w" "transactions (extend_chain c ext w) = transactions w"
  "utxos (extend_chain c ext w) = utxos w" "balance (extend_chain c ext w) = balance w" "balanceHist (extend_chain c ext w) = balanceHist w"
  "totalSent (extend_chain c ext w) = totalSent w" "totalReceived (extend_chain c ext w) = totalReceived w"
  "invalidTx (extend_chain c ext w) = invalidTx w" "pendingTx (extend_chain c ext w) = pendingTx w" "usedAddrs (extend_chain c ext w) = usedAddrs w"
  "allAddrs (extend_chain c ext w) = allAddrs w \<union> set ext" "utxo_value (extend_chain c ext w) = utxo_value w"
  "chain_of (extend_chain c ext w) c' = (if c' = c then chain_of w c @ ext else chain_of w c')"
  by (simp_all add: extend_chain_def chain_of_def getTx_def utxo_value_def fun_eq_iff)

lemma chain_extended:
  assumes "\<And>c j. j < length (chain_of w c) \<Longrightarrow> derive c j = Some (chain_of w c ! j)"
    "\<forall>j<length ext. derive c (length (chain_of w c) + j) = Some (ext ! j)" "j < length (chain_of (extend_chain c ext w) c')"
  shows "derive c' j = Some (chain_of (extend_chain c ext w) c' ! j)"
proof (cases "c' = c \<and> length (chain_of w c) \<le> j")
  case True
  then have "j - length (chain_of w c) < length ext" using assms(3) by auto
  then show ?thesis using assms(2) True by (force simp: nth_append)
next
  case False
  then show ?thesis using assms(1,3) by (auto simp: nth_append split: if_splits)
qed

lemma extend_chain_inv:
  assumes "wallet_inv derive r w" "\<forall>j<length ext. derive c (length (chain_of w c) + j) = Some (ext ! j)"
  shows "wallet_inv derive r (extend_chain c ext w)"
proof -
  have core: "core_inv derive r w" and books: "books w" using assms(1) by (simp_all add: wallet_inv_def)
  have "books (extend_chain c ext w) = books w" by (simp add: books_def)
  moreover have "BRWalletContainsTx (extend_chain c ext w) t" if "BRWalletContainsTx w t" for t
    by (rule concerns_mono [OF that]) auto
  moreover have "derive c' j = Some (chain_of (extend_chain c ext w) c' ! j)" if "j < length (chain_of (extend_chain c ext w) c')" for c' j
    by (rule chain_extended [where derive = derive, OF _ assms(2) that]) (use core in \<open>auto simp: core_inv_def\<close>)
  moreover have "allAddrs (extend_chain c ext w) = set (internalChain (extend_chain c ext w)) \<union> set (externalChain (extend_chain c ext w))"
    using core by (auto simp: core_inv_def extend_chain_def)
  ultimately show ?thesis using core books by (auto simp: wallet_inv_def core_inv_def)
qed

lemma unused_addrs_inv:
  assumes "derivation_ok derive" "wallet_inv derive r w" "gap > 0"
  shows "\<exists>addrs w'. BRWalletUnusedAddrs derive w gap c = Some (addrs, w') \<and> wallet_inv derive r w' \<and> allTx w' = allTx w \<and> transactions w' = transactions w"
proof -
  have "finite (usedAddrs w)" using assms(2) by (simp add: wallet_inv_def books_def)
  from unused_addrs_total [OF assms(1) this assms(3), of c] obtain ext addrs where
    "BRWalletUnusedAddrs derive w gap c = Some (addrs, extend_chain c ext w)" "\<forall>j<length ext. derive c (length (chain_of w c) + j) = Some (ext ! j)" by blast
  then show ?thesis using extend_chain_inv [OF assms(2)] by auto
qed

lemma both_chains_inv:
  assumes "derivation_ok derive" "wallet_inv derive r w"
  shows "\<exists>w'. both_chains derive w = Some w' \<and> wallet_inv derive r w' \<and> allTx w' = allTx w \<and> transactions w' = transactions w"
proof -
  obtain a w1 where 1: "BRWalletUnusedAddrs derive w SEQUENCE_GAP_LIMIT_EXTERNAL False = Some (a, w1)" "wallet_inv derive r w1"
    "allTx w1 = allTx w" "transactions w1 = transactions w"
    using unused_addrs_inv [OF assms, of SEQUENCE_GAP_LIMIT_EXTERNAL False] by (auto simp: SEQUENCE_GAP_LIMIT_EXTERNAL_def)
  obtain b w2 where "BRWalletUnusedAddrs derive w1 SEQUENCE_GAP_LIMIT_INTERNAL True = Some (b, w2)" "wallet_inv derive r w2"
    "allTx w2 = allTx w1" "transactions w2 = transactions w1"
    using unused_addrs_inv [OF assms(1) 1(2), of SEQUENCE_GAP_LIMIT_INTERNAL True] by (auto simp: SEQUENCE_GAP_LIMIT_INTERNAL_def)
  then show ?thesis using 1 by (simp add: both_chains_def)
qed

lemma books_add_tx:
  assumes "wallet_inv derive r w" "getTx w (txHash tx) = None"
  shows "books (add_tx w tx)"
proof -
  have books: "books w" using assms(1) by (simp add: wallet_inv_def)
  have look: "getTx (add_tx w tx) (fst u) = getTx w (fst u)" if "u \<in> set (utxos w)" for u
    using books that assms(2) by (auto simp: books_def getTx_add)
  then have "map (utxo_value (add_tx w tx)) (utxos w) = map (utxo_value w) (utxos w)"
    by (simp add: utxo_value_def)
  moreover have f: "utxos (add_tx w tx) = utxos w" "transactions (add_tx w tx) = transactions w" "balance (add_tx w tx) = balance w"
    "totalReceived (add_tx w tx) = totalReceived w" "totalSent (add_tx w tx) = totalSent w" "balanceHist (add_tx w tx) = balanceHist w"
    "invalidTx (add_tx w tx) = invalidTx w" "pendingTx (add_tx w tx) = pendingTx w" "usedAddrs (add_tx w tx) = usedAddrs w"
    by (simp_all add: add_tx_def)
  ultimately show ?thesis using books look unfolding books_def f by metis
qed

text \<open>Registration returns on every acceptable transaction and tells whether the wallet knew it or is concerned by it.\<close>

lemma register_inv:
  assumes "derivation_ok derive" "wallet_inv derive r w" "tx_ok r tx"
  shows "\<exists>w'. BRWalletRegisterTransaction derive now w tx = Some (w', getTx w (txHash tx) \<noteq> None \<or> BRWalletContainsTx w tx) \<and> wallet_inv derive r w' \<and>
     mset (transactions w') = mset (transactions w) + (if getTx w (txHash tx) = None \<and> BRWalletContainsTx w tx then {#txHash tx#} else {#}) \<and>
     (oldest_first w \<longrightarrow> oldest_first w') \<and>
     getTx w' (txHash tx) = (if getTx w (txHash tx) \<noteq> None then getTx w (txHash tx)
       else if BRWalletContainsTx w tx \<or> blockHeight tx = TX_UNCONFIRMED then Some tx else None)"
proof -
  have core: "core_inv derive r w" and signed: "BRTransactionIsSigned tx" using assms by (simp_all add: wallet_inv_def tx_ok_def)
  have new: "txHash tx \<notin> set (transactions w)" if "getTx w (txHash tx) = None" using core that by (auto simp: core_inv_def)
  consider "getTx w (txHash tx) \<noteq> None" | "getTx w (txHash tx) = None" "BRWalletContainsTx w tx" | "getTx w (txHash tx) = None" "\<not> BRWalletContainsTx w tx"
    by blast
  then show ?thesis
  proof cases
    case 1
    then show ?thesis using assms(2) signed by (auto simp: BRWalletRegisterTransaction_def)
  next
    case 2
    obtain w1 where w1: "BRWalletInsertTx (add_tx w tx) tx = Some w1" "core_inv derive r w1" "mset (transactions w1) = add_mset (txHash tx) (mset (transactions w))"
      "allTx w1 = allTx (add_tx w tx)" "oldest_first w \<longrightarrow> oldest_first w1"
      using insert_tx_core [OF core assms(3) 2] by blast
    obtain w2 where w2: "BRWalletUpdateBalance now w1 = Some w2" "wallet_inv derive r w2" "same_history w1 w2"
      using update_balance_inv [OF w1(2)] by blast
    obtain w3 where w3: "both_chains derive w2 = Some w3" "wallet_inv derive r w3" "allTx w3 = allTx w2" "transactions w3 = transactions w2"
      using both_chains_inv [OF assms(1) w2(2)] by blast
    have same: "allTx w3 = allTx w1" "transactions w3 = transactions w1" using w2(3) w3(3,4) by (simp_all add: same_history_def)
    then have "oldest_first w3 = oldest_first w1" by (intro oldest_cong) (simp_all add: height_of_def getTx_def)
    moreover have "getTx w3 = getTx (add_tx w tx)" using same(1) w1(4) by (intro getTx_cong) simp
    ultimately show ?thesis using 2 signed w1 w2 w3 same by (simp add: BRWalletRegisterTransaction_def getTx_add)
  next
    case 3
    have "wallet_inv derive r (add_tx w tx)"
      using add_tx_core(1) [OF core assms(3) 3(1)] books_add_tx [OF assms(2) 3(1)] by (simp add: wallet_inv_def)
    moreover have "transactions (add_tx w tx) = transactions w" by (simp add: add_tx_def)
    ultimately show ?thesis using 3 signed assms(2) oldest_add [OF new [OF 3(1)]] by (simp add: BRWalletRegisterTransaction_def getTx_add)
  qed
qed

section \<open>New block heights\<close>

text \<open>Transactions that differ in height and time only.\<close>

definition retimed :: "BRTransaction \<Rightarrow> BRTransaction \<Rightarrow> bool" where
  "retimed t t' \<longleftrightarrow> t'\<lparr>blockHeight := 0, timestamp := 0\<rparr> = t\<lparr>blockHeight := 0, timestamp := 0\<rparr>"

lemma retimed_simps:
  assumes "retimed t t'"
  shows "txHash t' = txHash t" "inputs t' = inputs t" "outputs t' = outputs t" "tx_ok r t' = tx_ok r t"
proof -
  note eq = assms [unfolded retimed_def]
  show f: "txHash t' = txHash t" "inputs t' = inputs t" "outputs t' = outputs t"
    using arg_cong [OF eq, of txHash] arg_cong [OF eq, of inputs] arg_cong [OF eq, of outputs] by simp_all
  then show "tx_ok r t' = tx_ok r t" by (simp add: tx_ok_def BRTransactionIsSigned_def)
qed

lemma getTx_map_all:
  assumes "\<And>t. retimed t (f t)"
  shows "getTx (w\<lparr>allTx := map f (allTx w)\<rparr>) h = map_option f (getTx w h)"
proof -
  have "List.find (\<lambda>t. txHash t = h) (map f xs) = map_option f (List.find (\<lambda>t. txHash t = h) xs)" for xs
    using retimed_simps(1) [OF assms] by (induction xs) auto
  then show ?thesis by (simp add: getTx_def)
qed

lemma retime_inv:
  assumes "wallet_inv derive r w" "\<And>t. retimed t (f t)"
  shows "wallet_inv derive r (w\<lparr>allTx := map f (allTx w)\<rparr>)" (is "wallet_inv _ _ ?w")
proof -
  note f = retimed_simps [OF assms(2)]
  have core: "core_inv derive r w" and books: "books w" using assms(1) by (simp_all add: wallet_inv_def)
  have "utxo_value ?w = utxo_value w"
    by (simp add: utxo_value_def fun_eq_iff getTx_map_all [OF assms(2)] f(3) split: option.split)
  moreover have "(\<exists>t. getTx ?w h = Some t \<and> n < length (outputs t)) = (\<exists>t. getTx w h = Some t \<and> n < length (outputs t))" for h n
    by (auto simp: getTx_map_all [OF assms(2)] f(3))
  ultimately have "books ?w = books w" unfolding books_def by simp
  moreover have "BRWalletContainsTx ?w (f t)" if "BRWalletContainsTx w t" for t
    by (rule concerns_mono [OF that]) (auto simp: f getTx_map_all [OF assms(2)])
  then have "core_inv derive r ?w"
    using core by (auto simp: core_inv_def getTx_map_all [OF assms(2)] f(4) chain_of_def)
  ultimately show ?thesis using books by (simp add: wallet_inv_def)
qed

lemma map_tx_inv:
  assumes "wallet_inv derive r w" "\<And>t. retimed t (f t)"
  shows "wallet_inv derive r (map_tx w h f)"
  unfolding map_tx_def by (rule retime_inv [OF assms(1)]) (use assms(2) in \<open>auto simp: retimed_def\<close>)

lemma del_tx_inv:
  assumes "wallet_inv derive r w" "getTx w h = Some t" "\<not> BRWalletContainsTx w t"
  shows "wallet_inv derive r (del_tx w h)"
proof -
  have core: "core_inv derive r w" and books: "books w" using assms(1) by (simp_all add: wallet_inv_def)
  have h: "h \<notin> set (transactions w)" using core assms(2,3) by (auto simp: core_inv_def)
  have f: "transactions (del_tx w h) = transactions w" "utxos (del_tx w h) = utxos w" "balance (del_tx w h) = balance w"
    "totalReceived (del_tx w h) = totalReceived w" "totalSent (del_tx w h) = totalSent w" "balanceHist (del_tx w h) = balanceHist w"
    "invalidTx (del_tx w h) = invalidTx w" "pendingTx (del_tx w h) = pendingTx w" "usedAddrs (del_tx w h) = usedAddrs w"
    "allAddrs (del_tx w h) = allAddrs w" "internalChain (del_tx w h) = internalChain w" "externalChain (del_tx w h) = externalChain w"
    "chain_of (del_tx w h) = chain_of w"
    by (simp_all add: del_tx_def chain_of_def fun_eq_iff)
  have look: "getTx (del_tx w h) (fst u) = getTx w (fst u)" if "u \<in> set (utxos w)" for u
    using books that h by (auto simp: books_def getTx_del)
  then have "map (utxo_value (del_tx w h)) (utxos w) = map (utxo_value w) (utxos w)" by (simp add: utxo_value_def)
  then have "books (del_tx w h)" using books look unfolding books_def f by metis
  moreover have "BRWalletContainsTx (del_tx w h) t'" if "BRWalletContainsTx w t'" for t'
  proof (rule concerns_mono [OF that])
    fix inp p assume "getTx w (in_txHash inp) = Some p" "list_ex (is_own w) (outputs p)"
    then show "\<exists>p'. getTx (del_tx w h) (in_txHash inp) = Some p' \<and> outputs p' = outputs p"
      using assms(2,3) by (auto simp: getTx_del BRWalletContainsTx_def)
  qed (simp_all add: f)
  then have "core_inv derive r (del_tx w h)"
  proof -
    assume mono: "\<And>t'. BRWalletContainsTx w t' \<Longrightarrow> BRWalletContainsTx (del_tx w h) t'"
    have "\<exists>t. getTx (del_tx w h) x = Some t \<and> BRWalletContainsTx (del_tx w h) t" if "x \<in> set (transactions w)" for x
    proof -
      have "x \<noteq> h" using that h by blast
      then show ?thesis using core that mono by (auto simp: core_inv_def getTx_del)
    qed
    moreover have "set (allTx (del_tx w h)) \<subseteq> set (allTx w)" by (auto simp: del_tx_def)
    ultimately show ?thesis using core unfolding core_inv_def f by blast
  qed
  ultimately show ?thesis by (simp add: wallet_inv_def)
qed

lemma update_loop_inv:
  "wallet_inv derive r w \<Longrightarrow> wallet_inv derive r (fst (update_loop bh ts hs (w, acc, need)))"
proof (induction hs arbitrary: w acc need)
  case (Cons h hs)
  define f where "f = (\<lambda>t :: BRTransaction. t\<lparr>timestamp := ts, blockHeight := bh\<rparr>)"
  have f: "retimed t (f t)" for t by (simp add: retimed_def f_def)
  have mapped: "wallet_inv derive r (map_tx w h f)" by (rule map_tx_inv [OF Cons.prems f])
  show ?case
  proof (cases "getTx w h")
    case None
    then show ?thesis using Cons by simp
  next
    case (Some tx)
    then have "getTx (map_tx w h f) h = Some (f tx)" by (subst getTx_map) (simp_all add: f_def)
    then have "wallet_inv derive r (del_tx (map_tx w h f) h)" if "\<not> BRWalletContainsTx (map_tx w h f) (f tx)"
      using del_tx_inv [OF mapped] that by blast
    moreover have "tx\<lparr>timestamp := ts, blockHeight := bh\<rparr> = f tx" by (simp add: f_def)
    ultimately show ?thesis using Cons.IH Cons.prems mapped Some by (auto simp: Let_def simp flip: f_def)
  qed
qed simp

lemma blockHeight_inv: "wallet_inv derive r (w\<lparr>wallet_blockHeight := b\<rparr>) = wallet_inv derive r w"
proof -
  have "BRWalletContainsTx (w\<lparr>wallet_blockHeight := b\<rparr>) = BRWalletContainsTx w" "utxo_value (w\<lparr>wallet_blockHeight := b\<rparr>) = utxo_value w"
    by (intro contains_cong spec_cong; simp)+
  then show ?thesis by (simp add: wallet_inv_def core_inv_def books_def chain_of_def)
qed

lemma update_transactions_inv:
  assumes "wallet_inv derive r w"
  shows "\<exists>w' hs. BRWalletUpdateTransactions now w txHashes bh ts = Some (w', hs) \<and> wallet_inv derive r w'"
proof -
  define w0 where "w0 = (if bh > wallet_blockHeight w then w\<lparr>wallet_blockHeight := bh\<rparr> else w)"
  obtain w1 hs need where l: "update_loop bh ts txHashes (w0, [], False) = (w1, hs, need)" by (cases "update_loop bh ts txHashes (w0, [], False)")
  have "wallet_inv derive r w0" using assms blockHeight_inv by (simp add: w0_def)
  then have w1: "wallet_inv derive r w1" using update_loop_inv [of derive r w0 bh ts txHashes] l by (metis fst_conv)
  then obtain w2 where "BRWalletUpdateBalance now w1 = Some w2" "wallet_inv derive r w2"
    using update_balance_inv unfolding wallet_inv_def by blast
  then show ?thesis using l w1 by (auto simp: BRWalletUpdateTransactions_def w0_def [symmetric])
qed

lemma count_from_end_total: "(\<And>h. h \<in> set hs \<Longrightarrow> getTx w h \<noteq> None) \<Longrightarrow> \<exists>n\<le>length hs. count_from_end w P hs = Some n"
proof (induction hs)
  case (Cons h hs)
  then obtain t n where "getTx w h = Some t" "count_from_end w P hs = Some n" "n \<le> length hs" by fastforce
  then show ?case by auto
qed simp

lemma unconfirm_inv:
  assumes "wallet_inv derive r w"
  shows "\<exists>w' hs. BRWalletSetTxUnconfirmedAfter now w bh = Some (w', hs) \<and> wallet_inv derive r w'"
proof -
  define w0 where "w0 = w\<lparr>wallet_blockHeight := bh\<rparr>"
  have w0: "wallet_inv derive r w0" using assms by (simp add: w0_def blockHeight_inv)
  have known: "getTx w0 h \<noteq> None" if "h \<in> set (rev (transactions w))" for h
    using assms that by (fastforce simp: wallet_inv_def core_inv_def w0_def)
  obtain n where n: "count_from_end w0 (\<lambda>t. blockHeight t > bh) (rev (transactions w)) = Some n" "n \<le> length (transactions w)"
    using count_from_end_total [OF known, of "rev (transactions w)" "\<lambda>t. blockHeight t > bh"] by auto
  define f where "f = (\<lambda>t :: BRTransaction. t\<lparr>blockHeight := TX_UNCONFIRMED\<rparr>)"
  have f: "retimed t (f t)" for t by (simp add: retimed_def f_def)
  define hs where "hs = drop (length (transactions w) - n) (transactions w)"
  define w1 where "w1 = fold (\<lambda>h w. map_tx w h f) hs w0"
  have "wallet_inv derive r (fold (\<lambda>h w. map_tx w h f) xs v)" if "wallet_inv derive r v" for xs v
    using that by (induction xs arbitrary: v) (auto intro: map_tx_inv f)
  then have w1: "wallet_inv derive r w1" using w0 by (simp add: w1_def)
  then obtain w2 where "BRWalletUpdateBalance now w1 = Some w2" "wallet_inv derive r w2"
    using update_balance_inv unfolding wallet_inv_def by blast
  moreover have "transactions w0 = transactions w" by (simp add: w0_def)
  ultimately show ?thesis using n w1
    by (auto simp: BRWalletSetTxUnconfirmedAfter_def Let_def w0_def [symmetric] w1_def hs_def f_def)
qed

end
