(* ===== verification/BRWalletSteps.thy ===== *)
theory BRWalletSteps
  imports BRWalletHistory
begin

text \<open>
  Removal of transactions, and the wallet as a transition system.  Removal is shown to take away a transaction and everything that
  depends on it when the array is in order; the invariant of \<open>BRWalletHistory\<close> holds in every state that the operations reach.
\<close>

section \<open>Validity of a transaction\<close>

lemma lower_less_rank:
  assumes "getTx w x = Some p" "r x < r h"
  shows "card (lower w r x) < card (lower w r h)"
proof (rule psubset_card_mono)
  show "lower w r x \<subset> lower w r h" using assms getTx_hash [OF assms(1)] by (force simp: lower_def)
qed (simp add: lower_def)

lemma tx_valid_total:
  assumes "\<forall>t\<in>set (allTx w). tx_ok r t" "tx_ok r tx" "card (lower w r (txHash tx)) < n"
  shows "tx_valid n w tx \<noteq> None"
  using assms(2,3)
proof (induction n arbitrary: tx)
  case (Suc n)
  have "all_m (check_parent w (tx_valid n w)) (inputs tx) \<noteq> None"
  proof (rule all_m_total)
    fix inp assume inp: "inp \<in> set (inputs tx)"
    then have nz: "in_txHash inp \<noteq> 0" and less: "r (in_txHash inp) < r (txHash tx)" using Suc.prems(1) by (auto simp: tx_ok_def)
    show "check_parent w (tx_valid n w) inp \<noteq> None"
    proof (cases "getTx w (in_txHash inp)")
      case None
      then show ?thesis using nz by (simp add: check_parent_def BRWalletTransactionForHash_def UInt256IsZero_iff)
    next
      case (Some p)
      then have "tx_valid n w p \<noteq> None"
        using Suc.IH [of p] assms(1) lower_less_rank [OF Some less] Suc.prems(2) getTx_hash [OF Some] by auto
      then show ?thesis using nz Some by (simp add: check_parent_def BRWalletTransactionForHash_def UInt256IsZero_iff)
    qed
  qed
  then show ?case using Suc.prems(1) by (auto simp: tx_ok_def)
qed simp

lemma deletion_notice_total:
  assumes "\<forall>t\<in>set (allTx w). tx_ok r t" "tx_ok r tx"
  shows "deletion_notice w tx \<noteq> None"
proof -
  have "BRWalletTransactionIsValid w tx \<noteq> None"
    unfolding BRWalletTransactionIsValid_def by (rule tx_valid_total [OF assms]) (use lower_card [of w r "txHash tx"] in simp)
  moreover have "all_m (\<lambda>inp. map_option (\<lambda>t. case t of None \<Rightarrow> False | Some t \<Rightarrow> blockHeight t \<noteq> TX_UNCONFIRMED)
      (BRWalletTransactionForHash w (in_txHash inp))) (inputs tx) \<noteq> None"
    by (rule all_m_total) (use assms(2) in \<open>auto simp: tx_ok_def BRWalletTransactionForHash_def UInt256IsZero_iff\<close>)
  ultimately show ?thesis by (auto simp: deletion_notice_def)
qed

section \<open>Dependent transactions\<close>

text \<open>The array is in order: oldest first, and no transaction is older than one that it spends.\<close>

definition ordered :: "BRWallet \<Rightarrow> bool" where
  "ordered w \<longleftrightarrow> oldest_first w \<and> (\<forall>x\<in>set (transactions w). \<forall>h\<in>parents_of w x. height_of w h \<le> height_of w x)"

lemma parents_rank:
  assumes "core_inv derive r w" "h \<in> parents_of w x"
  shows "r h < r x"
proof -
  obtain t where t: "getTx w x = Some t" using assms(2) by (cases "getTx w x") (auto simp: parents_of_def inputs_of_def)
  then show ?thesis using assms(2) core_inv_tx [OF assms(1) t] getTx_hash [OF t]
    by (auto simp: parents_of_def inputs_of_def input_utxo_def tx_ok_def)
qed

lemma core_inv_nonzero:
  assumes "core_inv derive r w" "x \<in> set (transactions w)"
  shows "x \<noteq> 0"
proof -
  obtain t where t: "getTx w x = Some t" using assms by (auto simp: core_inv_def)
  then show ?thesis using core_inv_tx [OF assms(1) t] getTx_hash [OF t] by (auto simp: tx_ok_def)
qed

lemma dependents_eq:
  assumes inv: "core_inv derive r w" and tx: "getTx w h = Some tx" and known: "\<And>x. x \<in> set ys \<Longrightarrow> getTx w x \<noteq> None"
    and sorted: "sorted_wrt (\<lambda>a b. height_of w b \<le> height_of w a) ys"
    and older: "\<And>x. x \<in> set ys \<Longrightarrow> h \<in> parents_of w x \<Longrightarrow> height_of w h \<le> height_of w x"
  shows "dependents w tx ys = Some (filter (\<lambda>x. h \<in> parents_of w x) ys)"
  using known sorted older
proof (induction ys)
  case (Cons y ys)
  have hash: "txHash tx = h" and ht: "height_of w h = blockHeight tx" using getTx_hash [OF tx] tx by (simp_all add: height_of_def)
  obtain t where t: "getTx w y = Some t" using Cons.prems(1) by fastforce
  then have hy: "height_of w y = blockHeight t" by (simp add: height_of_def)
  show ?case
  proof (cases "blockHeight t < blockHeight tx")
    case True
    have "h \<notin> parents_of w x" if "x \<in> set (y # ys)" for x
    proof
      assume "h \<in> parents_of w x"
      then have "height_of w h \<le> height_of w x" using Cons.prems(3) that by blast
      moreover have "height_of w x \<le> height_of w y" using Cons.prems(2) that by auto
      ultimately show False using True hy ht by simp
    qed
    then show ?thesis using True t by (simp add: filter_empty_conv)
  next
    case False
    have "dependents w tx ys = Some (filter (\<lambda>x. h \<in> parents_of w x) ys)" using Cons by simp
    moreover have "(y \<noteq> txHash tx \<and> list_ex (\<lambda>inp. UInt256Eq (in_txHash inp) (txHash tx)) (inputs t)) = (h \<in> parents_of w y)"
      using t hash parents_rank [OF inv, of h y] by (force simp: parents_of_def inputs_of_def input_utxo_def list_ex_iff UInt256Eq_iff)
    ultimately show ?thesis using False t by simp
  qed
qed simp

section \<open>Removal\<close>

text \<open>A wallet without the transactions in a set.\<close>

definition cut :: "BRWallet \<Rightarrow> UInt256 set \<Rightarrow> BRWallet \<Rightarrow> bool" where
  "cut w D w' \<longleftrightarrow> allTx w' = filter (\<lambda>t. txHash t \<notin> D) (allTx w) \<and> transactions w' = filter (\<lambda>x. x \<notin> D) (transactions w)"

lemma getTx_cut: "cut w D w' \<Longrightarrow> getTx w' h = (if h \<in> D then None else getTx w h)"
proof -
  assume "cut w D w'"
  moreover have "List.find (\<lambda>t. txHash t = h) (filter (\<lambda>t. txHash t \<notin> D) xs) = (if h \<in> D then None else List.find (\<lambda>t. txHash t = h) xs)" for xs
    by (induction xs) auto
  ultimately show ?thesis by (cases "h \<in> D") (simp_all add: getTx_def cut_def)
qed

lemma cut_spec:
  assumes "cut w D w'"
  shows "x \<notin> D \<Longrightarrow> parents_of w' x = parents_of w x" "x \<notin> D \<Longrightarrow> height_of w' x = height_of w x" "height_of w' x \<le> height_of w x"
    "set (transactions w') = set (transactions w) - D"
  using assms by (auto simp: parents_of_def inputs_of_def height_of_def getTx_cut [OF assms] cut_def)

lemma cut_ordered: "cut w D w' \<Longrightarrow> ordered w \<Longrightarrow> ordered w'"
proof -
  assume c: "cut w D w'" and o: "ordered w"
  have "sorted_wrt (\<lambda>a b. height_of w a \<le> height_of w b) (transactions w')"
    using o c by (auto simp: ordered_def oldest_first_def cut_def intro: sorted_wrt_filter)
  then have "oldest_first w'"
    unfolding oldest_first_def by (rule sorted_wrt_mono_rel [rotated]) (use cut_spec(2,4) [OF c] in auto)
  moreover have "height_of w' h \<le> height_of w' x" if "x \<in> set (transactions w')" "h \<in> parents_of w' x" for x h
  proof -
    have x: "x \<in> set (transactions w)" "x \<notin> D" using that(1) cut_spec(4) [OF c] by auto
    then have "height_of w h \<le> height_of w x" using that(2) o cut_spec(1) [OF c] by (auto simp: ordered_def)
    then show ?thesis using cut_spec(2) [OF c x(2)] cut_spec(3) [OF c, of h] by (simp add: order_trans)
  qed
  ultimately show ?thesis by (simp add: ordered_def)
qed

lemma cut_trans: "cut w D v \<Longrightarrow> cut v E u \<Longrightarrow> cut w (D \<union> E) u"
  by (auto simp: cut_def intro: filter_cong)

text \<open>Which transactions of the array spend which.\<close>

definition spends :: "BRWallet \<Rightarrow> (UInt256 \<times> UInt256) set" where
  "spends w = {(a, b). b \<in> set (transactions w) \<and> a \<in> parents_of w b}"

lemma spends_cut: "cut w D w' \<Longrightarrow> spends w' \<subseteq> spends w"
  using cut_spec [of w D w'] by (auto simp: spends_def)

text \<open>The contract of a removal that starts from the transactions \<open>S\<close>: only transactions that depend on them are taken away, and no transaction is left that
  spends one of those.\<close>

definition removal :: "derivation \<Rightarrow> (UInt256 \<Rightarrow> nat) \<Rightarrow> BRWallet \<Rightarrow> UInt256 set \<Rightarrow> BRWallet \<Rightarrow> bool" where
  "removal derive r w S w' \<longleftrightarrow> wallet_inv derive r w' \<and> (\<exists>D. cut w D w' \<and> (\<forall>x\<in>D. \<exists>h\<in>S. (h, x) \<in> (spends w)\<^sup>*) \<and>
     (\<forall>x\<in>set (transactions w'). parents_of w x \<inter> D = {}) \<and> (\<forall>h\<in>S. getTx w h \<noteq> None \<longrightarrow> h \<in> D))"

lemma removal_refl: "wallet_inv derive r w \<Longrightarrow> (\<And>h. h \<in> S \<Longrightarrow> getTx w h = None) \<Longrightarrow> removal derive r w S w"
  by (auto simp: removal_def cut_def intro!: exI [of _ "{}"])

lemma removal_trans:
  assumes "removal derive r w S v" "removal derive r v T u"
  shows "removal derive r w (S \<union> T) u"
proof -
  obtain D where D: "cut w D v" "\<forall>x\<in>D. \<exists>h\<in>S. (h, x) \<in> (spends w)\<^sup>*" "\<forall>x\<in>set (transactions v). parents_of w x \<inter> D = {}"
    "\<forall>h\<in>S. getTx w h \<noteq> None \<longrightarrow> h \<in> D" using assms(1) by (auto simp: removal_def)
  obtain E where E: "cut v E u" "\<forall>x\<in>E. \<exists>h\<in>T. (h, x) \<in> (spends v)\<^sup>*" "\<forall>x\<in>set (transactions u). parents_of v x \<inter> E = {}"
    "\<forall>h\<in>T. getTx v h \<noteq> None \<longrightarrow> h \<in> E" using assms(2) by (auto simp: removal_def)
  have "\<forall>x\<in>D \<union> E. \<exists>h\<in>S \<union> T. (h, x) \<in> (spends w)\<^sup>*" using D(2) E(2) rtrancl_mono [OF spends_cut [OF D(1)]] by blast
  moreover have "\<forall>x\<in>set (transactions u). parents_of w x \<inter> (D \<union> E) = {}"
  proof
    fix x assume x: "x \<in> set (transactions u)"
    then have "x \<in> set (transactions v)" "x \<notin> D" using cut_spec(4) [OF E(1)] cut_spec(4) [OF D(1)] by auto
    moreover from this have "parents_of v x = parents_of w x" by (intro cut_spec(1) [OF D(1)])
    moreover have "parents_of v x \<inter> E = {}" using E(3) x by blast
    ultimately show "parents_of w x \<inter> (D \<union> E) = {}" using D(3) by (simp add: Int_Un_distrib)
  qed
  moreover have "\<forall>h\<in>S \<union> T. getTx w h \<noteq> None \<longrightarrow> h \<in> D \<union> E" using D(4) E(4) getTx_cut [OF D(1)] by (metis Un_iff)
  ultimately show ?thesis using assms(2) cut_trans [OF D(1) E(1)] unfolding removal_def by blast
qed

lemma removal_from:
  assumes "removal derive r w S u" "\<forall>s\<in>S. \<exists>t\<in>T. (t, s) \<in> (spends w)\<^sup>*" "T \<subseteq> S"
  shows "removal derive r w T u"
proof -
  obtain D where D: "cut w D u" "\<forall>x\<in>D. \<exists>h\<in>S. (h, x) \<in> (spends w)\<^sup>*" "\<forall>x\<in>set (transactions u). parents_of w x \<inter> D = {}"
    "\<forall>h\<in>S. getTx w h \<noteq> None \<longrightarrow> h \<in> D" "wallet_inv derive r u" using assms(1) by (auto simp: removal_def)
  have "\<forall>x\<in>D. \<exists>h\<in>T. (h, x) \<in> (spends w)\<^sup>*" using D(2) assms(2) by (meson rtrancl_trans)
  then show ?thesis using D assms(3) unfolding removal_def by blast
qed

lemma remove_last_distinct: "distinct xs \<Longrightarrow> remove_last x xs = filter (\<lambda>y. y \<noteq> x) xs"
  by (induction xs) (auto intro: filter_True [symmetric])

text \<open>The transaction itself, once nothing in the array spends it.\<close>

lemma remove_leaf:
  assumes inv: "wallet_inv derive r w" and tx: "getTx w h = Some tx" and leaf: "\<And>x. x \<in> set (transactions w) \<Longrightarrow> h \<notin> parents_of w x"
  shows "\<exists>w'. BRWalletUpdateBalance now ((del_tx w h)\<lparr>transactions := remove_last h (transactions w)\<rparr>) = Some w' \<and> removal derive r w {h} w'"
proof -
  define v where "v = (del_tx w h)\<lparr>transactions := remove_last h (transactions w)\<rparr>"
  have core: "core_inv derive r w" using inv by (simp add: wallet_inv_def)
  have cut: "cut w {h} v" using core by (simp add: cut_def v_def del_tx_def core_inv_def remove_last_distinct)
  have f: "allAddrs v = allAddrs w" "internalChain v = internalChain w" "externalChain v = externalChain w" "chain_of v = chain_of w"
    by (simp_all add: v_def del_tx_def chain_of_def fun_eq_iff)
  have "\<exists>t. getTx v x = Some t \<and> BRWalletContainsTx v t" if x: "x \<in> set (transactions v)" for x
  proof -
    have xw: "x \<in> set (transactions w)" "x \<noteq> h" using x cut by (auto simp: cut_def)
    then obtain t where t: "getTx w x = Some t" "BRWalletContainsTx w t" using core by (auto simp: core_inv_def)
    have "BRWalletContainsTx v t"
    proof (rule concerns_mono [OF t(2)])
      fix inp p assume "inp \<in> set (inputs t)" "getTx w (in_txHash inp) = Some p"
      moreover from this have "in_txHash inp \<noteq> h" using leaf [OF xw(1)] t(1) by (force simp: parents_of_def inputs_of_def input_utxo_def)
      ultimately show "\<exists>p'. getTx v (in_txHash inp) = Some p' \<and> outputs p' = outputs p" by (simp add: getTx_cut [OF cut])
    qed (simp_all add: f)
    then show ?thesis using t(1) xw(2) by (simp add: getTx_cut [OF cut])
  qed
  then have "core_inv derive r v" using core cut unfolding core_inv_def f by (auto simp: cut_def)
  then obtain w' where w': "BRWalletUpdateBalance now v = Some w'" "wallet_inv derive r w'" "same_history v w'"
    using update_balance_inv by blast
  have "cut w {h} w'" using cut w'(3) by (simp add: cut_def same_history_def)
  moreover have "\<forall>x\<in>set (transactions w'). parents_of w x \<inter> {h} = {}" using leaf cut_spec(4) [OF \<open>cut w {h} w'\<close>] by auto
  ultimately have "removal derive r w {h} w'" using w'(2) unfolding removal_def by blast
  then show ?thesis using w'(1) v_def by blast
qed

definition above :: "(UInt256 \<Rightarrow> nat) \<Rightarrow> BRWallet \<Rightarrow> UInt256 \<Rightarrow> nat" where
  "above r w h = card {x \<in> set (transactions w). r h < r x}"

lemma above_mono: "set (transactions w') \<subseteq> set (transactions w) \<Longrightarrow> r h \<le> r h' \<Longrightarrow> above r w' h' \<le> above r w h"
  unfolding above_def by (rule card_mono) auto

lemma above_less:
  "set (transactions w') \<subseteq> set (transactions w) \<Longrightarrow> r h \<le> r h' \<Longrightarrow> d \<in> set (transactions w) \<Longrightarrow> r h < r d \<Longrightarrow>
   d \<notin> set (transactions w') \<or> \<not> r h' < r d \<Longrightarrow> above r w' h' < above r w h"
  unfolding above_def by (rule psubset_card_mono) auto

lemma each_remove:
  assumes step: "\<And>h w ns. wallet_inv derive r w \<Longrightarrow> ordered w \<Longrightarrow> h \<noteq> 0 \<Longrightarrow> above r w h < n \<Longrightarrow>
      \<exists>w' ns'. remove_tx n now h (w, ns) = Some (w', ns') \<and> removal derive r w {h} w'"
    and "wallet_inv derive r w" "ordered w" "\<And>d. d \<in> set ds \<Longrightarrow> d \<noteq> 0 \<and> above r w d < n"
  shows "\<exists>w' ns'. each_m (remove_tx n now) ds (w, ns) = Some (w', ns') \<and> removal derive r w (set ds) w'"
  using assms(2-4)
proof (induction ds arbitrary: w ns)
  case Nil
  then show ?case using removal_refl [of derive r w "{}"] by simp
next
  case (Cons d ds)
  obtain v notes1 where v: "remove_tx n now d (w, ns) = Some (v, notes1)" "removal derive r w {d} v"
    using step [OF Cons.prems(1,2)] Cons.prems(3) by fastforce
  then obtain D where D: "cut w D v" "wallet_inv derive r v" by (auto simp: removal_def)
  have "above r v x \<le> above r w x" for x by (rule above_mono) (use cut_spec(4) [OF D(1)] in auto)
  then obtain u notes2 where u: "each_m (remove_tx n now) ds (v, notes1) = Some (u, notes2)" "removal derive r v (set ds) u"
    using Cons.IH [OF D(2) cut_ordered [OF D(1) Cons.prems(2)]] Cons.prems(3) by (meson le_less_trans list.set_intros(2))
  then show ?case using v removal_trans [OF v(2) u(2)] by simp
qed

lemma remove_tx_removal:
  "wallet_inv derive r w \<Longrightarrow> ordered w \<Longrightarrow> h \<noteq> 0 \<Longrightarrow> above r w h < n \<Longrightarrow>
   \<exists>w' ns'. remove_tx n now h (w, ns) = Some (w', ns') \<and> removal derive r w {h} w'"
proof (induction n arbitrary: h w ns)
  case (Suc n)
  have core: "core_inv derive r w" using Suc.prems(1) by (simp add: wallet_inv_def)
  show ?case
  proof (cases "getTx w h")
    case None
    then show ?thesis using Suc.prems removal_refl [of derive r w "{h}"] by (simp add: UInt256IsZero_iff)
  next
    case (Some tx)
    define ds where "ds = filter (\<lambda>x. h \<in> parents_of w x) (rev (transactions w))"
    have deps: "dependents w tx (rev (transactions w)) = Some ds"
      unfolding ds_def
    proof (rule dependents_eq [OF core Some])
      show "sorted_wrt (\<lambda>a b. height_of w b \<le> height_of w a) (rev (transactions w))"
        using Suc.prems(2) by (simp add: ordered_def oldest_first_def sorted_wrt_rev)
    qed (use core Suc.prems(2) in \<open>auto simp: core_inv_def ordered_def\<close>)
    have ds: "d \<in> set (transactions w)" "r h < r d" "(h, d) \<in> spends w" "d \<noteq> 0" if "d \<in> set ds" for d
      using that parents_rank [OF core] core_inv_nonzero [OF core] by (auto simp: ds_def spends_def)
    show ?thesis
    proof (cases "ds = []")
      case True
      then obtain w' where w': "BRWalletUpdateBalance now ((del_tx w h)\<lparr>transactions := remove_last h (transactions w)\<rparr>) = Some w'" "removal derive r w {h} w'"
        using remove_leaf [OF Suc.prems(1) Some] by (auto simp: ds_def filter_empty_conv)
      have "\<forall>t\<in>set (allTx w'). tx_ok r t" using w'(2) by (simp add: removal_def wallet_inv_def core_inv_def)
      then obtain x where "deletion_notice w' tx = Some x" using deletion_notice_total core_inv_tx [OF core Some] by blast
      then show ?thesis using w' Some deps True Suc.prems(3) by (simp add: UInt256IsZero_iff case_prod_beta)
    next
      case False
      have less: "above r w d < n" if "d \<in> set (rev ds)" for d
        using above_less [of w w r h d d] ds [of d] that Suc.prems(4) by simp
      obtain v notes1 where v: "each_m (remove_tx n now) (rev ds) (w, ns) = Some (v, notes1)" "removal derive r w (set (rev ds)) v"
        using each_remove [OF Suc.IH Suc.prems(1,2), of "rev ds" ns] less ds(4) by auto
      then obtain D where D: "cut w D v" "wallet_inv derive r v" "\<forall>d\<in>set ds. getTx w d \<noteq> None \<longrightarrow> d \<in> D" by (auto simp: removal_def)
      obtain d where d: "d \<in> set ds" using False by (cases ds) auto
      then have "getTx w d \<noteq> None" using ds(1) core by (fastforce simp: core_inv_def)
      then have "d \<in> D" using D(3) d by blast
      then have "above r v h < above r w h" using above_less [of v w r h h d] cut_spec(4) [OF D(1)] ds(1,2) [OF d] by auto
      then obtain u notes2 where u: "remove_tx n now h (v, notes1) = Some (u, notes2)" "removal derive r v {h} u"
        using Suc.IH [OF D(2) cut_ordered [OF D(1) Suc.prems(2)] Suc.prems(3)] Suc.prems(4) by fastforce
      have "removal derive r w (set ds \<union> {h}) u" using removal_trans [OF v(2) u(2)] by simp
      moreover have "\<forall>s\<in>set ds \<union> {h}. \<exists>x\<in>{h}. (x, s) \<in> (spends w)\<^sup>*" using ds(3) by blast
      ultimately have "removal derive r w {h} u" by (rule removal_from) simp
      then show ?thesis using u v Some deps False Suc.prems(3) by (simp add: UInt256IsZero_iff)
    qed
  qed
qed simp

section \<open>A new wallet\<close>

text \<open>The invariant without the condition that the transactions concern the wallet, which \<open>BRWalletNew\<close> does not check.\<close>

definition base_inv :: "derivation \<Rightarrow> (UInt256 \<Rightarrow> nat) \<Rightarrow> BRWallet \<Rightarrow> bool" where
  "base_inv derive r w \<longleftrightarrow> distinct (transactions w) \<and> (\<forall>h\<in>set (transactions w). getTx w h \<noteq> None) \<and> (\<forall>t\<in>set (allTx w). tx_ok r t) \<and>
     allAddrs w = set (internalChain w) \<union> set (externalChain w) \<and> (\<forall>c j. j < length (chain_of w c) \<longrightarrow> derive c j = Some (chain_of w c ! j)) \<and>
     finite (usedAddrs w)"

lemma base_insert:
  assumes "base_inv derive r w" "tx_ok r tx" "getTx w (txHash tx) = None" "finite A"
  shows "\<exists>w'. BRWalletInsertTx (add_tx w tx) tx = Some w' \<and> base_inv derive r (w'\<lparr>usedAddrs := usedAddrs w' \<union> A\<rparr>) \<and>
     set (allTx w') \<subseteq> insert tx (set (allTx w))"
proof -
  have ranked: "ranked (add_tx w tx) r" using assms(1,2) by (auto simp: ranked_def add_tx_def base_inv_def tx_ok_def)
  have known: "\<And>h. h \<in> set (transactions (add_tx w tx)) \<Longrightarrow> getTx (add_tx w tx) h \<noteq> None"
    using assms(1) by (auto simp: base_inv_def getTx_add) (simp add: add_tx_def)
  have look: "getTx (add_tx w tx) (txHash tx) = Some tx" by (simp add: getTx_add)
  obtain i where i: "BRWalletInsertTx (add_tx w tx) tx = Some ((add_tx w tx)\<lparr>transactions := take i (transactions w) @ txHash tx # drop i (transactions w)\<rparr>)"
    using insert_tx_total [OF ranked look known] by (auto simp: add_tx_def)
  define w' where "w' = (add_tx w tx)\<lparr>transactions := take i (transactions w) @ txHash tx # drop i (transactions w)\<rparr>"
  have new: "txHash tx \<notin> set (transactions w)" using assms(1,3) by (auto simp: base_inv_def)
  have "set (take i (transactions w)) \<inter> set (drop i (transactions w)) = {}" using assms(1) by (simp add: base_inv_def set_take_disj_set_drop_if_distinct)
  then have "distinct (transactions w')" using assms(1) new by (auto simp: w'_def base_inv_def dest: in_set_takeD in_set_dropD)
  moreover have "getTx w' h \<noteq> None" if "h \<in> set (transactions w')" for h
  proof -
    have "h = txHash tx \<or> h \<in> set (transactions w)" using that by (auto simp: w'_def dest: in_set_takeD in_set_dropD)
    then show ?thesis using assms(1) by (auto simp: w'_def getTx_add base_inv_def)
  qed
  ultimately have "base_inv derive r (w'\<lparr>usedAddrs := usedAddrs w' \<union> A\<rparr>)"
    using assms by (auto simp: base_inv_def w'_def add_tx_def chain_of_def)
  then show ?thesis using i w'_def by (auto simp: add_tx_def)
qed

lemma new_loop_base:
  assumes "base_inv derive r w" "\<forall>t\<in>set txs. tx_ok r t"
  shows "\<exists>w'. new_loop txs w = Some w' \<and> base_inv derive r w' \<and> set (allTx w') \<subseteq> set txs \<union> set (allTx w)"
  using assms
proof (induction txs arbitrary: w)
  case (Cons tx txs)
  show ?case
  proof (cases "\<not> BRTransactionIsSigned tx \<or> getTx w (txHash tx) \<noteq> None")
    case True
    moreover obtain w' where "new_loop txs w = Some w'" "base_inv derive r w'" "set (allTx w') \<subseteq> set txs \<union> set (allTx w)"
      using Cons.IH [OF Cons.prems(1)] Cons.prems(2) by auto
    ultimately show ?thesis by auto
  next
    case False
    define A where "A = set (filter (\<lambda>a. a \<noteq> []) (map out_addr (outputs tx)))"
    obtain v where v: "BRWalletInsertTx (add_tx w tx) tx = Some v" "base_inv derive r (v\<lparr>usedAddrs := usedAddrs v \<union> A\<rparr>)"
      "set (allTx v) \<subseteq> insert tx (set (allTx w))"
      using base_insert [OF Cons.prems(1), of tx A] False Cons.prems(2) by (auto simp: A_def)
    obtain w' where "new_loop txs (v\<lparr>usedAddrs := usedAddrs v \<union> A\<rparr>) = Some w'" "base_inv derive r w'" "set (allTx w') \<subseteq> set txs \<union> set (allTx v)"
      using Cons.IH [OF v(2)] Cons.prems(2) by auto
    then show ?thesis using v False by (auto simp: A_def)
  qed
qed auto

lemma base_extend:
  assumes "derivation_ok derive" "base_inv derive r w" "gap > 0"
  shows "\<exists>addrs w'. BRWalletUnusedAddrs derive w gap c = Some (addrs, w') \<and> base_inv derive r w' \<and> allTx w' = allTx w"
proof -
  obtain ext addrs where e: "BRWalletUnusedAddrs derive w gap c = Some (addrs, extend_chain c ext w)"
    "\<forall>j<length ext. derive c (length (chain_of w c) + j) = Some (ext ! j)"
    using unused_addrs_total [OF assms(1) _ assms(3), of w c] assms(2) by (auto simp: base_inv_def)
  have "derive c' j = Some (chain_of (extend_chain c ext w) c' ! j)" if "j < length (chain_of (extend_chain c ext w) c')" for c' j
    by (rule chain_extended [where derive = derive, OF _ e(2) that]) (use assms(2) in \<open>auto simp: base_inv_def\<close>)
  moreover have "allAddrs (extend_chain c ext w) = set (internalChain (extend_chain c ext w)) \<union> set (externalChain (extend_chain c ext w))"
    using assms(2) by (auto simp: base_inv_def extend_chain_def)
  ultimately have "base_inv derive r (extend_chain c ext w)" using assms(2) by (auto simp: base_inv_def)
  then show ?thesis using e(1) by auto
qed

lemma new_inv:
  assumes "derivation_ok derive" "\<forall>t\<in>set txs. tx_ok r t"
  shows "\<exists>v. BRWalletNew derive now txs = Some v \<and> (\<forall>w. v = Some w \<longrightarrow> (\<forall>t\<in>set txs. BRWalletContainsTx w t) \<longrightarrow> wallet_inv derive r w)"
proof -
  have "base_inv derive r empty_wallet" by (auto simp: base_inv_def empty_wallet_def chain_of_def)
  then obtain w1 where w1: "new_loop txs empty_wallet = Some w1" "base_inv derive r w1" "set (allTx w1) \<subseteq> set txs"
    using new_loop_base [OF _ assms(2)] by (fastforce simp: empty_wallet_def)
  obtain a w2 where w2: "BRWalletUnusedAddrs derive w1 SEQUENCE_GAP_LIMIT_EXTERNAL False = Some (a, w2)" "base_inv derive r w2" "allTx w2 = allTx w1"
    using base_extend [OF assms(1) w1(2), of SEQUENCE_GAP_LIMIT_EXTERNAL False] by (auto simp: SEQUENCE_GAP_LIMIT_EXTERNAL_def)
  obtain b w3 where w3: "BRWalletUnusedAddrs derive w2 SEQUENCE_GAP_LIMIT_INTERNAL True = Some (b, w3)" "base_inv derive r w3" "allTx w3 = allTx w2"
    using base_extend [OF assms(1) w2(2), of SEQUENCE_GAP_LIMIT_INTERNAL True] by (auto simp: SEQUENCE_GAP_LIMIT_INTERNAL_def)
  have ok: "wallet_ok w3" using w3(2) by (auto simp: base_inv_def wallet_ok_def tx_ok_def)
  obtain w4 where w4: "BRWalletUpdateBalance now w3 = Some w4" "ledger w4 (transactions w4) (balance w4)" "same_history w3 w4"
    using update_balance_ledger [OF ok] by blast
  have "wallet_inv derive r w4" if "\<forall>t\<in>set txs. BRWalletContainsTx w4 t"
  proof -
    have "core_inv derive r w3"
    proof -
      have "getTx w4 = getTx w3" by (rule getTx_cong) (use w4(3) in \<open>simp add: same_history_def\<close>)
      then have "BRWalletContainsTx w3 = BRWalletContainsTx w4" by (intro contains_cong) (use w4(3) in \<open>simp_all add: same_history_def\<close>)
      then have "BRWalletContainsTx w3 t" if "getTx w3 h = Some t" for h t
        using getTx_hash [OF that] w1(3) w2(3) w3(3) \<open>\<forall>t\<in>set txs. BRWalletContainsTx w4 t\<close> by auto
      then show ?thesis using w3(2) by (fastforce simp: base_inv_def core_inv_def)
    qed
    then have "core_inv derive r w4" using same_history_core w4(3) by blast
    then show ?thesis using ledger_books [OF core_inv_ok w4(2)] by (simp add: wallet_inv_def)
  qed
  then show ?thesis using w1(1) w2(1) w3(1) w4(1) by (auto simp: BRWalletNew_def both_chains_def)
qed

section \<open>The wallet as a transition system\<close>

text \<open>The operations that change a wallet, on acceptable arguments.  Removal is a step of wallets in order.\<close>

inductive wallet_step :: "derivation \<Rightarrow> (UInt256 \<Rightarrow> nat) \<Rightarrow> BRWallet \<Rightarrow> BRWallet \<Rightarrow> bool" for derive r where
  register: "tx_ok r tx \<Longrightarrow> BRWalletRegisterTransaction derive now w tx = Some (w', b) \<Longrightarrow> wallet_step derive r w w'"
| remove: "ordered w \<Longrightarrow> h \<noteq> 0 \<Longrightarrow> BRWalletRemoveTransaction now w h = Some (w', ns) \<Longrightarrow> wallet_step derive r w w'"
| update: "BRWalletUpdateTransactions now w txHashes bh ts = Some (w', hs) \<Longrightarrow> wallet_step derive r w w'"
| unconfirm: "BRWalletSetTxUnconfirmedAfter now w bh = Some (w', hs) \<Longrightarrow> wallet_step derive r w w'"
| addresses: "BRWalletUnusedAddrs derive w gap c = Some (addrs, w') \<Longrightarrow> wallet_step derive r w w'"
| set_fee: "wallet_step derive r w (BRWalletSetFeePerKb w fee)"

inductive wallet_reach :: "derivation \<Rightarrow> (UInt256 \<Rightarrow> nat) \<Rightarrow> BRWallet \<Rightarrow> bool" for derive r where
  start: "\<forall>t\<in>set txs. tx_ok r t \<Longrightarrow> BRWalletNew derive now txs = Some (Some w) \<Longrightarrow> \<forall>t\<in>set txs. BRWalletContainsTx w t \<Longrightarrow> wallet_reach derive r w"
| step: "wallet_reach derive r w \<Longrightarrow> wallet_step derive r w w' \<Longrightarrow> wallet_reach derive r w'"

lemma remove_inv:
  assumes "wallet_inv derive r w" "ordered w" "h \<noteq> 0"
  shows "\<exists>w' ns. BRWalletRemoveTransaction now w h = Some (w', ns) \<and> wallet_inv derive r w'"
proof -
  have "above r w h \<le> length (transactions w)" unfolding above_def by (rule order_trans [OF card_mono card_length]) auto
  then show ?thesis
    using remove_tx_removal [OF assms, of "length (transactions w) + 2" now "[]"] by (auto simp: BRWalletRemoveTransaction_def removal_def)
qed

lemma fee_inv: "wallet_inv derive r (BRWalletSetFeePerKb w fee) = wallet_inv derive r w"
proof -
  have g: "getTx (w\<lparr>feePerKb := fee\<rparr>) = getTx w" by (simp add: getTx_def fun_eq_iff)
  have "BRWalletContainsTx (w\<lparr>feePerKb := fee\<rparr>) = BRWalletContainsTx w" "utxo_value (w\<lparr>feePerKb := fee\<rparr>) = utxo_value w"
    by (intro contains_cong spec_cong; simp add: g)+
  then show ?thesis by (simp add: BRWalletSetFeePerKb_def wallet_inv_def core_inv_def books_def chain_of_def g)
qed

lemma wallet_step_inv:
  assumes "derivation_ok derive" "wallet_step derive r w w'" "wallet_inv derive r w"
  shows "wallet_inv derive r w'"
  using assms(2,3)
proof (cases rule: wallet_step.cases)
  case (register tx now b)
  then show ?thesis using register_inv [OF assms(1,3), of tx now] by auto
next
  case (remove h now ns)
  then show ?thesis using remove_inv [OF assms(3), of h now] by auto
next
  case (update now txHashes bh ts hs)
  then show ?thesis using update_transactions_inv [OF assms(3), of now txHashes bh ts] by auto
next
  case (unconfirm now bh hs)
  then show ?thesis using unconfirm_inv [OF assms(3), of now bh] by auto
next
  case (addresses gap c addrs)
  then have "gap > 0" by (auto simp: BRWalletUnusedAddrs_def split: if_splits)
  then show ?thesis using unused_addrs_inv [OF assms(1,3), of gap c] addresses by auto
next
  case (set_fee fee)
  then show ?thesis using assms(3) by (simp add: fee_inv)
qed

lemma wallet_reach_inv:
  assumes "derivation_ok derive" "wallet_reach derive r w"
  shows "wallet_inv derive r w"
  using assms(2)
proof (induction rule: wallet_reach.induct)
  case (start txs now w)
  then show ?case using new_inv [OF assms(1) start(1), of now] by auto
next
  case (step w w')
  then show ?case using wallet_step_inv [OF assms(1)] by blast
qed

section \<open>Properties\<close>

text \<open>C23: the wallet keeps its books.  Start with \<open>BRWalletNew\<close> on transactions that all concern the wallet it makes, and apply any sequence of registrations, new
  block heights, reorganisations, requests for addresses, fee changes, and removals that happen while the wallet is ordered (oldest first, no
  transaction older than one that it spends).  The transactions, at the start and those registered, are signed, have a hash that is not zero, no coinbase inputs, at most
  \<open>2\<^sup>32\<close> outputs, and spend each other without a cycle.  In every wallet that is reached in this way the array holds known transactions that concern the wallet, once each, the
  chains are the derived addresses, the unspent outputs are outputs of these transactions, the balance is their sum and equals received less sent, and there is
  one balance in the history for each transaction; and each of these operations on such an argument, removal again in an ordered wallet, returns, without a failed
  assertion, a use of freed memory or an endless loop.  Removal in a wallet that is not ordered and a start list that does not concern the wallet are outside this
  claim.\<close>

theorem wallet_reachable:
  assumes "derivation_ok derive" "wallet_reach derive r w"
  shows "wallet_inv derive r w \<and> (tx_ok r tx \<longrightarrow> BRWalletRegisterTransaction derive now w tx \<noteq> None) \<and>
     BRWalletUpdateTransactions now w txHashes bh ts \<noteq> None \<and> BRWalletSetTxUnconfirmedAfter now w bh \<noteq> None \<and>
     (gap > 0 \<longrightarrow> BRWalletUnusedAddrs derive w gap c \<noteq> None) \<and> (ordered w \<longrightarrow> h \<noteq> 0 \<longrightarrow> BRWalletRemoveTransaction now w h \<noteq> None)"
proof -
  have inv: "wallet_inv derive r w" by (rule wallet_reach_inv [OF assms])
  show ?thesis
    using inv register_inv [OF assms(1) inv, of tx now] update_transactions_inv [OF inv, of now txHashes bh ts] unconfirm_inv [OF inv, of now bh]
      unused_addrs_inv [OF assms(1) inv, of gap c] remove_inv [OF inv, of h now] by auto
qed

definition sample_derive :: derivation where
  "sample_derive c j = Some (replicate (Suc j) (if c then 1 else 2))"

lemma sample_derive_ok: "derivation_ok sample_derive"
  by (auto simp: derivation_ok_def sample_derive_def dest: arg_cong [where f = length])

lemma sample_reach: "\<exists>w. wallet_reach sample_derive (\<lambda>_. 0) w"
proof -
  obtain v where v: "BRWalletNew sample_derive 0 [] = Some v" using new_inv [OF sample_derive_ok, of "[]" "\<lambda>_. 0" 0] by auto
  then have "v \<noteq> None" by (auto simp: BRWalletNew_def split: bind_splits dest: sym)
  then obtain w where "v = Some w" by blast
  then show ?thesis using v wallet_reach.start [of "[]" _ sample_derive 0 w] by auto
qed

text \<open>A wallet with a transaction 7, a transaction 9 that spends it, and a transaction 8; 7 and 9 have the given height.\<close>

definition own_tx :: "UInt256 \<Rightarrow> u32 \<Rightarrow> BRTxInput list \<Rightarrow> BRTransaction" where
  "own_tx h bh ins = BRTransactionNew\<lparr>txHash := h, blockHeight := bh, inputs := ins, outputs := [\<lparr>out_address = [2], out_amount = 5, out_script = None\<rparr>]\<rparr>"

definition sample_history :: "u32 \<Rightarrow> BRWallet" where
  "sample_history bh = empty_wallet\<lparr>allTx := [own_tx 7 bh [], own_tx 9 bh [zero_input\<lparr>in_txHash := 7, in_signature := Some [1]\<rparr>], own_tx 8 100 []],
     transactions := [7, 9, 8], externalChain := [[2]], allAddrs := {[2]}\<rparr>"

definition sample_rank :: "UInt256 \<Rightarrow> nat" where
  "sample_rank h = (if h = 9 then 1 else 0)"

lemma sample_history_core: "core_inv sample_derive sample_rank (sample_history bh)"
  by (auto simp: core_inv_def sample_history_def own_tx_def getTx_def BRWalletContainsTx_def is_own_def field_string_def tx_ok_def BRTransactionIsSigned_def
      zero_input_def sample_rank_def BRTransactionNew_def empty_wallet_def chain_of_def sample_derive_def)

lemma sample_history_inv:
  obtains w where "wallet_inv sample_derive sample_rank w" "same_history (sample_history bh) w"
  using update_balance_inv [OF sample_history_core, of 0 bh] by blast

lemma sample_history_lookup:
  assumes "same_history (sample_history bh) w"
  shows "transactions w = [7, 9, 8]" "getTx w 7 = Some (own_tx 7 bh [])" "height_of w 7 = bh" "height_of w 9 = bh" "height_of w 8 = 100"
    "parents_of w 7 = {}" "parents_of w 8 = {}" "parents_of w 9 = {7}"
  using assms by (simp_all add: same_history_def height_of_def parents_of_def inputs_of_def input_utxo_def getTx_def sample_history_def own_tx_def zero_input_def
      BRTransactionNew_def)

theorem wallet_reachable_witness:
  "\<exists>w. wallet_reach sample_derive (\<lambda>_. 0) w \<and> balance w = sum_list (map (utxo_value w) (utxos w)) \<and> BRWalletUnusedAddrs sample_derive w 1 False \<noteq> None"
proof -
  obtain w where w: "wallet_reach sample_derive (\<lambda>_. 0) w" using sample_reach by blast
  have "wallet_inv sample_derive (\<lambda>_. 0) w" "BRWalletUnusedAddrs sample_derive w 1 False \<noteq> None"
    using wallet_reachable [OF sample_derive_ok w, where gap = 1 and c = False] by auto
  then show ?thesis using w unfolding wallet_inv_def books_def by blast
qed

text \<open>C24: registration.  A transaction that is already known changes nothing; one that concerns the wallet is inserted into the array, which stays a
  permutation of the old entries and the new one and stays sorted by height when it was; another one is remembered only while it is unconfirmed.  The result tells which
  case it was, and the comparisons of the insertion, which follow the inputs of unconfirmed transactions, end.\<close>

theorem wallet_register:
  assumes "derivation_ok derive" "wallet_inv derive r w" "tx_ok r tx"
  shows "\<exists>w'. BRWalletRegisterTransaction derive now w tx = Some (w', getTx w (txHash tx) \<noteq> None \<or> BRWalletContainsTx w tx) \<and> wallet_inv derive r w' \<and>
     mset (transactions w') = mset (transactions w) + (if getTx w (txHash tx) = None \<and> BRWalletContainsTx w tx then {#txHash tx#} else {#}) \<and>
     (oldest_first w \<longrightarrow> oldest_first w') \<and>
     getTx w' (txHash tx) = (if getTx w (txHash tx) \<noteq> None then getTx w (txHash tx)
       else if BRWalletContainsTx w tx \<or> blockHeight tx = TX_UNCONFIRMED then Some tx else None)"
  using register_inv [OF assms, of now] by blast

theorem wallet_register_witness:
  "\<exists>w w'. BRWalletRegisterTransaction sample_derive 0 w (BRTransactionNew\<lparr>txHash := 1\<rparr>) = Some (w', BRWalletContainsTx w (BRTransactionNew\<lparr>txHash := 1\<rparr>) \<or> getTx w 1 \<noteq> None)"
proof -
  obtain w where w: "wallet_reach sample_derive (\<lambda>_. 0) w" using sample_reach by blast
  have "tx_ok (\<lambda>_. 0) (BRTransactionNew\<lparr>txHash := 1\<rparr>)" by (simp add: tx_ok_def BRTransactionNew_def BRTransactionIsSigned_def)
  from wallet_register [OF sample_derive_ok wallet_reach_inv [OF sample_derive_ok w] this, of 0] show ?thesis by (auto simp: disj_commute)
qed

text \<open>C25: fresh addresses.  When the numbers of a chain give different addresses and only finitely many are used, the loop of \<open>BRWalletUnusedAddrs\<close> ends.  It
  appends derived addresses to the chain, no more than the gap needs, and returns the required number of addresses that directly follow the last used address of
  the chain, as its comment says; all addresses behind that one are unused.  It returns none only when an address could not be derived.\<close>

theorem unused_addresses:
  assumes "derivation_ok derive" "finite (usedAddrs w)" "gap > 0"
  shows "\<exists>addrs w' ext i. BRWalletUnusedAddrs derive w gap c = Some (addrs, w') \<and> chain_of w' c = chain_of w c @ ext \<and> allAddrs w' = allAddrs w \<union> set ext \<and>
     (\<forall>j<length ext. derive c (length (chain_of w c) + j) = Some (ext ! j)) \<and>
     i \<le> length (chain_of w' c) \<and> (\<forall>j. i \<le> j \<and> j < length (chain_of w' c) \<longrightarrow> chain_of w' c ! j \<notin> usedAddrs w) \<and>
     (i = 0 \<or> chain_of w' c ! (i - 1) \<in> usedAddrs w) \<and> length (chain_of w' c) \<le> max (length (chain_of w c)) (i + gap) \<and>
     (if i + gap \<le> length (chain_of w' c) then addrs = map (\<lambda>j. chain_of w' c ! (i + j)) [0..<gap]
      else addrs = [] \<and> derive c (length (chain_of w' c)) = None)"
proof -
  obtain ext i where e: "BRWalletUnusedAddrs derive w gap c =
       Some (if i + gap \<le> length (chain_of w c @ ext) then slice i gap (chain_of w c @ ext) else [], extend_chain c ext w)"
    "\<forall>j<length ext. derive c (length (chain_of w c) + j) = Some (ext ! j)"
    "i + gap \<le> length (chain_of w c @ ext) \<or> derive c (length (chain_of w c @ ext)) = None"
    "after_last_used (usedAddrs w) (chain_of w c @ ext) i" "length (chain_of w c @ ext) \<le> max (length (chain_of w c)) (i + gap)"
    using unused_addrs_total [OF assms, of c] by blast
  have new: "chain_of (extend_chain c ext w) c = chain_of w c @ ext" "allAddrs (extend_chain c ext w) = allAddrs w \<union> set ext"
    by (simp_all add: chain_of_def extend_chain_def)
  have sl: "slice i gap xs = map (\<lambda>j. xs ! (i + j)) [0..<gap]" if "i + gap \<le> length xs" for xs :: "bytes list"
    by (rule nth_equalityI) (use that in \<open>simp_all add: slice_def\<close>)
  show ?thesis
    using e sl [of "chain_of w c @ ext"]
    by (intro exI [of _ "if i + gap \<le> length (chain_of w c @ ext) then slice i gap (chain_of w c @ ext) else []"]
          exI [of _ "extend_chain c ext w"] exI [of _ ext] exI [of _ i]) (auto simp: new after_last_used_def)
qed

theorem unused_addresses_witness:
  "\<exists>addrs w'. BRWalletUnusedAddrs sample_derive empty_wallet 3 True = Some (addrs, w') \<and> length addrs = 3"
proof -
  have fin: "finite (usedAddrs empty_wallet)" and none: "sample_derive True n \<noteq> None" for n by (simp_all add: empty_wallet_def sample_derive_def)
  have pos: "(0 :: nat) < 3" by simp
  from unused_addresses [OF sample_derive_ok fin pos, of True] obtain addrs w' i where
    "BRWalletUnusedAddrs sample_derive empty_wallet 3 True = Some (addrs, w')"
    "if i + 3 \<le> length (chain_of w' True) then addrs = map (\<lambda>j. chain_of w' True ! (i + j)) [0..<3]
     else addrs = [] \<and> sample_derive True (length (chain_of w' True)) = None"
    by (elim exE conjE) (rule that; assumption)
  then show ?thesis using none [of "length (chain_of w' True)"] by (auto split: if_splits)
qed

text \<open>C26: removal takes away a transaction and all that depends on it, and nothing else.  For a registered transaction of a wallet in order,
  \<open>BRWalletRemoveTransaction\<close> returns; in the new wallet the array and the set lack exactly the transactions that are reached from
  the removed one along the inputs of the transactions in the array, and the invariant holds, so that the balance is again the sum of the unspent outputs.\<close>

theorem wallet_remove:
  assumes "wallet_inv derive r w" "ordered w" "h \<noteq> 0" "getTx w h \<noteq> None"
  shows "\<exists>w' ns. BRWalletRemoveTransaction now w h = Some (w', ns) \<and> wallet_inv derive r w' \<and> ordered w' \<and>
     transactions w' = filter (\<lambda>x. (h, x) \<notin> (spends w)\<^sup>*) (transactions w) \<and> allTx w' = filter (\<lambda>t. (h, txHash t) \<notin> (spends w)\<^sup>*) (allTx w)"
proof -
  have "above r w h \<le> length (transactions w)"
    unfolding above_def by (rule order_trans [OF card_mono card_length]) auto
  then obtain w' ns where w': "remove_tx (length (transactions w) + 2) now h (w, []) = Some (w', ns)" "removal derive r w {h} w'"
    using remove_tx_removal [OF assms(1-3), of "length (transactions w) + 2" now "[]"] by auto
  then obtain D where D: "cut w D w'" "\<forall>x\<in>D. (h, x) \<in> (spends w)\<^sup>*" "\<forall>x\<in>set (transactions w'). parents_of w x \<inter> D = {}" "h \<in> D"
    using assms(4) by (auto simp: removal_def)
  have "x \<in> D" if "(h, x) \<in> (spends w)\<^sup>*" for x
    using that
  proof (induction rule: rtrancl_induct)
    case base
    show ?case by (rule D(4))
  next
    case (step a b)
    then have "b \<in> set (transactions w)" "a \<in> parents_of w b" by (simp_all add: spends_def)
    then show ?case using step.IH D(3) cut_spec(4) [OF D(1)] by blast
  qed
  then have "D = {x. (h, x) \<in> (spends w)\<^sup>*}" using D(2) by blast
  then show ?thesis using w' D(1) cut_ordered [OF D(1) assms(2)] by (simp add: BRWalletRemoveTransaction_def removal_def cut_def)
qed

theorem wallet_remove_witness:
  "\<exists>w w' ns. BRWalletRemoveTransaction 0 w 7 = Some (w', ns) \<and> transactions w = [7, 9, 8] \<and> transactions w' = [8]"
proof -
  obtain w where w: "wallet_inv sample_derive sample_rank w" "same_history (sample_history 50) w" using sample_history_inv by blast
  note l = sample_history_lookup [OF w(2)]
  have ord: "ordered w" using l by (simp add: ordered_def oldest_first_def)
  have "(7, 9) \<in> (spends w)\<^sup>*" using l by (intro r_into_rtrancl) (simp add: spends_def)
  moreover have "(7, 8) \<notin> (spends w)\<^sup>*"
  proof
    assume "(7, 8) \<in> (spends w)\<^sup>*"
    then show False using l by (cases rule: rtranclE) (auto simp: spends_def)
  qed
  ultimately show ?thesis using wallet_remove [OF w(1) ord, of 7 0] l by fastforce
qed

text \<open>C27: a dependent transaction can be missed.  The search for dependent transactions goes backwards through the array and stops at the first older entry, but
  \<open>BRWalletUpdateTransactions\<close> changes heights without moving the entries.  When the last entry is older than the transaction that is removed, for
  example because it was confirmed first, only the transaction itself is taken away and everything that spends it stays in the wallet.\<close>

theorem wallet_remove_misses:
  assumes "wallet_inv derive r w" "getTx w h = Some tx" "transactions w = xs @ [z]" "height_of w z < blockHeight tx"
  shows "\<exists>w' ns. BRWalletRemoveTransaction now w h = Some (w', ns) \<and> transactions w' = filter (\<lambda>x. x \<noteq> h) (transactions w)"
proof -
  have core: "core_inv derive r w" using assms(1) by (simp add: wallet_inv_def)
  have tx: "tx_ok r tx" "txHash tx = h" using core_inv_tx [OF core assms(2)] getTx_hash [OF assms(2)] by auto
  then have nz: "h \<noteq> 0" by (auto simp: tx_ok_def)
  obtain t where t: "getTx w z = Some t" using core assms(3) by (auto simp: core_inv_def)
  then have deps: "dependents w tx (rev (transactions w)) = Some []" using assms(3,4) by (simp add: height_of_def)
  define v where "v = (del_tx w h)\<lparr>transactions := remove_last h (transactions w)\<rparr>"
  have cut: "cut w {h} v" using core by (simp add: cut_def v_def del_tx_def core_inv_def remove_last_distinct)
  have "wallet_ok v"
    using core_inv_ok [OF core] cut_spec(4) [OF cut] by (auto simp: wallet_ok_def getTx_cut [OF cut]) (auto simp: v_def del_tx_def remove_last_distinct)
  then obtain w' where w': "BRWalletUpdateBalance now v = Some w'" "same_history v w'" using update_balance_ledger by blast
  have "\<forall>t\<in>set (allTx w'). tx_ok r t" using core w'(2) cut by (auto simp: core_inv_def same_history_def cut_def)
  then obtain y where "deletion_notice w' tx = Some y" using deletion_notice_total tx(1) by blast
  then have "remove_tx (Suc (Suc (length (transactions w)))) now h (w, []) = Some (w', [(h, y)])"
    using w'(1) assms(2) deps nz by (simp add: v_def UInt256IsZero_iff case_prod_beta)
  moreover have "transactions w' = filter (\<lambda>x. x \<noteq> h) (transactions w)" using w'(2) cut by (simp add: same_history_def cut_def)
  ultimately show ?thesis by (simp add: BRWalletRemoveTransaction_def)
qed

theorem wallet_remove_misses_witness:
  "\<exists>w w' ns. 7 \<in> parents_of w 9 \<and> BRWalletRemoveTransaction 0 w 7 = Some (w', ns) \<and> transactions w' = [9, 8]"
proof -
  obtain w where w: "wallet_inv sample_derive sample_rank w" "same_history (sample_history TX_UNCONFIRMED) w" using sample_history_inv by blast
  note l = sample_history_lookup [OF w(2)]
  have "transactions w = [7, 9] @ [8]" "height_of w 8 < blockHeight (own_tx 7 TX_UNCONFIRMED [])" using l by (simp_all add: own_tx_def TX_UNCONFIRMED_def)
  then show ?thesis using wallet_remove_misses [OF w(1) l(2), of "[7, 9]" 8 0] l by fastforce
qed

end
