(* ===== verification/BRWalletSpend.thy ===== *)
theory BRWalletSpend
  imports BRWalletSteps "HOL-Library.Sublist"
begin

text \<open>
  The spending side of \<open>BRWallet.c\<close>: selection of unspent outputs, fees and change, and the amounts that are offered to the user.  An operation takes and returns the wallet, because a change address extends the internal chain, and the values
  that \<open>rand\<close> gives.  A transaction pointer that may be \<open>NULL\<close> is an option.
\<close>

section \<open>Coin selection\<close>

text \<open>The loop over the unspent outputs: the transaction, the balance of its inputs and the fee.  The flag tells that the transaction became too large.  The
  amount of the output is read before the index is checked.\<close>

fun select_utxos :: "BRWallet \<Rightarrow> u64 \<Rightarrow> u64 \<Rightarrow> UTXO list \<Rightarrow> BRTransaction \<times> u64 \<times> u64 \<Rightarrow> (bool \<times> BRTransaction \<times> u64 \<times> u64) option" where
  "select_utxos w amt minAmount [] st = Some (False, st)"
| "select_utxos w amt minAmount (u # us) (transaction, bal, feeAmount) =
     (case getTx w (fst u) of
        None \<Rightarrow> select_utxos w amt minAmount us (transaction, bal, feeAmount)
      | Some tx \<Rightarrow> do {
          out \<leftarrow> rd (outputs tx) (unat (snd u));
          if out_amount out = 0 then select_utxos w amt minAmount us (transaction, bal, feeAmount)
          else do {
            transaction \<leftarrow> BRTransactionAddInput transaction (txHash tx) (snd u) (out_amount out) (out_script out) None TXIN_SEQUENCE;
            if BRTransactionSize transaction + TX_OUTPUT_SIZE > TX_MAX_SIZE then Some (True, transaction, bal, feeAmount)
            else do {
              let bal = bal + out_amount out;
              let fee = txFee (feePerKb w) (BRTransactionSize transaction + TX_OUTPUT_SIZE);
              let fee = (if balance w > amt + fee then fee + (balance w - (amt + fee)) mod 100 else fee);
              if bal = amt + fee \<or> bal \<ge> amt + fee + minAmount then Some (False, transaction, bal, fee)
              else select_utxos w amt minAmount us (transaction, bal, fee)
            }
          }
        })"

text \<open>A change output to the next unused internal address; the outputs are shuffled.\<close>

definition add_change :: "derivation \<Rightarrow> BRTransaction \<Rightarrow> u64 \<Rightarrow> BRWallet \<times> u32 list \<Rightarrow> (BRTransaction \<times> BRWallet \<times> u32 list) option" where
  "add_change derive transaction amt = (\<lambda>(w, rs). do {
     (addrs, w) \<leftarrow> BRWalletUnusedAddrs derive w 1 True;
     let addr = (case addrs of [] \<Rightarrow> [] | a # _ \<Rightarrow> a);
     transaction \<leftarrow> BRTransactionAddOutput transaction amt (Some (address_script addr));
     (transaction, rs) \<leftarrow> BRTransactionShuffleOutputs transaction rs;
     Some (transaction, w, rs)
   })"

text \<open>When the transaction becomes too large the function calls itself with a changed last output or without it; the first argument bounds the depth of these calls, and \<open>None\<close>
  for every bound is a recursion that does not end.\<close>

fun BRWalletCreateTxForOutputs ::
  "nat \<Rightarrow> derivation \<Rightarrow> BRTxOutput list \<Rightarrow> BRWallet \<times> u32 list \<Rightarrow> (BRTransaction option \<times> BRWallet \<times> u32 list) option" where
  "BRWalletCreateTxForOutputs 0 derive outs st = None"
| "BRWalletCreateTxForOutputs (Suc n) derive outs (w, rs) =
     (if outs = [] \<or> list_ex (\<lambda>out. ptr_bytes (out_script out) = []) outs then None
      else do {
        transaction \<leftarrow> add_outputs BRTransactionNew outs;
        let amt = sum_list (map out_amount outs);
        let minAmount = BRWalletMinOutputAmount w;
        let feeAmount = txFee (feePerKb w) (BRTransactionSize transaction + TX_OUTPUT_SIZE);
        (large, transaction, bal, feeAmount) \<leftarrow> select_utxos w amt minAmount (utxos w) (transaction, 0, feeAmount);
        if large then
          (if balance w < amt + txFee (feePerKb w) (10 + length (utxos w) * TX_INPUT_SIZE + (length outs + 1) * TX_OUTPUT_SIZE) then Some (None, w, rs)
           else if out_amount (last outs) > amt + feeAmount + minAmount - bal then
             BRWalletCreateTxForOutputs n derive
               (butlast outs @ [(last outs)\<lparr>out_amount := out_amount (last outs) - (amt + feeAmount - bal)\<rparr>]) (w, rs)
           else BRWalletCreateTxForOutputs n derive (butlast outs) (w, rs))
        else if bal < amt + feeAmount then Some (None, w, rs)
        else if bal - (amt + feeAmount) > minAmount then
          map_option (\<lambda>(transaction, st). (Some transaction, st)) (add_change derive transaction (bal - (amt + feeAmount)) (w, rs))
        else Some (Some transaction, w, rs)
      })"

definition BRWalletCreateTransaction ::
  "nat \<Rightarrow> derivation \<Rightarrow> u64 \<Rightarrow> bytes \<Rightarrow> BRWallet \<times> u32 list \<Rightarrow> (BRTransaction option \<times> BRWallet \<times> u32 list) option" where
  "BRWalletCreateTransaction n derive amt addr st =
     (if amt = 0 \<or> \<not> BRAddressIsValid addr then None
      else do {
        out \<leftarrow> BRTxOutputSetAddress (TX_OUTPUT_NONE\<lparr>out_amount := amt\<rparr>) (Some addr);
        BRWalletCreateTxForOutputs n derive [out] st
      })"

text \<open>The fee for a transaction that has its outputs: the same loop without an amount.  When the transaction becomes too large the function asks for a transaction
  without outputs, which an assertion refuses; the caller's transaction is freed when the balance does not suffice.\<close>

definition BRWalletAddFeeToTransaction :: "derivation \<Rightarrow> BRTransaction \<Rightarrow> BRWallet \<times> u32 list \<Rightarrow> (BRTransaction option \<times> BRWallet \<times> u32 list) option" where
  "BRWalletAddFeeToTransaction derive transaction = (\<lambda>(w, rs). do {
     let minAmount = BRWalletMinOutputAmount w;
     (large, transaction, bal, feeAmount) \<leftarrow>
        select_utxos w 0 minAmount (utxos w) (transaction, 0, txFee (feePerKb w) (BRTransactionSize transaction + TX_OUTPUT_SIZE));
     if large then
       (if balance w < txFee (feePerKb w) (10 + length (utxos w) * TX_INPUT_SIZE + (1 + 1) * TX_OUTPUT_SIZE) then Some (None, w, rs) else None)
     else if bal < feeAmount then Some (None, w, rs)
     else if bal - feeAmount > minAmount then
       map_option (\<lambda>(transaction, st). (Some transaction, st)) (add_change derive transaction (bal - feeAmount) (w, rs))
     else Some (Some transaction, w, rs)
   })"

section \<open>Amounts\<close>

definition BRWalletMaxOutputAmount :: "BRWallet \<Rightarrow> u64" where
  "BRWalletMaxOutputAmount w =
     (let us = filter (\<lambda>u. case getTx w (fst u) of None \<Rightarrow> False | Some tx \<Rightarrow> unat (snd u) < length (outputs tx)) (rev (utxos w));
          inCount = length us;
          amt = sum_list (map (utxo_value w) us);
          txSize = 8 + BRVarIntSize (word_of_nat inCount) + TX_INPUT_SIZE * inCount + BRVarIntSize 2 + TX_OUTPUT_SIZE * 2;
          fee = txFee (feePerKb w) txSize
      in if amt > fee then amt - fee else 0)"

definition dummyScript :: bytes where
  "dummyScript = [OP_DUP, OP_HASH160, 20] @ replicate 20 0 @ [OP_EQUALVERIFY, OP_CHECKSIG]"

definition BRWalletFeeForTxAmount :: "nat \<Rightarrow> derivation \<Rightarrow> u64 \<Rightarrow> BRWallet \<times> u32 list \<Rightarrow> (u64 \<times> BRWallet \<times> u32 list) option" where
  "BRWalletFeeForTxAmount n derive amt st =
     (if amt = 0 then None
      else do {
        let maxAmount = BRWalletMaxOutputAmount (fst st);
        out \<leftarrow> BRTxOutputSetScript (TX_OUTPUT_NONE\<lparr>out_amount := if amt < maxAmount then amt else maxAmount\<rparr>) (Some dummyScript);
        (tx, w, rs) \<leftarrow> BRWalletCreateTxForOutputs n derive [out] st;
        Some (case tx of None \<Rightarrow> 0 | Some tx \<Rightarrow> BRWalletFeeForTx w tx, w, rs)
      })"

section \<open>Fees as numbers\<close>

definition MAX_FEE_PER_KB :: u64 where "MAX_FEE_PER_KB = (1000100 * 1000 + 190) div 191"

text \<open>The fee of a transaction of \<open>sz\<close> bytes as a number.\<close>

definition fee_nat :: "nat \<Rightarrow> nat \<Rightarrow> nat" where
  "fee_nat k sz = max ((sz * k div 1000 + 99) div 100 * 100) ((sz + 999) div 1000 * 1000000)"

lemma fee_nat_mono: "sz \<le> sz' \<Longrightarrow> fee_nat k sz \<le> fee_nat k sz'"
  unfolding fee_nat_def by (intro max.mono mult_le_mono div_le_mono add_mono order_refl)

lemma max_fee: "unat MAX_FEE_PER_KB = 5236126"
  by (simp add: MAX_FEE_PER_KB_def unat_div)

lemma txFee_nat:
  assumes "k \<le> MAX_FEE_PER_KB" "sz \<le> TX_MAX_SIZE"
  shows "unat (txFee k sz) = fee_nat (unat k) sz" "fee_nat (unat k) sz < 2 ^ 30"
proof -
  have k: "unat k \<le> 5236126" using assms(1) max_fee by (simp add: word_le_nat_alt)
  have sz: "sz \<le> 100000" using assms(2) by (simp add: TX_MAX_SIZE_def)
  have p: "sz * unat k \<le> 100000 * 5236126" using mult_le_mono [OF sz k] .
  have u: "unat (word_of_nat n :: u64) = n" if "n \<le> 10 ^ 15" for n
    using that by (intro unat_word_of_nat_less) simp
  have a: "unat ((word_of_nat sz * k div 1000 + 99) div 100 * 100) = (sz * unat k div 1000 + 99) div 100 * 100"
  proof -
    have "unat (word_of_nat sz * k) = sz * unat k" using p sz k u [of sz] by (simp add: unat_word_ariths)
    then show ?thesis using p by (simp add: unat_word_ariths unat_div)
  qed
  have b: "unat (word_of_nat ((sz + 999) div 1000) * TX_FEE_PER_KB) = (sz + 999) div 1000 * 1000000"
    using sz u [of "(sz + 999) div 1000"] by (simp add: TX_FEE_PER_KB_def unat_word_ariths)
  show "unat (txFee k sz) = fee_nat (unat k) sz"
    by (simp add: txFee_def Let_def fee_nat_def a [symmetric] b [symmetric] word_less_nat_alt max_def)
  have "sz * unat k div 1000 \<le> 523612600" using div_le_mono [OF p, of 1000] by simp
  moreover have "(sz * unat k div 1000 + 99) div 100 * 100 \<le> sz * unat k div 1000 + 99" by simp
  moreover have "(sz + 999) div 1000 * 1000000 \<le> 100 * 1000000" using div_le_mono [of "sz + 999" 100999 1000] sz by simp
  moreover have "2 ^ 30 = (1073741824::nat)" by simp
  ultimately show "fee_nat (unat k) sz < 2 ^ 30" unfolding fee_nat_def max_less_iff_conj by (intro conjI) linarith+
qed

lemma min_amount_bound:
  assumes "feePerKb w \<le> MAX_FEE_PER_KB"
  shows "unat (BRWalletMinOutputAmount w) < 2 ^ 30"
proof -
  have k: "unat (feePerKb w) \<le> 5236126" using assms max_fee by (simp add: word_le_nat_alt)
  have m: "TX_MIN_OUTPUT_AMOUNT = 546000" "MIN_FEE_PER_KB = 5235603"
    by (simp_all add: TX_MIN_OUTPUT_AMOUNT_def MIN_FEE_PER_KB_def TX_FEE_PER_KB_def TX_OUTPUT_SIZE_def TX_INPUT_SIZE_def word_div_def)
  have "unat (546000 * feePerKb w) = 546000 * unat (feePerKb w)" using k by (simp add: unat_word_ariths)
  then have "unat (546000 * feePerKb w + 5235602) = 546000 * unat (feePerKb w) + 5235602" using k by (simp add: unat_word_ariths)
  then have "unat ((546000 * feePerKb w + 5235602) div 5235603) \<le> 546056" using k by (simp add: unat_div)
  then have "unat ((546000 * feePerKb w + 5235603 - 1) div 5235603) < 2 ^ 30" by (simp add: add.commute)
  moreover have "unat (546000 :: u64) < 2 ^ 30" by simp
  ultimately show ?thesis unfolding BRWalletMinOutputAmount_def m Let_def by (auto simp only: split: if_split)
qed

section \<open>The loop over the unspent outputs\<close>

definition payment :: "BRTxOutput \<Rightarrow> u64 \<times> bytes option" where
  "payment out = (out_amount out, out_script out)"

text \<open>The size of a transaction with \<open>n\<close> unsigned inputs and the given outputs, and a change output.\<close>

definition spend_size :: "BRTxOutput list \<Rightarrow> nat \<Rightarrow> nat" where
  "spend_size outs n = 8 + BRVarIntSize (word_of_nat n) + BRVarIntSize (word_of_nat (length outs)) + n * TX_INPUT_SIZE +
     sum_list (map output_size outs) + TX_OUTPUT_SIZE"

definition rounded_fee :: "BRWallet \<Rightarrow> u64 \<Rightarrow> u64 \<Rightarrow> u64" where
  "rounded_fee w amt fee = (if balance w > amt + fee then fee + (balance w - (amt + fee)) mod 100 else fee)"

text \<open>The state of the loop after it has taken the outputs \<open>sel\<close>.\<close>

definition selecting :: "BRWallet \<Rightarrow> BRTxOutput list \<Rightarrow> UTXO list \<Rightarrow> BRTransaction \<times> u64 \<times> u64 \<Rightarrow> bool" where
  "selecting w outs sel = (\<lambda>(tx, bal, fee). map input_utxo (inputs tx) = sel \<and> map in_amount (inputs tx) = map (utxo_value w) sel \<and>
     (\<forall>i\<in>set (inputs tx). in_signature i = None) \<and> map payment (outputs tx) = map payment outs \<and> bal = sum_list (map (utxo_value w) sel) \<and>
     (\<exists>f. f = txFee (feePerKb w) (spend_size outs (length sel)) \<and>
        (fee = rounded_fee w (sum_list (map out_amount outs)) f \<or> sel = [] \<and> fee = f)))"

lemma payment_size: "map payment xs = map payment ys \<Longrightarrow> map output_size xs = map output_size ys"
  by (induction xs ys rule: list_induct2') (auto simp: payment_def output_size_def)

lemma unsigned_size: "\<forall>i\<in>set xs. in_signature i = None \<Longrightarrow> sum_list (map input_size xs) = length xs * TX_INPUT_SIZE"
  by (induction xs) (auto simp: input_size_def)

lemma selecting_size:
  assumes "map input_utxo (inputs tx) = sel" "\<forall>i\<in>set (inputs tx). in_signature i = None" "map payment (outputs tx) = map payment outs"
  shows "BRTransactionSize tx + TX_OUTPUT_SIZE = spend_size outs (length sel)"
proof -
  have "length (inputs tx) = length sel" "length (outputs tx) = length outs"
    using arg_cong [OF assms(1), of length] arg_cong [OF assms(3), of length] by simp_all
  then show ?thesis by (simp add: BRTransactionSize_def spend_size_def unsigned_size [OF assms(2)] payment_size [OF assms(3)])
qed

lemma varint_size: "BRVarIntSize i = (if unat i < 0xfd then 1 else if unat i < 2 ^ 16 then 3 else if unat i < 2 ^ 32 then 5 else 9)"
  by (simp add: BRVarIntSize_eq varint_def word_less_nat_alt word_le_nat_alt)

lemma spend_size_mono: "m \<le> n \<Longrightarrow> n < 2 ^ 64 \<Longrightarrow> spend_size outs m \<le> spend_size outs n"
  by (simp add: spend_size_def varint_size unat_word_of_nat_less mult_le_mono add_mono)

text \<open>An unspent output that the loop can take.\<close>

definition spendable :: "BRWallet \<Rightarrow> UTXO \<Rightarrow> bool" where
  "spendable w u \<longleftrightarrow> fst u \<noteq> 0 \<and> (\<exists>t. getTx w (fst u) = Some t \<and> unat (snd u) < length (outputs t))"

text \<open>One turn of the loop for an output with an amount.\<close>

lemma select_step:
  assumes "selecting w outs sel (tx, bal, fee)" "spendable w u" "utxo_value w u \<noteq> 0" "amt = sum_list (map out_amount outs)"
  defines "bal1 \<equiv> bal + utxo_value w u" and "fee1 \<equiv> rounded_fee w amt (txFee (feePerKb w) (spend_size outs (Suc (length sel))))"
  shows "\<exists>tx1. selecting w outs (sel @ [u]) (tx1, bal1, fee1) \<and>
     select_utxos w amt m (u # us) (tx, bal, fee) =
       (if spend_size outs (Suc (length sel)) > TX_MAX_SIZE then Some (True, tx1, bal, fee)
        else if bal1 = amt + fee1 \<or> amt + fee1 + m \<le> bal1 then Some (False, tx1, bal1, fee1)
        else select_utxos w amt m us (tx1, bal1, fee1))"
proof -
  obtain t where t: "getTx w (fst u) = Some t" "unat (snd u) < length (outputs t)" "fst u \<noteq> 0" using assms(2) by (auto simp: spendable_def)
  define out where "out = outputs t ! unat (snd u)"
  have v: "utxo_value w u = out_amount out" "rd (outputs t) (unat (snd u)) = Some out" using t by (simp_all add: utxo_value_def out_def rd_def)
  have "txHash t \<noteq> 0" using t getTx_hash [OF t(1)] by simp
  then obtain x where x: "BRTransactionAddInput tx (txHash t) (snd u) (out_amount out) (out_script out) None TXIN_SEQUENCE = Some (tx\<lparr>inputs := inputs tx @ [x]\<rparr>)"
    "in_core x = \<lparr>in_txHash = txHash t, in_index = snd u, in_address = [], in_amount = out_amount out, in_script = out_script out, in_signature = None, in_sequence = TXIN_SEQUENCE\<rparr>"
    using add_input_core by blast
  have x': "input_utxo x = u" "in_amount x = utxo_value w u" "in_signature x = None"
    using x(2) t getTx_hash [OF t(1)] v by (cases x; cases u; simp add: in_core_def input_utxo_def)+
  define tx1 where "tx1 = tx\<lparr>inputs := inputs tx @ [x]\<rparr>"
  have s: "selecting w outs (sel @ [u]) (tx1, bal1, fee1)"
    using assms(1,4) x' by (simp add: selecting_def tx1_def fee1_def bal1_def)
  then have sz: "BRTransactionSize tx1 + TX_OUTPUT_SIZE = spend_size outs (Suc (length sel))"
    using selecting_size [of tx1 "sel @ [u]" outs] by (simp add: selecting_def)
  have fee1: "(if balance w > amt + f then f + (balance w - (amt + f)) mod 100 else f) = fee1"
    if "f = txFee (feePerKb w) (spend_size outs (Suc (length sel)))" for f
    using that by (simp add: fee1_def rounded_fee_def)
  have "select_utxos w amt m (u # us) (tx, bal, fee) =
       (if spend_size outs (Suc (length sel)) > TX_MAX_SIZE then Some (True, tx1, bal, fee)
        else if bal1 = amt + fee1 \<or> amt + fee1 + m \<le> bal1 then Some (False, tx1, bal1, fee1)
        else select_utxos w amt m us (tx1, bal1, fee1))"
    using t v assms(3) x(1) by (simp add: tx1_def [symmetric] sz fee1 bal1_def Let_def)
  then show ?thesis using s by blast
qed

lemma select_skip:
  assumes "spendable w u" "utxo_value w u = 0"
  shows "select_utxos w amt m (u # us) (tx, bal, fee) = select_utxos w amt m us (tx, bal, fee)"
  using assms by (auto simp: spendable_def utxo_value_def rd_def)

lemma select_utxos_spec:
  assumes "selecting w outs sel0 (tx, bal, fee)" "\<forall>u\<in>set us. spendable w u" "spend_size outs (length sel0 + length us) \<le> TX_MAX_SIZE"
    "amt = sum_list (map out_amount outs)"
  shows "\<exists>sel tx' bal' fee'. select_utxos w amt m us (tx, bal, fee) = Some (False, tx', bal', fee') \<and> subseq sel us \<and>
     selecting w outs (sel0 @ sel) (tx', bal', fee') \<and>
     (bal' = amt + fee' \<or> amt + fee' + m \<le> bal' \<or> sel = filter (\<lambda>u. utxo_value w u \<noteq> 0) us)"
  using assms(1-3)
proof (induction us arbitrary: sel0 tx bal fee)
  case Nil
  then show ?case by auto
next
  case (Cons u us)
  have u: "spendable w u" using Cons.prems(2) by simp
  have smaller: "spend_size outs k \<le> TX_MAX_SIZE" if "k \<le> length sel0 + length (u # us)" for k
    using order_trans [OF spend_size_mono Cons.prems(3), OF that] Cons.prems(3) by (simp add: spend_size_def TX_MAX_SIZE_def TX_INPUT_SIZE_def)
  show ?case
  proof (cases "utxo_value w u = 0")
    case True
    obtain sel tx' bal' fee' where "select_utxos w amt m us (tx, bal, fee) = Some (False, tx', bal', fee')" "subseq sel us"
      "selecting w outs (sel0 @ sel) (tx', bal', fee')"
      "bal' = amt + fee' \<or> amt + fee' + m \<le> bal' \<or> sel = filter (\<lambda>u. utxo_value w u \<noteq> 0) us"
      using Cons.IH [OF Cons.prems(1)] smaller [of "length sel0 + length us"] Cons.prems(2) by auto
    then show ?thesis unfolding select_skip [OF u True] using True
      by (intro exI [of _ sel] exI [of _ tx'] exI [of _ bal'] exI [of _ fee']) auto
  next
    case False
    define bal1 where "bal1 = bal + utxo_value w u"
    define fee1 where "fee1 = rounded_fee w amt (txFee (feePerKb w) (spend_size outs (Suc (length sel0))))"
    obtain tx1 where s: "selecting w outs (sel0 @ [u]) (tx1, bal1, fee1)"
      "select_utxos w amt m (u # us) (tx, bal, fee) =
        (if bal1 = amt + fee1 \<or> amt + fee1 + m \<le> bal1 then Some (False, tx1, bal1, fee1) else select_utxos w amt m us (tx1, bal1, fee1))"
      using select_step [OF Cons.prems(1) u False assms(4), of m us] smaller [of "Suc (length sel0)"] by (auto simp: bal1_def fee1_def)
    show ?thesis
    proof (cases "bal1 = amt + fee1 \<or> amt + fee1 + m \<le> bal1")
      case True
      then show ?thesis using s by (intro exI [of _ "[u]"] exI [of _ tx1] exI [of _ bal1] exI [of _ fee1]) auto
    next
      case no: False
      obtain sel tx' bal' fee' where "select_utxos w amt m us (tx1, bal1, fee1) = Some (False, tx', bal', fee')" "subseq sel us"
        "selecting w outs ((sel0 @ [u]) @ sel) (tx', bal', fee')"
        "bal' = amt + fee' \<or> amt + fee' + m \<le> bal' \<or> sel = filter (\<lambda>u. utxo_value w u \<noteq> 0) us"
        using Cons.IH [OF s(1)] Cons.prems(2,3) by auto
      then show ?thesis using s(2) no False by (intro exI [of _ "u # sel"] exI [of _ tx'] exI [of _ bal'] exI [of _ fee']) auto
    qed
  qed
qed

text \<open>The loop when the outputs \<open>pre\<close> fit, do not suffice, and one more does not fit.\<close>

lemma select_too_large:
  assumes "selecting w outs sel (tx, bal, fee)" "\<forall>u\<in>set (pre @ [u]). spendable w u \<and> utxo_value w u \<noteq> 0" "amt = sum_list (map out_amount outs)"
    "spend_size outs (length sel + length pre) \<le> TX_MAX_SIZE" "TX_MAX_SIZE < spend_size outs (Suc (length sel + length pre))"
    "\<And>p s b f. pre = p @ s \<Longrightarrow> p \<noteq> [] \<Longrightarrow> b = bal + sum_list (map (utxo_value w) p) \<Longrightarrow>
       f = rounded_fee w amt (txFee (feePerKb w) (spend_size outs (length sel + length p))) \<Longrightarrow> b \<noteq> amt + f \<and> \<not> amt + f + m \<le> b"
  shows "\<exists>tx'. select_utxos w amt m (pre @ u # post) (tx, bal, fee) = Some (True, tx', bal + sum_list (map (utxo_value w) pre),
     if pre = [] then fee else rounded_fee w amt (txFee (feePerKb w) (spend_size outs (length sel + length pre))))"
  using assms(1,2,4-6)
proof (induction pre arbitrary: sel tx bal fee)
  case Nil
  then show ?case using select_step [OF Nil.prems(1) _ _ assms(3), of u m post] by auto
next
  case (Cons p pre)
  have p: "spendable w p" "utxo_value w p \<noteq> 0" using Cons.prems(2) by simp_all
  define bal1 where "bal1 = bal + utxo_value w p"
  define fee1 where "fee1 = rounded_fee w amt (txFee (feePerKb w) (spend_size outs (Suc (length sel))))"
  have "spend_size outs (Suc (length sel)) \<le> TX_MAX_SIZE"
    using order_trans [OF spend_size_mono Cons.prems(3), of "Suc (length sel)"] Cons.prems(3) by (simp add: spend_size_def TX_MAX_SIZE_def TX_INPUT_SIZE_def)
  moreover have "\<not> (bal1 = amt + fee1 \<or> amt + fee1 + m \<le> bal1)"
    using Cons.prems(5) [of "[p]" pre bal1 fee1] by (simp add: bal1_def fee1_def)
  ultimately obtain tx1 where s: "selecting w outs (sel @ [p]) (tx1, bal1, fee1)"
    "select_utxos w amt m ((p # pre) @ u # post) (tx, bal, fee) = select_utxos w amt m (pre @ u # post) (tx1, bal1, fee1)"
    using select_step [OF Cons.prems(1) p assms(3), of m "pre @ u # post"] by (auto simp: bal1_def fee1_def)
  have "b \<noteq> amt + f \<and> \<not> amt + f + m \<le> b" if "pre = q @ s" "q \<noteq> []" "b = bal1 + sum_list (map (utxo_value w) q)"
     "f = rounded_fee w amt (txFee (feePerKb w) (spend_size outs (length (sel @ [p]) + length q)))" for q s b f
    using Cons.prems(5) [of "p # q" s b f] that by (simp add: bal1_def add.assoc)
  then obtain tx' where r: "select_utxos w amt m (pre @ u # post) (tx1, bal1, fee1) = Some (True, tx', bal1 + sum_list (map (utxo_value w) pre),
     if pre = [] then fee1 else rounded_fee w amt (txFee (feePerKb w) (spend_size outs (length (sel @ [p]) + length pre))))"
    using Cons.IH [OF s(1)] Cons.prems(2-4) by auto
  then show ?case unfolding s(2) by (auto simp: bal1_def fee1_def add.assoc)
qed

section \<open>Transactions for outputs\<close>

lemma unat_sum_list: "sum_list (map unat xs) < 2 ^ 64 \<Longrightarrow> unat (sum_list xs :: u64) = sum_list (map unat xs)"
  by (induction xs) (simp_all add: unat_word_ariths)

lemma add_change_spec:
  assumes "wallet_inv derive rank w" "derivation_ok derive" "\<forall>w'. BRWalletUnusedAddrs derive w 1 True \<noteq> Some ([], w')"
    "length (outputs tx) < length rs" "\<forall>v\<in>set rs. length (outputs tx) < unat v" "length (outputs tx) < 2 ^ 30"
  shows "\<exists>tx' w' rs' a. add_change derive tx v (w, rs) = Some (tx', w', rs') \<and> wallet_inv derive rank w' \<and> inputs tx' = inputs tx \<and>
     mset (map payment (outputs tx')) = add_mset (v, Some (address_script a)) (mset (map payment (outputs tx))) \<and>
     a \<in> set (internalChain w') \<and> a \<notin> usedAddrs w"
proof -
  have "finite (usedAddrs w)" using assms(1) by (simp add: wallet_inv_def books_def)
  then obtain ext i where e: "BRWalletUnusedAddrs derive w 1 True =
       Some (if i + 1 \<le> length (chain_of w True @ ext) then slice i 1 (chain_of w True @ ext) else [], extend_chain True ext w)"
    "\<forall>j<length ext. derive True (length (chain_of w True) + j) = Some (ext ! j)"
    "\<forall>j. i \<le> j \<and> j < length (chain_of w True @ ext) \<longrightarrow> (chain_of w True @ ext) ! j \<notin> usedAddrs w"
    "i + 1 \<le> length (chain_of w True @ ext) \<or> derive True (length (chain_of w True @ ext)) = None"
    using unused_addrs_total [OF assms(2), of w 1 True] by auto
  define w' where "w' = extend_chain True ext w"
  define xs where "xs = chain_of w True @ ext"
  have i: "i < length xs" using e(1) assms(3) by (auto simp: xs_def split: if_splits)
  have "internalChain w' = xs" by (simp add: w'_def xs_def extend_chain_def chain_of_def)
  then have in_chain: "xs ! i \<in> set (internalChain w')" using i by simp
  have a: "BRWalletUnusedAddrs derive w 1 True = Some ([xs ! i], w')" "xs ! i \<notin> usedAddrs w"
    using e(1,3) i by (auto simp: xs_def [symmetric] w'_def [symmetric] slice_def take_Suc_conv_app_nth Cons_nth_drop_Suc [symmetric])
  obtain x where x: "BRTransactionAddOutput tx v (Some (address_script (xs ! i))) = Some (tx\<lparr>outputs := outputs tx @ [x]\<rparr>)"
    "out_core x = \<lparr>out_address = [], out_amount = v, out_script = Some (address_script (xs ! i))\<rparr>"
    using add_output_core by blast
  have px: "payment x = (v, Some (address_script (xs ! i)))" using x(2) by (cases x) (simp add: out_core_def payment_def)
  have "shuffle_loop (length (outputs tx)) 0 (outputs tx @ [x]) rs \<noteq> None"
    by (rule shuffle_loop_returns) (use assms(4-6) in auto)
  then obtain outs rs' where s: "shuffle_loop (length (outputs tx)) 0 (outputs tx @ [x]) rs = Some (outs, rs')" by auto
  have "mset outs = mset (outputs tx @ [x])" by (rule shuffle_loop_perm [OF s]) (use assms(6) in auto)
  moreover have "wallet_inv derive rank w'" unfolding w'_def using extend_chain_inv [OF assms(1) e(2)] .
  ultimately show ?thesis using a in_chain x(1) s px
    by (intro exI [of _ "tx\<lparr>outputs := outs\<rparr>"] exI [of _ w'] exI [of _ rs'] exI [of _ "xs ! i"])
       (simp add: add_change_def BRTransactionShuffleOutputs_def)
qed

text \<open>What a transaction that the wallet has made promises: it spends unspent outputs of the wallet, each at most once and with their amounts; its outputs are the
  requested ones, in some order, and at most one more that pays an unused address of the wallet's internal chain; and what the inputs exceed the outputs by is
  the fee for its size and at most 99 and the smallest useful output more.\<close>

definition spends_well :: "BRWallet \<Rightarrow> BRWallet \<Rightarrow> BRTxOutput list \<Rightarrow> BRTransaction \<Rightarrow> bool" where
  "spends_well w w' outs tx \<longleftrightarrow> (\<exists>change fee. subseq (map input_utxo (inputs tx)) (utxos w) \<and>
     map in_amount (inputs tx) = map (utxo_value w) (map input_utxo (inputs tx)) \<and> (\<forall>i\<in>set (inputs tx). in_signature i = None) \<and>
     mset (map payment (outputs tx)) = mset (map payment outs) + change \<and>
     (change = {#} \<or> (\<exists>a v. change = {#(v, Some (address_script a))#} \<and> a \<in> set (internalChain w') \<and> a \<notin> usedAddrs w \<and> BRWalletMinOutputAmount w < v)) \<and>
     sum_list (map (unat \<circ> in_amount) (inputs tx)) = sum_list (map (unat \<circ> out_amount) (outputs tx)) + fee \<and>
     unat (txFee (feePerKb w) (spend_size outs (length (inputs tx)))) \<le> fee \<and>
     fee \<le> unat (txFee (feePerKb w) (spend_size outs (length (inputs tx)))) + 99 + unat (BRWalletMinOutputAmount w))"

lemma payment_sum: "mset (map payment xs) = mset (map payment ys) + c \<Longrightarrow>
   sum_list (map (unat \<circ> out_amount) xs) = sum_list (map (unat \<circ> out_amount) ys) + sum_mset (image_mset (unat \<circ> fst) c)"
proof -
  assume a: "mset (map payment xs) = mset (map payment ys) + c"
  have e: "sum_list (map (unat \<circ> out_amount) zs) = sum_mset (image_mset (unat \<circ> fst) (mset (map payment zs)))" for zs
    by (induction zs) (simp_all add: payment_def)
  show ?thesis unfolding e a by simp
qed

lemma rounded_fee_bounds:
  assumes "unat amt < 2 ^ 62" "unat f < 2 ^ 30"
  shows "unat f \<le> unat (rounded_fee w amt f)" "unat (rounded_fee w amt f) \<le> unat f + 99"
    "unat (amt + rounded_fee w amt f) = unat amt + unat (rounded_fee w amt f)"
    "unat (balance w) < unat amt + unat (rounded_fee w amt f) \<Longrightarrow> unat (balance w) < unat amt + unat f"
proof -
  define d where "d = (balance w - (amt + f)) mod 100"
  have af: "unat (amt + f) = unat amt + unat f" using assms by (simp add: unat_word_ariths)
  have d: "unat d \<le> 99" unfolding d_def using word_mod_less_divisor [of 100 "balance w - (amt + f)"] by (simp add: word_less_nat_alt)
  then have fd: "unat (f + d) = unat f + unat d" using assms(2) by (simp add: unat_word_ariths)
  have r: "rounded_fee w amt f = (if balance w > amt + f then f + d else f)" by (simp add: rounded_fee_def d_def)
  show b: "unat f \<le> unat (rounded_fee w amt f)" "unat (rounded_fee w amt f) \<le> unat f + 99" using d fd by (auto simp: r)
  then show "unat (amt + rounded_fee w amt f) = unat amt + unat (rounded_fee w amt f)" using assms by (simp add: unat_word_ariths)
  show "unat (balance w) < unat amt + unat f" if "unat (balance w) < unat amt + unat (rounded_fee w amt f)"
  proof (rule ccontr)
    assume n: "\<not> unat (balance w) < unat amt + unat f"
    show False
    proof (cases "balance w > amt + f")
      case True
      then have "unat (balance w - (amt + f)) = unat (balance w) - (unat amt + unat f)" using af unat_sub [of "amt + f" "balance w"] by simp
      then have "unat d \<le> unat (balance w) - (unat amt + unat f)" unfolding d_def by (simp add: unat_mod_distrib)
      then show False using that fd True n by (simp add: r)
    qed (use that n in \<open>simp add: r\<close>)
  qed
qed

lemma utxos_spendable:
  assumes "wallet_inv derive rank w" "u \<in> set (utxos w)"
  shows "spendable w u"
proof -
  obtain t where t: "getTx w (fst u) = Some t" "unat (snd u) < length (outputs t)" using assms by (auto simp: wallet_inv_def books_def)
  then have "tx_ok rank t" using core_inv_tx assms(1) by (auto simp: wallet_inv_def)
  then show ?thesis using t getTx_hash [OF t(1)] by (auto simp: spendable_def tx_ok_def)
qed

lemma sum_list_nonzero: "sum_list (map f (filter (\<lambda>x. f x \<noteq> 0) xs)) = (sum_list (map f xs) :: 'a :: monoid_add)"
  by (induction xs) simp_all

lemma subseq_sum_le: "subseq xs ys \<Longrightarrow> sum_list (map f xs) \<le> (sum_list (map f ys) :: nat)"
  by (induction rule: list_emb.induct) auto

lemma start_selecting:
  "\<exists>tx0. add_outputs BRTransactionNew outs = Some tx0 \<and>
     selecting w outs [] (tx0, 0, txFee (feePerKb w) (BRTransactionSize tx0 + TX_OUTPUT_SIZE))"
proof -
  obtain xs where xs: "add_outputs BRTransactionNew outs = Some (BRTransactionNew\<lparr>outputs := outputs BRTransactionNew @ xs\<rparr>)"
    "map out_core xs = map out_core outs" using add_outputs_core by blast
  define tx0 where "tx0 = BRTransactionNew\<lparr>outputs := xs\<rparr>"
  have "map payment xs = map (payment \<circ> out_core) xs" for xs by (simp add: payment_def out_core_def)
  then have "map payment xs = map payment outs" using xs(2) by (metis map_map)
  then have p: "map input_utxo (inputs tx0) = []" "\<forall>i\<in>set (inputs tx0). in_signature i = None" "map payment (outputs tx0) = map payment outs"
    by (simp_all add: tx0_def BRTransactionNew_def)
  have "selecting w outs [] (tx0, 0, txFee (feePerKb w) (BRTransactionSize tx0 + TX_OUTPUT_SIZE))"
    using p selecting_size [OF p] by (simp add: selecting_def)
  moreover have "add_outputs BRTransactionNew outs = Some tx0" using xs(1) by (simp add: tx0_def BRTransactionNew_def)
  ultimately show ?thesis by blast
qed

text \<open>What a state of the loop says about the numbers: the balance of the inputs and the fee.\<close>

lemma selecting_amounts:
  assumes "selecting w outs sel (tx, bal, fee)" "subseq sel (utxos w)" "feePerKb w \<le> MAX_FEE_PER_KB" "spend_size outs (length (utxos w)) \<le> TX_MAX_SIZE"
    "sum_list (map (unat \<circ> utxo_value w) (utxos w)) < 2 ^ 62" "sum_list (map (unat \<circ> out_amount) outs) < 2 ^ 62"
  defines "amt \<equiv> sum_list (map out_amount outs)" and "f \<equiv> txFee (feePerKb w) (spend_size outs (length sel))"
  shows "unat bal = sum_list (map (unat \<circ> in_amount) (inputs tx))" "unat bal < 2 ^ 62"
    "unat amt = sum_list (map (unat \<circ> out_amount) outs)" "unat f \<le> unat fee" "unat fee \<le> unat f + 99" "unat (amt + fee) = unat amt + unat fee"
    "unat f < 2 ^ 30" "unat f \<le> unat (txFee (feePerKb w) (spend_size outs (length (utxos w))))"
    "unat (balance w) < unat amt + unat fee \<Longrightarrow> unat (balance w) < unat amt + unat f"
proof -
  have s: "map in_amount (inputs tx) = map (utxo_value w) sel" "bal = sum_list (map (utxo_value w) sel)"
    "fee = rounded_fee w amt f \<or> fee = f" using assms(1) by (auto simp: selecting_def amt_def f_def)
  have le: "sum_list (map (unat \<circ> utxo_value w) sel) \<le> sum_list (map (unat \<circ> utxo_value w) (utxos w))" using subseq_sum_le [OF assms(2)] .
  have "sum_list (map (unat \<circ> in_amount) (inputs tx)) = sum_list (map (unat \<circ> utxo_value w) sel)"
    using s(1) by (metis map_map)
  then show bal: "unat bal = sum_list (map (unat \<circ> in_amount) (inputs tx))" "unat bal < 2 ^ 62"
    using le assms(5) unat_sum_list [of "map (utxo_value w) sel"] by (simp_all add: s(2))
  show amt: "unat amt = sum_list (map (unat \<circ> out_amount) outs)"
    using assms(6) unat_sum_list [of "map out_amount outs"] by (simp add: amt_def)
  have len: "length sel \<le> length (utxos w)" using list_emb_length [OF assms(2)] .
  have "length (utxos w) < 2 ^ 64" using assms(4) by (simp add: spend_size_def TX_MAX_SIZE_def TX_INPUT_SIZE_def)
  then have sz: "spend_size outs (length sel) \<le> spend_size outs (length (utxos w))" using spend_size_mono [OF len] by blast
  then have fit: "spend_size outs (length sel) \<le> TX_MAX_SIZE" using assms(4) by simp
  show f: "unat f < 2 ^ 30" using txFee_nat [OF assms(3) fit] by (simp add: f_def)
  show "unat f \<le> unat (txFee (feePerKb w) (spend_size outs (length (utxos w))))"
    unfolding f_def txFee_nat(1) [OF assms(3) fit] txFee_nat(1) [OF assms(3,4)] by (rule fee_nat_mono [OF sz])
  have amt62: "unat amt < 2 ^ 62" using amt assms(6) by simp
  show "unat f \<le> unat fee" "unat fee \<le> unat f + 99" "unat (amt + fee) = unat amt + unat fee"
    "unat (balance w) < unat amt + unat fee \<Longrightarrow> unat (balance w) < unat amt + unat f"
    using s(3) rounded_fee_bounds [OF amt62 f, of w] amt62 f by (auto simp: unat_word_ariths)
qed

lemma selected_spends_well:
  assumes "selecting w outs sel (tx, bal, fee)" "subseq sel (utxos w)" "feePerKb w \<le> MAX_FEE_PER_KB" "spend_size outs (length (utxos w)) \<le> TX_MAX_SIZE"
    "sum_list (map (unat \<circ> utxo_value w) (utxos w)) < 2 ^ 62" "sum_list (map (unat \<circ> out_amount) outs) < 2 ^ 62"
    and funds: "\<not> bal < sum_list (map out_amount outs) + fee" and ins: "inputs tx' = inputs tx"
    and pay: "mset (map payment (outputs tx')) = mset (map payment (outputs tx)) + change"
    and change: "change = {#} \<and> bal - (sum_list (map out_amount outs) + fee) \<le> BRWalletMinOutputAmount w \<or>
      (\<exists>a v. change = {#(v, Some (address_script a))#} \<and> v = bal - (sum_list (map out_amount outs) + fee) \<and> a \<in> set (internalChain w') \<and> a \<notin> usedAddrs w \<and>
         BRWalletMinOutputAmount w < v)"
  shows "spends_well w w' outs tx'"
proof -
  note n = selecting_amounts [OF assms(1-6)]
  let ?amt = "sum_list (map out_amount outs)"
  let ?f = "txFee (feePerKb w) (spend_size outs (length (inputs tx')))"
  have s: "map input_utxo (inputs tx) = sel" "map in_amount (inputs tx) = map (utxo_value w) sel" "\<forall>i\<in>set (inputs tx). in_signature i = None"
    "map payment (outputs tx) = map payment outs" using assms(1) by (simp_all add: selecting_def)
  have len: "length (inputs tx) = length sel" using arg_cong [OF s(1), of length] by simp
  have p: "mset (map payment (outputs tx')) = mset (map payment outs) + change" using pay s(4) by simp
  have le: "?amt + fee \<le> bal" using funds by simp
  then have diff: "unat (bal - (?amt + fee)) = unat bal - (unat ?amt + unat fee)" "unat ?amt + unat fee \<le> unat bal"
    using unat_sub [OF le] n(6) by (simp_all add: word_le_nat_alt)
  define paid where "paid = unat bal - sum_list (map (unat \<circ> out_amount) (outputs tx'))"
  have out: "sum_list (map (unat \<circ> out_amount) (outputs tx')) = unat ?amt + sum_mset (image_mset (unat \<circ> fst) change)"
    using payment_sum [OF p] n(3) by simp
  have "sum_list (map (unat \<circ> in_amount) (inputs tx')) = sum_list (map (unat \<circ> out_amount) (outputs tx')) + paid \<and>
      unat ?f \<le> paid \<and> paid \<le> unat ?f + 99 + unat (BRWalletMinOutputAmount w)"
    using change
  proof
    assume c: "change = {#} \<and> bal - (?amt + fee) \<le> BRWalletMinOutputAmount w"
    then show ?thesis using diff n(1,4,5) out unfolding paid_def ins len by (auto simp: word_le_nat_alt)
  next
    assume "\<exists>a v. change = {#(v, Some (address_script a))#} \<and> v = bal - (?amt + fee) \<and> a \<in> set (internalChain w') \<and> a \<notin> usedAddrs w \<and> BRWalletMinOutputAmount w < v"
    then have "sum_mset (image_mset (unat \<circ> fst) change) = unat bal - (unat ?amt + unat fee)" using diff by auto
    then show ?thesis using diff n(1,4,5) out unfolding paid_def ins len by auto
  qed
  then show ?thesis unfolding spends_well_def
    using p change s assms(2) ins by (intro exI [of _ change] exI [of _ paid]) auto
qed

lemma create_for_outputs:
  assumes "wallet_inv derive rank w" "derivation_ok derive" "\<forall>w'. BRWalletUnusedAddrs derive w 1 True \<noteq> Some ([], w')" "feePerKb w \<le> MAX_FEE_PER_KB"
    "outs \<noteq> []" "\<forall>out\<in>set outs. ptr_bytes (out_script out) \<noteq> []" "spend_size outs (length (utxos w)) \<le> TX_MAX_SIZE"
    "sum_list (map (unat \<circ> utxo_value w) (utxos w)) < 2 ^ 62" "sum_list (map (unat \<circ> out_amount) outs) < 2 ^ 62"
    "length outs < length rs" "\<forall>v\<in>set rs. length outs < unat v"
  shows "\<exists>res w' rs'. BRWalletCreateTxForOutputs (Suc n) derive outs (w, rs) = Some (res, w', rs') \<and> wallet_inv derive rank w' \<and>
     (case res of Some tx \<Rightarrow> spends_well w w' outs tx
      | None \<Rightarrow> w' = w \<and> unat (balance w) < sum_list (map (unat \<circ> out_amount) outs) +
          unat (txFee (feePerKb w) (spend_size outs (length (utxos w)))))"
proof -
  let ?amt = "sum_list (map out_amount outs)"
  let ?m = "BRWalletMinOutputAmount w"
  obtain tx0 where tx0: "add_outputs BRTransactionNew outs = Some tx0"
    "selecting w outs [] (tx0, 0, txFee (feePerKb w) (BRTransactionSize tx0 + TX_OUTPUT_SIZE))" using start_selecting by blast
  obtain sel tx bal fee where r: "select_utxos w ?amt ?m (utxos w) (tx0, 0, txFee (feePerKb w) (BRTransactionSize tx0 + TX_OUTPUT_SIZE)) = Some (False, tx, bal, fee)"
    "subseq sel (utxos w)" "selecting w outs sel (tx, bal, fee)"
    "bal = ?amt + fee \<or> ?amt + fee + ?m \<le> bal \<or> sel = filter (\<lambda>u. utxo_value w u \<noteq> 0) (utxos w)"
    using select_utxos_spec [OF tx0(2), of "utxos w" ?amt ?m] utxos_spendable [OF assms(1)] assms(7) by auto
  note n = selecting_amounts [OF r(3,2) assms(4,7-9)]
  have "\<not> list_ex (\<lambda>out. ptr_bytes (out_script out) = []) outs" using assms(6) by (auto simp: list_ex_iff)
  then have run: "BRWalletCreateTxForOutputs (Suc n) derive outs (w, rs) =
     (if bal < ?amt + fee then Some (None, w, rs)
      else if bal - (?amt + fee) > ?m then map_option (\<lambda>(tx, st). (Some tx, st)) (add_change derive tx (bal - (?amt + fee)) (w, rs))
      else Some (Some tx, w, rs))" using assms(5) tx0(1) r(1) by simp
  consider (short) "bal < ?amt + fee" | (change) "\<not> bal < ?amt + fee" "bal - (?amt + fee) > ?m" | (exact) "\<not> bal < ?amt + fee" "bal - (?amt + fee) \<le> ?m"
    by fastforce
  then show ?thesis
  proof cases
    case short
    have "unat (?amt + fee + ?m) = unat ?amt + unat fee + unat ?m"
      using n min_amount_bound [OF assms(4)] assms(9) by (subst unat_word_ariths(1)) simp
    then have "sel = filter (\<lambda>u. utxo_value w u \<noteq> 0) (utxos w)" using r(4) short n(6) by (auto simp: word_less_nat_alt word_le_nat_alt)
    then have "bal = balance w" using r(3) assms(1) by (simp add: selecting_def sum_list_nonzero wallet_inv_def books_def)
    then have "unat (balance w) < unat ?amt + unat fee" using short n(6) by (simp add: word_less_nat_alt)
    then show ?thesis using run short n(3,8) n(9) assms(1) by auto
  next
    case change
    have "length (outputs tx) = length outs" using r(3) by (auto simp: selecting_def dest: map_eq_imp_length_eq)
    moreover have "length outs < 2 ^ 30"
    proof -
      have "length outs \<le> sum_list (map output_size outs)" by (induction outs) (simp_all add: output_size_def Let_def)
      then show ?thesis using assms(7) by (simp add: spend_size_def TX_MAX_SIZE_def)
    qed
    ultimately obtain tx' w' rs' a where c: "add_change derive tx (bal - (?amt + fee)) (w, rs) = Some (tx', w', rs')" "wallet_inv derive rank w'" "inputs tx' = inputs tx"
      "mset (map payment (outputs tx')) = add_mset (bal - (?amt + fee), Some (address_script a)) (mset (map payment (outputs tx)))"
      "a \<in> set (internalChain w')" "a \<notin> usedAddrs w"
      using add_change_spec [OF assms(1-3), of tx rs "bal - (?amt + fee)"] assms(10,11) by auto
    have "spends_well w w' outs tx'"
      by (rule selected_spends_well [OF r(3,2) assms(4,7-9) change(1) c(3), where change = "{#(bal - (?amt + fee), Some (address_script a))#}"])
         (use c(4-6) change(2) in auto)
    then show ?thesis using run change c(1,2) by simp
  next
    case exact
    have "spends_well w w outs tx"
      by (rule selected_spends_well [OF r(3,2) assms(4,7-9) exact(1) refl, where change = "{#}"]) (use exact(2) in auto)
    then show ?thesis using run exact assms(1) by (simp add: not_less [symmetric])
  qed
qed

text \<open>C28: a payment.  For a wallet in order, a fee rate up to the maximum, amounts that do not wrap, a transaction that cannot become too large and a derivation that gives a change address,
  \<open>BRWalletCreateTxForOutputs\<close> returns without calling itself.  The transaction spends unspent outputs of the wallet, each once; its outputs are the requested ones and
  at most one to an unused internal address of the wallet; the inputs pay for the outputs and the fee of a transaction of that size, with at most 99 and the smallest output on top.  It fails
  only when the balance does not cover the amount and the fee for spending everything, and then it changes nothing.\<close>

theorem create_tx:
  assumes "wallet_inv derive rank w" "derivation_ok derive" "\<forall>w'. BRWalletUnusedAddrs derive w 1 True \<noteq> Some ([], w')" "feePerKb w \<le> MAX_FEE_PER_KB"
    "outs \<noteq> []" "\<forall>out\<in>set outs. ptr_bytes (out_script out) \<noteq> []" "spend_size outs (length (utxos w)) \<le> TX_MAX_SIZE"
    "sum_list (map (unat \<circ> utxo_value w) (utxos w)) < 2 ^ 62" "sum_list (map (unat \<circ> out_amount) outs) < 2 ^ 62"
    "length outs < length rs" "\<forall>v\<in>set rs. length outs < unat v"
  shows "\<exists>res w' rs'. BRWalletCreateTxForOutputs (Suc n) derive outs (w, rs) = Some (res, w', rs') \<and> wallet_inv derive rank w' \<and>
     (case res of Some tx \<Rightarrow> spends_well w w' outs tx
      | None \<Rightarrow> w' = w \<and> unat (balance w) < sum_list (map (unat \<circ> out_amount) outs) +
          unat (txFee (feePerKb w) (spend_size outs (length (utxos w)))))"
  by (rule create_for_outputs [OF assms])

section \<open>Requests that are too large\<close>

text \<open>The amounts with which the function calls itself when the outputs \<open>pre\<close> fit and no more: what is lacking is less than a fee and 100.\<close>

definition oversized :: "BRWallet \<Rightarrow> UTXO list \<Rightarrow> BRTxOutput \<Rightarrow> bool" where
  "oversized w pre out \<longleftrightarrow>
     (let f = txFee (feePerKb w) (spend_size [out] (length pre)); B = sum_list (map (unat \<circ> utxo_value w) pre);
          F = txFee (feePerKb w) (10 + length (utxos w) * TX_INPUT_SIZE + (1 + 1) * TX_OUTPUT_SIZE)
      in B \<le> unat (out_amount out) + unat f + 99 \<and> unat (out_amount out) + unat F \<le> unat (balance w) \<and>
         (B < unat (out_amount out) \<or> unat (out_amount out) + unat f < unat (balance w)))"

definition next_amount :: "BRWallet \<Rightarrow> UTXO list \<Rightarrow> BRTxOutput \<Rightarrow> u64 \<Rightarrow> u64" where
  "next_amount w pre out a = sum_list (map (utxo_value w) pre) - rounded_fee w a (txFee (feePerKb w) (spend_size [out] (length pre)))"

lemma rounding_rest:
  assumes "unat amt + unat f < unat (balance w)" "unat amt < 2 ^ 62" "unat f < 2 ^ 30" "unat (balance w) < 2 ^ 62"
  shows "(unat (balance w) - unat (amt + rounded_fee w amt f)) mod 100 = 0" "unat (amt + rounded_fee w amt f) \<le> unat (balance w)"
proof -
  have af: "unat (amt + f) = unat amt + unat f" using assms by (simp add: unat_word_ariths)
  then have d: "unat (balance w - (amt + f)) = unat (balance w) - (unat amt + unat f)" using assms(1) unat_sub [of "amt + f" "balance w"] by (simp add: word_le_nat_alt)
  define x where "x = unat (balance w) - (unat amt + unat f)"
  have "amt + f < balance w" using assms(1) af by (simp add: word_less_nat_alt)
  then have r: "rounded_fee w amt f = f + (balance w - (amt + f)) mod 100" by (simp add: rounded_fee_def)
  have m: "unat ((balance w - (amt + f)) mod 100) = x mod 100" by (simp add: unat_mod_distrib d x_def)
  have "x mod 100 < 100" by simp
  then have "unat (f + (balance w - (amt + f)) mod 100) = unat f + x mod 100" unfolding unat_word_ariths(1) m using assms(3) by simp
  then have u: "unat (amt + rounded_fee w amt f) = unat amt + unat f + x mod 100" using rounded_fee_bounds(3) [OF assms(2,3), of w] r by simp
  have "x mod 100 \<le> x" by simp
  then show "unat (amt + rounded_fee w amt f) \<le> unat (balance w)" using u assms(1) unfolding x_def by linarith
  have "unat (balance w) - unat (amt + rounded_fee w amt f) = x - x mod 100" using u by (simp add: x_def)
  then show "(unat (balance w) - unat (amt + rounded_fee w amt f)) mod 100 = 0" by (metis dvd_minus_mod mod_eq_0_iff_dvd)
qed

lemma min_amount_large: "100 < unat (BRWalletMinOutputAmount w)"
proof -
  have m: "TX_MIN_OUTPUT_AMOUNT = 546000"
    by (simp add: TX_MIN_OUTPUT_AMOUNT_def TX_FEE_PER_KB_def TX_OUTPUT_SIZE_def TX_INPUT_SIZE_def word_div_def)
  have "TX_MIN_OUTPUT_AMOUNT \<le> BRWalletMinOutputAmount w" unfolding BRWalletMinOutputAmount_def Let_def by (auto intro: less_imp_le)
  then show ?thesis unfolding m by (simp add: word_le_nat_alt)
qed

lemma prefix_sum_le: "pre = p @ s \<Longrightarrow> s \<noteq> [] \<Longrightarrow> sum_list (map f p) + f (last pre) \<le> (sum_list (map f pre) :: nat)"
  by (cases s rule: rev_cases) auto

lemma oversized_step:
  assumes "wallet_inv derive rank w" "feePerKb w \<le> MAX_FEE_PER_KB" "ptr_bytes (out_script out) \<noteq> []"
    "utxos w = pre @ u # post" "pre \<noteq> []" "\<forall>x\<in>set (utxos w). utxo_value w x \<noteq> 0"
    "spend_size [out] (length pre) \<le> TX_MAX_SIZE" "TX_MAX_SIZE < spend_size [out] (Suc (length pre))"
    "2 ^ 32 \<le> unat (utxo_value w (last pre))" "sum_list (map (unat \<circ> utxo_value w) (utxos w)) < 2 ^ 62"
    "(unat (balance w) - sum_list (map (unat \<circ> utxo_value w) pre)) mod 100 \<noteq> 0" "oversized w pre out"
    "sum_list (map (unat \<circ> utxo_value w) pre) + unat (txFee (feePerKb w) (10 + length (utxos w) * TX_INPUT_SIZE + (1 + 1) * TX_OUTPUT_SIZE)) < unat (balance w)"
  defines "amt' \<equiv> next_amount w pre out (out_amount out)"
  shows "BRWalletCreateTxForOutputs (Suc n) derive [out] (w, rs) = BRWalletCreateTxForOutputs n derive [out\<lparr>out_amount := amt'\<rparr>] (w, rs)"
    "oversized w pre (out\<lparr>out_amount := amt'\<rparr>)"
proof -
  let ?amt = "out_amount out"
  let ?m = "BRWalletMinOutputAmount w"
  define F where "F = txFee (feePerKb w) (10 + length (utxos w) * TX_INPUT_SIZE + (1 + 1) * TX_OUTPUT_SIZE)"
  define f where "f = txFee (feePerKb w) (spend_size [out] (length pre))"
  define fee where "fee = rounded_fee w ?amt f"
  define Bw where "Bw = sum_list (map (utxo_value w) pre)"
  define B where "B = sum_list (map (unat \<circ> utxo_value w) pre)"
  have W: "unat (balance w) < 2 ^ 62"
    using assms(1,10) unat_sum_list [of "map (utxo_value w) (utxos w)"] by (simp add: wallet_inv_def books_def)
  have o: "B \<le> unat ?amt + unat f + 99" "unat ?amt + unat F \<le> unat (balance w)" "B < unat ?amt \<or> unat ?amt + unat f < unat (balance w)"
    using assms(12) by (simp_all add: oversized_def Let_def f_def F_def B_def)
  have amt: "unat ?amt < 2 ^ 62" using o(2) W by simp
  have f: "unat f < 2 ^ 30" using txFee_nat [OF assms(2,7)] by (simp add: f_def)
  have B62: "B < 2 ^ 62" using assms(4,10) by (simp add: B_def)
  have Bw: "unat Bw = B" using unat_sum_list [of "map (utxo_value w) pre"] B62 by (simp add: B_def Bw_def)
  note r = rounded_fee_bounds [OF amt f, of w, folded fee_def]
  have m: "unat ?m < 2 ^ 30" "100 < unat ?m" using min_amount_bound [OF assms(2)] min_amount_large by auto
  have big: "2 ^ 32 \<le> B" using assms(5,9) prefix_sum_le [of pre "butlast pre" "[last pre]" "unat \<circ> utxo_value w"] by (simp add: B_def)
  have stop: "b \<noteq> ?amt + f' \<and> \<not> ?amt + f' + ?m \<le> b" if "pre = p @ s" "p \<noteq> []" "b = 0 + sum_list (map (utxo_value w) p)"
     "f' = rounded_fee w ?amt (txFee (feePerKb w) (spend_size [out] (length ([] :: UTXO list) + length p)))" for p s b f'
  proof -
    have len: "spend_size [out] (length p) \<le> TX_MAX_SIZE"
      using order_trans [OF spend_size_mono assms(7), of "length p"] assms(7) that(1) by (simp add: spend_size_def TX_MAX_SIZE_def TX_INPUT_SIZE_def)
    have f': "unat (txFee (feePerKb w) (spend_size [out] (length p))) < 2 ^ 30" using txFee_nat [OF assms(2) len] by simp
    note r' = rounded_fee_bounds [OF amt f', of w]
    have am: "unat (?amt + f') = unat ?amt + unat f'" "unat (?amt + f' + ?m) = unat ?amt + unat f' + unat ?m"
      using that(4) r'(2,3) amt f' m by (simp_all add: unat_word_ariths)
    define bp where "bp = sum_list (map (unat \<circ> utxo_value w) p)"
    have "bp \<le> B" using that(1) by (simp add: bp_def B_def)
    then have b: "unat b = bp" using that(3) unat_sum_list [of "map (utxo_value w) p"] B62 by (simp add: bp_def)
    have "bp \<noteq> unat ?amt + unat f' \<and> bp < unat ?amt + unat f' + unat ?m"
    proof (cases "s = []")
      case True
      then have p: "bp = B" "f' = fee" using that(1,4) by (simp_all add: bp_def B_def fee_def f_def)
      have "B \<noteq> unat ?amt + unat fee"
        using o(3) assms(11) rounding_rest [OF _ amt f W, folded fee_def] r(3) unfolding B_def [symmetric] by auto
      then show ?thesis using p o(1) r(1) m(2) by simp
    next
      case False
      then have "bp + 2 ^ 32 \<le> B" using prefix_sum_le [OF that(1) False, of "unat \<circ> utxo_value w"] assms(9) by (simp add: bp_def B_def)
      then show ?thesis using o(1) f by simp
    qed
    then show ?thesis using am b by (auto simp: word_le_nat_alt)
  qed
  obtain tx0 where tx0: "add_outputs BRTransactionNew [out] = Some tx0"
    "selecting w [out] [] (tx0, 0, txFee (feePerKb w) (BRTransactionSize tx0 + TX_OUTPUT_SIZE))" using start_selecting by blast
  have "\<forall>x\<in>set (pre @ [u]). spendable w x \<and> utxo_value w x \<noteq> 0" using utxos_spendable [OF assms(1)] assms(4,6) by simp
  then obtain tx' where sel: "select_utxos w ?amt ?m (utxos w) (tx0, 0, txFee (feePerKb w) (BRTransactionSize tx0 + TX_OUTPUT_SIZE)) = Some (True, tx', Bw, fee)"
    using select_too_large [OF tx0(2), of pre u ?amt ?m post] assms(4,5,7,8) stop by (auto simp: Bw_def fee_def f_def)
  have ge: "\<not> balance w < ?amt + F" using o(2) W by (simp add: word_less_nat_alt unat_word_ariths)
  have am: "unat (?amt + fee + ?m) = unat ?amt + unat fee + unat ?m" using r(2,3) amt f m by (subst unat_word_ariths(1)) simp
  have "unat (?amt + fee + ?m - Bw) = unat ?amt + unat fee + unat ?m - B"
    using unat_sub [of Bw "?amt + fee + ?m"] am Bw o(1) r(1) m(2) by (simp add: word_le_nat_alt)
  then have red: "?amt > ?amt + fee + ?m - Bw" using big f m r o(1) by (simp add: word_less_nat_alt)
  have amt': "?amt - (?amt + fee - Bw) = amt'" by (simp add: amt'_def next_amount_def Bw_def fee_def f_def)
  show "BRWalletCreateTxForOutputs (Suc n) derive [out] (w, rs) = BRWalletCreateTxForOutputs n derive [out\<lparr>out_amount := amt'\<rparr>] (w, rs)"
    using tx0(1) sel assms(3) ge red by (simp add: amt' F_def)
  have "amt' = Bw - fee" using amt' by simp
  then have "unat amt' = B - unat fee" "unat fee \<le> B" using unat_sub [of fee Bw] Bw big r(2) f by (simp_all add: word_le_nat_alt)
  then show "oversized w pre (out\<lparr>out_amount := amt'\<rparr>)"
    using r(1,2) o assms(13) by (auto simp: oversized_def Let_def f_def F_def B_def spend_size_def output_size_def)
qed

lemma spend_size_amount [simp]: "spend_size [out\<lparr>out_amount := a\<rparr>] = spend_size [out]"
  by (simp add: spend_size_def output_size_def fun_eq_iff)

lemma next_amount_out [simp]: "next_amount w pre (out\<lparr>out_amount := a\<rparr>) = next_amount w pre out"
  by (simp add: next_amount_def fun_eq_iff)


section \<open>Samples\<close>

text \<open>A wallet that owns \<open>n\<close> outputs of one transaction with the amount \<open>c\<close> each.\<close>

definition coins :: "nat \<Rightarrow> u64 \<Rightarrow> BRWallet" where
  "coins n c = empty_wallet\<lparr>allTx := [BRTransactionNew\<lparr>txHash := 7, blockHeight := 100, outputs := replicate n \<lparr>out_address = [2], out_amount = c, out_script = None\<rparr>\<rparr>],
     transactions := [7], externalChain := [[2]], allAddrs := {[2]}, utxos := map (\<lambda>i. (7, word_of_nat i)) [0..<n],
     balance := of_nat n * c, totalReceived := of_nat n * c, balanceHist := [of_nat n * c]\<rparr>"

lemma coins_value: "i < n \<Longrightarrow> n \<le> 2 ^ 32 \<Longrightarrow> utxo_value (coins n c) (7, word_of_nat i) = c"
  by (simp add: utxo_value_def coins_def getTx_def rd_def unat_word_of_nat_less)

lemma coins_values: "n \<le> 2 ^ 32 \<Longrightarrow> k \<le> n \<Longrightarrow> map (utxo_value (coins n c)) (map (\<lambda>i. (7, word_of_nat i)) [0..<k]) = replicate k c"
  by (rule nth_equalityI) (simp_all add: coins_value)

lemma coins_sum: "n \<le> 2 ^ 32 \<Longrightarrow> k \<le> n \<Longrightarrow> sum_list (map (unat \<circ> utxo_value (coins n c)) (map (\<lambda>i. (7, word_of_nat i)) [0..<k])) = k * unat c"
  using coins_values [of n k c] by (simp add: sum_list_replicate flip: map_map)

lemma coins_inv:
  assumes "0 < n" "n \<le> 2 ^ 32"
  shows "wallet_inv sample_derive (\<lambda>_. 0) (coins n c)"
proof -
  have "core_inv sample_derive (\<lambda>_. 0) (coins n c)"
    using assms by (auto simp: core_inv_def coins_def getTx_def BRWalletContainsTx_def is_own_def field_string_def tx_ok_def BRTransactionIsSigned_def
      BRTransactionNew_def empty_wallet_def chain_of_def sample_derive_def list_ex_iff)
  moreover have "inj_on (\<lambda>i. (7 :: UInt256, word_of_nat i :: u32)) {0..<n}"
    using assms by (auto simp: inj_on_def dest: arg_cong [where f = unat] simp: unat_word_of_nat_less)
  moreover have "sum_list (map (utxo_value (coins n c)) (utxos (coins n c))) = of_nat n * c"
    using coins_values [OF assms(2) order_refl, of c] by (simp add: coins_def sum_list_replicate)
  ultimately show ?thesis
    using assms by (auto simp: wallet_inv_def books_def coins_def getTx_def distinct_map empty_wallet_def unat_word_of_nat_less)
qed

lemma coins_change: "BRWalletUnusedAddrs sample_derive (coins n c) 1 True \<noteq> Some ([], w')"
  using unused_addrs_total [OF sample_derive_ok, of "coins n c" 1 True]
  by (auto simp: coins_def empty_wallet_def sample_derive_def slice_def)

definition sample_payment :: "u64 \<Rightarrow> BRTxOutput" where
  "sample_payment a = \<lparr>out_address = [], out_amount = a, out_script = Some (replicate 25 1)\<rparr>"

lemma sample_payment_size: "spend_size [sample_payment a] n = 77 + BRVarIntSize (word_of_nat n) + n * 148"
  by (simp add: spend_size_def sample_payment_def output_size_def varint_size TX_INPUT_SIZE_def TX_OUTPUT_SIZE_def ptr_bytes_def)

theorem create_tx_witness:
  "\<exists>tx w' rs'. BRWalletCreateTxForOutputs 1 sample_derive [sample_payment 1000] (coins 3 (2 ^ 30), [5, 6]) = Some (Some tx, w', rs') \<and>
     spends_well (coins 3 (2 ^ 30)) w' [sample_payment 1000] tx"
proof -
  have f: "feePerKb (coins 3 (2 ^ 30)) = 50000" by (simp add: coins_def empty_wallet_def DEFAULT_FEE_PER_KB_def word_div_def)
  have s: "spend_size [sample_payment 1000] 3 = 522" by (simp add: sample_payment_size varint_size)
  have fee: "unat (txFee 50000 522) = 1000000"
    using txFee_nat(1) [of 50000 522] by (simp add: fee_nat_def TX_MAX_SIZE_def MAX_FEE_PER_KB_def word_div_def)
  have c: "utxos (coins 3 (2 ^ 30)) = map (\<lambda>i. (7, word_of_nat i)) [0..<3]" "unat (balance (coins 3 (2 ^ 30))) = 3 * 2 ^ 30"
    by (simp_all add: coins_def)
  have sum: "sum_list (map (unat \<circ> utxo_value (coins 3 (2 ^ 30))) (utxos (coins 3 (2 ^ 30)))) = 3 * 2 ^ 30"
    unfolding c(1) using coins_sum [of 3 3 "2 ^ 30"] by simp
  obtain res w' rs' where r: "BRWalletCreateTxForOutputs (Suc 0) sample_derive [sample_payment 1000] (coins 3 (2 ^ 30), [5, 6]) = Some (res, w', rs')"
    "case res of Some tx \<Rightarrow> spends_well (coins 3 (2 ^ 30)) w' [sample_payment 1000] tx
     | None \<Rightarrow> unat (balance (coins 3 (2 ^ 30))) < 1000 + 1000000"
    using create_tx [of sample_derive "\<lambda>_. 0" "coins 3 (2 ^ 30)" "[sample_payment 1000]" "[5, 6]" 0] coins_inv [of 3 "2 ^ 30"] sample_derive_ok coins_change f s fee sum c(1)
    by (auto simp: MAX_FEE_PER_KB_def word_div_def sample_payment_def ptr_bytes_def TX_MAX_SIZE_def split: option.splits)
  then show ?thesis using c(2) by (auto split: option.splits)
qed


end
