(* ===== verification/BRWalletAssetTx.thy ===== *)
theory BRWalletAssetTx
  imports BRWalletSpend
begin

text \<open>
  Transactions of \<open>BRWallet.c\<close> that create, transfer, reissue and burn assets, the parts into which such a transaction is shown, and the signing of a
  transaction with the keys of the wallet.
\<close>

section \<open>Asset transactions\<close>

definition strIssueSubAssetBurnAddressMainNet :: bytes where "strIssueSubAssetBurnAddressMainNet = ascii ''RXissueSubAssetXXXXXXXXXXXXXWcwhwL''"
definition strIssueUniqueAssetBurnAddressMainNet :: bytes where "strIssueUniqueAssetBurnAddressMainNet = ascii ''RXissueUniqueAssetXXXXXXXXXXWEAe58''"
definition strGlobalBurnAddressMainNet :: bytes where "strGlobalBurnAddressMainNet = ascii ''RXBurnXXXXXXXXXXXXXXXXXXXXXXWUo9FV''"

type_synonym script_setter = "bytes option \<Rightarrow> BRAsset \<Rightarrow> (bytes option \<times> nat) option"

text \<open>An output script for an asset: a zeroed array of the announced length, the script of the address in it, and the asset behind that.  The result is the array and what the
  second call returned.\<close>

definition asset_output :: "script_setter \<Rightarrow> BRAsset \<Rightarrow> bytes \<Rightarrow> (bytes \<times> nat) option" where
  "asset_output setter asst addr = do {
     (_, n) \<leftarrow> setter None asst;
     (script, k) \<leftarrow> setter (fst (BRAddressScriptPubKey (Some (replicate n 0)) addr)) asst;
     s \<leftarrow> script;
     Some (s, k)
   }"

definition copy_asset :: "BRAsset \<Rightarrow> BRTransaction \<Rightarrow> BRTransaction option" where
  "copy_asset asst tx = map_option (\<lambda>a. tx\<lparr>tx_asset := [a]\<rparr>) (CopyAsset asst)"

text \<open>\<open>asstWithOwner\<close>: \<open>nameLen + OWNER_LENGTH\<close> bytes into which name and tag are copied with a terminator.\<close>

definition name_with_owner :: "BRAsset \<Rightarrow> bytes option" where
  "name_with_owner asst = do {
     nm \<leftarrow> name asst;
     s \<leftarrow> cstr nm;
     buf \<leftarrow> wr (replicate (nameLen asst + length OWNER_TAG) 0) 0 (s @ [0]);
     buf \<leftarrow> wr buf (length s) (OWNER_TAG @ [0]);
     cstr buf
   }"

text \<open>The asset in an unspent output; the transaction and the output are used before they are checked.\<close>

definition utxo_asset :: "BRWallet \<Rightarrow> UTXO \<Rightarrow> (BRTransaction \<times> BRTxOutput \<times> (BRAsset option)) option" where
  "utxo_asset w u = do {
     tx \<leftarrow> getTx w (fst u);
     out \<leftarrow> rd (outputs tx) (unat (snd u));
     (found, temp) \<leftarrow> GetAssetData (ptr_bytes (out_script out)) NewAsset;
     Some (tx, out, if found then Some temp else None)
   }"

definition asset_string :: "BRAsset \<Rightarrow> bytes option" where
  "asset_string a = do { nm \<leftarrow> name a; cstr nm }"

definition spend_utxo :: "UTXO \<Rightarrow> BRTransaction \<Rightarrow> BRTxOutput \<Rightarrow> BRTransaction \<Rightarrow> BRTransaction option" where
  "spend_utxo u tx out transaction = BRTransactionAddInput transaction (txHash tx) (snd u) (out_amount out) (out_script out) None TXIN_SEQUENCE"

text \<open>The loop of a transfer: inputs that carry the asset, until their sum reaches the amount, and an asset change output when it exceeds it.\<close>

fun transfer_loop :: "derivation \<Rightarrow> BRAsset \<Rightarrow> bytes \<Rightarrow> UTXO list \<Rightarrow> u64 \<Rightarrow> BRTransaction \<times> BRWallet \<Rightarrow> (BRTransaction \<times> BRWallet) option" where
  "transfer_loop derive asst nm [] asst_balance st = Some st"
| "transfer_loop derive asst nm (u # us) asst_balance (transaction, w) = do {
     (tx, out, temp) \<leftarrow> utxo_asset w u;
     (case temp of None \<Rightarrow> transfer_loop derive asst nm us asst_balance (transaction, w)
      | Some temp \<Rightarrow> do {
          s \<leftarrow> asset_string temp;
          if s \<noteq> nm then transfer_loop derive asst nm us asst_balance (transaction, w)
          else do {
            transaction \<leftarrow> spend_utxo u tx out transaction;
            let asst_balance = asst_balance + amount temp;
            if amount asst < asst_balance then do {
              (addrs, w) \<leftarrow> BRWalletUnusedAddrs derive w 1 True;
              let addr = (case addrs of [] \<Rightarrow> [] | a # _ \<Rightarrow> a);
              (script, k) \<leftarrow> (do {
                 (_, n) \<leftarrow> BRTxOutputSetTransferAssetScript None asst;
                 BRTxOutputSetTransferAssetScript (fst (BRAddressScriptPubKey (Some (replicate n 0)) addr))
                   (asst\<lparr>amount := asst_balance - amount asst\<rparr>)
               });
              transaction \<leftarrow> BRTransactionAddOutput transaction 0 (map_option (take k) script);
              Some (transaction, w)
            } else if amount asst > asst_balance then transfer_loop derive asst nm us asst_balance (transaction, w)
            else Some (transaction, w)
          }
        })
   }"

text \<open>A transaction with one asset output, its fee, and the inputs that carry the asset.  A \<open>NULL\<close> transaction is dereferenced by \<open>CopyAsset\<close>.\<close>

definition asset_transfer :: "nat \<Rightarrow> derivation \<Rightarrow> bytes \<Rightarrow> BRAsset \<Rightarrow> BRWallet \<times> u32 list \<Rightarrow> (BRTransaction \<times> BRWallet \<times> u32 list) option" where
  "asset_transfer n derive addr asst st = do {
     (script, _) \<leftarrow> asset_output BRTxOutputSetTransferAssetScript asst addr;
     (transaction, w, rs) \<leftarrow> BRWalletCreateTxForOutputs n derive [\<lparr>out_address = address_field addr, out_amount = 0, out_script = Some script\<rparr>] st;
     transaction \<leftarrow> transaction;
     transaction \<leftarrow> copy_asset asst transaction;
     nm \<leftarrow> asset_string asst;
     (transaction, w) \<leftarrow> transfer_loop derive asst nm (utxos w) 0 (transaction, w);
     Some (transaction, w, rs)
   }"

definition BRWalletCreateTxForRootAssetTransfer ::
  "nat \<Rightarrow> derivation \<Rightarrow> u64 \<Rightarrow> bytes \<Rightarrow> BRAsset \<Rightarrow> BRWallet \<times> u32 list \<Rightarrow> (BRTransaction \<times> BRWallet \<times> u32 list) option" where
  "BRWalletCreateTxForRootAssetTransfer n derive amt addr asst st =
     (if amt \<noteq> 0 \<or> \<not> BRAddressIsValid addr then None else asset_transfer n derive addr asst st)"

definition BRWalletBurnRootAsset :: "nat \<Rightarrow> derivation \<Rightarrow> BRAsset \<Rightarrow> BRWallet \<times> u32 list \<Rightarrow> (BRTransaction \<times> BRWallet \<times> u32 list) option" where
  "BRWalletBurnRootAsset n derive asst st = asset_transfer n derive strGlobalBurnAddressMainNet asst st"

text \<open>The first unspent output that carries the asset with the given name is added as an input.\<close>

fun spend_named :: "BRWallet \<Rightarrow> bytes \<Rightarrow> UTXO list \<Rightarrow> BRTransaction \<Rightarrow> BRTransaction option" where
  "spend_named w nm [] transaction = Some transaction"
| "spend_named w nm (u # us) transaction = do {
     (tx, out, temp) \<leftarrow> utxo_asset w u;
     (case temp of None \<Rightarrow> spend_named w nm us transaction
      | Some temp \<Rightarrow> do {
          s \<leftarrow> asset_string temp;
          if s \<noteq> nm then spend_named w nm us transaction else spend_utxo u tx out transaction
        })
   }"

text \<open>The same loop of the ownership transfer, which also replaces the asset of the transactions that it looks at.\<close>

fun spend_owner :: "bytes \<Rightarrow> UTXO list \<Rightarrow> BRTransaction \<times> BRWallet \<Rightarrow> (BRTransaction \<times> BRWallet) option" where
  "spend_owner nm [] st = Some st"
| "spend_owner nm (u # us) (transaction, w) = do {
     (tx, out, temp) \<leftarrow> utxo_asset w u;
     let w = map_tx w (fst u) (\<lambda>t. t\<lparr>tx_asset := (case temp of None \<Rightarrow> [] | Some a \<Rightarrow> [a])\<rparr>);
     (case temp of None \<Rightarrow> spend_owner nm us (transaction, w)
      | Some temp \<Rightarrow> do {
          s \<leftarrow> asset_string temp;
          if s \<noteq> nm then spend_owner nm us (transaction, w)
          else map_option (\<lambda>transaction. (transaction, w)) (spend_utxo u tx out transaction)
        })
   }"

definition BRWalletCreateTxForRootAssetTransferOwnership ::
  "nat \<Rightarrow> derivation \<Rightarrow> u64 \<Rightarrow> bytes \<Rightarrow> BRAsset \<Rightarrow> BRWallet \<times> u32 list \<Rightarrow> (BRTransaction \<times> BRWallet \<times> u32 list) option" where
  "BRWalletCreateTxForRootAssetTransferOwnership n derive amt addr asst st =
     (if amt \<noteq> 0 \<or> \<not> BRAddressIsValid addr then None
      else do {
        (script, _) \<leftarrow> asset_output BRTxOutputSetTransferOwnerAssetScript asst addr;
        (transaction, w, rs) \<leftarrow> BRWalletCreateTxForOutputs n derive [\<lparr>out_address = address_field addr, out_amount = 0, out_script = Some script\<rparr>] st;
        transaction \<leftarrow> transaction;
        transaction \<leftarrow> copy_asset asst transaction;
        nm \<leftarrow> asset_string asst;
        (transaction, w) \<leftarrow> spend_owner nm (utxos w) (transaction, w);
        Some (transaction, w, rs)
      })"

text \<open>The burn output with which an issue begins, and an asset output that is appended.\<close>

definition burn_tx :: "nat \<Rightarrow> derivation \<Rightarrow> u64 \<Rightarrow> bytes \<Rightarrow> BRWallet \<times> u32 list \<Rightarrow> (BRTransaction \<times> BRWallet \<times> u32 list) option" where
  "burn_tx n derive amt burnAddr st = do {
     out \<leftarrow> BRTxOutputSetAddress (TX_OUTPUT_NONE\<lparr>out_amount := amt\<rparr>) (Some burnAddr);
     (transaction, w, rs) \<leftarrow> BRWalletCreateTxForOutputs n derive [out] st;
     transaction \<leftarrow> transaction;
     Some (transaction, w, rs)
   }"

definition append_asset :: "script_setter \<Rightarrow> BRAsset \<Rightarrow> bytes \<Rightarrow> BRTransaction \<Rightarrow> BRTransaction option" where
  "append_asset setter asst addr transaction = do {
     (script, _) \<leftarrow> asset_output setter asst addr;
     BRTransactionAddOutput transaction 0 (Some script)
   }"

text \<open>The ownership token goes to the next internal address and comes from the unspent output that carries it.\<close>

definition move_ownership :: "derivation \<Rightarrow> BRAsset \<Rightarrow> BRTransaction \<times> BRWallet \<Rightarrow> (BRTransaction \<times> BRWallet) option" where
  "move_ownership derive asst = (\<lambda>(transaction, w). do {
     (addrs, w) \<leftarrow> BRWalletUnusedAddrs derive w 1 True;
     let addr = (case addrs of [] \<Rightarrow> [] | a # _ \<Rightarrow> a);
     nm \<leftarrow> name_with_owner asst;
     transaction \<leftarrow> append_asset BRTxOutputSetTransferOwnerAssetScriptWithoutTag asst addr transaction;
     transaction \<leftarrow> spend_named w nm (utxos w) transaction;
     Some (transaction, w)
   })"

definition BRWalletCreateTxForRootAssetCreation ::
  "nat \<Rightarrow> derivation \<Rightarrow> u64 \<Rightarrow> bytes \<Rightarrow> BRAsset \<Rightarrow> BRWallet \<times> u32 list \<Rightarrow> (BRTransaction \<times> BRWallet \<times> u32 list) option" where
  "BRWalletCreateTxForRootAssetCreation n derive amt addr asset st =
     (if amt \<noteq> GetIssueAssetBurnAmount \<or> \<not> BRAddressIsValid addr then None
      else do {
        (tx, w, rs) \<leftarrow> burn_tx n derive amt strIssueAssetBurnAddressMainNet st;
        tx \<leftarrow> append_asset BRTxOutputSetOwnerAssetScript asset addr tx;
        tx \<leftarrow> append_asset BRTxOutputSetNewAssetScript asset addr tx;
        tx \<leftarrow> copy_asset asset tx;
        Some (tx, w, rs)
      })"

definition BRWalletCreateTxForSubAssetCreation ::
  "nat \<Rightarrow> derivation \<Rightarrow> u64 \<Rightarrow> bytes \<Rightarrow> BRAsset \<Rightarrow> BRAsset \<Rightarrow> BRWallet \<times> u32 list \<Rightarrow> (BRTransaction \<times> BRWallet \<times> u32 list) option" where
  "BRWalletCreateTxForSubAssetCreation n derive amt addr asst rootAsst st =
     (if amt \<noteq> GetIssueSubAssetBurnAmount \<or> \<not> BRAddressIsValid addr then None
      else do {
        (tx, w, rs) \<leftarrow> burn_tx n derive amt strIssueSubAssetBurnAddressMainNet st;
        (tx, w) \<leftarrow> move_ownership derive rootAsst (tx, w);
        tx \<leftarrow> append_asset BRTxOutputSetOwnerAssetScript asst addr tx;
        tx \<leftarrow> append_asset BRTxOutputSetNewAssetScript asst addr tx;
        tx \<leftarrow> copy_asset asst tx;
        Some (tx, w, rs)
      })"

definition BRWalletCreateTxForUniqueAssetCreation ::
  "nat \<Rightarrow> derivation \<Rightarrow> u64 \<Rightarrow> bytes \<Rightarrow> BRAsset \<Rightarrow> BRAsset \<Rightarrow> BRWallet \<times> u32 list \<Rightarrow> (BRTransaction \<times> BRWallet \<times> u32 list) option" where
  "BRWalletCreateTxForUniqueAssetCreation n derive amt addr asst rootAsst st =
     (if amt \<noteq> GetIssueUniqueAssetBurnAmount \<or> \<not> BRAddressIsValid addr then None
      else do {
        (tx, w, rs) \<leftarrow> burn_tx n derive amt strIssueUniqueAssetBurnAddressMainNet st;
        (tx, w) \<leftarrow> move_ownership derive rootAsst (tx, w);
        tx \<leftarrow> append_asset BRTxOutputSetNewAssetScript asst addr tx;
        tx \<leftarrow> copy_asset asst tx;
        Some (tx, w, rs)
      })"

definition BRWalletCreateTxForAssetsReissue ::
  "nat \<Rightarrow> derivation \<Rightarrow> u64 \<Rightarrow> bytes \<Rightarrow> BRAsset \<Rightarrow> BRWallet \<times> u32 list \<Rightarrow> (BRTransaction \<times> BRWallet \<times> u32 list) option" where
  "BRWalletCreateTxForAssetsReissue n derive amt addr asst st =
     (if amt \<noteq> GetReissueAssetBurnAmount \<or> \<not> BRAddressIsValid addr then None
      else do {
        (tx, w, rs) \<leftarrow> burn_tx n derive amt strReissueAssetBurnAddressMainNet st;
        tx \<leftarrow> copy_asset asst tx;
        (tx, w) \<leftarrow> move_ownership derive asst (tx, w);
        (script, k) \<leftarrow> asset_output BRTxOutputSetReissueAssetScript asst addr;
        tx \<leftarrow> BRTransactionAddOutput tx 0 (Some (take k script));
        Some (tx, w, rs)
      })"

section \<open>Parts of an asset transaction\<close>

text \<open>The first part holds the inputs and outputs without assets when the wallet spends with a valid transaction; each output that the wallet receives and that creates an asset or a token is
  a part of its own.  The index of an input, which counts the outputs of another transaction, is used for the outputs of this one.  \<open>txsCount\<close> new
  transactions are filled without a check; without any the number of parts is returned.\<close>

fun burn_inputs :: "BRTransaction \<Rightarrow> BRTxInput list \<Rightarrow> BRTransaction \<Rightarrow> BRTransaction option" where
  "burn_inputs tx [] part = Some part"
| "burn_inputs tx (inp # ins) part = do {
     out \<leftarrow> rd (outputs tx) (unat (in_index inp));
     if IsScriptAsset (ptr_bytes (out_script out)) then burn_inputs tx ins part
     else BRTransactionAddInput part (in_txHash inp) (in_index inp) (in_amount inp) (in_script inp) (in_signature inp) (in_sequence inp)
       \<bind> burn_inputs tx ins
   }"

definition asset_part :: "BRTransaction \<Rightarrow> BRTxOutput \<Rightarrow> BRTransaction option" where
  "asset_part tx out = do {
     part \<leftarrow> BRTransactionAddOutput (tx\<lparr>inputs := [], outputs := []\<rparr>) (out_amount out) (out_script out);
     (_, a) \<leftarrow> GetAssetData (ptr_bytes (out_script out)) NewAsset;
     Some (part\<lparr>tx_asset := [a]\<rparr>)
   }"

fun map_m :: "('a \<Rightarrow> 'b option) \<Rightarrow> 'a list \<Rightarrow> 'b list option" where
  "map_m f [] = Some []"
| "map_m f (x # xs) = do { y \<leftarrow> f x; ys \<leftarrow> map_m f xs; Some (y # ys) }"

definition BRTransactionDecompose :: "BRWallet \<Rightarrow> BRTransaction \<Rightarrow> nat \<Rightarrow> (BRTransaction list \<times> nat) option" where
  "BRTransactionDecompose w tx txsCount = do {
     burn \<leftarrow> (if BRWalletAmountSentByTx w tx > 0 then BRWalletTransactionIsValid w tx else Some False);
     (_, asstCount) \<leftarrow> BRWalletAssetsReceivedFromTx w tx None;
     if txsCount = 0 then Some ([], if burn then asstCount + 1 else asstCount)
     else do {
       first \<leftarrow> (if burn then do {
           part \<leftarrow> burn_inputs tx (inputs tx) (tx\<lparr>inputs := [], outputs := [], tx_asset := []\<rparr>);
           part \<leftarrow> add_outputs part (filter (\<lambda>out. \<not> IsScriptAsset (ptr_bytes (out_script out))) (outputs tx));
           Some [part]
         } else Some []);
       rest \<leftarrow> map_m (asset_part tx) (filter (\<lambda>out. IsScriptAsset (ptr_bytes (out_script out)) \<and>
          \<not> IsScriptTransferAsset (ptr_bytes (out_script out)) \<and> is_own w out) (outputs tx));
       if length (first @ rest) > txsCount then None else Some (first @ rest, length (first @ rest))
     }
   }"

section \<open>Signing\<close>

text \<open>The numbers of the addresses of a chain that an input may be signed for, the last address first.\<close>

definition chain_matches :: "bytes list \<Rightarrow> BRTxInput \<Rightarrow> nat list" where
  "chain_matches addrChain inp = filter (\<lambda>j. field_string (in_address inp) = addrChain ! j) (rev [0..<length addrChain])"

text \<open>The two index arrays have one element for each input; writing more is outside of them.  \<open>privKeys\<close> derives the keys with the given numbers of a chain from the seed.
  The result is 1 for signed, 0 for not signed and -1 without a seed.\<close>

definition BRWalletSignTransaction ::
  "'k key_ops \<Rightarrow> ('s \<Rightarrow> bool \<Rightarrow> nat list \<Rightarrow> 'k list) \<Rightarrow> BRWallet \<Rightarrow> BRTransaction \<Rightarrow> 's option \<Rightarrow> (BRTransaction \<times> int) option" where
  "BRWalletSignTransaction ops privKeys w tx seed =
     (let internalIdx = concat (map (chain_matches (internalChain w)) (inputs tx));
          externalIdx = concat (map (chain_matches (externalChain w)) (inputs tx))
      in if length internalIdx > length (inputs tx) \<or> length externalIdx > length (inputs tx) then None
         else case seed of None \<Rightarrow> Some (tx, - 1)
           | Some s \<Rightarrow> map_option (\<lambda>(tx, r). (tx, if r then 1 else 0))
               (BRTransactionSign ops tx (privKeys s True internalIdx @ privKeys s False externalIdx)))"

section \<open>Signing with the keys of the wallet\<close>

text \<open>What the derivation of keys from the seed promises: the private keys with given numbers belong to the addresses with these numbers.\<close>

definition keys_match :: "'k key_ops \<Rightarrow> ('s \<Rightarrow> bool \<Rightarrow> nat list \<Rightarrow> 'k list) \<Rightarrow> 's \<Rightarrow> derivation \<Rightarrow> bool" where
  "keys_match ops privKeys s derive \<longleftrightarrow>
     (\<forall>c idx. (\<forall>j\<in>set idx. derive c j \<noteq> None) \<longrightarrow> map (Some \<circ> keyAddress ops) (privKeys s c idx) = map (derive c) idx)"

text \<open>An input that spends a pay-to-pubkey-hash output of an address of the wallet.\<close>

definition own_input :: "BRWallet \<Rightarrow> BRTxInput \<Rightarrow> bool" where
  "own_input w inp \<longleftrightarrow> (\<exists>h. length h = 20 \<and> in_script inp = Some (p2pkh_script h) \<and> field_string (in_address inp) = pkh_address h \<and>
     pkh_address h \<in> allAddrs w)"

lemma chain_distinct:
  assumes "core_inv derive rank w" "derivation_ok derive"
  shows "distinct (chain_of w c)"
  unfolding distinct_conv_nth
proof (intro allI impI)
  fix i j assume "i < length (chain_of w c)" "j < length (chain_of w c)" "i \<noteq> j"
  then show "chain_of w c ! i \<noteq> chain_of w c ! j" using assms unfolding core_inv_def derivation_ok_def by (metis option.distinct(1))
qed

lemma chain_matches_length:
  assumes "distinct xs"
  shows "length (chain_matches xs inp) \<le> 1"
proof -
  let ?S = "{j. j < length xs \<and> xs ! j = field_string (in_address inp)}"
  have "card (set (chain_matches xs inp)) \<le> card ?S" by (rule card_mono) (auto simp: chain_matches_def)
  moreover have "card ?S \<le> 1" using assms by (auto simp: card_le_Suc0_iff_eq) (metis nth_eq_iff_index_eq)
  moreover have "card (set (chain_matches xs inp)) = length (chain_matches xs inp)" by (rule distinct_card) (simp add: chain_matches_def)
  ultimately show ?thesis by simp
qed

lemma matches_length: "distinct xs \<Longrightarrow> length (concat (map (chain_matches xs) ins)) \<le> length ins"
proof (induction ins)
  case (Cons inp ins)
  then show ?case using chain_matches_length [of xs inp] by simp
qed simp

lemma match_found: "j < length xs \<Longrightarrow> xs ! j = field_string (in_address inp) \<Longrightarrow> inp \<in> set ins \<Longrightarrow> j \<in> set (concat (map (chain_matches xs) ins))"
  by (auto simp: chain_matches_def)

lemma sign_own_inputs:
  fixes ops :: "'k key_ops"
  assumes "wallet_inv derive rank w" "derivation_ok derive" "keys_match ops privKeys s derive" "\<forall>inp\<in>set (inputs tx). own_input w inp"
    "\<forall>k d. length (keySign ops k d) \<le> 72 \<and> length (keyPubKey ops k) < 0x4c"
  shows "\<exists>tx'. BRWalletSignTransaction ops privKeys w tx (Some s) = Some (tx', 1) \<and> BRTransactionIsSigned tx' \<and>
     map input_utxo (inputs tx') = map input_utxo (inputs tx) \<and> outputs tx' = outputs tx \<and> txHash tx' = UInt256Get (SHA256_2 (tx_bytes tx')) \<and>
     BRWalletSignTransaction ops privKeys w tx None = Some (tx, - 1)"
proof -
  let ?idx = "\<lambda>c. concat (map (chain_matches (chain_of w c)) (inputs tx))"
  let ?keys = "privKeys s True (?idx True) @ privKeys s False (?idx False)"
  have core: "core_inv derive rank w" using assms(1) by (simp add: wallet_inv_def)
  have len: "length (?idx c) \<le> length (inputs tx)" for c using matches_length chain_distinct [OF core assms(2)] by blast
  have derived: "\<forall>j\<in>set (?idx c). derive c j \<noteq> None" for c using core by (auto simp: core_inv_def chain_matches_def)
  have key: "pkh_address h \<in> set (map (keyAddress ops) ?keys)"
    if inp: "inp \<in> set (inputs tx)" "field_string (in_address inp) = pkh_address h" and own: "pkh_address h \<in> allAddrs w" for inp h
  proof -
    obtain c j where j: "j < length (chain_of w c)" "chain_of w c ! j = pkh_address h"
    proof -
      have "pkh_address h \<in> set (chain_of w True) \<or> pkh_address h \<in> set (chain_of w False)" using own core by (auto simp: core_inv_def chain_of_def)
      then show ?thesis using that by (metis in_set_conv_nth)
    qed
    then have "derive c j = Some (pkh_address h)" "j \<in> set (?idx c)" using core match_found [OF j(1) _ inp(1)] inp(2) by (auto simp: core_inv_def)
    then have "Some (pkh_address h) \<in> set (map (derive c) (?idx c))" by force
    then have "Some (pkh_address h) \<in> set (map (Some \<circ> keyAddress ops) (privKeys s c (?idx c)))" using assms(3) derived [of c] by (simp only: keys_match_def)
    then show ?thesis by (cases c) auto
  qed
  have "\<forall>i < length (inputs tx). \<exists>h. length h = 20 \<and> in_script (inputs tx ! i) = Some (p2pkh_script h) \<and> pkh_address h \<in> set (map (keyAddress ops) ?keys)"
  proof (intro allI impI)
    fix i assume "i < length (inputs tx)"
    then have m: "inputs tx ! i \<in> set (inputs tx)" by simp
    then show "\<exists>h. length h = 20 \<and> in_script (inputs tx ! i) = Some (p2pkh_script h) \<and> pkh_address h \<in> set (map (keyAddress ops) ?keys)"
      using assms(4) key [OF m] unfolding own_input_def by blast
  qed
  from sign_all_pkh [OF this assms(5)] obtain tx' where t: "BRTransactionSign ops tx ?keys = Some (tx', True)" "length (inputs tx') = length (inputs tx)"
    "\<forall>i < length (inputs tx). pkh_signed ops ?keys tx i (inputs tx' ! i)" "txHash tx' = UInt256Get (SHA256_2 (tx_bytes tx'))"
    "tx' = tx\<lparr>txHash := txHash tx', inputs := inputs tx'\<rparr>" by blast
  have c: "in_signature (inputs tx' ! i) \<noteq> None \<and> input_utxo (inputs tx' ! i) = input_utxo (inputs tx ! i)" if i: "i < length (inputs tx)" for i
  proof -
    obtain sg where "in_core (inputs tx' ! i) = (in_core (inputs tx ! i))\<lparr>in_signature := Some sg\<rparr>" using t(3) i by (auto simp: pkh_signed_def)
    from arg_cong [OF this, of in_signature] arg_cong [OF this, of in_txHash] arg_cong [OF this, of in_index]
    show ?thesis by (simp add: in_core_def input_utxo_def)
  qed
  have "BRWalletSignTransaction ops privKeys w tx (Some s) = Some (tx', 1)"
    using t(1) len [of True] len [of False] by (simp add: BRWalletSignTransaction_def Let_def chain_of_def not_less [symmetric])
  moreover have "BRWalletSignTransaction ops privKeys w tx None = Some (tx, - 1)"
    using len [of True] len [of False] by (simp add: BRWalletSignTransaction_def Let_def chain_of_def not_less [symmetric])
  moreover have "BRTransactionIsSigned tx'" "map input_utxo (inputs tx') = map input_utxo (inputs tx)"
    using c t(2) by (auto simp: BRTransactionIsSigned_def list_all_length intro: nth_equalityI)
  moreover have "outputs tx' = outputs tx" using arg_cong [OF t(5), of outputs] by simp
  ultimately show ?thesis using t(4) by blast
qed

text \<open>An unspent output with a pay-to-pubkey-hash script of an address of the wallet.\<close>

definition own_utxo :: "BRWallet \<Rightarrow> UTXO \<Rightarrow> bool" where
  "own_utxo w u \<longleftrightarrow> (\<forall>t out. getTx w (fst u) = Some t \<longrightarrow> rd (outputs t) (unat (snd u)) = Some out \<longrightarrow>
     (\<exists>h. length h = 20 \<and> out_script out = Some (p2pkh_script h) \<and> pkh_address h \<in> allAddrs w))"

lemma base58_string_nonzero: "0 \<notin> set (base58_string data)"
proof -
  have z: "0 \<notin> set base58chars" "length base58chars = 58" by (simp_all add: base58chars_code)
  have "base58chars ! unat d \<noteq> 0" if "d \<in> set (drop k (base58_enc_digits data))" for d k
    using enc_digits_spec(2) [of data] in_set_dropD [OF that] z by (metis digits_ok_def nth_mem)
  moreover have "base58chars ! 0 \<noteq> 0" using z by (metis nth_mem zero_less_numeral)
  ultimately show ?thesis unfolding base58_string_def by (auto dest: sym)
qed

lemma address_field_string: "length h = 20 \<Longrightarrow> field_string (put 0 (pkh_address h @ [0]) no_address) = pkh_address h"
  using base58_string_nonzero [of "(60 # h) @ take 4 (SHA256_2 (60 # h))"]
  by (simp add: field_string_def put_def pkh_address_def takeWhile_append)

lemma add_own_input:
  assumes "length h = 20" "pkh_address h \<in> allAddrs w" "BRTransactionAddInput tx x i amt (Some (p2pkh_script h)) None sq = Some tx'"
    "\<forall>inp\<in>set (inputs tx). own_input w inp"
  shows "\<forall>inp\<in>set (inputs tx'). own_input w inp"
proof -
  obtain y where y: "tx' = tx\<lparr>inputs := inputs tx @ [y]\<rparr>" "in_script y = Some (p2pkh_script h)" "in_address y = put 0 (pkh_address h @ [0]) no_address"
    using assms(1,3) by (auto simp: BRTransactionAddInput_def BRTxInputSetScript_def Let_def pkh_address_of_script [OF p2pkh_pays [OF assms(1)]] split: if_splits)
  then have "own_input w y" unfolding own_input_def using assms(1,2) address_field_string by auto
  then show ?thesis using y(1) assms(4) by simp
qed

lemma select_own_inputs:
  assumes "select_utxos w amt m us (tx, bal, fee) = Some (large, tx', bal', fee')" "\<forall>u\<in>set us. own_utxo w u" "\<forall>inp\<in>set (inputs tx). own_input w inp"
  shows "\<forall>inp\<in>set (inputs tx'). own_input w inp"
  using assms
proof (induction us arbitrary: tx bal fee)
  case (Cons u us)
  show ?case
  proof (cases "getTx w (fst u)")
    case None
    then show ?thesis using Cons.IH Cons.prems by simp
  next
    case (Some t)
    then obtain out where out: "rd (outputs t) (unat (snd u)) = Some out" using Cons.prems(1) by (auto split: bind_splits)
    show ?thesis
    proof (cases "out_amount out = 0")
      case True
      then show ?thesis using Cons.IH Cons.prems Some out by simp
    next
      case False
      obtain h where h: "length h = 20" "out_script out = Some (p2pkh_script h)" "pkh_address h \<in> allAddrs w"
        using Cons.prems(2) Some out by (auto simp: own_utxo_def)
      obtain tx1 where tx1: "BRTransactionAddInput tx (txHash t) (snd u) (out_amount out) (out_script out) None TXIN_SEQUENCE = Some tx1"
        using Cons.prems(1) Some out False by (auto split: bind_splits)
      have own: "\<forall>inp\<in>set (inputs tx1). own_input w inp"
        using add_own_input [OF h(1,3) tx1 [unfolded h(2)] Cons.prems(3)] .
      have "(\<exists>b f. select_utxos w amt m us (tx1, b, f) = Some (large, tx', bal', fee')) \<or> tx' = tx1"
        using Cons.prems(1) Some out False tx1 by (auto simp: Let_def split: if_splits)
      then show ?thesis using Cons.IH [OF _ _ own] Cons.prems(2) own by auto
    qed
  qed
qed simp

lemma own_input_mono: "allAddrs w \<subseteq> allAddrs w' \<Longrightarrow> own_input w inp \<Longrightarrow> own_input w' inp"
  by (auto simp: own_input_def)

lemma add_change_inv:
  assumes "add_change derive tx v (w, rs) = Some (tx', w', rs')" "wallet_inv derive rank w" "derivation_ok derive"
  shows "wallet_inv derive rank w'" "allAddrs w \<subseteq> allAddrs w'" "inputs tx' = inputs tx"
proof -
  obtain addrs where a: "BRWalletUnusedAddrs derive w 1 True = Some (addrs, w')"
    using assms(1) by (auto simp: add_change_def Let_def split: bind_splits)
  then show "wallet_inv derive rank w'" using unused_addrs_inv [OF assms(3,2), of 1 True] by auto
  show "allAddrs w \<subseteq> allAddrs w'" using a by (auto simp: BRWalletUnusedAddrs_def Let_def split: bind_splits)
  show "inputs tx' = inputs tx"
    using assms(1) by (auto simp: add_change_def Let_def BRTransactionAddOutput_def BRTransactionShuffleOutputs_def split: bind_splits)
qed

lemma created_own_inputs:
  assumes "BRWalletCreateTxForOutputs n derive outs (w, rs) = Some (Some tx, w', rs')" "wallet_inv derive rank w" "derivation_ok derive"
    "\<forall>u\<in>set (utxos w). own_utxo w u"
  shows "wallet_inv derive rank w' \<and> allAddrs w \<subseteq> allAddrs w' \<and> (\<forall>inp\<in>set (inputs tx). own_input w inp)"
  using assms(1)
proof (induction n arbitrary: outs)
  case (Suc n)
  let ?amt = "sum_list (map out_amount outs)" and ?m = "BRWalletMinOutputAmount w"
  obtain tx0 where tx0: "add_outputs BRTransactionNew outs = Some tx0" "inputs tx0 = []"
    using add_outputs_core [of BRTransactionNew outs] by (auto simp: BRTransactionNew_def)
  obtain large tx1 bal fee where sel: "select_utxos w ?amt ?m (utxos w) (tx0, 0, txFee (feePerKb w) (BRTransactionSize tx0 + TX_OUTPUT_SIZE)) =
      Some (large, tx1, bal, fee)"
    using Suc.prems tx0(1) by (auto simp: Let_def split: if_splits bind_splits)
  have own: "\<forall>inp\<in>set (inputs tx1). own_input w inp" using select_own_inputs [OF sel assms(4)] tx0(2) by simp
  show ?case
  proof (cases large)
    case True
    then show ?thesis using Suc.prems tx0(1) sel Suc.IH by (simp add: Let_def split: if_splits)
  next
    case False
    then consider "tx = tx1 \<and> w' = w" | "\<exists>v. add_change derive tx1 v (w, rs) = Some (tx, w', rs')"
      using Suc.prems tx0(1) sel by (auto simp: Let_def split: if_splits)
    then show ?thesis
    proof cases
      case 1
      then show ?thesis using own assms(2) by simp
    next
      case 2
      then obtain v where "add_change derive tx1 v (w, rs) = Some (tx, w', rs')" by blast
      from add_change_inv [OF this assms(2,3)] own show ?thesis by simp
    qed
  qed
qed simp

text \<open>C30: what the wallet makes it can sign.  When the unspent outputs pay to addresses of the wallet and the keys that the seed gives belong to the derived addresses, every input of a
  transaction that \<open>BRWalletCreateTxForOutputs\<close> has returned gets a signature: \<open>BRWalletSignTransaction\<close> finds the number of each key without leaving its
  arrays, returns 1, keeps inputs and outputs and sets the hash of the signed transaction.  Without a seed it returns -1 and changes nothing.\<close>

theorem wallet_sign:
  fixes ops :: "'k key_ops"
  assumes "BRWalletCreateTxForOutputs n derive outs (w, rs) = Some (Some tx, w', rs')" "wallet_inv derive rank w" "derivation_ok derive"
    "\<forall>u\<in>set (utxos w). own_utxo w u" "keys_match ops privKeys s derive"
    "\<forall>k d. length (keySign ops k d) \<le> 72 \<and> length (keyPubKey ops k) < 0x4c"
  shows "\<exists>tx'. BRWalletSignTransaction ops privKeys w' tx (Some s) = Some (tx', 1) \<and> BRTransactionIsSigned tx' \<and>
     map input_utxo (inputs tx') = map input_utxo (inputs tx) \<and> outputs tx' = outputs tx \<and> txHash tx' = UInt256Get (SHA256_2 (tx_bytes tx')) \<and>
     BRWalletSignTransaction ops privKeys w' tx None = Some (tx, - 1)"
proof -
  have c: "wallet_inv derive rank w'" "allAddrs w \<subseteq> allAddrs w'" "\<forall>inp\<in>set (inputs tx). own_input w inp"
    using created_own_inputs [OF assms(1-4)] by simp_all
  then have "\<forall>inp\<in>set (inputs tx). own_input w' inp" using own_input_mono by blast
  then show ?thesis using sign_own_inputs [OF c(1) assms(3,5) _ assms(6)] by blast
qed

text \<open>A sample: a wallet with one external and one internal address.\<close>

definition one_each :: derivation where
  "one_each c j = (if j = 0 then Some (pkh_address (replicate 20 (if c then 1 else 2))) else None)"

definition one_coin :: BRWallet where
  "one_coin = empty_wallet\<lparr>allTx := [BRTransactionNew\<lparr>txHash := 7, blockHeight := 100,
       outputs := [\<lparr>out_address = pkh_address (replicate 20 2), out_amount = 2 ^ 30, out_script = Some (p2pkh_script (replicate 20 2))\<rparr>]\<rparr>],
     transactions := [7], externalChain := [pkh_address (replicate 20 2)], allAddrs := {pkh_address (replicate 20 2)}, utxos := [(7, 0)],
     balance := 2 ^ 30, totalReceived := 2 ^ 30, balanceHist := [2 ^ 30]\<rparr>"

definition one_key :: "bool key_ops" where
  "one_key = \<lparr>keyAddress = (\<lambda>c. pkh_address (replicate 20 (if c then 1 else 2))), keyPubKey = (\<lambda>_. [2, 3]), keySign = (\<lambda>_ _. [4, 5, 6])\<rparr>"

lemma one_each_ok: "derivation_ok one_each"
  by (auto simp: derivation_ok_def one_each_def split: if_splits)

lemma field_string_pkh: "field_string (pkh_address h) = pkh_address h"
  unfolding field_string_def pkh_address_def by (rule takeWhile_eq_all_conv [THEN iffD2]) (metis base58_string_nonzero)

lemma one_coin_inv: "wallet_inv one_each (\<lambda>_. 0) one_coin"
  by (auto simp: wallet_inv_def core_inv_def books_def one_coin_def one_each_def getTx_def BRWalletContainsTx_def is_own_def field_string_pkh tx_ok_def
      BRTransactionIsSigned_def BRTransactionNew_def empty_wallet_def chain_of_def utxo_value_def rd_def)

lemma one_coin_change: "BRWalletUnusedAddrs one_each one_coin 1 True \<noteq> Some ([], w')"
  by (simp add: BRWalletUnusedAddrs_def Let_def one_coin_def empty_wallet_def one_each_def gen_addrs.simps slice_def trailing_unused_def)

theorem wallet_sign_witness:
  "\<exists>tx w' rs' tx'. BRWalletCreateTxForOutputs 1 one_each [sample_payment 1000] (one_coin, [5, 6]) = Some (Some tx, w', rs') \<and>
     BRWalletSignTransaction one_key (\<lambda>_ c idx. map (\<lambda>_. c) idx) w' tx (Some ()) = Some (tx', 1) \<and> BRTransactionIsSigned tx'"
proof -
  have f: "feePerKb one_coin = 50000" by (simp add: one_coin_def empty_wallet_def DEFAULT_FEE_PER_KB_def word_div_def)
  have s: "spend_size [sample_payment 1000] 1 = 226" by (simp add: sample_payment_size varint_size)
  have fee: "unat (txFee 50000 226) = 1000000"
    using txFee_nat(1) [of 50000 226] by (simp add: fee_nat_def TX_MAX_SIZE_def MAX_FEE_PER_KB_def word_div_def)
  have c: "utxos one_coin = [(7, 0)]" "unat (balance one_coin) = 2 ^ 30" "utxo_value one_coin (7, 0) = 2 ^ 30"
    by (simp_all add: one_coin_def utxo_value_def getTx_def rd_def)
  obtain tx w' rs' where r: "BRWalletCreateTxForOutputs (Suc 0) one_each [sample_payment 1000] (one_coin, [5, 6]) = Some (Some tx, w', rs')"
    using create_for_outputs [of one_each "\<lambda>_. 0" one_coin "[sample_payment 1000]" "[5, 6]" 0] one_coin_inv one_each_ok one_coin_change f s fee c
    by (auto simp: MAX_FEE_PER_KB_def word_div_def sample_payment_def ptr_bytes_def TX_MAX_SIZE_def split: option.splits)
  moreover have "\<forall>u\<in>set (utxos one_coin). own_utxo one_coin u"
    by (auto simp: own_utxo_def one_coin_def getTx_def rd_def intro: exI [of _ "replicate 20 2"])
  moreover have "keys_match one_key (\<lambda>_ c idx. map (\<lambda>_. c) idx) () one_each"
    by (auto simp: keys_match_def one_key_def one_each_def split: if_splits)
  moreover have "\<forall>k d. length (keySign one_key k d) \<le> 72 \<and> length (keyPubKey one_key k) < 0x4c" by (simp add: one_key_def)
  ultimately show ?thesis using wallet_sign [OF _ one_coin_inv one_each_ok] by (metis One_nat_def)
qed

section \<open>The copy of the asset\<close>

lemma copy_asset_overflow:
  assumes "name asst = Some nm" "cstr nm = Some s" "nameLen asst \<le> length s"
  shows "copy_asset asst tx = None"
  using assms by (simp add: copy_asset_def CopyAsset_def wr_def)

text \<open>C31: asset transactions write behind the copy of the name.  When the length of the asset's name is the number of its characters, as the app sets it, each of the seven functions that
  make an asset transaction writes the terminator of the name behind the end of the memory that \<open>CopyAsset\<close> allocated for it.\<close>

theorem asset_name_overflow:
  assumes "name asst = Some nm" "cstr nm = Some s" "nameLen asst = length s"
  shows "BRWalletCreateTxForRootAssetTransfer n derive amt addr asst st = None \<and> BRWalletCreateTxForRootAssetTransferOwnership n derive amt addr asst st = None \<and>
    BRWalletBurnRootAsset n derive asst st = None \<and> BRWalletCreateTxForRootAssetCreation n derive amt addr asst st = None \<and>
    BRWalletCreateTxForSubAssetCreation n derive amt addr asst rootAsst st = None \<and>
    BRWalletCreateTxForUniqueAssetCreation n derive amt addr asst rootAsst st = None \<and>
    BRWalletCreateTxForAssetsReissue n derive amt addr asst st = None"
proof -
  have c: "copy_asset asst tx = None" for tx using copy_asset_overflow [OF assms(1,2)] assms(3) by simp
  have t: "asset_transfer n derive a asst st = None" for a by (auto simp: asset_transfer_def c split: bind_splits)
  show ?thesis
    by (simp add: BRWalletCreateTxForRootAssetTransfer_def BRWalletBurnRootAsset_def t BRWalletCreateTxForRootAssetTransferOwnership_def
      BRWalletCreateTxForRootAssetCreation_def BRWalletCreateTxForSubAssetCreation_def BRWalletCreateTxForUniqueAssetCreation_def
      BRWalletCreateTxForAssetsReissue_def c split_def)
qed

theorem asset_name_overflow_witness:
  "BRWalletBurnRootAsset 1 one_each (sample_asset\<lparr>nameLen := 5\<rparr>) (one_coin, [5, 6]) = None"
  using asset_name_overflow [of "sample_asset\<lparr>nameLen := 5\<rparr>" "ascii ''RAVEN'' @ [0]" "ascii ''RAVEN''" 1 one_each 0 "[]" "(one_coin, [5, 6])" NewAsset]
  by (simp add: sample_asset_def cstr_def ascii_def)

end
