(* ===== verification/BRCipher.thy ===== *)
theory BRCipher
  imports BRHash
begin

text \<open>
  The authenticated cipher of \<open>BRCrypto.c\<close>: Poly1305 on 26-bit limbs, the ChaCha20 stream cipher and their combination of RFC 7539.  The limbs are five
  32-bit words whose products are 64-bit words; \<open>le32\<close> and \<open>le64\<close> are the identity on a little-endian machine.
\<close>

section \<open>Poly1305\<close>

type_synonym limbs = "u32 \<times> u32 \<times> u32 \<times> u32 \<times> u32"

text \<open>The limbs of sixteen bytes, with the bit \<open>hibit\<close> above them, and those of the key with the bits that are cleared in it.\<close>

definition poly_limbs :: "u32 list \<Rightarrow> u32 \<Rightarrow> limbs" where
  "poly_limbs x hibit = (let t0 = x ! 0; t1 = x ! 1; t2 = x ! 2; t3 = x ! 3 in
     (t0 AND 0x03ffffff, (drop_bit 26 t0 OR push_bit 6 t1) AND 0x03ffffff, (drop_bit 20 t1 OR push_bit 12 t2) AND 0x03ffffff,
      (drop_bit 14 t2 OR push_bit 18 t3) AND 0x03ffffff, drop_bit 8 t3 OR hibit))"

definition poly_key :: "u32 list \<Rightarrow> limbs" where
  "poly_key x = (let t0 = x ! 0; t1 = x ! 1; t2 = x ! 2; t3 = x ! 3 in
     (t0 AND 0x03ffffff, (drop_bit 26 t0 OR push_bit 6 t1) AND 0x03ffff03, (drop_bit 20 t1 OR push_bit 12 t2) AND 0x03ffc0ff,
      (drop_bit 14 t2 OR push_bit 18 t3) AND 0x03f03fff, drop_bit 8 t3 AND 0x000fffff))"

definition poly_add :: "limbs \<Rightarrow> limbs \<Rightarrow> limbs" where
  "poly_add h x = (case h of (h0, h1, h2, h3, h4) \<Rightarrow> case x of (x0, x1, x2, x3, x4) \<Rightarrow> (h0 + x0, h1 + x1, h2 + x2, h3 + x3, h4 + x4))"

definition poly_mul :: "limbs \<Rightarrow> limbs \<Rightarrow> u64 \<times> u64 \<times> u64 \<times> u64 \<times> u64" where
  "poly_mul h r = (case h of (h0, h1, h2, h3, h4) \<Rightarrow> case r of (r0, r1, r2, r3, r4) \<Rightarrow>
     (let m = (\<lambda>a b. (ucast (a :: u32) :: u64) * ucast (b :: u32)) in
      (m h0 r0 + m h1 r4 * 5 + m h2 r3 * 5 + m h3 r2 * 5 + m h4 r1 * 5,
       m h0 r1 + m h1 r0 + m h2 r4 * 5 + m h3 r3 * 5 + m h4 r2 * 5,
       m h0 r2 + m h1 r1 + m h2 r0 + m h3 r4 * 5 + m h4 r3 * 5,
       m h0 r3 + m h1 r2 + m h2 r1 + m h3 r0 + m h4 r4 * 5,
       m h0 r4 + m h1 r3 + m h2 r2 + m h3 r1 + m h4 r0)))"

text \<open>\<open>(uint32_t)(d >> 26)\<close> is added to the next sum; the limbs take the low 26 bits.\<close>

definition poly_carry :: "u64 \<times> u64 \<times> u64 \<times> u64 \<times> u64 \<Rightarrow> limbs" where
  "poly_carry d = (case d of (d0, d1, d2, d3, d4) \<Rightarrow>
     (let c = (\<lambda>d. ucast (drop_bit 26 d :: u64) :: u32);
          d1 = d1 + ucast (c d0); h1 = ucast d1 AND 0x03ffffff;
          d2 = d2 + ucast (c d1); h2 = ucast d2 AND 0x03ffffff;
          d3 = d3 + ucast (c d2); h3 = ucast d3 AND 0x03ffffff;
          d4 = d4 + ucast (c d3); h4 = ucast d4 AND 0x03ffffff;
          h0 = (ucast d0 AND 0x03ffffff) + c d4 * 5; h1 = h1 + drop_bit 26 h0; h0 = h0 AND 0x03ffffff
      in (h0, h1, h2, h3, h4)))"

text \<open>The loop over 16-byte blocks; a last block that is shorter is padded with a one byte and zeros.\<close>

function poly_loop :: "limbs \<Rightarrow> bytes \<Rightarrow> limbs \<Rightarrow> limbs" where
  "poly_loop r data h =
     (if data = [] then h
      else let x = (if 16 > length data then data @ [1] @ replicate (15 - length data) 0 else take 16 data);
               hibit = (if 16 \<le> length data then push_bit 24 1 else 0)
           in poly_loop r (drop 16 data) (poly_carry (poly_mul (poly_add h (poly_limbs (words32 x) hibit)) r)))"
  by pat_completeness auto
termination by (relation "measure (\<lambda>(r, data, h). length data)") auto

declare poly_loop.simps [simp del]

text \<open>The final reduction and the addition of the second half of the key; four words remain.\<close>

definition poly_full_carry :: "limbs \<Rightarrow> limbs" where
  "poly_full_carry h = (case h of (h0, h1, h2, h3, h4) \<Rightarrow>
     (let h2 = h2 + drop_bit 26 h1; h1 = h1 AND 0x03ffffff; h3 = h3 + drop_bit 26 h2; h2 = h2 AND 0x03ffffff; h4 = h4 + drop_bit 26 h3;
          h3 = h3 AND 0x03ffffff; h0 = h0 + drop_bit 26 h4 * 5; h4 = h4 AND 0x03ffffff; h1 = h1 + drop_bit 26 h0; h0 = h0 AND 0x03ffffff
      in (h0, h1, h2, h3, h4)))"

definition poly_select :: "limbs \<Rightarrow> limbs" where
  "poly_select h = (case h of (h0, h1, h2, h3, h4) \<Rightarrow>
     (let t0 = h0 + 5; t1 = h1 + drop_bit 26 t0; t0 = t0 AND 0x03ffffff; t2 = h2 + drop_bit 26 t1; t1 = t1 AND 0x03ffffff;
          t3 = h3 + drop_bit 26 t2; t2 = t2 AND 0x03ffffff; t4 = h4 + drop_bit 26 t3 - push_bit 26 1; t3 = t3 AND 0x03ffffff;
          b = drop_bit 31 t4 - 1; pick = (\<lambda>h t. (h AND NOT b) OR (t AND b))
      in (pick h0 t0, pick h1 t1, pick h2 t2, pick h3 t3, pick h4 t4)))"

definition poly_mac :: "limbs \<Rightarrow> u32 list \<Rightarrow> u32 list" where
  "poly_mac h x = (case h of (h0, h1, h2, h3, h4) \<Rightarrow>
     (let g0 = h0 OR push_bit 26 h1; g1 = drop_bit 6 h1 OR push_bit 20 h2; g2 = drop_bit 12 h2 OR push_bit 14 h3; g3 = drop_bit 18 h3 OR push_bit 8 h4;
          d0 = (ucast g0 :: u64) + ucast (x ! 0); d1 = ucast g1 + ucast (x ! 1) + drop_bit 32 d0; d2 = ucast g2 + ucast (x ! 2) + drop_bit 32 d1;
          d3 = ucast g3 + ucast (x ! 3) + drop_bit 32 d2
      in [ucast d0, ucast d1, ucast d2, ucast d3]))"

text \<open>\<open>_Poly1305Compress\<close> without and with the final step.\<close>

definition Poly1305Compress :: "limbs \<Rightarrow> bytes \<Rightarrow> bytes \<Rightarrow> limbs" where
  "Poly1305Compress h key32 data = poly_loop (poly_key (words32 (take 16 key32))) data h"

definition Poly1305Final :: "limbs \<Rightarrow> bytes \<Rightarrow> bytes \<Rightarrow> bytes" where
  "Poly1305Final h key32 data = bytes32 (poly_mac (poly_select (poly_full_carry (Poly1305Compress h key32 data))) (words32 (slice 16 16 key32)))"

definition Poly1305 :: "bytes \<Rightarrow> bytes \<Rightarrow> bytes" where
  "Poly1305 key32 data = Poly1305Final (0, 0, 0, 0, 0) key32 data"

section \<open>ChaCha20\<close>

definition qr :: "nat \<Rightarrow> nat \<Rightarrow> nat \<Rightarrow> nat \<Rightarrow> u32 list \<Rightarrow> u32 list" where
  "qr i j k l x = (let a = x ! i; b = x ! j; c = x ! k; d = x ! l;
     a = a + b; d = rol32 (d XOR a) 16; c = c + d; b = rol32 (b XOR c) 12;
     a = a + b; d = rol32 (d XOR a) 8; c = c + d; b = rol32 (b XOR c) 7
     in x[i := a, j := b, k := c, l := d])"

definition chacha_rounds :: "u32 list \<Rightarrow> u32 list" where
  "chacha_rounds x = qr 3 4 9 14 (qr 2 7 8 13 (qr 1 6 11 12 (qr 0 5 10 15 (qr 3 7 11 15 (qr 2 6 10 14 (qr 1 5 9 13 (qr 0 4 8 12 x)))))))"

definition chacha_block :: "u32 list \<Rightarrow> bytes" where
  "chacha_block s = bytes32 (map2 (+) s ((chacha_rounds ^^ 10) s))"

definition chacha_next :: "u32 list \<Rightarrow> u32 list" where
  "chacha_next s = (let s = s[12 := s ! 12 + 1] in if s ! 12 = 0 then s[13 := s ! 13 + 1] else s)"

text \<open>The loop over the bytes: \<open>b\<close> is the block of the key stream.\<close>

fun chacha_loop :: "nat \<Rightarrow> u32 list \<Rightarrow> bytes \<Rightarrow> bytes \<Rightarrow> bytes" where
  "chacha_loop i s b [] = []"
| "chacha_loop i s b (x # xs) =
     (let (s, b) = (if i mod 64 = 0 then (chacha_next s, chacha_block s) else (s, b))
      in (x XOR b ! (i mod 64)) # chacha_loop (i + 1) s b xs)"

definition sigma :: bytes where "sigma = ascii ''expand 32-byte k''"

definition chacha_start :: "bytes \<Rightarrow> bytes \<Rightarrow> u64 \<Rightarrow> u32 list" where
  "chacha_start key32 iv8 counter = words32 sigma @ words32 key32 @ [ucast counter, ucast (drop_bit 32 counter)] @ words32 iv8"

definition Chacha20 :: "bytes \<Rightarrow> bytes \<Rightarrow> bytes \<Rightarrow> u64 \<Rightarrow> bytes" where
  "Chacha20 key32 iv8 data counter = chacha_loop 0 (chacha_start key32 iv8 counter) [] data"

section \<open>Authenticated encryption\<close>

text \<open>A message is authenticated in whole blocks and a rest that is padded with zeros.\<close>

definition poly_padded :: "limbs \<Rightarrow> bytes \<Rightarrow> bytes \<Rightarrow> limbs" where
  "poly_padded h macKey data = (let
     h = Poly1305Compress h macKey (take (length data div 16 * 16) data);
     pad = put 0 (drop (length data div 16 * 16) data) (replicate 16 0)
     in if length data mod 16 \<noteq> 0 then Poly1305Compress h macKey pad else h)"

definition aead_counter :: "bytes \<Rightarrow> u64" where
  "aead_counter nonce12 = push_bit 32 (ucast (UInt32GetLE (take 4 nonce12)))"

definition aead_mac :: "bytes \<Rightarrow> bytes \<Rightarrow> bytes \<Rightarrow> bytes \<Rightarrow> bytes" where
  "aead_mac key32 nonce12 ad cipher = (let
     macKey = Chacha20 key32 (drop 4 nonce12) (replicate 32 0) (aead_counter nonce12);
     h = poly_padded (0, 0, 0, 0, 0) macKey ad;
     h = poly_padded h macKey cipher
     in Poly1305Final h macKey (UInt64SetLE (word_of_nat (length ad)) @ UInt64SetLE (word_of_nat (length cipher))))"

text \<open>\<open>None\<close> as the output buffer asks for the length; else the length of the buffer is given, and the result is what is written and returned.\<close>

definition Chacha20Poly1305AEADEncrypt :: "nat option \<Rightarrow> bytes \<Rightarrow> bytes \<Rightarrow> bytes \<Rightarrow> bytes \<Rightarrow> bytes \<times> nat" where
  "Chacha20Poly1305AEADEncrypt outLen key32 nonce12 data ad =
     (case outLen of None \<Rightarrow> ([], length data + 16)
      | Some outLen \<Rightarrow>
        if outLen < length data + 16 \<or> length data div 64 \<ge> 2 ^ 32 - 1 then ([], 0)
        else let out = Chacha20 key32 (drop 4 nonce12) data (aead_counter nonce12 + 1)
             in (out @ aead_mac key32 nonce12 ad out, length data + 16))"

definition Chacha20Poly1305AEADDecrypt :: "nat option \<Rightarrow> bytes \<Rightarrow> bytes \<Rightarrow> bytes \<Rightarrow> bytes \<Rightarrow> bytes \<times> nat" where
  "Chacha20Poly1305AEADDecrypt outLen key32 nonce12 data ad =
     (case outLen of None \<Rightarrow> ([], if length data < 16 then 0 else length data - 16)
      | Some outLen \<Rightarrow>
        if length data < 16 \<or> (length data - 16) div 64 \<ge> 2 ^ 32 - 1 \<or> outLen + 16 < length data then ([], 0)
        else let n = length data - 16; h = words32 (aead_mac key32 nonce12 ad (take n data)); mac = words32 (drop n data);
                 n = (if (mac ! 0 XOR h ! 0) OR (mac ! 1 XOR h ! 1) OR (mac ! 2 XOR h ! 2) OR (if mac ! 3 XOR h ! 3 \<noteq> 0 then 1 else 0) \<noteq> 0 then 0 else n)
             in (Chacha20 key32 (drop 4 nonce12) (take n data) (aead_counter nonce12 + 1), n))"

section \<open>The key stream\<close>

lemma unat_low: "unat (ucast (c :: u64) :: u32) = unat c mod 2 ^ 32"
  by (simp add: unsigned_ucast_eq take_bit_eq_mod)

lemma unat_high: "unat (ucast (drop_bit 32 (c :: u64)) :: u32) = unat c div 2 ^ 32"
proof -
  have "unat c div 2 ^ 32 < 2 ^ 32" using unat_less_pow [of c] by (simp add: less_mult_imp_div_less)
  then show ?thesis by (simp add: unsigned_ucast_eq take_bit_eq_mod unat_drop_bit)
qed

lemma low_half_Suc: "(ucast (c + 1 :: u64) :: u32) = ucast c + 1"
proof -
  have "(unat c + 1) mod 2 ^ 64 mod 2 ^ 32 = (unat c + 1) mod 2 ^ 32" by (rule mod_mod_cancel) (simp add: le_imp_power_dvd)
  then have "unat (ucast (c + 1) :: u32) = unat (ucast c + 1 :: u32)"
    unfolding unat_low by (simp add: unat_word_ariths unat_low mod_simps unsigned_ucast_eq take_bit_eq_mod)
  then show ?thesis by (simp add: word_unat_eq_iff)
qed

lemma high_half_Suc:
  "(ucast (drop_bit 32 (c + 1 :: u64)) :: u32) = (if (ucast c + 1 :: u32) = 0 then ucast (drop_bit 32 c) + 1 else ucast (drop_bit 32 c))"
proof -
  define n where "n = unat c"
  define q r where "q = n div 2 ^ 32" and "r = n mod 2 ^ 32"
  have n: "n = q * 2 ^ 32 + r" "r < 2 ^ 32" "q < 2 ^ 32"
    using unat_less_pow [of c] by (auto simp: q_def r_def n_def less_mult_imp_div_less)
  have z: "(ucast c + 1 :: u32) = 0 \<longleftrightarrow> r = 2 ^ 32 - 1"
  proof -
    have "unat (ucast c + 1 :: u32) = (r + 1) mod 2 ^ 32" by (simp add: unat_word_ariths unat_low mod_simps r_def n_def unsigned_ucast_eq take_bit_eq_mod)
    then have "(ucast c + 1 :: u32) = 0 \<longleftrightarrow> (r + 1) mod 2 ^ 32 = 0" by (simp add: word_unat_eq_iff)
    also have "\<dots> \<longleftrightarrow> r = 2 ^ 32 - 1" using n(2) by (cases "r + 1 = 2 ^ 32") auto
    finally show ?thesis .
  qed
  have s: "unat (c + 1) = (n + 1) mod 2 ^ 64" by (simp add: unat_word_ariths n_def)
  have "unat (ucast (drop_bit 32 (c + 1)) :: u32) = (if r = 2 ^ 32 - 1 then (q + 1) mod 2 ^ 32 else q)"
  proof (cases "r = 2 ^ 32 - 1")
    case True
    then have "n + 1 = (q + 1) * 2 ^ 32" using n(1) by simp
    then have "(n + 1) mod 2 ^ 64 = ((q + 1) * 2 ^ 32) mod (2 ^ 32 * 2 ^ 32)" by simp
    also have "\<dots> = ((q + 1) mod 2 ^ 32) * 2 ^ 32" by (rule mult_mod_left [symmetric])
    finally show ?thesis using True unfolding unat_high s by simp
  next
    case False
    then have "n + 1 = r + 1 + q * 2 ^ 32" "r + 1 < 2 ^ 32" using n(1,2) by simp_all
    moreover have "n + 1 < 2 ^ 64" using calculation n(3) by simp
    ultimately show ?thesis using False unfolding unat_high s by simp
  qed
  moreover have "unat (ucast (drop_bit 32 c) :: u32) = q" unfolding unat_high by (simp add: q_def n_def)
  ultimately show ?thesis using z by (auto simp: word_unat_eq_iff unat_word_ariths)
qed


section \<open>The key stream\<close>

text \<open>Byte \<open>i\<close> of the key stream: the blocks are numbered by the 64-bit counter.\<close>

definition key_stream :: "bytes \<Rightarrow> bytes \<Rightarrow> u64 \<Rightarrow> nat \<Rightarrow> u8" where
  "key_stream key32 iv8 counter i = chacha_block (chacha_start key32 iv8 (counter + word_of_nat (i div 64))) ! (i mod 64)"

lemma length_sigma [simp]: "length sigma = 16"
  by (simp add: sigma_def ascii_def)

lemma chacha_next_start:
  assumes "length key32 = 32"
  shows "chacha_next (chacha_start key32 iv8 c) = chacha_start key32 iv8 (c + 1)"
proof -
  have "chacha_start key32 iv8 c = (words32 sigma @ words32 key32) @ ucast c # ucast (drop_bit 32 c) # words32 iv8" for c
    by (simp add: chacha_start_def)
  moreover have "length (words32 sigma @ words32 key32) = 12" using assms by simp
  ultimately show ?thesis
    by (simp only: chacha_next_def Let_def) (simp add: list_update_append nth_append low_half_Suc high_half_Suc)
qed

lemma chacha_loop_stream:
  assumes "length key32 = 32" "if i mod 64 = 0 then s = chacha_start key32 iv8 (c + word_of_nat (i div 64))
     else s = chacha_start key32 iv8 (c + word_of_nat (i div 64) + 1) \<and> b = chacha_block (chacha_start key32 iv8 (c + word_of_nat (i div 64)))"
  shows "chacha_loop i s b data = map2 (XOR) data (map (\<lambda>k. key_stream key32 iv8 c (i + k)) [0..<length data])"
  using assms(2)
proof (induction data arbitrary: i s b)
  case (Cons x xs)
  define s' where "s' = chacha_start key32 iv8 (c + word_of_nat (i div 64) + 1)"
  define b' where "b' = chacha_block (chacha_start key32 iv8 (c + word_of_nat (i div 64)))"
  have sb: "(if i mod 64 = 0 then (chacha_next s, chacha_block s) else (s, b)) = (s', b')"
    using Cons.prems chacha_next_start [OF assms(1)] by (auto simp: s'_def b'_def split: if_splits)
  have hd: "b' ! (i mod 64) = key_stream key32 iv8 c i" by (simp add: b'_def key_stream_def)
  have nx: "if Suc i mod 64 = 0 then s' = chacha_start key32 iv8 (c + word_of_nat (Suc i div 64))
     else s' = chacha_start key32 iv8 (c + word_of_nat (Suc i div 64) + 1) \<and> b' = chacha_block (chacha_start key32 iv8 (c + word_of_nat (Suc i div 64)))"
    by (simp add: s'_def b'_def div_Suc ac_simps)
  have "map (\<lambda>k. key_stream key32 iv8 c (i + k)) [0..<length (x # xs)] = key_stream key32 iv8 c i # map (\<lambda>k. key_stream key32 iv8 c (Suc i + k)) [0..<length xs]"
    by (simp add: upt_conv_Cons map_Suc_upt [symmetric] comp_def del: upt_Suc)
  then show ?case using Cons.IH [OF nx] by (simp add: sb hd del: upt_Suc)
qed simp

lemma Chacha20_stream:
  "length key32 = 32 \<Longrightarrow> Chacha20 key32 iv8 data c = map2 (XOR) data (map (key_stream key32 iv8 c) [0..<length data])"
  unfolding Chacha20_def by (subst chacha_loop_stream [where c = c]) simp_all

lemma length_Chacha20 [simp]: "length key32 = 32 \<Longrightarrow> length (Chacha20 key32 iv8 data c) = length data"
  by (simp add: Chacha20_stream)

lemma Chacha20_involution: "length key32 = 32 \<Longrightarrow> Chacha20 key32 iv8 (Chacha20 key32 iv8 data c) c = data"
  by (rule nth_equalityI) (simp_all add: Chacha20_stream xor.assoc)

end
