(* ===== verification/BRPoly1305.thy ===== *)
theory BRPoly1305
  imports BRCipher
begin

text \<open>
  Poly1305 computes the polynomial of RFC 7539: each routine on limbs is described by the number that the limbs stand for, modulo the prime, and the bounds
  under which no word wraps.
\<close>

section \<open>Numbers of bytes\<close>

section \<open>Numbers\<close>

text \<open>The number that bytes stand for, the least significant first, and the number that limbs stand for.\<close>

definition le_num :: "bytes \<Rightarrow> nat" where
  "le_num bs = foldr (\<lambda>b n. unat b + 256 * n) bs 0"

definition limbs_num :: "limbs \<Rightarrow> nat" where
  "limbs_num h = (case h of (h0, h1, h2, h3, h4) \<Rightarrow> unat h0 + 2 ^ 26 * unat h1 + 2 ^ 52 * unat h2 + 2 ^ 78 * unat h3 + 2 ^ 104 * unat h4)"

lemma le_num_simps [simp]: "le_num [] = 0" "le_num (b # bs) = unat b + 256 * le_num bs"
  by (simp_all add: le_num_def)

lemma le_num_append: "le_num (xs @ ys) = le_num xs + 256 ^ length xs * le_num ys"
  by (induction xs) (simp_all add: algebra_simps)

lemma le_num_less: "le_num bs < 256 ^ length bs"
proof (induction bs)
  case (Cons b bs)
  have "unat b < 256" using unat_less_pow [of b] by simp
  then have "unat b + 256 * le_num bs < 256 * (le_num bs + 1)" by simp
  also have "\<dots> \<le> 256 * 256 ^ length bs" using Cons.IH by (intro mult_le_mono) simp_all
  finally show ?case by simp
qed simp

lemma le_num_zeros [simp]: "le_num (replicate n 0) = 0"
  by (induction n) simp_all

lemma limb_digit_split:
  assumes "a < 256" "b < 256" "a + 256 * m = b + 256 * (n :: nat)"
  shows "a = b \<and> m = n"
proof -
  have "a = b" using arg_cong [OF assms(3), of "\<lambda>x. x mod 256"] assms(1,2) by simp
  then show ?thesis using assms(3) by simp
qed

lemma le_num_inj: "length xs = length ys \<Longrightarrow> le_num xs = le_num ys \<Longrightarrow> xs = ys"
proof (induction xs ys rule: list_induct2)
  case (Cons x xs y ys)
  have "unat x < 256" "unat y < 256" using unat_less_pow [of x] unat_less_pow [of y] by simp_all
  moreover have "unat x + 256 * le_num xs = unat y + 256 * le_num ys" using Cons.prems by simp
  ultimately have "unat x = unat y \<and> le_num xs = le_num ys" by (rule limb_digit_split)
  then show ?case using Cons.IH by (simp add: word_unat_eq_iff)
qed simp

lemma unat_or_push:
  fixes x y :: "'a::len word"
  assumes "unat y < 2 ^ n" "2 ^ n * unat x < 2 ^ LENGTH('a)"
  shows "unat (push_bit n x OR y) = 2 ^ n * unat x + unat y"
proof -
  have "unat (push_bit n x) = push_bit n (unat x)"
    unfolding unsigned_push_bit_eq by (rule take_bit_nat_eq_self) (use assms(2) in \<open>simp add: push_bit_eq_mult mult.commute\<close>)
  then have "unat (push_bit n x OR y) = push_bit n (unat x) OR unat y" by (simp add: unsigned_or_eq)
  also have "\<dots> = push_bit n (unat x) + unat y"
  proof (rule disjunctive_add_eq_or [symmetric], rule bit_eqI)
    fix m
    have "\<not> bit (unat y) m" if "n \<le> m"
      using assms(1) that by (metis bit_take_bit_iff less_le_not_le take_bit_nat_eq_self)
    then show "bit (push_bit n (unat x) AND unat y) m = bit (0 :: nat) m" by (auto simp: bit_simps)
  qed
  finally show ?thesis by (simp add: push_bit_eq_mult mult.commute)
qed

lemma unat_u8: "unat (ucast (b :: u8) :: u32) = unat b" "unat b < 256"
  using unat_less_pow [of b] by (simp_all add: unsigned_ucast_eq take_bit_nat_eq_self)

lemma le_num_32: "unat (UInt32GetLE [a, b, c, d]) = le_num [a, b, c, d]"
proof -
  note u = unat_u8(2) [of a] unat_u8(2) [of b] unat_u8(2) [of c] unat_u8(2) [of d]
  have 1: "unat (push_bit 8 (ucast b) OR ucast a :: u32) = 2 ^ 8 * unat b + unat a"
    using u by (subst unat_or_push) (simp_all add: unat_u8(1))
  have 2: "unat (push_bit 16 (ucast c) OR push_bit 8 (ucast b) OR ucast a :: u32) = 2 ^ 16 * unat c + (2 ^ 8 * unat b + unat a)"
    using u by (subst unat_or_push) (simp_all add: unat_u8(1) 1)
  show ?thesis unfolding UInt32GetLE_def using u by (simp, subst unat_or_push) (simp_all add: unat_u8(1) 2)
qed

lemma words32_16:
  assumes "length x = 16"
  shows "le_num x = unat (words32 x ! 0) + 2 ^ 32 * unat (words32 x ! 1) + 2 ^ 64 * unat (words32 x ! 2) + 2 ^ 96 * unat (words32 x ! 3)"
proof -
  obtain a0 a1 a2 a3 b0 b1 b2 b3 c0 c1 c2 c3 d0 d1 d2 d3 where x: "x = [a0, a1, a2, a3, b0, b1, b2, b3, c0, c1, c2, c3, d0, d1, d2, d3]"
    using assms by (auto simp: length_Suc_conv numeral_eq_Suc)
  have w: "words32 x = [UInt32GetLE [a0, a1, a2, a3], UInt32GetLE [b0, b1, b2, b3], UInt32GetLE [c0, c1, c2, c3], UInt32GetLE [d0, d1, d2, d3]]"
    by (simp add: words32_def x slice_def upt_rec)
  show ?thesis unfolding w by (simp add: le_num_32 x)
qed

section \<open>Limbs\<close>

lemma mask26: "(0x03ffffff :: 'a::len word) = mask 26"
  by (simp add: mask_eq_exp_minus_1)

lemma unat_and_mask26: "unat ((w :: 'a::len word) AND 0x03ffffff) = unat w mod 2 ^ 26"
  unfolding mask26 take_bit_eq_mask [symmetric] unsigned_take_bit_eq by (simp add: take_bit_eq_mod)

lemma split_div: "T = a + n * b \<Longrightarrow> 0 < n \<Longrightarrow> T mod n = a mod n \<and> T div n = a div n + (b :: nat)"
  by simp

lemma unat_limb_or:
  assumes "m \<le> 26"
  shows "unat ((drop_bit (32 - m) a OR push_bit m b) AND 0x03ffffff :: u32) = (unat a div 2 ^ (32 - m) + 2 ^ m * unat b) mod 2 ^ 26"
proof -
  have a: "unat a div 2 ^ (32 - m) < 2 ^ m"
  proof -
    have "unat a < 2 ^ (32 - m) * 2 ^ m" using unat_less_pow [of a] assms by (simp flip: power_add)
    then show ?thesis by (simp add: less_mult_imp_div_less mult.commute)
  qed
  have d: "unat (drop_bit (32 - m) a) = drop_bit (32 - m) (unat a)" unfolding unat_drop_bit by (simp add: drop_bit_eq_div)
  have "unat (drop_bit (32 - m) a OR push_bit m b) mod 2 ^ 26 = take_bit 26 (drop_bit (32 - m) (unat a) OR take_bit 32 (push_bit m (unat b)))"
    unfolding unsigned_or_eq unsigned_push_bit_eq d take_bit_eq_mod by simp
  also have "\<dots> = take_bit 26 (push_bit m (unat b) OR drop_bit (32 - m) (unat a))" by (simp add: take_bit_or or.commute)
  also have "push_bit m (unat b) OR drop_bit (32 - m) (unat a) = push_bit m (unat b) + drop_bit (32 - m) (unat a)"
  proof (rule disjunctive_add_eq_or [symmetric], rule bit_eqI)
    fix k
    have "\<not> bit (drop_bit (32 - m) (unat a)) k" if "m \<le> k"
      using a that by (metis bit_take_bit_iff drop_bit_eq_div less_le_not_le take_bit_nat_eq_self)
    then show "bit (push_bit m (unat b) AND drop_bit (32 - m) (unat a)) k = bit (0 :: nat) k" by (auto simp: bit_simps)
  qed
  finally show ?thesis unfolding unat_and_mask26 by (simp add: take_bit_eq_mod push_bit_eq_mult drop_bit_eq_div algebra_simps)
qed

text \<open>The limbs of a number.\<close>

definition limb :: "nat \<Rightarrow> nat \<Rightarrow> nat" where
  "limb i T = T div 2 ^ (26 * i) mod 2 ^ 26"

lemma limb_sum: "limb 0 T + 2 ^ 26 * limb 1 T + 2 ^ 52 * limb 2 T + 2 ^ 78 * limb 3 T + 2 ^ 104 * (T div 2 ^ 104) = T"
proof -
  have s: "T div 2 ^ k mod 2 ^ 26 + 2 ^ 26 * (T div 2 ^ (k + 26)) = T div 2 ^ k" for k
    by (simp add: power_add div_mult2_eq)
  have "T div 2 ^ 0 = limb 0 T + 2 ^ 26 * (T div 2 ^ 26)" using s [of 0] by (simp add: limb_def)
  also have "T div 2 ^ 26 = limb 1 T + 2 ^ 26 * (T div 2 ^ 52)" using s [of 26] by (simp add: limb_def)
  also have "T div 2 ^ 52 = limb 2 T + 2 ^ 26 * (T div 2 ^ 78)" using s [of 52] by (simp add: limb_def)
  also have "T div 2 ^ 78 = limb 3 T + 2 ^ 26 * (T div 2 ^ 104)" using s [of 78] by (simp add: limb_def)
  finally show ?thesis by simp
qed

definition num4 :: "u32 list \<Rightarrow> nat" where
  "num4 x = unat (x ! 0) + 2 ^ 32 * unat (x ! 1) + 2 ^ 64 * unat (x ! 2) + 2 ^ 96 * unat (x ! 3)"

lemma limbs_of_words:
  fixes x :: "u32 list"
  defines "T \<equiv> num4 x"
  shows "unat (x ! 0 AND 0x03ffffff) = limb 0 T"
    "unat ((drop_bit 26 (x ! 0) OR push_bit 6 (x ! 1)) AND 0x03ffffff) = limb 1 T"
    "unat ((drop_bit 20 (x ! 1) OR push_bit 12 (x ! 2)) AND 0x03ffffff) = limb 2 T"
    "unat ((drop_bit 14 (x ! 2) OR push_bit 18 (x ! 3)) AND 0x03ffffff) = limb 3 T"
    "unat (drop_bit 8 (x ! 3)) = T div 2 ^ 104"
proof -
  define t0 t1 t2 t3 where "t0 = unat (x ! 0)" and "t1 = unat (x ! 1)" and "t2 = unat (x ! 2)" and "t3 = unat (x ! 3)"
  note t = t0_def t1_def t2_def t3_def
  have less: "t0 < 2 ^ 32" "t1 < 2 ^ 32" "t2 < 2 ^ 32" "t3 < 2 ^ 32"
    using unat_less_pow [of "x ! 0"] unat_less_pow [of "x ! 1"] unat_less_pow [of "x ! 2"] unat_less_pow [of "x ! 3"] by (simp_all add: t)
  have T: "T = t0 + 2 ^ 32 * t1 + 2 ^ 64 * t2 + 2 ^ 96 * t3" by (simp add: T_def num4_def t)
  have "T = t0 + 2 ^ 26 * (2 ^ 6 * (t1 + 2 ^ 32 * t2 + 2 ^ 64 * t3))" by (simp add: T)
  from split_div [OF this] have d0: "T mod 2 ^ 26 = t0 mod 2 ^ 26" and d1: "T div 2 ^ 26 = t0 div 2 ^ 26 + 2 ^ 6 * (t1 + 2 ^ 32 * t2 + 2 ^ 64 * t3)"
    by simp_all
  from d0 show "unat (x ! 0 AND 0x03ffffff) = limb 0 T" by (simp add: unat_and_mask26 limb_def t)
  have "T div 2 ^ 26 = t0 div 2 ^ 26 + 2 ^ 6 * t1 + 2 ^ 26 * (2 ^ 12 * (t2 + 2 ^ 32 * t3))" unfolding d1 by simp
  from split_div [OF this] have "T div 2 ^ 26 mod 2 ^ 26 = (t0 div 2 ^ 26 + 2 ^ 6 * t1) mod 2 ^ 26" by simp
  then show "unat ((drop_bit 26 (x ! 0) OR push_bit 6 (x ! 1)) AND 0x03ffffff) = limb 1 T"
    using unat_limb_or [of 6 "x ! 0" "x ! 1"] by (simp add: limb_def t)
  have "T = t0 + 2 ^ 32 * (t1 + 2 ^ 32 * t2 + 2 ^ 64 * t3)" by (simp add: T)
  from split_div [OF this] have e1: "T div 2 ^ 32 = t1 + 2 ^ 32 * t2 + 2 ^ 64 * t3" using less by simp
  have e2: "T div 2 ^ 52 = T div 2 ^ 32 div 2 ^ 20" by (simp flip: div_mult2_eq)
  have "T div 2 ^ 32 = t1 + 2 ^ 20 * (2 ^ 12 * t2 + 2 ^ 26 * (2 ^ 18 * t3))" unfolding e1 by simp
  from split_div [OF this] have "T div 2 ^ 52 = (t1 div 2 ^ 20 + 2 ^ 12 * t2) + 2 ^ 26 * (2 ^ 18 * t3)" unfolding e2 by simp
  from split_div [OF this] have "T div 2 ^ 52 mod 2 ^ 26 = (t1 div 2 ^ 20 + 2 ^ 12 * t2) mod 2 ^ 26" by simp
  then show "unat ((drop_bit 20 (x ! 1) OR push_bit 12 (x ! 2)) AND 0x03ffffff) = limb 2 T"
    using unat_limb_or [of 12 "x ! 1" "x ! 2"] by (simp add: limb_def t)
  have f0: "T = (t0 + 2 ^ 32 * t1) + 2 ^ 64 * (t2 + 2 ^ 32 * t3)" "t0 + 2 ^ 32 * t1 < 2 ^ 64" using less by (simp_all add: T)
  from split_div [OF f0(1)] f0(2) have f1: "T div 2 ^ 64 = t2 + 2 ^ 32 * t3" by simp
  have f2: "T div 2 ^ 78 = T div 2 ^ 64 div 2 ^ 14" by (simp flip: div_mult2_eq)
  have "T div 2 ^ 64 = t2 + 2 ^ 14 * (2 ^ 18 * t3)" unfolding f1 by simp
  from split_div [OF this] have "T div 2 ^ 78 = t2 div 2 ^ 14 + 2 ^ 18 * t3" unfolding f2 by simp
  then show "unat ((drop_bit 14 (x ! 2) OR push_bit 18 (x ! 3)) AND 0x03ffffff) = limb 3 T"
    using unat_limb_or [of 18 "x ! 2" "x ! 3"] by (simp add: limb_def t)
  have g: "T = (t0 + 2 ^ 32 * t1 + 2 ^ 64 * t2) + 2 ^ 96 * t3" "t0 + 2 ^ 32 * t1 + 2 ^ 64 * t2 < 2 ^ 96" using less by (simp_all add: T)
  from split_div [OF g(1)] g(2) have "T div 2 ^ 96 = t3" by simp
  moreover have "T div 2 ^ 104 = T div 2 ^ 96 div 2 ^ 8" by (simp flip: div_mult2_eq)
  ultimately show "unat (drop_bit 8 (x ! 3)) = T div 2 ^ 104" by (simp add: unat_drop_bit t)
qed

section \<open>Limbs of a block and of the key\<close>

lemma unat_words_less: "num4 x < 2 ^ 128"
proof -
  have "unat (x ! i) < 2 ^ 32" for i using unat_less_pow [of "x ! i"] by simp
  from this [of 0] this [of 1] this [of 2] this [of 3] show ?thesis by (simp add: num4_def)
qed

lemma limb_less [simp]: "limb i T < 2 ^ 26"
  by (simp add: limb_def)

lemma top_limb_less: "num4 x div 2 ^ 104 < 2 ^ 24"
  using unat_words_less [of x] by (simp add: less_mult_imp_div_less)

definition small :: "limbs \<Rightarrow> bool" where
  "small h \<longleftrightarrow> (case h of (h0, h1, h2, h3, h4) \<Rightarrow> unat h0 < 2 ^ 26 \<and> unat h1 < 2 ^ 26 \<and> unat h2 < 2 ^ 26 \<and> unat h3 < 2 ^ 26 \<and> unat h4 < 2 ^ 26)"

lemma poly_limbs_num:
  assumes "hibit = 0 \<or> hibit = push_bit 24 1"
  shows "limbs_num (poly_limbs x hibit) = num4 x + 2 ^ 104 * unat hibit"
    "small (poly_limbs x hibit)"
proof -
  have top: "unat (drop_bit 8 (x ! 3) OR hibit) = num4 x div 2 ^ 104 + unat hibit"
  proof (cases "hibit = 0")
    case True
    then show ?thesis by (simp only: limbs_of_words or.right_neutral unsigned_0 add_0_right)
  next
    case False
    then have h: "hibit = push_bit 24 1" using assms by simp
    have l: "unat (drop_bit 8 (x ! 3)) < 2 ^ 24" unfolding limbs_of_words by (rule top_limb_less)
    have "unat (drop_bit 8 (x ! 3) OR push_bit 24 1) = 2 ^ 24 * unat (1 :: u32) + unat (drop_bit 8 (x ! 3))"
      unfolding or.commute [of "drop_bit 8 (x ! 3)"] by (rule unat_or_push [OF l]) simp
    then show ?thesis unfolding h limbs_of_words by simp
  qed
  have p: "poly_limbs x hibit = (x ! 0 AND 0x03ffffff, (drop_bit 26 (x ! 0) OR push_bit 6 (x ! 1)) AND 0x03ffffff,
     (drop_bit 20 (x ! 1) OR push_bit 12 (x ! 2)) AND 0x03ffffff, (drop_bit 14 (x ! 2) OR push_bit 18 (x ! 3)) AND 0x03ffffff, drop_bit 8 (x ! 3) OR hibit)"
    by (simp only: poly_limbs_def Let_def)
  show "limbs_num (poly_limbs x hibit) = num4 x + 2 ^ 104 * unat hibit"
    unfolding p limbs_num_def prod.case limbs_of_words top using limb_sum [of "num4 x"] by simp
  have "unat hibit \<le> 2 ^ 24" using assms by auto
  then have "unat (drop_bit 8 (x ! 3) OR hibit) < 2 ^ 26" unfolding top using top_limb_less [of x] by simp
  then show "small (poly_limbs x hibit)" unfolding p small_def prod.case limbs_of_words by (simp only: limb_less simp_thms)
qed

definition clamp_mask :: nat where "clamp_mask = 0x0ffffffc0ffffffc0ffffffc0fffffff"

lemma limb_and: "limb i (S AND T) = limb i S AND limb i T"
  by (simp only: limb_def flip: drop_bit_eq_div take_bit_eq_mod) simp

lemma limb_mask: "limb i T AND 0x03ffffff = limb i T"
proof -
  have "(0x03ffffff :: nat) = mask 26" by (simp add: mask_eq_exp_minus_1)
  then have "limb i T AND 0x03ffffff = take_bit 26 (take_bit 26 (T div 2 ^ (26 * i)))"
    by (simp only: limb_def take_bit_eq_mask [symmetric] take_bit_eq_mod)
  then show ?thesis by (simp add: limb_def take_bit_eq_mod)
qed

lemma poly_key_num:
  "limbs_num (poly_key x) = num4 x AND clamp_mask"
  "small (poly_key x)"
proof -
  have m: "unat (w AND m) = unat (w AND 0x03ffffff) AND unat m" if "unat m = 0x03ffffff AND unat m" for w m :: u32
  proof -
    have "unat (w AND 0x03ffffff) AND unat m = unat w AND (0x03ffffff AND unat m)" by (simp add: unsigned_and_eq and.assoc)
    then show ?thesis by (simp only: that [symmetric] unsigned_and_eq)
  qed
  have lm: "limb 0 clamp_mask = 0x03ffffff" "limb 1 clamp_mask = 0x03ffff03" "limb 2 clamp_mask = 0x03ffc0ff" "limb 3 clamp_mask = 0x03f03fff"
    "clamp_mask div 2 ^ 104 = 0x000fffff"
    by (simp_all add: limb_def clamp_mask_def)
  let ?T = "num4 x AND clamp_mask"
  have 0: "unat (x ! 0 AND 0x03ffffff) = limb 0 ?T"
    unfolding limb_and lm limbs_of_words limb_mask ..
  have 1: "unat ((drop_bit 26 (x ! 0) OR push_bit 6 (x ! 1)) AND 0x03ffff03) = limb 1 ?T"
    unfolding limb_and lm by (subst m) (simp_all only: limbs_of_words, simp_all)
  have 2: "unat ((drop_bit 20 (x ! 1) OR push_bit 12 (x ! 2)) AND 0x03ffc0ff) = limb 2 ?T"
    unfolding limb_and lm by (subst m) (simp_all only: limbs_of_words, simp_all)
  have 3: "unat ((drop_bit 14 (x ! 2) OR push_bit 18 (x ! 3)) AND 0x03f03fff) = limb 3 ?T"
    unfolding limb_and lm by (subst m) (simp_all only: limbs_of_words, simp_all)
  have 4: "unat (drop_bit 8 (x ! 3) AND 0x000fffff) = ?T div 2 ^ 104"
  proof -
    have "?T div 2 ^ 104 = num4 x div 2 ^ 104 AND clamp_mask div 2 ^ 104" by (simp only: drop_bit_and flip: drop_bit_eq_div)
    then show ?thesis unfolding unsigned_and_eq limbs_of_words lm by simp
  qed
  have p: "poly_key x = (x ! 0 AND 0x03ffffff, (drop_bit 26 (x ! 0) OR push_bit 6 (x ! 1)) AND 0x03ffff03,
     (drop_bit 20 (x ! 1) OR push_bit 12 (x ! 2)) AND 0x03ffc0ff, (drop_bit 14 (x ! 2) OR push_bit 18 (x ! 3)) AND 0x03f03fff, drop_bit 8 (x ! 3) AND 0x000fffff)"
    by (simp only: poly_key_def Let_def)
  show "limbs_num (poly_key x) = num4 x AND clamp_mask" unfolding p limbs_num_def prod.case 0 1 2 3 4 by (rule limb_sum)
  have "?T div 2 ^ 104 = take_bit 20 (num4 x div 2 ^ 104)"
    unfolding 4 [symmetric] unsigned_and_eq limbs_of_words by (simp add: take_bit_eq_mask mask_eq_exp_minus_1)
  then have "?T div 2 ^ 104 < 2 ^ 26" using take_bit_nat_less_exp [of 20 "num4 x div 2 ^ 104"] by simp
  then show "small (poly_key x)" unfolding p small_def prod.case 0 1 2 3 4 by (simp only: limb_less simp_thms)
qed

section \<open>The products\<close>

section \<open>Multiplication\<close>

abbreviation "P1305 \<equiv> (2 ^ 130 - 5 :: nat)"

text \<open>Limbs after the carries of a block: only the second may exceed 26 bits.\<close>

definition carried :: "limbs \<Rightarrow> bool" where
  "carried h \<longleftrightarrow> (case h of (h0, h1, h2, h3, h4) \<Rightarrow> unat h0 < 2 ^ 26 \<and> unat h1 < 2 ^ 26 + 2 ^ 6 \<and> unat h2 < 2 ^ 26 \<and> unat h3 < 2 ^ 26 \<and> unat h4 < 2 ^ 26)"

definition loose :: "limbs \<Rightarrow> bool" where
  "loose h \<longleftrightarrow> (case h of (h0, h1, h2, h3, h4) \<Rightarrow>
     unat h0 < 2 ^ 27 + 2 ^ 6 \<and> unat h1 < 2 ^ 27 + 2 ^ 6 \<and> unat h2 < 2 ^ 27 + 2 ^ 6 \<and> unat h3 < 2 ^ 27 + 2 ^ 6 \<and> unat h4 < 2 ^ 27 + 2 ^ 6)"

lemma poly_add_num:
  assumes "carried h" "small x"
  shows "limbs_num (poly_add h x) = limbs_num h + limbs_num x" "loose (poly_add h x)"
proof -
  obtain h0 h1 h2 h3 h4 where h: "h = (h0, h1, h2, h3, h4)" by (cases h)
  obtain x0 x1 x2 x3 x4 where x: "x = (x0, x1, x2, x3, x4)" by (cases x)
  have s: "unat (a + b) = unat a + unat b" if "unat a < 2 ^ 26 + 2 ^ 6" "unat b < 2 ^ 26" for a b :: u32
    by (rule unat_add_less) (use that in simp)
  have "unat (h0 + x0) = unat h0 + unat x0" "unat (h1 + x1) = unat h1 + unat x1" "unat (h2 + x2) = unat h2 + unat x2"
    "unat (h3 + x3) = unat h3 + unat x3" "unat (h4 + x4) = unat h4 + unat x4"
    using assms by (auto intro!: s simp: h x carried_def small_def)
  then show "limbs_num (poly_add h x) = limbs_num h + limbs_num x" "loose (poly_add h x)"
    using assms by (simp_all add: h x poly_add_def limbs_num_def loose_def carried_def small_def)
qed

definition sums_num :: "u64 \<times> u64 \<times> u64 \<times> u64 \<times> u64 \<Rightarrow> nat" where
  "sums_num d = (case d of (d0, d1, d2, d3, d4) \<Rightarrow> unat d0 + 2 ^ 26 * unat d1 + 2 ^ 52 * unat d2 + 2 ^ 78 * unat d3 + 2 ^ 104 * unat d4)"

lemma unat_product:
  assumes "unat a < 2 ^ 27 + 2 ^ 6" "unat b < 2 ^ 26"
  shows "unat ((ucast (a :: u32) :: u64) * ucast (b :: u32)) = unat a * unat b" "unat a * unat b \<le> (2 ^ 27 + 2 ^ 6) * 2 ^ 26"
proof -
  show l: "unat a * unat b \<le> (2 ^ 27 + 2 ^ 6) * 2 ^ 26" using assms by (intro mult_le_mono) simp_all
  have "unat (ucast x :: u64) = unat x" for x :: u32
    using unat_less_pow [of x] by (simp add: unsigned_ucast_eq take_bit_nat_eq_self)
  then show "unat ((ucast a :: u64) * ucast b) = unat a * unat b" using l by (simp add: unat_mult_less)
qed

lemma unat_times5: "unat a \<le> (2 ^ 27 + 2 ^ 6) * 2 ^ 26 \<Longrightarrow> unat (a * 5 :: u64) = unat a * 5"
  by (simp add: unat_word_ariths)

lemma unat_sum5:
  fixes a b c d e :: u64
  assumes "unat a + unat b + unat c + unat d + unat e < 2 ^ 64"
  shows "unat (a + b + c + d + e) = unat a + unat b + unat c + unat d + unat e"
  using assms by (simp add: unat_add_less)

lemma poly_mul_num:
  assumes "loose h" "small r"
  shows "sums_num (poly_mul h r) mod P1305 = limbs_num h * limbs_num r mod P1305"
    "case poly_mul h r of (d0, d1, d2, d3, d4) \<Rightarrow> unat d0 \<le> 21 * ((2 ^ 27 + 2 ^ 6) * 2 ^ 26) \<and> unat d1 \<le> 21 * ((2 ^ 27 + 2 ^ 6) * 2 ^ 26) \<and>
       unat d2 \<le> 21 * ((2 ^ 27 + 2 ^ 6) * 2 ^ 26) \<and> unat d3 \<le> 21 * ((2 ^ 27 + 2 ^ 6) * 2 ^ 26) \<and> unat d4 \<le> 5 * ((2 ^ 27 + 2 ^ 6) * 2 ^ 26)"
proof -
  obtain h0 h1 h2 h3 h4 where h: "h = (h0, h1, h2, h3, h4)" by (cases h)
  obtain r0 r1 r2 r3 r4 where r: "r = (r0, r1, r2, r3, r4)" by (cases r)
  define m where "m = (\<lambda>a b. (ucast (a :: u32) :: u64) * ucast (b :: u32))"
  define B :: nat where "B = (2 ^ 27 + 2 ^ 6) * 2 ^ 26"
  have hs: "x \<in> {h0, h1, h2, h3, h4} \<Longrightarrow> unat x < 2 ^ 27 + 2 ^ 6" for x using assms(1) by (auto simp: loose_def h)
  have rs: "y \<in> {r0, r1, r2, r3, r4} \<Longrightarrow> unat y < 2 ^ 26" for y using assms(2) by (auto simp: small_def r)
  have mn: "unat (m x y) = unat x * unat y" and mb: "unat x * unat y \<le> B" and m5: "unat (m x y * 5) = unat x * unat y * 5"
    if "x \<in> {h0, h1, h2, h3, h4}" "y \<in> {r0, r1, r2, r3, r4}" for x y
    using unat_product [OF hs rs, OF that] unat_times5 [of "m x y"] by (simp_all add: m_def B_def)
  have B: "21 * B < 2 ^ 64" by (simp add: B_def)
  note eqs = mn m5
  let ?d0 = "m h0 r0 + m h1 r4 * 5 + m h2 r3 * 5 + m h3 r2 * 5 + m h4 r1 * 5"
  let ?d1 = "m h0 r1 + m h1 r0 + m h2 r4 * 5 + m h3 r3 * 5 + m h4 r2 * 5"
  let ?d2 = "m h0 r2 + m h1 r1 + m h2 r0 + m h3 r4 * 5 + m h4 r3 * 5"
  let ?d3 = "m h0 r3 + m h1 r2 + m h2 r1 + m h3 r0 + m h4 r4 * 5"
  let ?d4 = "m h0 r4 + m h1 r3 + m h2 r2 + m h3 r1 + m h4 r0"
  have d: "poly_mul h r = (?d0, ?d1, ?d2, ?d3, ?d4)" by (simp only: poly_mul_def h r prod.case Let_def m_def)
  have 0: "unat ?d0 = unat h0 * unat r0 + unat h1 * unat r4 * 5 + unat h2 * unat r3 * 5 + unat h3 * unat r2 * 5 + unat h4 * unat r1 * 5" "unat ?d0 \<le> 21 * B"
    using mb [of h0 r0] mb [of h1 r4] mb [of h2 r3] mb [of h3 r2] mb [of h4 r1] B by (subst unat_sum5, simp_all add: mn m5)+
  have 1: "unat ?d1 = unat h0 * unat r1 + unat h1 * unat r0 + unat h2 * unat r4 * 5 + unat h3 * unat r3 * 5 + unat h4 * unat r2 * 5" "unat ?d1 \<le> 21 * B"
    using mb [of h0 r1] mb [of h1 r0] mb [of h2 r4] mb [of h3 r3] mb [of h4 r2] B by (subst unat_sum5, simp_all add: mn m5)+
  have 2: "unat ?d2 = unat h0 * unat r2 + unat h1 * unat r1 + unat h2 * unat r0 + unat h3 * unat r4 * 5 + unat h4 * unat r3 * 5" "unat ?d2 \<le> 21 * B"
    using mb [of h0 r2] mb [of h1 r1] mb [of h2 r0] mb [of h3 r4] mb [of h4 r3] B by (subst unat_sum5, simp_all add: mn m5)+
  have 3: "unat ?d3 = unat h0 * unat r3 + unat h1 * unat r2 + unat h2 * unat r1 + unat h3 * unat r0 + unat h4 * unat r4 * 5" "unat ?d3 \<le> 21 * B"
    using mb [of h0 r3] mb [of h1 r2] mb [of h2 r1] mb [of h3 r0] mb [of h4 r4] B by (subst unat_sum5, simp_all add: mn m5)+
  have 4: "unat ?d4 = unat h0 * unat r4 + unat h1 * unat r3 + unat h2 * unat r2 + unat h3 * unat r1 + unat h4 * unat r0" "unat ?d4 \<le> 5 * B"
    using mb [of h0 r4] mb [of h1 r3] mb [of h2 r2] mb [of h3 r1] mb [of h4 r0] B by (subst unat_sum5, simp_all add: mn m5)+
  show "case poly_mul h r of (d0, d1, d2, d3, d4) \<Rightarrow> unat d0 \<le> 21 * ((2 ^ 27 + 2 ^ 6) * 2 ^ 26) \<and> unat d1 \<le> 21 * ((2 ^ 27 + 2 ^ 6) * 2 ^ 26) \<and>
       unat d2 \<le> 21 * ((2 ^ 27 + 2 ^ 6) * 2 ^ 26) \<and> unat d3 \<le> 21 * ((2 ^ 27 + 2 ^ 6) * 2 ^ 26) \<and> unat d4 \<le> 5 * ((2 ^ 27 + 2 ^ 6) * 2 ^ 26)"
    unfolding d prod.case B_def [symmetric] using 0 1 2 3 4 by blast
  define Q where "Q = (unat h1 * unat r4 + unat h2 * unat r3 + unat h3 * unat r2 + unat h4 * unat r1) +
     2 ^ 26 * (unat h2 * unat r4 + unat h3 * unat r3 + unat h4 * unat r2) + 2 ^ 52 * (unat h3 * unat r4 + unat h4 * unat r3) + 2 ^ 78 * (unat h4 * unat r4)"
  have "limbs_num h * limbs_num r = sums_num (poly_mul h r) + P1305 * Q"
    unfolding d sums_num_def prod.case 0(1) 1(1) 2(1) 3(1) 4(1) unfolding limbs_num_def h r prod.case Q_def by (simp add: algebra_simps)
  then show "sums_num (poly_mul h r) mod P1305 = limbs_num h * limbs_num r mod P1305" by simp
qed

section \<open>Carries\<close>

section \<open>Carries\<close>

lemma unat_carry: "unat (d :: u64) < 2 ^ 58 \<Longrightarrow> unat (ucast (drop_bit 26 d) :: u32) = unat d div 2 ^ 26"
  by (simp add: unsigned_ucast_eq take_bit_nat_eq_self unat_drop_bit less_mult_imp_div_less)

lemma unat_carry64: "unat (d :: u64) < 2 ^ 58 \<Longrightarrow> unat (ucast (ucast (drop_bit 26 d) :: u32) :: u64) = unat d div 2 ^ 26"
proof -
  assume a: "unat d < 2 ^ 58"
  have "unat (ucast x :: u64) = unat x" for x :: u32
    using unat_less_pow [of x] by (simp add: unsigned_ucast_eq take_bit_nat_eq_self)
  then show ?thesis using unat_carry [OF a] by simp
qed

lemma unat_low26: "unat (ucast (d :: u64) AND 0x03ffffff :: u32) = unat d mod 2 ^ 26"
  unfolding unat_and_mask26 by (simp add: unsigned_ucast_eq take_bit_eq_mod mod_mod_cancel)

lemma carry_sum:
  fixes d0 :: nat
  assumes "d0 = r0 + 2 ^ 26 * q0" "d1 + q0 = r1 + 2 ^ 26 * q1" "d2 + q1 = r2 + 2 ^ 26 * q2" "d3 + q2 = r3 + 2 ^ 26 * q3" "d4 + q3 = r4 + 2 ^ 26 * q4"
    "r0 + q4 * 5 = g + 2 ^ 26 * k"
  shows "d0 + 2 ^ 26 * d1 + 2 ^ 52 * d2 + 2 ^ 78 * d3 + 2 ^ 104 * d4 = (g + 2 ^ 26 * (r1 + k) + 2 ^ 52 * r2 + 2 ^ 78 * r3 + 2 ^ 104 * r4) + P1305 * q4"
  using assms by simp

lemma poly_carry_num:
  assumes "case d of (d0, d1, d2, d3, d4) \<Rightarrow> unat d0 \<le> 21 * ((2 ^ 27 + 2 ^ 6) * 2 ^ 26) \<and> unat d1 \<le> 21 * ((2 ^ 27 + 2 ^ 6) * 2 ^ 26) \<and>
       unat d2 \<le> 21 * ((2 ^ 27 + 2 ^ 6) * 2 ^ 26) \<and> unat d3 \<le> 21 * ((2 ^ 27 + 2 ^ 6) * 2 ^ 26) \<and> unat d4 \<le> 5 * ((2 ^ 27 + 2 ^ 6) * 2 ^ 26)"
  shows "limbs_num (poly_carry d) mod P1305 = sums_num d mod P1305" "carried (poly_carry d)"
proof -
  obtain d0 d1 d2 d3 d4 where d: "d = (d0, d1, d2, d3, d4)" by (cases d)
  define c where "c = (\<lambda>d. ucast (drop_bit 26 d :: u64) :: u32)"
  define e1 where "e1 = d1 + ucast (c d0)"
  define e2 where "e2 = d2 + ucast (c e1)"
  define e3 where "e3 = d3 + ucast (c e2)"
  define e4 where "e4 = d4 + ucast (c e3)"
  define g0 where "g0 = (ucast d0 AND 0x03ffffff) + c e4 * 5"
  have p: "poly_carry d = (g0 AND 0x03ffffff, (ucast e1 AND 0x03ffffff) + drop_bit 26 g0, ucast e2 AND 0x03ffffff, ucast e3 AND 0x03ffffff, ucast e4 AND 0x03ffffff)"
    by (simp only: poly_carry_def d prod.case Let_def c_def e1_def e2_def e3_def e4_def g0_def)
  have b: "unat d0 \<le> 189151274543874048" "unat d1 \<le> 189151274543874048" "unat d2 \<le> 189151274543874048" "unat d3 \<le> 189151274543874048" "unat d4 \<le> 45036017748541440"
    using assms by (simp_all add: d)
  have add: "unat (x + ucast (c y)) = unat x + unat y div 2 ^ 26" "unat x + unat y div 2 ^ 26 \<le> unat x + 2 ^ 32"
    if "unat x \<le> 189151274543874048" "unat y < 2 ^ 58" for x y :: u64
  proof -
    have "unat y div 2 ^ 26 < 2 ^ 32" using that(2) by (simp add: less_mult_imp_div_less)
    then show "unat (x + ucast (c y)) = unat x + unat y div 2 ^ 26" "unat x + unat y div 2 ^ 26 \<le> unat x + 2 ^ 32"
      using that unat_carry64 [OF that(2)] by (simp_all add: unat_add_less c_def)
  qed
  have e1: "unat e1 = unat d1 + unat d0 div 2 ^ 26" "unat e1 < 2 ^ 58" using add [OF b(2), of d0] b by (simp_all add: e1_def)
  have e2: "unat e2 = unat d2 + unat e1 div 2 ^ 26" "unat e2 < 2 ^ 58" using add [OF b(3) e1(2)] b by (simp_all add: e2_def)
  have e3: "unat e3 = unat d3 + unat e2 div 2 ^ 26" "unat e3 < 2 ^ 58" using add [OF b(4) e2(2)] b by (simp_all add: e3_def)
  have e4: "unat e4 = unat d4 + unat e3 div 2 ^ 26" "unat e4 < 45036017748541440 + 2 ^ 33" using add [of d4, OF _ e3(2)] b by (simp_all add: e4_def)
  have q: "unat e4 div 2 ^ 26 \<le> 671088960 + 128" using div_le_mono [of "unat e4" "45036017748541440 + 2 ^ 33" "2 ^ 26"] e4(2) by simp
  have c4: "unat (c e4) = unat e4 div 2 ^ 26" using e4(2) by (simp add: c_def unat_carry)
  have low: "unat d0 mod 2 ^ 26 < 2 ^ 26" by simp
  have "unat (c e4 * 5) = unat e4 div 2 ^ 26 * 5" using q c4 by (simp add: unat_word_ariths)
  then have g0: "unat g0 = unat d0 mod 2 ^ 26 + unat e4 div 2 ^ 26 * 5" "unat g0 < 2 ^ 32"
    using q low by (simp_all add: g0_def unat_low26 unat_add_less)
  have "unat g0 div 2 ^ 26 < 2 ^ 6" using g0(2) by (simp add: less_mult_imp_div_less)
  then have h1: "unat ((ucast e1 AND 0x03ffffff) + drop_bit 26 g0) = unat e1 mod 2 ^ 26 + unat g0 div 2 ^ 26"
    "unat e1 mod 2 ^ 26 + unat g0 div 2 ^ 26 < 2 ^ 26 + 2 ^ 6"
    by (simp_all add: unat_add_less unat_low26 unat_drop_bit add_less_le_mono less_imp_le)
  show "carried (poly_carry d)" using h1 by (simp add: p carried_def unat_low26 unat_and_mask26)
  have v: "limbs_num (poly_carry d) = unat g0 mod 2 ^ 26 + 2 ^ 26 * (unat e1 mod 2 ^ 26 + unat g0 div 2 ^ 26) + 2 ^ 52 * (unat e2 mod 2 ^ 26) +
     2 ^ 78 * (unat e3 mod 2 ^ 26) + 2 ^ 104 * (unat e4 mod 2 ^ 26)"
    unfolding p limbs_num_def prod.case h1 unat_low26 unfolding unat_and_mask26 ..
  have m: "n = n mod 2 ^ 26 + 2 ^ 26 * (n div 2 ^ 26)" for n :: nat by simp
  have "sums_num d = limbs_num (poly_carry d) + P1305 * (unat e4 div 2 ^ 26)"
    unfolding v unfolding d sums_num_def prod.case
    by (rule carry_sum [OF m]; (subst e1(1) [symmetric] | subst e2(1) [symmetric] | subst e3(1) [symmetric] | subst e4(1) [symmetric] | subst g0(1) [symmetric]); rule m)
  then show "limbs_num (poly_carry d) mod P1305 = sums_num d mod P1305" by simp
qed

section \<open>The last step\<close>

lemma poly_full_carry_num:
  assumes "carried h"
  shows "limbs_num (poly_full_carry h) mod P1305 = limbs_num h mod P1305" "small (poly_full_carry h)"
proof -
  obtain h0 h1 h2 h3 h4 where h: "h = (h0, h1, h2, h3, h4)" by (cases h)
  define e2 where "e2 = h2 + drop_bit 26 h1"
  define e3 where "e3 = h3 + drop_bit 26 e2"
  define e4 where "e4 = h4 + drop_bit 26 e3"
  define g0 where "g0 = h0 + drop_bit 26 e4 * 5"
  have p: "poly_full_carry h = (g0 AND 0x03ffffff, (h1 AND 0x03ffffff) + drop_bit 26 g0, e2 AND 0x03ffffff, e3 AND 0x03ffffff, e4 AND 0x03ffffff)"
    by (simp only: poly_full_carry_def h prod.case Let_def e2_def e3_def e4_def g0_def)
  have b: "unat h0 < 2 ^ 26" "unat h1 < 2 ^ 26 + 2 ^ 6" "unat h2 < 2 ^ 26" "unat h3 < 2 ^ 26" "unat h4 < 2 ^ 26" using assms by (simp_all add: carried_def h)
  have q1: "unat h1 div 2 ^ 26 \<le> 1" using div_le_mono [of "unat h1" "2 ^ 26 + 2 ^ 6" "2 ^ 26"] b(2) by simp
  have add: "unat (x + drop_bit 26 y) = unat x + unat y div 2 ^ 26" "(unat x + unat y div 2 ^ 26) div 2 ^ 26 \<le> unat y div 2 ^ 26"
    if "unat x < 2 ^ 26" "unat y div 2 ^ 26 \<le> 1" for x y :: u32
  proof -
    show "unat (x + drop_bit 26 y) = unat x + unat y div 2 ^ 26" using that by (subst unat_add_less) (simp_all add: unat_drop_bit)
    have "unat y div 2 ^ 26 = 0 \<or> unat y div 2 ^ 26 = 1" using that(2) by linarith
    then show "(unat x + unat y div 2 ^ 26) div 2 ^ 26 \<le> unat y div 2 ^ 26"
    proof
      assume "unat y div 2 ^ 26 = 1"
      then have "unat x + unat y div 2 ^ 26 \<le> 2 ^ 26" using that(1) by simp
      then show ?thesis using div_le_mono [of "unat x + unat y div 2 ^ 26" "2 ^ 26" "2 ^ 26"] \<open>unat y div 2 ^ 26 = 1\<close> by simp
    qed (use that(1) in simp)
  qed
  have e2: "unat e2 = unat h2 + unat h1 div 2 ^ 26" "unat e2 div 2 ^ 26 \<le> unat h1 div 2 ^ 26" using add [OF b(3) q1] by (simp_all add: e2_def)
  have q2: "unat e2 div 2 ^ 26 \<le> 1" using e2(2) q1 by simp
  have e3: "unat e3 = unat h3 + unat e2 div 2 ^ 26" "unat e3 div 2 ^ 26 \<le> unat e2 div 2 ^ 26" using add [OF b(4) q2] by (simp_all add: e3_def)
  have q3: "unat e3 div 2 ^ 26 \<le> 1" using e3(2) q2 by simp
  have e4: "unat e4 = unat h4 + unat e3 div 2 ^ 26" "unat e4 div 2 ^ 26 \<le> unat e3 div 2 ^ 26" using add [OF b(5) q3] by (simp_all add: e4_def)
  have q4: "unat e4 div 2 ^ 26 \<le> unat h1 div 2 ^ 26" using e4(2) e3(2) e2(2) by simp
  have "unat (drop_bit 26 e4 * 5) = unat e4 div 2 ^ 26 * 5" using q4 q1 by (subst unat_mult_less) (simp_all add: unat_drop_bit)
  then have g0: "unat g0 = unat h0 + unat e4 div 2 ^ 26 * 5" using b(1) q4 q1 by (simp add: g0_def unat_add_less)
  have k: "unat g0 div 2 ^ 26 \<le> unat h1 div 2 ^ 26"
  proof (cases "unat e4 div 2 ^ 26 = 0")
    case True
    then show ?thesis using g0 b(1) by simp
  next
    case False
    then have "unat h1 div 2 ^ 26 = 1" using q4 q1 by linarith
    moreover have "unat g0 \<le> 2 ^ 26 + 4" using g0 b(1) q4 q1 by simp
    then have "unat g0 div 2 ^ 26 \<le> 1" using div_le_mono [of "unat g0" "2 ^ 26 + 4" "2 ^ 26"] by simp
    ultimately show ?thesis by simp
  qed
  have h1: "unat h1 mod 2 ^ 26 + unat g0 div 2 ^ 26 < 2 ^ 26"
  proof (cases "unat h1 div 2 ^ 26 = 0")
    case True
    then show ?thesis using k by simp
  next
    case False
    then have "unat h1 = 2 ^ 26 * 1 + unat h1 mod 2 ^ 26" using q1 mult_div_mod_eq [of "2 ^ 26" "unat h1"] by (simp add: le_Suc_eq)
    then show ?thesis using b(2) k q1 by simp
  qed
  have h1w: "unat ((h1 AND 0x03ffffff) + drop_bit 26 g0) = unat h1 mod 2 ^ 26 + unat g0 div 2 ^ 26"
    using h1 by (subst unat_add_less) (simp_all add: unat_and_mask26 unat_drop_bit)
  have sm: "unat (w AND 0x03ffffff) < 2 ^ 26" for w :: u32 by (simp add: unat_and_mask26)
  show "small (poly_full_carry h)" unfolding p small_def prod.case h1w using h1 sm by blast
  have v: "limbs_num (poly_full_carry h) = unat g0 mod 2 ^ 26 + 2 ^ 26 * (unat h1 mod 2 ^ 26 + unat g0 div 2 ^ 26) + 2 ^ 52 * (unat e2 mod 2 ^ 26) +
     2 ^ 78 * (unat e3 mod 2 ^ 26) + 2 ^ 104 * (unat e4 mod 2 ^ 26)"
    unfolding p limbs_num_def prod.case h1w unfolding unat_and_mask26 ..
  have m: "n = n mod 2 ^ 26 + 2 ^ 26 * (n div 2 ^ 26)" for n :: nat by simp
  have "limbs_num h = limbs_num (poly_full_carry h) + P1305 * (unat e4 div 2 ^ 26)"
    unfolding v unfolding h limbs_num_def prod.case
  proof (rule carry_sum)
    show "unat h0 = unat h0 + 2 ^ 26 * 0" by simp
    show "unat h1 + 0 = unat h1 mod 2 ^ 26 + 2 ^ 26 * (unat h1 div 2 ^ 26)" by simp
    show "unat h2 + unat h1 div 2 ^ 26 = unat e2 mod 2 ^ 26 + 2 ^ 26 * (unat e2 div 2 ^ 26)" unfolding e2(1) [symmetric] by (rule m)
    show "unat h3 + unat e2 div 2 ^ 26 = unat e3 mod 2 ^ 26 + 2 ^ 26 * (unat e3 div 2 ^ 26)" unfolding e3(1) [symmetric] by (rule m)
    show "unat h4 + unat e3 div 2 ^ 26 = unat e4 mod 2 ^ 26 + 2 ^ 26 * (unat e4 div 2 ^ 26)" unfolding e4(1) [symmetric] by (rule m)
    show "unat h0 + unat e4 div 2 ^ 26 * 5 = unat g0 mod 2 ^ 26 + 2 ^ 26 * (unat g0 div 2 ^ 26)" unfolding g0 [symmetric] by (rule m)
  qed
  then show "limbs_num (poly_full_carry h) mod P1305 = limbs_num h mod P1305" by simp
qed

section \<open>The last reduction\<close>

lemma small_less: "small h \<Longrightarrow> limbs_num h < 2 ^ 130"
  by (cases h) (simp add: small_def limbs_num_def)

lemma carry_chain:
  fixes h0 :: nat
  assumes "h0 + 5 = r0 + 2 ^ 26 * q0" "h1 + q0 = r1 + 2 ^ 26 * q1" "h2 + q1 = r2 + 2 ^ 26 * q2" "h3 + q2 = r3 + 2 ^ 26 * q3"
  shows "h0 + 2 ^ 26 * h1 + 2 ^ 52 * h2 + 2 ^ 78 * h3 + 2 ^ 104 * h4 + 5 = r0 + 2 ^ 26 * r1 + 2 ^ 52 * r2 + 2 ^ 78 * r3 + 2 ^ 104 * (h4 + q3)"
  using assms by simp

lemma poly_select_num:
  assumes "small h"
  shows "limbs_num (poly_select h) = limbs_num h mod P1305" "small (poly_select h)"
proof -
  obtain h0 h1 h2 h3 h4 where h: "h = (h0, h1, h2, h3, h4)" by (cases h)
  define s0 where "s0 = h0 + 5"
  define s1 where "s1 = h1 + drop_bit 26 s0"
  define s2 where "s2 = h2 + drop_bit 26 s1"
  define s3 where "s3 = h3 + drop_bit 26 s2"
  define s4 where "s4 = h4 + drop_bit 26 s3"
  define b where "b = drop_bit 31 (s4 - push_bit 26 1) - (1 :: u32)"
  define pick where "pick = (\<lambda>h t. (h AND NOT b) OR (t AND b))"
  have p: "poly_select h = (pick h0 (s0 AND 0x03ffffff), pick h1 (s1 AND 0x03ffffff), pick h2 (s2 AND 0x03ffffff), pick h3 (s3 AND 0x03ffffff), pick h4 (s4 - push_bit 26 1))"
    by (simp only: poly_select_def h prod.case Let_def s0_def s1_def s2_def s3_def s4_def b_def pick_def)
  have hb: "unat h0 < 2 ^ 26" "unat h1 < 2 ^ 26" "unat h2 < 2 ^ 26" "unat h3 < 2 ^ 26" "unat h4 < 2 ^ 26" using assms by (simp_all add: small_def h)
  have add: "unat (x + drop_bit 26 y) = unat x + unat y div 2 ^ 26" "unat (x + drop_bit 26 y) < 2 ^ 27"
    if "unat x < 2 ^ 26" "unat y < 2 ^ 27" for x y :: u32
  proof -
    have "unat y div 2 ^ 26 < 2" using that(2) by (simp add: less_mult_imp_div_less)
    then show "unat (x + drop_bit 26 y) = unat x + unat y div 2 ^ 26" using that(1) by (subst unat_add_less) (simp_all add: unat_drop_bit)
    then show "unat (x + drop_bit 26 y) < 2 ^ 27" using that(1) \<open>unat y div 2 ^ 26 < 2\<close> by simp
  qed
  have s0: "unat s0 = unat h0 + 5" "unat s0 < 2 ^ 27" using hb(1) by (simp_all add: s0_def unat_add_less)
  have s1: "unat s1 = unat h1 + unat s0 div 2 ^ 26" "unat s1 < 2 ^ 27" using add [OF hb(2) s0(2)] by (simp_all add: s1_def)
  have s2: "unat s2 = unat h2 + unat s1 div 2 ^ 26" "unat s2 < 2 ^ 27" using add [OF hb(3) s1(2)] by (simp_all add: s2_def)
  have s3: "unat s3 = unat h3 + unat s2 div 2 ^ 26" "unat s3 < 2 ^ 27" using add [OF hb(4) s2(2)] by (simp_all add: s3_def)
  have s4: "unat s4 = unat h4 + unat s3 div 2 ^ 26" "unat s4 < 2 ^ 27" using add [OF hb(5) s3(2)] by (simp_all add: s4_def)
  have q3: "unat s3 div 2 ^ 26 < 2" using s3(2) by (simp add: less_mult_imp_div_less)
  have V: "limbs_num h + 5 = unat s0 mod 2 ^ 26 + 2 ^ 26 * (unat s1 mod 2 ^ 26) + 2 ^ 52 * (unat s2 mod 2 ^ 26) + 2 ^ 78 * (unat s3 mod 2 ^ 26) + 2 ^ 104 * unat s4"
    unfolding h limbs_num_def prod.case s4(1)
  proof (rule carry_chain)
    show "unat h0 + 5 = unat s0 mod 2 ^ 26 + 2 ^ 26 * (unat s0 div 2 ^ 26)" unfolding s0(1) [symmetric] by simp
    show "unat h1 + unat s0 div 2 ^ 26 = unat s1 mod 2 ^ 26 + 2 ^ 26 * (unat s1 div 2 ^ 26)" unfolding s1(1) [symmetric] by simp
    show "unat h2 + unat s1 div 2 ^ 26 = unat s2 mod 2 ^ 26 + 2 ^ 26 * (unat s2 div 2 ^ 26)" unfolding s2(1) [symmetric] by simp
    show "unat h3 + unat s2 div 2 ^ 26 = unat s3 mod 2 ^ 26 + 2 ^ 26 * (unat s3 div 2 ^ 26)" unfolding s3(1) [symmetric] by simp
  qed
  have one: "unat (push_bit 26 1 :: u32) = 2 ^ 26" by simp
  have low: "unat s0 mod 2 ^ 26 + 2 ^ 26 * (unat s1 mod 2 ^ 26) + 2 ^ 52 * (unat s2 mod 2 ^ 26) + 2 ^ 78 * (unat s3 mod 2 ^ 26) < 2 ^ 104"
  proof -
    have "x mod 2 ^ 26 < 2 ^ 26" for x :: nat by simp
    from this [of "unat s0"] this [of "unat s1"] this [of "unat s2"] this [of "unat s3"] show ?thesis by simp
  qed
  show "limbs_num (poly_select h) = limbs_num h mod P1305" "small (poly_select h)"
  proof (atomize (full), cases "unat s4 < 2 ^ 26")
    case True
    have "unat (s4 - push_bit 26 1) = 2 ^ 32 + unat s4 - 2 ^ 26"
      using True by (simp add: unat_sub_if_size word_size word_le_nat_alt)
    moreover have "2 ^ 31 \<le> 2 ^ 32 + unat s4 - 2 ^ 26" "2 ^ 32 + unat s4 - 2 ^ 26 < 2 ^ 32" using True by simp_all
    ultimately have "unat (drop_bit 31 (s4 - push_bit 26 1)) = 1" unfolding unat_drop_bit by (simp add: div_nat_eqI)
    then have "drop_bit 31 (s4 - push_bit 26 1) = 1" by (simp only: word_unat_eq_iff unsigned_1)
    then have "b = 0" by (simp add: b_def)
    then have "poly_select h = h" unfolding p by (simp add: pick_def h)
    moreover have "limbs_num h < P1305" using V low True by simp
    ultimately show "limbs_num (poly_select h) = limbs_num h mod P1305 \<and> small (poly_select h)" using assms by simp
  next
    case False
    then have u4: "unat s4 = 2 ^ 26" using s4(1) hb(5) q3 by simp
    then have "s4 = push_bit 26 1" using one by (simp only: word_unat_eq_iff)
    then have z: "s4 - push_bit 26 1 = 0" by simp
    then have "b = - 1" by (simp add: b_def)
    then have ps: "poly_select h = (s0 AND 0x03ffffff, s1 AND 0x03ffffff, s2 AND 0x03ffffff, s3 AND 0x03ffffff, 0)" unfolding p z by (simp add: pick_def)
    have v: "limbs_num (poly_select h) = unat s0 mod 2 ^ 26 + 2 ^ 26 * (unat s1 mod 2 ^ 26) + 2 ^ 52 * (unat s2 mod 2 ^ 26) + 2 ^ 78 * (unat s3 mod 2 ^ 26)"
      unfolding ps limbs_num_def prod.case unat_and_mask26 by simp
    have "limbs_num h = P1305 + limbs_num (poly_select h)" using V u4 unfolding v by simp
    moreover have "limbs_num (poly_select h) < P1305" using low unfolding v by simp
    ultimately show "limbs_num (poly_select h) = limbs_num h mod P1305 \<and> small (poly_select h)"
      by (simp add: ps small_def unat_and_mask26)
  qed
qed

lemma unat_or_push_mod:
  assumes "unat x < 2 ^ m"
  shows "unat (x OR push_bit m b :: u32) = (unat x + 2 ^ m * unat b) mod 2 ^ 32"
proof -
  have "unat (x OR push_bit m b) = take_bit 32 (push_bit m (unat b) OR unat x)"
    unfolding unsigned_or_eq unsigned_push_bit_eq using unat_less_pow [of x] by (simp add: or.commute take_bit_or take_bit_nat_eq_self)
  also have "push_bit m (unat b) OR unat x = push_bit m (unat b) + unat x"
  proof (rule disjunctive_add_eq_or [symmetric], rule bit_eqI)
    fix k
    have "\<not> bit (unat x) k" if "m \<le> k"
      using assms that by (metis bit_take_bit_iff less_le_not_le take_bit_nat_eq_self)
    then show "bit (push_bit m (unat b) AND unat x) k = bit (0 :: nat) k" by (auto simp: bit_simps)
  qed
  finally show ?thesis by (simp add: take_bit_eq_mod push_bit_eq_mult algebra_simps)
qed

lemma digits4: "G mod 2 ^ 32 + 2 ^ 32 * (G div 2 ^ 32 mod 2 ^ 32) + 2 ^ 64 * (G div 2 ^ 64 mod 2 ^ 32) + 2 ^ 96 * (G div 2 ^ 96 mod 2 ^ 32) = (G :: nat) mod 2 ^ 128"
proof -
  have s: "G mod 2 ^ (k + 32) = G mod 2 ^ k + 2 ^ k * (G div 2 ^ k mod 2 ^ 32)" for k
    by (simp add: power_add mod_mult2_eq)
  show ?thesis using s [of 32] s [of 64] s [of 96] by simp
qed

lemma resplit:
  fixes a0 :: nat
  shows "a1 = r + 2 ^ 6 * q \<Longrightarrow> a0 + 2 ^ 26 * a1 + 2 ^ 52 * a2 + 2 ^ 78 * a3 + 2 ^ 104 * a4 =
      (a0 + 2 ^ 26 * r) + 2 ^ 32 * ((q + 2 ^ 20 * a2) + 2 ^ 32 * (2 ^ 14 * a3 + 2 ^ 40 * a4))"
    "a2 = r + 2 ^ 12 * q \<Longrightarrow> a0 + 2 ^ 26 * a1 + 2 ^ 52 * a2 + 2 ^ 78 * a3 + 2 ^ 104 * a4 =
      (a0 + 2 ^ 26 * a1 + 2 ^ 52 * r) + 2 ^ 64 * ((q + 2 ^ 14 * a3) + 2 ^ 32 * (2 ^ 8 * a4))"
    "a3 = r + 2 ^ 18 * q \<Longrightarrow> a0 + 2 ^ 26 * a1 + 2 ^ 52 * a2 + 2 ^ 78 * a3 + 2 ^ 104 * a4 =
      (a0 + 2 ^ 26 * a1 + 2 ^ 52 * a2 + 2 ^ 78 * r) + 2 ^ 96 * (q + 2 ^ 8 * a4)"
  by simp_all

lemma pack_num:
  assumes "small (h0, h1, h2, h3, h4)"
  defines "V \<equiv> limbs_num (h0, h1, h2, h3, h4)"
  shows "unat (h0 OR push_bit 26 h1) = V mod 2 ^ 32" "unat (drop_bit 6 h1 OR push_bit 20 h2) = V div 2 ^ 32 mod 2 ^ 32"
    "unat (drop_bit 12 h2 OR push_bit 14 h3) = V div 2 ^ 64 mod 2 ^ 32" "unat (drop_bit 18 h3 OR push_bit 8 h4) = V div 2 ^ 96 mod 2 ^ 32"
proof -
  define a0 a1 a2 a3 a4 where "a0 = unat h0" and "a1 = unat h1" and "a2 = unat h2" and "a3 = unat h3" and "a4 = unat h4"
  note a = a0_def a1_def a2_def a3_def a4_def
  have b: "a0 < 2 ^ 26" "a1 < 2 ^ 26" "a2 < 2 ^ 26" "a3 < 2 ^ 26" "a4 < 2 ^ 26" using assms(1) by (simp_all add: small_def a)
  have V: "V = a0 + 2 ^ 26 * a1 + 2 ^ 52 * a2 + 2 ^ 78 * a3 + 2 ^ 104 * a4" by (simp add: V_def limbs_num_def a)
  have sp: "n = n mod 2 ^ k + 2 ^ k * (n div 2 ^ k)" for n k :: nat by simp
  have "V = (a0 + 2 ^ 26 * a1) + 2 ^ 32 * (2 ^ 20 * a2 + 2 ^ 46 * a3 + 2 ^ 72 * a4)" by (simp add: V)
  from split_div [OF this] have "V mod 2 ^ 32 = (a0 + 2 ^ 26 * a1) mod 2 ^ 32" by simp
  then show "unat (h0 OR push_bit 26 h1) = V mod 2 ^ 32" using unat_or_push_mod [of h0 26 h1] b(1) by (simp add: a)
  have d: "n div 2 ^ k < 2 ^ (26 - k)" if "n < 2 ^ 26" "k \<le> 26" for n k :: nat
    using that by (intro less_mult_imp_div_less) (simp flip: power_add)
  have e1: "V = (a0 + 2 ^ 26 * (a1 mod 2 ^ 6)) + 2 ^ 32 * ((a1 div 2 ^ 6 + 2 ^ 20 * a2) + 2 ^ 32 * (2 ^ 14 * a3 + 2 ^ 40 * a4))"
    unfolding V by (rule resplit(1) [OF sp])
  have l1: "a0 + 2 ^ 26 * (a1 mod 2 ^ 6) < 2 ^ 32"
  proof -
    have "a1 mod 2 ^ 6 < 2 ^ 6" by simp
    then show ?thesis using b(1) by simp
  qed
  from split_div [OF e1] l1 have f1: "V div 2 ^ 32 = (a1 div 2 ^ 6 + 2 ^ 20 * a2) + 2 ^ 32 * (2 ^ 14 * a3 + 2 ^ 40 * a4)" by simp
  from split_div [OF f1] have "V div 2 ^ 32 mod 2 ^ 32 = (a1 div 2 ^ 6 + 2 ^ 20 * a2) mod 2 ^ 32" by simp
  then show "unat (drop_bit 6 h1 OR push_bit 20 h2) = V div 2 ^ 32 mod 2 ^ 32"
    using unat_or_push_mod [of "drop_bit 6 h1" 20 h2] d [OF b(2), of 6] unfolding unat_drop_bit by (simp add: a)
  have e2: "V = (a0 + 2 ^ 26 * a1 + 2 ^ 52 * (a2 mod 2 ^ 12)) + 2 ^ 64 * ((a2 div 2 ^ 12 + 2 ^ 14 * a3) + 2 ^ 32 * (2 ^ 8 * a4))"
    unfolding V by (rule resplit(2) [OF sp])
  have l2: "a0 + 2 ^ 26 * a1 + 2 ^ 52 * (a2 mod 2 ^ 12) < 2 ^ 64"
  proof -
    have "a2 mod 2 ^ 12 < 2 ^ 12" by simp
    then show ?thesis using b(1,2) by simp
  qed
  from split_div [OF e2] l2 have f2: "V div 2 ^ 64 = (a2 div 2 ^ 12 + 2 ^ 14 * a3) + 2 ^ 32 * (2 ^ 8 * a4)" by simp
  from split_div [OF f2] have "V div 2 ^ 64 mod 2 ^ 32 = (a2 div 2 ^ 12 + 2 ^ 14 * a3) mod 2 ^ 32" by simp
  then show "unat (drop_bit 12 h2 OR push_bit 14 h3) = V div 2 ^ 64 mod 2 ^ 32"
    using unat_or_push_mod [of "drop_bit 12 h2" 14 h3] d [OF b(3), of 12] unfolding unat_drop_bit by (simp add: a)
  have e3: "V = (a0 + 2 ^ 26 * a1 + 2 ^ 52 * a2 + 2 ^ 78 * (a3 mod 2 ^ 18)) + 2 ^ 96 * (a3 div 2 ^ 18 + 2 ^ 8 * a4)"
    unfolding V by (rule resplit(3) [OF sp])
  have l3: "a0 + 2 ^ 26 * a1 + 2 ^ 52 * a2 + 2 ^ 78 * (a3 mod 2 ^ 18) < 2 ^ 96"
  proof -
    have "a3 mod 2 ^ 18 < 2 ^ 18" by simp
    then show ?thesis using b(1,2,3) by simp
  qed
  from split_div [OF e3] l3 have "V div 2 ^ 96 = a3 div 2 ^ 18 + 2 ^ 8 * a4" by simp
  then show "unat (drop_bit 18 h3 OR push_bit 8 h4) = V div 2 ^ 96 mod 2 ^ 32"
    using unat_or_push_mod [of "drop_bit 18 h3" 8 h4] d [OF b(4), of 18] unfolding unat_drop_bit by (simp add: a)
qed

lemma le_num_SetLE: "le_num (UInt32SetLE w) = unat w"
  using UInt32GetLE_SetLE [of w "[]"] le_num_32 [symmetric] by (simp add: UInt32SetLE_def)

lemma carry_words:
  fixes g0 :: nat
  assumes "d0 = g0 + x0" "d1 = g1 + x1 + d0 div 2 ^ 32" "d2 = g2 + x2 + d1 div 2 ^ 32" "d3 = g3 + x3 + d2 div 2 ^ 32"
  shows "(d0 mod 2 ^ 32 + 2 ^ 32 * (d1 mod 2 ^ 32) + 2 ^ 64 * (d2 mod 2 ^ 32) + 2 ^ 96 * (d3 mod 2 ^ 32)) =
    (g0 + 2 ^ 32 * g1 + 2 ^ 64 * g2 + 2 ^ 96 * g3 + (x0 + 2 ^ 32 * x1 + 2 ^ 64 * x2 + 2 ^ 96 * x3)) mod 2 ^ 128"
proof -
  have m: "n = n mod 2 ^ 32 + 2 ^ 32 * (n div 2 ^ 32)" for n :: nat by simp
  have c: "g0 + 2 ^ 32 * g1 + 2 ^ 64 * g2 + 2 ^ 96 * g3 + (x0 + 2 ^ 32 * x1 + 2 ^ 64 * x2 + 2 ^ 96 * x3) =
      (r0 + 2 ^ 32 * r1 + 2 ^ 64 * r2 + 2 ^ 96 * r3) + 2 ^ 128 * q3"
    if "g0 + x0 = r0 + 2 ^ 32 * q0" "g1 + x1 + q0 = r1 + 2 ^ 32 * q1" "g2 + x2 + q1 = r2 + 2 ^ 32 * q2" "g3 + x3 + q2 = r3 + 2 ^ 32 * q3"
    for r0 r1 r2 r3 q0 q1 q2 q3 using that by simp
  have e: "g0 + 2 ^ 32 * g1 + 2 ^ 64 * g2 + 2 ^ 96 * g3 + (x0 + 2 ^ 32 * x1 + 2 ^ 64 * x2 + 2 ^ 96 * x3) =
      (d0 mod 2 ^ 32 + 2 ^ 32 * (d1 mod 2 ^ 32) + 2 ^ 64 * (d2 mod 2 ^ 32) + 2 ^ 96 * (d3 mod 2 ^ 32)) + 2 ^ 128 * (d3 div 2 ^ 32)"
    by (rule c; (subst assms(1) [symmetric] | subst assms(2) [symmetric] | subst assms(3) [symmetric] | subst assms(4) [symmetric]); rule m)
  have "d0 mod 2 ^ 32 + 2 ^ 32 * (d1 mod 2 ^ 32) + 2 ^ 64 * (d2 mod 2 ^ 32) + 2 ^ 96 * (d3 mod 2 ^ 32) < 2 ^ 128"
  proof -
    have "x mod 2 ^ 32 < 2 ^ 32" for x :: nat by simp
    from this [of d0] this [of d1] this [of d2] this [of d3] show ?thesis by simp
  qed
  then show ?thesis using split_div [OF e] by simp
qed

section \<open>The whole code\<close>

lemma unat_widen: "unat (ucast (x :: u32) :: u64) = unat x"
  using unat_less_pow [of x] by (simp add: unsigned_ucast_eq take_bit_nat_eq_self)

lemma poly_mac_num:
  assumes "small h"
  shows "le_num (bytes32 (poly_mac h x)) = (limbs_num h + num4 x) mod 2 ^ 128" "length (bytes32 (poly_mac h x)) = 16"
proof -
  obtain h0 h1 h2 h3 h4 where h: "h = (h0, h1, h2, h3, h4)" by (cases h)
  define g0 where "g0 = h0 OR push_bit 26 h1"
  define g1 where "g1 = drop_bit 6 h1 OR push_bit 20 h2"
  define g2 where "g2 = drop_bit 12 h2 OR push_bit 14 h3"
  define g3 where "g3 = drop_bit 18 h3 OR push_bit 8 h4"
  define d0 where "d0 = (ucast g0 :: u64) + ucast (x ! 0)"
  define d1 where "d1 = (ucast g1 :: u64) + ucast (x ! 1) + drop_bit 32 d0"
  define d2 where "d2 = (ucast g2 :: u64) + ucast (x ! 2) + drop_bit 32 d1"
  define d3 where "d3 = (ucast g3 :: u64) + ucast (x ! 3) + drop_bit 32 d2"
  have p: "poly_mac h x = [ucast d0, ucast d1, ucast d2, ucast d3]"
    by (simp only: poly_mac_def h prod.case Let_def g0_def g1_def g2_def g3_def d0_def d1_def d2_def d3_def)
  have g: "unat g0 = limbs_num h mod 2 ^ 32" "unat g1 = limbs_num h div 2 ^ 32 mod 2 ^ 32" "unat g2 = limbs_num h div 2 ^ 64 mod 2 ^ 32"
    "unat g3 = limbs_num h div 2 ^ 96 mod 2 ^ 32"
    unfolding g0_def g1_def g2_def g3_def h using pack_num assms [unfolded h] by blast+
  have add: "unat ((ucast a :: u64) + ucast b + drop_bit 32 d) = unat a + unat b + unat d div 2 ^ 32" for a b :: u32 and d :: u64
  proof -
    have "unat d div 2 ^ 32 < 2 ^ 32" using unat_less_pow [of d] by (simp add: less_mult_imp_div_less)
    then have "unat a + unat b + unat d div 2 ^ 32 < 2 ^ 64" using unat_less_pow [of a] unat_less_pow [of b] by simp
    then show ?thesis using unat_add_less [of "ucast a + ucast b :: u64" "drop_bit 32 d"] unat_add_less [of "ucast a :: u64" "ucast b"]
      unfolding unat_widen unat_drop_bit by simp
  qed
  have d: "unat d0 = unat g0 + unat (x ! 0)" "unat d1 = unat g1 + unat (x ! 1) + unat d0 div 2 ^ 32" "unat d2 = unat g2 + unat (x ! 2) + unat d1 div 2 ^ 32"
    "unat d3 = unat g3 + unat (x ! 3) + unat d2 div 2 ^ 32"
  proof -
    show "unat d0 = unat g0 + unat (x ! 0)" using add [of g0 "x ! 0" 0] by (simp add: d0_def)
    show "unat d1 = unat g1 + unat (x ! 1) + unat d0 div 2 ^ 32" unfolding d1_def by (rule add)
    show "unat d2 = unat g2 + unat (x ! 2) + unat d1 div 2 ^ 32" unfolding d2_def by (rule add)
    show "unat d3 = unat g3 + unat (x ! 3) + unat d2 div 2 ^ 32" unfolding d3_def by (rule add)
  qed
  have "le_num (bytes32 (poly_mac h x)) = unat d0 mod 2 ^ 32 + 2 ^ 32 * (unat d1 mod 2 ^ 32) + 2 ^ 64 * (unat d2 mod 2 ^ 32) + 2 ^ 96 * (unat d3 mod 2 ^ 32)"
    unfolding p bytes32_def by (simp add: le_num_append le_num_SetLE) (simp add: unsigned_ucast_eq take_bit_eq_mod)
  also have "\<dots> = (unat g0 + 2 ^ 32 * unat g1 + 2 ^ 64 * unat g2 + 2 ^ 96 * unat g3 + num4 x) mod 2 ^ 128"
    unfolding num4_def by (rule carry_words [OF d])
  also have "unat g0 + 2 ^ 32 * unat g1 + 2 ^ 64 * unat g2 + 2 ^ 96 * unat g3 = limbs_num h mod 2 ^ 128" unfolding g by (rule digits4)
  finally show "le_num (bytes32 (poly_mac h x)) = (limbs_num h + num4 x) mod 2 ^ 128" by (simp add: mod_simps)
  show "length (bytes32 (poly_mac h x)) = 16" by (simp add: p)
qed

section \<open>Poly1305 as it is specified\<close>

text \<open>RFC 7539: each block of at most sixteen bytes is a number with a one bit above it; the sum is multiplied by the clamped first half of the key modulo
  \<open>2\<^sup>130 - 5\<close>, and the second half is added modulo \<open>2\<^sup>128\<close>.\<close>

function poly_ref :: "nat \<Rightarrow> nat \<Rightarrow> bytes \<Rightarrow> nat" where
  "poly_ref r acc data = (if data = [] then acc else poly_ref r ((acc + le_num (take 16 data @ [1])) * r mod P1305) (drop 16 data))"
  by pat_completeness auto
termination by (relation "measure (\<lambda>(r, acc, data). length data)") auto

declare poly_ref.simps [simp del]

definition poly1305_tag :: "bytes \<Rightarrow> bytes \<Rightarrow> nat" where
  "poly1305_tag key32 data = (poly_ref (le_num (take 16 key32) AND clamp_mask) 0 data + le_num (slice 16 16 key32)) mod 2 ^ 128"

lemma poly_block_num:
  assumes "data \<noteq> []"
  defines "x \<equiv> (if 16 > length data then data @ [1] @ replicate (15 - length data) 0 else take 16 data)"
    and "hibit \<equiv> (if 16 \<le> length data then push_bit 24 1 else 0 :: u32)"
  shows "limbs_num (poly_limbs (words32 x) hibit) = le_num (take 16 data @ [1])" "small (poly_limbs (words32 x) hibit)"
proof -
  have x: "length x = 16" by (simp add: x_def)
  have n: "num4 (words32 x) = le_num x" using words32_16 [OF x] by (simp add: num4_def)
  have hb: "hibit = 0 \<or> hibit = push_bit 24 1" by (simp add: hibit_def)
  have "le_num x + 2 ^ 104 * unat hibit = le_num (take 16 data @ [1])"
    by (simp add: x_def hibit_def le_num_append)
  then show "limbs_num (poly_limbs (words32 x) hibit) = le_num (take 16 data @ [1])" unfolding poly_limbs_num(1) [OF hb] n .
  show "small (poly_limbs (words32 x) hibit)" by (rule poly_limbs_num(2) [OF hb])
qed

lemma poly_loop_num:
  assumes "small r" "carried h" "limbs_num h mod P1305 = acc mod P1305"
  shows "carried (poly_loop r data h) \<and> limbs_num (poly_loop r data h) mod P1305 = poly_ref (limbs_num r) acc data mod P1305"
  using assms
proof (induction r data h arbitrary: acc rule: poly_loop.induct)
  case (1 r data h)
  show ?case
  proof (cases "data = []")
    case True
    then show ?thesis using "1.prems" by (simp add: poly_loop.simps poly_ref.simps)
  next
    case False
    define x where "x = (if 16 > length data then data @ [1] @ replicate (15 - length data) 0 else take 16 data)"
    define hibit :: u32 where "hibit = (if 16 \<le> length data then push_bit 24 1 else 0)"
    note b = poly_block_num [OF False, folded x_def hibit_def]
    define s where "s = poly_add h (poly_limbs (words32 x) hibit)"
    have s: "limbs_num s = limbs_num h + le_num (take 16 data @ [1])" "loose s" using poly_add_num [OF "1.prems"(2) b(2)] b(1) by (simp_all add: s_def)
    note mul = poly_mul_num [OF s(2) "1.prems"(1)]
    note car = poly_carry_num [OF mul(2)]
    have "limbs_num (poly_carry (poly_mul s r)) mod P1305 = (limbs_num h + le_num (take 16 data @ [1])) * limbs_num r mod P1305"
      unfolding car(1) mul(1) s(1) ..
    also have "\<dots> = (acc + le_num (take 16 data @ [1])) * limbs_num r mod P1305"
      by (rule mod_mult_cong [OF mod_add_cong [OF "1.prems"(3) refl] refl])
    finally have "limbs_num (poly_carry (poly_mul s r)) mod P1305 = (acc + le_num (take 16 data @ [1])) * limbs_num r mod P1305 mod P1305" by simp
    from "1.IH" [OF False x_def hibit_def, folded s_def, OF "1.prems"(1) car(2) this]
    have "carried (poly_loop r (drop 16 data) (poly_carry (poly_mul s r))) \<and> limbs_num (poly_loop r (drop 16 data) (poly_carry (poly_mul s r))) mod P1305 =
       poly_ref (limbs_num r) ((acc + le_num (take 16 data @ [1])) * limbs_num r mod P1305) (drop 16 data) mod P1305" .
    moreover have "poly_loop r data h = poly_loop r (drop 16 data) (poly_carry (poly_mul s r))"
      using False by (subst poly_loop.simps) (simp only: x_def hibit_def s_def Let_def if_False)
    ultimately show ?thesis using False by (simp add: poly_ref.simps [of _ acc data])
  qed
qed

end
