(* ===== verification/BRChaCha.thy ===== *)
theory BRChaCha
  imports BRPoly1305
begin

text \<open>
  The ChaCha20 cipher of RFC 7539, on a matrix of words and with the rotations of the word library, and the proof that the stream cipher of \<open>BRCrypto.c\<close>,
  which works on an array of sixteen words with a 64-bit counter, produces its key stream.
\<close>

section \<open>The cipher of RFC 7539\<close>

type_synonym matrix = "nat \<Rightarrow> nat \<Rightarrow> u32"

text \<open>Row and column of a state are below 4.\<close>

fun quarter_round :: "u32 \<times> u32 \<times> u32 \<times> u32 \<Rightarrow> u32 \<times> u32 \<times> u32 \<times> u32" where
  "quarter_round (a, b, c, d) =
     (let a = a + b; d = word_rotl 16 (d XOR a);
          c = c + d; b = word_rotl 12 (b XOR c);
          a = a + b; d = word_rotl 8 (d XOR a);
          c = c + d; b = word_rotl 7 (b XOR c)
      in (a, b, c, d))"

definition pick_row :: "nat \<Rightarrow> u32 \<times> u32 \<times> u32 \<times> u32 \<Rightarrow> u32" where
  "pick_row r = (\<lambda>(a, b, c, d). [a, b, c, d] ! r)"

text \<open>Column \<open>k\<close>, and the diagonal that starts in column \<open>k\<close> of the first row and goes on one column to the right in every row.\<close>

definition column_round :: "matrix \<Rightarrow> matrix" where
  "column_round m = (\<lambda>r k. pick_row r (quarter_round (m 0 k, m 1 k, m 2 k, m 3 k)))"

definition diagonal_round :: "matrix \<Rightarrow> matrix" where
  "diagonal_round m = (\<lambda>r c. let k = (c + 4 - r) mod 4 in
     pick_row r (quarter_round (m 0 k, m 1 ((k + 1) mod 4), m 2 ((k + 2) mod 4), m 3 ((k + 3) mod 4))))"

text \<open>Constants, key, block counter and nonce.\<close>

definition word_le :: "bytes \<Rightarrow> nat \<Rightarrow> u32" where
  "word_le bs i = word_of_nat (le_num (slice (4 * i) 4 bs))"

definition start_matrix :: "bytes \<Rightarrow> bytes \<Rightarrow> nat \<Rightarrow> matrix" where
  "start_matrix key32 nonce12 counter = (\<lambda>r c.
     if r = 0 then [0x61707865, 0x3320646e, 0x79622d32, 0x6b206574] ! c
     else if r = 1 then word_le key32 c
     else if r = 2 then word_le key32 (4 + c)
     else if c = 0 then word_of_nat counter else word_le nonce12 (c - 1))"

text \<open>Byte \<open>i\<close> of the key stream that begins at a block: twenty rounds, ten of each kind in turn, are added to the start state, whose words are given row by
  row, their least significant byte first.\<close>

definition rfc_key_stream :: "bytes \<Rightarrow> bytes \<Rightarrow> nat \<Rightarrow> nat \<Rightarrow> u8" where
  "rfc_key_stream key32 nonce12 counter i =
     (let m = start_matrix key32 nonce12 (counter + i div 64);
          r = i mod 64 div 16; c = i mod 16 div 4
      in ucast (drop_bit (8 * (i mod 4)) (m r c + ((diagonal_round \<circ> column_round) ^^ 10) m r c)))"

section \<open>The routine computes it\<close>

definition flat :: "matrix \<Rightarrow> u32 list" where
  "flat m = map (\<lambda>i. m (i div 4) (i mod 4)) [0..<16]"

lemma flat_list: "flat m = [m 0 0, m 0 1, m 0 2, m 0 3, m 1 0, m 1 1, m 1 2, m 1 3, m 2 0, m 2 1, m 2 2, m 2 3, m 3 0, m 3 1, m 3 2, m 3 3]"
  by (simp add: flat_def upt_rec [of 0] upt_rec numeral_2_eq_2 [symmetric])

lemma rol32_rotl: "0 < k \<Longrightarrow> k < 32 \<Longrightarrow> rol32 a k = word_rotl k a"
proof (rule bit_word_eqI)
  fix n assume k: "0 < k" "k < 32" and n: "n < LENGTH(32)"
  have "(n + 32 - k) mod 32 = (if k \<le> n then n - k else 32 + n - k)" using k n by (simp add: mod_if add.commute)
  then show "bit (rol32 a k) n = bit (word_rotl k a) n"
    using k n by (auto simp: rol32_def bit_simps dest: bit_imp_le_length)
qed

lemma qr_quarter: "qr i j k l x = (case quarter_round (x ! i, x ! j, x ! k, x ! l) of (a, b, c, d) \<Rightarrow> x[i := a, j := b, k := c, l := d])"
  by (simp add: qr_def rol32_rotl Let_def)

lemma pick_rows:
  "pick_row 0 q = (case q of (a, b, c, d) \<Rightarrow> a)" "pick_row 1 q = (case q of (a, b, c, d) \<Rightarrow> b)" "pick_row (Suc 0) q = (case q of (a, b, c, d) \<Rightarrow> b)"
  "pick_row 2 q = (case q of (a, b, c, d) \<Rightarrow> c)" "pick_row 3 q = (case q of (a, b, c, d) \<Rightarrow> d)"
  by (simp_all add: pick_row_def case_prod_unfold)

lemma column_quarters: "qr 3 7 11 15 (qr 2 6 10 14 (qr 1 5 9 13 (qr 0 4 8 12 (flat m)))) = flat (column_round m)"
  unfolding flat_list qr_quarter
  by (simp add: column_round_def pick_rows case_prod_beta del: quarter_round.simps)

lemma diagonal_quarters: "qr 3 4 9 14 (qr 2 7 8 13 (qr 1 6 11 12 (qr 0 5 10 15 (flat m)))) = flat (diagonal_round m)"
  unfolding flat_list qr_quarter
  by (simp add: diagonal_round_def pick_rows case_prod_beta Let_def numeral_2_eq_2 [symmetric] del: quarter_round.simps)

lemma rounds_flat: "(chacha_rounds ^^ n) (flat m) = flat (((diagonal_round \<circ> column_round) ^^ n) m)"
proof (induction n)
  case (Suc n)
  have "chacha_rounds (flat m) = flat ((diagonal_round \<circ> column_round) m)" for m
    by (simp only: chacha_rounds_def column_quarters diagonal_quarters comp_apply)
  with Suc show ?case by simp
qed simp

lemma bytes32_nth: "i < 4 * length ws \<Longrightarrow> bytes32 ws ! i = ucast (drop_bit (8 * (i mod 4)) (ws ! (i div 4)))"
proof (induction ws arbitrary: i)
  case (Cons w ws)
  have s: "bytes32 (w # ws) = UInt32SetLE w @ bytes32 ws" "length (UInt32SetLE w) = 4" by (simp_all add: bytes32_def)
  show ?case
  proof (cases "i < 4")
    case True
    then consider "i = 0" | "i = 1" | "i = 2" | "i = 3" by linarith
    then show ?thesis by cases (simp_all add: s nth_append UInt32SetLE_def)
  next
    case False
    then have "i div 4 = Suc ((i - 4) div 4)" "i mod 4 = (i - 4) mod 4" by presburger+
    with False Cons show ?thesis by (simp add: s nth_append)
  qed
qed simp

lemma words32_nth: "i < length bs div 4 \<Longrightarrow> words32 bs ! i = word_le bs i"
proof -
  assume i: "i < length bs div 4"
  then have "length (slice (4 * i) 4 bs) = 4" by (simp add: slice_def)
  moreover have "length xs = 4 \<Longrightarrow> \<exists>a b c d. xs = [a, b, c, d]" for xs :: bytes
    by (auto simp: length_Suc_conv numeral_eq_Suc)
  ultimately obtain a b c d where s: "slice (4 * i) 4 bs = [a, b, c, d]" by blast
  have "words32 bs ! i = UInt32GetLE [a, b, c, d]" using i by (simp add: words32_def s)
  also have "\<dots> = word_of_nat (unat (UInt32GetLE [a, b, c, d]))" by simp
  also have "\<dots> = word_le bs i" by (simp only: le_num_32 word_le_def s)
  finally show "words32 bs ! i = word_le bs i" .
qed

lemma sigma_words: "words32 sigma = [0x61707865, 0x3320646e, 0x79622d32, 0x6b206574]"
  by code_simp

lemma start_flat:
  assumes "length key32 = 32" "length nonce12 = 12" "c < 2 ^ 32"
  shows "chacha_start key32 (drop 4 nonce12) (aead_counter nonce12 + word_of_nat c) = flat (start_matrix key32 nonce12 c)"
proof -
  have n: "UInt32GetLE (take 4 nonce12) = word_le nonce12 0" "words32 (drop 4 nonce12) = [word_le nonce12 1, word_le nonce12 2]"
    using words32_nth [of 0 nonce12] words32_nth [of 1 nonce12] words32_nth [of 2 nonce12] assms(2)
    by (simp_all add: words32_def slice_def upt_rec [of 0] upt_rec numeral_2_eq_2)
  have k: "words32 key32 = map (word_le key32) [0..<8]"
    by (rule nth_equalityI) (simp_all add: assms(1) words32_nth)
  define ctr where "ctr = aead_counter nonce12 + word_of_nat c"
  let ?n = "unat (word_le nonce12 0)"
  have hi: "?n < 2 ^ 32" using unat_less_pow [of "word_le nonce12 0"] by simp
  have "unat (aead_counter nonce12) = ?n * 2 ^ 32"
    using hi by (simp add: aead_counter_def n(1) push_bit_eq_mult unat_word_ariths unsigned_ucast_eq take_bit_eq_mod)
  moreover have "unat (word_of_nat c :: u64) = c" using assms(3) by (intro unat_word_of_nat_less) simp
  moreover have "?n * 2 ^ 32 + c < 2 ^ 64" using hi assms(3) by simp
  ultimately have ctr: "unat ctr = ?n * 2 ^ 32 + c" unfolding ctr_def unat_word_ariths by simp
  have "unat (word_of_nat c :: u32) = c" using assms(3) by (intro unat_word_of_nat_less) simp
  then have "(ucast ctr :: u32) = word_of_nat c" "(ucast (drop_bit 32 ctr) :: u32) = word_le nonce12 0"
    using assms(3) unat_low [of ctr] unat_high [of ctr]
    by (simp_all only: word_unat_eq_iff ctr) simp_all
  then show ?thesis
    unfolding chacha_start_def sigma_words flat_list start_matrix_def k n(2) ctr_def
    by (simp add: upt_rec [of 0] upt_rec numeral_2_eq_2 [symmetric])
qed

lemma key_stream_rfc:
  assumes "length key32 = 32" "length nonce12 = 12" "c + i div 64 < 2 ^ 32"
  shows "key_stream key32 (drop 4 nonce12) (aead_counter nonce12 + word_of_nat c) i = rfc_key_stream key32 nonce12 c i"
proof -
  let ?m = "start_matrix key32 nonce12 (c + i div 64)"
  let ?f = "\<lambda>m. m (i mod 64 div 16) (i mod 16 div 4)"
  have j: "i mod 64 div 4 < 16" "i mod 64 div 4 div 4 = i mod 64 div 16" "i mod 64 div 4 mod 4 = i mod 16 div 4" "i mod 64 mod 4 = i mod 4" "i mod 64 < 64"
  proof -
    show "i mod 64 < 64" by simp
    then show "i mod 64 div 4 < 16" by (simp only: div_less_iff_less_mult)
    show "i mod 64 div 4 div 4 = i mod 64 div 16" by (simp add: div_mult2_eq [symmetric])
    show "i mod 64 mod 4 = i mod 4" by (simp add: mod_mod_cancel)
    show "i mod 64 div 4 mod 4 = i mod 16 div 4"
      using mod_mult2_eq [of "i mod 64" 4 4] mod_mod_cancel [of 16 64 i] by simp
  qed
  have f: "flat m ! (i mod 64 div 4) = ?f m" "length (flat m) = 16" for m
    using j(1) by (simp_all add: flat_def j(2,3))
  define m' where "m' = ((diagonal_round \<circ> column_round) ^^ 10) ?m"
  have "chacha_start key32 (drop 4 nonce12) (aead_counter nonce12 + word_of_nat c + word_of_nat (i div 64)) = flat ?m"
    using start_flat [OF assms] by (simp add: add.assoc)
  then have "key_stream key32 (drop 4 nonce12) (aead_counter nonce12 + word_of_nat c) i = bytes32 (map2 (+) (flat ?m) (flat m')) ! (i mod 64)"
    by (simp only: key_stream_def chacha_block_def rounds_flat m'_def)
  also have "\<dots> = ucast (drop_bit (8 * (i mod 64 mod 4)) (map2 (+) (flat ?m) (flat m') ! (i mod 64 div 4)))"
    using j(5) by (intro bytes32_nth) (simp add: f(2))
  also have "map2 (+) (flat ?m) (flat m') ! (i mod 64 div 4) = ?f ?m + ?f m'"
    using j(1) by (subst nth_map) (simp_all add: f)
  finally show ?thesis by (simp only: rfc_key_stream_def Let_def j(4) m'_def)
qed

end
