(* ===== verification/BRAead.thy ===== *)
theory BRAead
  imports BRChaCha
begin

text \<open>Poly1305 and the authenticated encryption as functions of the whole input: what is encrypted is decrypted, and a wrong tag is refused.\<close>

lemma poly_ref_less: "acc < P1305 \<Longrightarrow> poly_ref r acc data < P1305"
proof (induction r acc data rule: poly_ref.induct)
  case (1 r acc data)
  show ?case
  proof (cases "data = []")
    case True
    then show ?thesis using "1.prems" by (simp add: poly_ref.simps)
  next
    case False
    have "(acc + le_num (take 16 data @ [1])) * r mod P1305 < P1305" by (rule mod_less_divisor) simp
    then show ?thesis using "1.IH" [OF False] False by (subst poly_ref.simps) simp
  qed
qed

lemma poly_ref_append: "16 dvd length xs \<Longrightarrow> poly_ref r acc (xs @ ys) = poly_ref r (poly_ref r acc xs) ys"
proof (induction r acc xs rule: poly_ref.induct)
  case (1 r acc xs)
  show ?case
  proof (cases "xs = []")
    case True
    then show ?thesis by (simp add: poly_ref.simps)
  next
    case False
    then have l: "16 \<le> length xs" using "1.prems" by (simp add: dvd_imp_le)
    then have d: "take 16 (xs @ ys) = take 16 xs" "drop 16 (xs @ ys) = drop 16 xs @ ys" "16 dvd length (drop 16 xs)"
      using "1.prems" by (simp_all add: dvd_diff_nat)
    show ?thesis
      using "1.IH" [OF False d(3)] False unfolding poly_ref.simps [of r acc "xs @ ys"] poly_ref.simps [of r acc xs] d(1,2) by simp
  qed
qed

lemma poly_finish:
  assumes "carried h" "limbs_num h mod P1305 = acc mod P1305" "acc < P1305" "length key32 = 32"
  defines "r \<equiv> le_num (take 16 key32) AND clamp_mask"
  shows "le_num (Poly1305Final h key32 data) = (poly_ref r acc data + le_num (slice 16 16 key32)) mod 2 ^ 128" "length (Poly1305Final h key32 data) = 16"
proof -
  let ?k = "words32 (take 16 key32)"
  have k: "num4 ?k = le_num (take 16 key32)" "num4 (words32 (slice 16 16 key32)) = le_num (slice 16 16 key32)"
    using words32_16 [of "take 16 key32"] words32_16 [of "slice 16 16 key32"] assms(4) by (simp_all add: num4_def)
  have r: "limbs_num (poly_key ?k) = r" "small (poly_key ?k)" using poly_key_num [of ?k] k(1) by (simp_all add: r_def)
  define h1 where "h1 = poly_loop (poly_key ?k) data h"
  have h1: "carried h1" "limbs_num h1 mod P1305 = poly_ref r acc data mod P1305" using poly_loop_num [OF r(2) assms(1,2), of data] r(1) by (simp_all add: h1_def)
  note c = poly_full_carry_num [OF h1(1)]
  note s = poly_select_num [OF c(2)]
  have v: "limbs_num (poly_select (poly_full_carry h1)) = poly_ref r acc data"
    unfolding s(1) c(1) h1(2) by (rule mod_less) (rule poly_ref_less [OF assms(3)])
  show "le_num (Poly1305Final h key32 data) = (poly_ref r acc data + le_num (slice 16 16 key32)) mod 2 ^ 128" "length (Poly1305Final h key32 data) = 16"
    using poly_mac_num [OF s(2), of "words32 (slice 16 16 key32)"] v k(2) by (simp_all add: Poly1305Final_def Poly1305Compress_def h1_def)
qed

lemma zero_carried: "carried (0, 0, 0, 0, 0)" "limbs_num (0, 0, 0, 0, 0) = 0"
  by (simp_all add: carried_def limbs_num_def)

lemma Poly1305_tag:
  assumes "length key32 = 32"
  shows "le_num (Poly1305 key32 data) = poly1305_tag key32 data" "length (Poly1305 key32 data) = 16"
  using poly_finish [OF zero_carried(1) _ _ assms, of 0 data] by (simp_all add: Poly1305_def poly1305_tag_def zero_carried)

section \<open>The authenticated cipher as it is specified\<close>

definition pad16 :: "bytes \<Rightarrow> bytes" where
  "pad16 data = data @ replicate ((16 - length data mod 16) mod 16) 0"

definition aead_tag :: "bytes \<Rightarrow> bytes \<Rightarrow> bytes \<Rightarrow> bytes \<Rightarrow> nat" where
  "aead_tag key32 nonce12 ad cipher =
     poly1305_tag (map (rfc_key_stream key32 nonce12 0) [0..<32])
       (pad16 ad @ pad16 cipher @ UInt64SetLE (word_of_nat (length ad)) @ UInt64SetLE (word_of_nat (length cipher)))"

lemma length_pad16: "16 dvd length (pad16 data)"
proof -
  have "(n + (16 - n mod 16) mod 16) mod 16 = 0" for n :: nat
  proof -
    have "(n + y mod 16) mod 16 = (n mod 16 + y) mod 16" for y by (simp add: mod_simps)
    then have "(n + (16 - n mod 16) mod 16) mod 16 = (n mod 16 + (16 - n mod 16)) mod 16" .
    also have "n mod 16 + (16 - n mod 16) = 16" using mod_less_divisor [of 16 n] by linarith
    finally show ?thesis by simp
  qed
  from this [of "length data"] show ?thesis unfolding dvd_eq_mod_eq_0 pad16_def by (simp only: length_append length_replicate)
qed

lemma poly_padded_num:
  assumes "carried h" "limbs_num h mod P1305 = acc mod P1305" "acc < P1305" "length macKey = 32"
  defines "r \<equiv> le_num (take 16 macKey) AND clamp_mask"
  shows "carried (poly_padded h macKey data)" "limbs_num (poly_padded h macKey data) mod P1305 = poly_ref r acc (pad16 data) mod P1305"
proof -
  let ?k = "words32 (take 16 macKey)" and ?n = "length data div 16 * 16"
  have k: "num4 ?k = le_num (take 16 macKey)" using words32_16 [of "take 16 macKey"] assms(4) by (simp add: num4_def)
  have r: "limbs_num (poly_key ?k) = r" "small (poly_key ?k)" using poly_key_num [of ?k] k by (simp_all add: r_def)
  define h1 where "h1 = Poly1305Compress h macKey (take ?n data)"
  have h1: "carried h1" "limbs_num h1 mod P1305 = poly_ref r acc (take ?n data) mod P1305"
    using poly_loop_num [OF r(2) assms(1,2), of "take ?n data"] r(1) by (simp_all add: h1_def Poly1305Compress_def)
  have l: "poly_ref r acc (take ?n data) < P1305" by (rule poly_ref_less [OF assms(3)])
  show "carried (poly_padded h macKey data)" "limbs_num (poly_padded h macKey data) mod P1305 = poly_ref r acc (pad16 data) mod P1305"
  proof (atomize (full), cases "length data mod 16 = 0")
    case True
    then have "take ?n data = data" "pad16 data = data" by (simp_all add: pad16_def) (metis div_mult_mod_eq add_0_right order_refl)
    then show "carried (poly_padded h macKey data) \<and> limbs_num (poly_padded h macKey data) mod P1305 = poly_ref r acc (pad16 data) mod P1305"
      using h1 True by (simp add: poly_padded_def h1_def)
  next
    case False
    define pad where "pad = put 0 (drop ?n data) (replicate 16 (0 :: u8))"
    have m: "length data - ?n = length data mod 16" by (simp add: minus_div_mult_eq_mod)
    have "pad = drop ?n data @ replicate (16 - length data mod 16) 0" by (simp add: pad_def put_def m)
    moreover have "(16 - length data mod 16) mod 16 = 16 - length data mod 16" using False by simp
    ultimately have p: "pad16 data = take ?n data @ pad" by (simp add: pad16_def)
    have "length (take ?n data) = ?n" by (simp add: div_times_less_eq_dividend min_absorb2)
    then have "16 dvd length (take ?n data)" by simp
    then have a: "poly_ref r acc (pad16 data) = poly_ref r (poly_ref r acc (take ?n data)) pad" unfolding p by (rule poly_ref_append)
    have "poly_padded h macKey data = Poly1305Compress h1 macKey pad" using False by (simp add: poly_padded_def h1_def pad_def Let_def)
    then show "carried (poly_padded h macKey data) \<and> limbs_num (poly_padded h macKey data) mod P1305 = poly_ref r acc (pad16 data) mod P1305"
      using poly_loop_num [OF r(2) h1, of pad] r(1) unfolding a by (simp add: Poly1305Compress_def)
  qed
qed

lemma aead_mac_tag:
  assumes "length key32 = 32" "length nonce12 = 12"
  shows "le_num (aead_mac key32 nonce12 ad cipher) = aead_tag key32 nonce12 ad cipher" "length (aead_mac key32 nonce12 ad cipher) = 16"
proof -
  define k where "k = Chacha20 key32 (drop 4 nonce12) (replicate 32 0) (aead_counter nonce12)"
  have s: "key_stream key32 (drop 4 nonce12) (aead_counter nonce12) i = rfc_key_stream key32 nonce12 0 i" if "i < 32" for i
    using key_stream_rfc [OF assms, of 0 i] that by simp
  have k: "k = map (rfc_key_stream key32 nonce12 0) [0..<32]" "length k = 32"
    unfolding k_def Chacha20_stream [OF assms(1)] by (rule nth_equalityI) (simp_all add: s del: upt_Suc)
  let ?r = "le_num (take 16 k) AND clamp_mask"
  define a1 where "a1 = poly_ref ?r 0 (pad16 ad)"
  define a2 where "a2 = poly_ref ?r a1 (pad16 cipher)"
  have P0: "0 < P1305" by simp
  have a1: "a1 < P1305" unfolding a1_def by (rule poly_ref_less [OF P0])
  then have a2: "a2 < P1305" unfolding a2_def by (rule poly_ref_less)
  have h0: "limbs_num (0, 0, 0, 0, 0) mod P1305 = 0 mod P1305" by (simp add: zero_carried)
  note h1 = poly_padded_num [OF zero_carried(1) h0 P0 k(2), of ad, folded a1_def]
  note h2 = poly_padded_num [OF h1(1,2) a1 k(2), of cipher, folded a2_def]
  let ?l = "UInt64SetLE (word_of_nat (length ad)) @ UInt64SetLE (word_of_nat (length cipher))"
  have "poly_ref ?r 0 (pad16 ad @ pad16 cipher @ ?l) = poly_ref ?r a2 ?l" by (simp add: poly_ref_append length_pad16 a1_def a2_def)
  then show "le_num (aead_mac key32 nonce12 ad cipher) = aead_tag key32 nonce12 ad cipher" "length (aead_mac key32 nonce12 ad cipher) = 16"
    using poly_finish [OF h2(1,2) a2 k(2), of ?l] by (simp_all add: aead_mac_def k_def [symmetric] Let_def aead_tag_def poly1305_tag_def k(1) [symmetric])
qed

lemma words32_eq:
  assumes "length xs = 16" "length ys = 16"
  shows "xs = ys \<longleftrightarrow> words32 xs ! 0 = words32 ys ! 0 \<and> words32 xs ! 1 = words32 ys ! 1 \<and> words32 xs ! 2 = words32 ys ! 2 \<and> words32 xs ! 3 = words32 ys ! 3"
  using words32_16 [OF assms(1)] words32_16 [OF assms(2)] le_num_inj [of xs ys] assms by auto

lemma xor_zero_iff: "a XOR b = 0 \<longleftrightarrow> a = (b :: 'a::len word)"
proof
  assume "a XOR b = 0"
  then have "(a XOR b) XOR b = b" by simp
  then show "a = b" by (simp add: xor.assoc)
qed simp

lemma mac_differs:
  fixes m h :: "u32 list"
  shows "(m ! 0 XOR h ! 0) OR (m ! 1 XOR h ! 1) OR (m ! 2 XOR h ! 2) OR (if m ! 3 XOR h ! 3 \<noteq> 0 then 1 else 0) \<noteq> 0 \<longleftrightarrow>
     \<not> (m ! 0 = h ! 0 \<and> m ! 1 = h ! 1 \<and> m ! 2 = h ! 2 \<and> m ! 3 = h ! 3)"
  by (auto simp: or_eq_0_iff xor_zero_iff)

lemma aead_decrypt_cases:
  assumes "length key32 = 32" "length nonce12 = 12" "length c = n + 16" "n div 64 < 2 ^ 32 - 1" "n \<le> outLen"
  shows "Chacha20Poly1305AEADDecrypt (Some outLen) key32 nonce12 c ad =
     (if le_num (drop n c) = aead_tag key32 nonce12 ad (take n c)
      then (Chacha20 key32 (drop 4 nonce12) (take n c) (aead_counter nonce12 + 1), n) else ([], 0))"
proof -
  let ?mac = "aead_mac key32 nonce12 ad (take n c)"
  have l: "length (drop n c) = 16" "length ?mac = 16" using assms(3) aead_mac_tag(2) [OF assms(1,2)] by simp_all
  have "drop n c = ?mac \<longleftrightarrow> le_num (drop n c) = aead_tag key32 nonce12 ad (take n c)"
    using le_num_inj [of "drop n c" ?mac] l aead_mac_tag(1) [OF assms(1,2)] by auto
  moreover have "Chacha20 key32 iv [] k = []" for iv k by (simp add: Chacha20_def)
  ultimately show ?thesis
    using assms words32_eq [OF l] unfolding Chacha20Poly1305AEADDecrypt_def option.case Let_def mac_differs by simp
qed

text \<open>C32: Poly1305 computes the tag of RFC 7539: the polynomial of the padded blocks at the clamped first half of the key, modulo the prime, plus the second half.\<close>

theorem poly1305_correct:
  assumes "length key32 = 32"
  shows "length (Poly1305 key32 data) = 16 \<and> le_num (Poly1305 key32 data) = poly1305_tag key32 data"
  using Poly1305_tag [OF assms] by simp

theorem poly1305_correct_witness:
  "length (Poly1305 (replicate 32 3) [1, 2, 3]) = 16 \<and> le_num (Poly1305 (replicate 32 3) [1, 2, 3]) = poly1305_tag (replicate 32 3) [1, 2, 3]"
  by (rule poly1305_correct) simp

text \<open>C33: AEAD_CHACHA20_POLY1305 of RFC 7539.  Encryption is the exclusive or with the key stream of the RFC (constants, key, block counter from 1 and nonce in a
  four by four matrix, ten column and diagonal rounds of quarter rounds with rotations 16, 12, 8 and 7, the start state added), followed by the Poly1305 tag, under the
  first 32 bytes of the key stream from counter 0, of the associated data, the cipher text and the two lengths; decryption gives the message back, and
  returns nothing for any input whose tag is wrong.\<close>

theorem aead_correct:
  assumes "length key32 = 32" "length nonce12 = 12" "length data div 64 < 2 ^ 32 - 1" "length data + 16 \<le> outLen"
  shows "\<exists>c. Chacha20Poly1305AEADEncrypt (Some outLen) key32 nonce12 data ad = (c, length data + 16) \<and> length c = length data + 16 \<and>
     (\<forall>i<length data. c ! i = data ! i XOR rfc_key_stream key32 nonce12 1 i) \<and>
     le_num (drop (length data) c) = aead_tag key32 nonce12 ad (take (length data) c) \<and>
     Chacha20Poly1305AEADDecrypt (Some (length data)) key32 nonce12 c ad = (data, length data) \<and>
     (\<forall>c'. length c' = length data + 16 \<longrightarrow> le_num (drop (length data) c') \<noteq> aead_tag key32 nonce12 ad (take (length data) c') \<longrightarrow>
        Chacha20Poly1305AEADDecrypt (Some (length data)) key32 nonce12 c' ad = ([], 0))"
proof -
  define out where "out = Chacha20 key32 (drop 4 nonce12) data (aead_counter nonce12 + 1)"
  have l: "length out = length data" by (simp add: out_def assms(1))
  let ?c = "out @ aead_mac key32 nonce12 ad out"
  have c: "length ?c = length data + 16" using l aead_mac_tag(2) [OF assms(1,2)] by simp
  have t: "le_num (drop (length data) ?c) = aead_tag key32 nonce12 ad (take (length data) ?c)" using l aead_mac_tag(1) [OF assms(1,2)] by simp
  have "Chacha20Poly1305AEADEncrypt (Some outLen) key32 nonce12 data ad = (?c, length data + 16)"
    using assms(3,4) by (simp add: Chacha20Poly1305AEADEncrypt_def out_def Let_def)
  moreover have "?c ! i = data ! i XOR rfc_key_stream key32 nonce12 1 i" if "i < length data" for i
  proof -
    have "i div 64 \<le> length data div 64" using that by (simp add: div_le_mono)
    then have "1 + i div 64 < 2 ^ 32" using assms(3) by linarith
    then show ?thesis using that l key_stream_rfc [OF assms(1,2), of 1 i] by (simp add: nth_append) (simp add: out_def Chacha20_stream [OF assms(1)])
  qed
  moreover have "Chacha20Poly1305AEADDecrypt (Some (length data)) key32 nonce12 ?c ad = (data, length data)"
    unfolding aead_decrypt_cases [OF assms(1,2) c assms(3) order_refl] using t l Chacha20_involution [OF assms(1)] by (simp add: out_def)
  moreover have "Chacha20Poly1305AEADDecrypt (Some (length data)) key32 nonce12 c' ad = ([], 0)"
    if "length c' = length data + 16" "le_num (drop (length data) c') \<noteq> aead_tag key32 nonce12 ad (take (length data) c')" for c'
    unfolding aead_decrypt_cases [OF assms(1,2) that(1) assms(3) order_refl] using that(2) by simp
  ultimately show ?thesis using c t by blast
qed

theorem aead_correct_witness:
  "\<exists>c. Chacha20Poly1305AEADEncrypt (Some 20) (replicate 32 3) (replicate 12 4) [7, 8] [9] = (c, 18) \<and>
     Chacha20Poly1305AEADDecrypt (Some 2) (replicate 32 3) (replicate 12 4) c [9] = ([7, 8], 2)"
proof -
  have "length (replicate 32 (3 :: u8)) = 32" "length (replicate 12 (4 :: u8)) = 12" "length [7, 8 :: u8] div 64 < 2 ^ 32 - 1" "length [7, 8 :: u8] + 16 \<le> 20" by simp_all
  from aead_correct [OF this, of "[9]"] obtain c where
    "Chacha20Poly1305AEADEncrypt (Some 20) (replicate 32 3) (replicate 12 4) [7, 8] [9] = (c, length [7, 8 :: u8] + 16)"
    "Chacha20Poly1305AEADDecrypt (Some (length [7, 8 :: u8])) (replicate 32 3) (replicate 12 4) c [9] = ([7, 8], length [7, 8 :: u8])" by blast
  then show ?thesis by (intro exI [of _ c]) (simp add: numeral_2_eq_2)
qed

end
