(* ===== verification/BRPeer.thy ===== *)
theory BRPeer
  imports Complex_Main BRMerkleBlock BRWallet
begin

unbundle bit_operations_syntax

text \<open>
  \<open>BRPeer.c\<close>: the connection to one peer.  The state is the record \<open>BRPeerContext\<close>; what leaves the connection, bytes for the socket and calls of the client's
  callbacks, is appended to \<open>trace\<close>.  A callback may use the functions of this file on the same peer, so the call is handed to \<open>on_event\<close> of the
  surrounding world, which returns the new state.  The world also says which sends fail, and it holds the clock, the transactions that the client
  can supply, the proof-of-work functions and whether an array moves when it grows.  Times are exact numbers in place of \<open>double\<close>.  Arrays of transactions and
  hashes on the stack are taken to fit.  \<open>None\<close> is undefined behaviour; the second component of a result is the return value \<open>r\<close> of a handler.
\<close>

section \<open>Data\<close>

definition HEADER_LENGTH :: nat where "HEADER_LENGTH = 24"
definition MAX_MSG_LENGTH :: nat where "MAX_MSG_LENGTH = 0x02000000"
definition MAX_GETDATA_HASHES :: nat where "MAX_GETDATA_HASHES = 50000"
definition ENABLED_SERVICES :: u64 where "ENABLED_SERVICES = 0"
definition PROTOCOL_VERSION :: u32 where "PROTOCOL_VERSION = 70027"
definition MIN_PROTO_VERSION :: u32 where "MIN_PROTO_VERSION = 70026"
definition LOCAL_HOST :: bytes where "LOCAL_HOST = replicate 10 0 @ [0xff, 0xff, 0x7f, 0, 0, 1]"
definition CONNECT_TIMEOUT :: real where "CONNECT_TIMEOUT = 3"
definition SERVICES_NODE_NETWORK :: u64 where "SERVICES_NODE_NETWORK = 1"
definition SERVICES_NODE_BLOOM :: u64 where "SERVICES_NODE_BLOOM = 4"
definition USER_AGENT :: bytes where "USER_AGENT = ascii ''/rvnwallet:0.1.1/''"
definition DBL_MAX :: real where "DBL_MAX = (2 - 1 / 2 ^ 52) * 2 ^ 1023"

definition MSG_VERSION :: bytes where "MSG_VERSION = ascii ''version''"
definition MSG_VERACK :: bytes where "MSG_VERACK = ascii ''verack''"
definition MSG_ADDR :: bytes where "MSG_ADDR = ascii ''addr''"
definition MSG_INV :: bytes where "MSG_INV = ascii ''inv''"
definition MSG_GETDATA :: bytes where "MSG_GETDATA = ascii ''getdata''"
definition MSG_NOTFOUND :: bytes where "MSG_NOTFOUND = ascii ''notfound''"
definition MSG_GETBLOCKS :: bytes where "MSG_GETBLOCKS = ascii ''getblocks''"
definition MSG_GETHEADERS :: bytes where "MSG_GETHEADERS = ascii ''getheaders''"
definition MSG_TX :: bytes where "MSG_TX = ascii ''tx''"
definition MSG_HEADERS :: bytes where "MSG_HEADERS = ascii ''headers''"
definition MSG_GETADDR :: bytes where "MSG_GETADDR = ascii ''getaddr''"
definition MSG_MEMPOOL :: bytes where "MSG_MEMPOOL = ascii ''mempool''"
definition MSG_PING :: bytes where "MSG_PING = ascii ''ping''"
definition MSG_PONG :: bytes where "MSG_PONG = ascii ''pong''"
definition MSG_FILTERLOAD :: bytes where "MSG_FILTERLOAD = ascii ''filterload''"
definition MSG_MERKLEBLOCK :: bytes where "MSG_MERKLEBLOCK = ascii ''merkleblock''"
definition MSG_REJECT :: bytes where "MSG_REJECT = ascii ''reject''"
definition MSG_FEEFILTER :: bytes where "MSG_FEEFILTER = ascii ''feefilter''"
definition MSG_GETASSETDATA :: bytes where "MSG_GETASSETDATA = ascii ''getassetdata''"
definition MSG_ASSETDATA :: bytes where "MSG_ASSETDATA = ascii ''assetdata''"

definition inv_tx :: u32 where "inv_tx = 1"
definition inv_block :: u32 where "inv_block = 2"
definition inv_filtered_block :: u32 where "inv_filtered_block = 3"

datatype BRPeerStatus = BRPeerStatusDisconnected | BRPeerStatusConnecting | BRPeerStatusConnected

text \<open>The sixteen bytes of the address are the list \<open>address\<close>.\<close>

record BRPeer =
  address :: bytes
  port :: u16
  services :: u64
  peer_timestamp :: u64
  peer_flags :: u8

text \<open>The callbacks of the client and what is sent.  A pair of a callback and its argument that is passed to a function is a number.\<close>

datatype peer_event =
    Sent bytes
  | Connected
  | Disconnected nat
  | RelayedPeers "BRPeer list"
  | RelayedTx BRTransaction
  | HasTx UInt256
  | RejectedTx UInt256 u8
  | RelayedBlock BRMerkleBlock
  | Notfound "UInt256 list" "UInt256 list"
  | SetFeePerKb u64
  | RequestedTx UInt256
  | Done nat bool
  | ReceiveAsset nat "BRAsset option"

record BRPeerContext = BRPeer +
  magicNumber :: u32
  status :: BRPeerStatus
  waitingForNetwork :: bool
  needsFilterUpdate :: bool
  peer_nonce :: u64
  peer_feePerKb :: u64
  useragent :: bytes
  peer_version :: u32
  lastblock :: u32
  peer_earliestKeyTime :: u32
  currentBlockHeight :: u32
  startTime :: real
  pingTime :: real
  disconnectTime :: real
  mempoolTime :: real
  sentVerack :: bool
  gotVerack :: bool
  sentGetaddr :: bool
  sentFilter :: bool
  sentGetdata :: bool
  sentMempool :: bool
  sentGetblocks :: bool
  lastBlockHash :: UInt256
  currentBlock :: "BRMerkleBlock option"
  currentBlockTxHashes :: "UInt256 list"
  knownBlockHashes :: "UInt256 list"
  knownTxHashes :: "UInt256 list"
  knownTxHashSet :: "UInt256 set"
  connected_socket :: bool
  callbacksSet :: bool
  pongCallback :: "nat option list"
  mempoolCallback :: "nat option"
  receiveAssetData :: "nat option"
  trace :: "peer_event list"

record peer_world =
  on_event :: "peer_event \<Rightarrow> BRPeerContext \<Rightarrow> BRPeerContext"
  send_ok :: "peer_event list \<Rightarrow> bool"
  tx_for :: "UInt256 \<Rightarrow> BRTransaction option"
  clock :: real
  time_now :: u64
  pow :: pow_ops
  moved :: "UInt256 list \<Rightarrow> bool"

definition event :: "peer_world \<Rightarrow> peer_event \<Rightarrow> BRPeerContext \<Rightarrow> BRPeerContext" where
  "event w e ctx = on_event w e (ctx\<lparr>trace := trace ctx @ [e]\<rparr>)"

text \<open>Before \<open>BRPeerSetCallbacks\<close> the callbacks are \<open>NULL\<close>, afterwards the manager has set all of them.\<close>

definition callback :: "peer_world \<Rightarrow> peer_event \<Rightarrow> BRPeerContext \<Rightarrow> BRPeerContext" where
  "callback w e ctx = (if callbacksSet ctx then event w e ctx else ctx)"

section \<open>Sending\<close>

definition BRPeerDisconnect :: "BRPeerContext \<Rightarrow> BRPeerContext" where
  "BRPeerDisconnect ctx = ctx\<lparr>connected_socket := False\<rparr>"

definition BRPeerScheduleDisconnect :: "peer_world \<Rightarrow> real \<Rightarrow> BRPeerContext \<Rightarrow> BRPeerContext" where
  "BRPeerScheduleDisconnect w seconds ctx = ctx\<lparr>disconnectTime := (if seconds < 0 then DBL_MAX else clock w + seconds)\<rparr>"

text \<open>\<open>strncpy\<close> into the twelve bytes of the type.\<close>

definition type_field :: "bytes \<Rightarrow> bytes" where
  "type_field t = take 12 (t @ replicate 12 0)"

definition frame :: "u32 \<Rightarrow> bytes \<Rightarrow> bytes \<Rightarrow> bytes" where
  "frame magic type msg = UInt32SetLE magic @ type_field type @ UInt32SetLE (word_of_nat (length msg)) @ take 4 (SHA256_2 msg) @ msg"

definition BRPeerSendMessage :: "peer_world \<Rightarrow> bytes \<Rightarrow> bytes \<Rightarrow> BRPeerContext \<Rightarrow> BRPeerContext" where
  "BRPeerSendMessage w msg type ctx =
     (if length msg > MAX_MSG_LENGTH then ctx
      else if connected_socket ctx then
        let ctx = ctx\<lparr>trace := trace ctx @ [Sent (frame (magicNumber ctx) type msg)]\<rparr>
        in if send_ok w (trace ctx) then ctx else BRPeerDisconnect ctx
      else BRPeerDisconnect ctx)"

text \<open>\<open>BRVarIntSet\<close> at an offset of a message that has room for it.\<close>

definition peer_varint :: "nat \<Rightarrow> bytes" where
  "peer_varint n = (let i = (word_of_nat n :: u64); size = BRVarIntSize i in the (fst (BRVarIntSet (Some (replicate size 0)) i)))"

definition PeerSendVersionMessage :: "peer_world \<Rightarrow> u32 \<times> u32 \<Rightarrow> BRPeerContext \<Rightarrow> BRPeerContext" where
  "PeerSendVersionMessage w rand ctx =
     (let n = push_bit 32 (ucast (fst rand)) OR ucast (snd rand);
          msg = UInt32SetLE PROTOCOL_VERSION @ UInt64SetLE ENABLED_SERVICES @ UInt64SetLE (time_now w) @ UInt64SetLE (services ctx) @
            address ctx @ UInt16SetBE (port ctx) @ UInt64SetLE ENABLED_SERVICES @ LOCAL_HOST @ UInt16SetBE (port ctx) @ UInt64SetLE n @
            peer_varint (length USER_AGENT) @ USER_AGENT @ UInt32SetLE 0 @ [0]
      in BRPeerSendMessage w msg MSG_VERSION (ctx\<lparr>peer_nonce := n\<rparr>))"

definition PeerSendVerackMessage :: "peer_world \<Rightarrow> BRPeerContext \<Rightarrow> BRPeerContext" where
  "PeerSendVerackMessage w ctx = (BRPeerSendMessage w [] MSG_VERACK ctx)\<lparr>sentVerack := True\<rparr>"

definition PeerSendAddr :: "peer_world \<Rightarrow> BRPeerContext \<Rightarrow> BRPeerContext" where
  "PeerSendAddr w = BRPeerSendMessage w (peer_varint 0) MSG_ADDR"

definition BRPeerSendFilterload :: "peer_world \<Rightarrow> bytes \<Rightarrow> BRPeerContext \<Rightarrow> BRPeerContext" where
  "BRPeerSendFilterload w filt ctx = BRPeerSendMessage w filt MSG_FILTERLOAD (ctx\<lparr>sentFilter := True, sentMempool := False\<rparr>)"

text \<open>The set points into the array; when the array has moved the set is built again from it.\<close>

definition add_known :: "peer_world \<Rightarrow> UInt256 \<Rightarrow> BRPeerContext \<Rightarrow> BRPeerContext" where
  "add_known w h ctx =
     (if h \<in> knownTxHashSet ctx then ctx
      else let k = knownTxHashes ctx @ [h]
           in ctx\<lparr>knownTxHashes := k, knownTxHashSet := (if moved w (knownTxHashes ctx) then set (rev k) else insert h (knownTxHashSet ctx))\<rparr>)"

definition PeerAddKnownTxHashes :: "peer_world \<Rightarrow> UInt256 list \<Rightarrow> BRPeerContext \<Rightarrow> BRPeerContext" where
  "PeerAddKnownTxHashes w = fold (add_known w)"

definition BRPeerSendMempool :: "peer_world \<Rightarrow> UInt256 list \<Rightarrow> nat option \<Rightarrow> BRPeerContext \<Rightarrow> BRPeerContext" where
  "BRPeerSendMempool w known completionCallback ctx =
     (let sent = sentMempool ctx; ctx = ctx\<lparr>sentMempool := True\<rparr>
      in if \<not> sent \<and> mempoolCallback ctx = None then
           let ctx = PeerAddKnownTxHashes w known ctx;
               ctx = (case completionCallback of None \<Rightarrow> ctx | Some c \<Rightarrow> ctx\<lparr>mempoolTime := clock w + 10, mempoolCallback := Some c\<rparr>)
           in BRPeerSendMessage w [] MSG_MEMPOOL ctx
         else (case completionCallback of None \<Rightarrow> ctx | Some c \<Rightarrow> event w (Done c False) ctx))"

definition locator_message :: "UInt256 list \<Rightarrow> UInt256 \<Rightarrow> bytes" where
  "locator_message locators hashStop = UInt32SetLE PROTOCOL_VERSION @ peer_varint (length locators) @ concat (map UInt256Set locators) @ UInt256Set hashStop"

definition BRPeerSendGetheaders :: "peer_world \<Rightarrow> UInt256 list \<Rightarrow> UInt256 \<Rightarrow> BRPeerContext \<Rightarrow> BRPeerContext" where
  "BRPeerSendGetheaders w locators hashStop ctx =
     (if length locators > 0 then BRPeerSendMessage w (locator_message locators hashStop) MSG_GETHEADERS ctx else ctx)"

definition BRPeerSendGetblocks :: "peer_world \<Rightarrow> UInt256 list \<Rightarrow> UInt256 \<Rightarrow> BRPeerContext \<Rightarrow> BRPeerContext" where
  "BRPeerSendGetblocks w locators hashStop ctx =
     (if length locators > 0 then BRPeerSendMessage w (locator_message locators hashStop) MSG_GETBLOCKS ctx else ctx)"

definition inv_item :: "u32 \<times> UInt256 \<Rightarrow> bytes" where
  "inv_item i = UInt32SetLE (fst i) @ UInt256Set (snd i)"

definition inv_message :: "(u32 \<times> UInt256) list \<Rightarrow> bytes" where
  "inv_message invs = peer_varint (length invs) @ concat (map inv_item invs)"

definition BRPeerSendInv :: "peer_world \<Rightarrow> UInt256 list \<Rightarrow> BRPeerContext \<Rightarrow> BRPeerContext" where
  "BRPeerSendInv w txs ctx =
     (let knownCount = length (knownTxHashes ctx); ctx = PeerAddKnownTxHashes w txs ctx; new = drop knownCount (knownTxHashes ctx)
      in if length new > 0 then BRPeerSendMessage w (inv_message (map (Pair inv_tx) new)) MSG_INV ctx else ctx)"

definition BRPeerSendGetdata :: "peer_world \<Rightarrow> UInt256 list \<Rightarrow> UInt256 list \<Rightarrow> BRPeerContext \<Rightarrow> BRPeerContext" where
  "BRPeerSendGetdata w txs blks ctx =
     (let count = length txs + length blks
      in if count > MAX_GETDATA_HASHES then ctx
         else if count > 0 then
           BRPeerSendMessage w (inv_message (map (Pair inv_tx) txs @ map (Pair inv_filtered_block) blks)) MSG_GETDATA (ctx\<lparr>sentGetdata := True\<rparr>)
         else ctx)"

text \<open>The name is an array that may be shorter than \<open>nameLen\<close>.\<close>

definition BRPeerSendGetAsset :: "peer_world \<Rightarrow> bytes \<Rightarrow> nat \<Rightarrow> nat option \<Rightarrow> BRPeerContext \<Rightarrow> BRPeerContext option" where
  "BRPeerSendGetAsset w assetName len receivedAssetData ctx = do {
     name \<leftarrow> rd_slice assetName 0 len;
     Some (BRPeerSendMessage w (peer_varint 1 @ peer_varint len @ name) MSG_GETASSETDATA (ctx\<lparr>receiveAssetData := receivedAssetData\<rparr>))
   }"

definition BRPeerSendGetaddr :: "peer_world \<Rightarrow> BRPeerContext \<Rightarrow> BRPeerContext" where
  "BRPeerSendGetaddr w ctx = BRPeerSendMessage w [] MSG_GETADDR (ctx\<lparr>sentGetaddr := True\<rparr>)"

definition BRPeerSendPing :: "peer_world \<Rightarrow> nat option \<Rightarrow> BRPeerContext \<Rightarrow> BRPeerContext" where
  "BRPeerSendPing w c ctx =
     (let ctx = ctx\<lparr>startTime := clock w, pongCallback := pongCallback ctx @ [c]\<rparr>
      in BRPeerSendMessage w (UInt64SetLE (peer_nonce ctx)) MSG_PING ctx)"

definition BRPeerRerequestBlocks :: "peer_world \<Rightarrow> UInt256 \<Rightarrow> BRPeerContext \<Rightarrow> BRPeerContext" where
  "BRPeerRerequestBlocks w fromBlock ctx =
     (let after = length (takeWhile (\<lambda>h. h \<noteq> fromBlock) (rev (knownBlockHashes ctx))); i = length (knownBlockHashes ctx) - after
      in if i > 0 then
           let ctx = ctx\<lparr>knownBlockHashes := drop (i - 1) (knownBlockHashes ctx)\<rparr> in BRPeerSendGetdata w [] (knownBlockHashes ctx) ctx
         else ctx)"

section \<open>State of the connection\<close>

definition BRPeerNew :: "u32 \<Rightarrow> BRPeerContext" where
  "BRPeerNew magic = \<lparr>address = replicate 16 0, port = 0, services = 0, peer_timestamp = 0, peer_flags = 0, magicNumber = magic,
     status = BRPeerStatusDisconnected, waitingForNetwork = False, needsFilterUpdate = False, peer_nonce = 0, peer_feePerKb = 0, useragent = [],
     peer_version = 0, lastblock = 0, peer_earliestKeyTime = 0, currentBlockHeight = 0, startTime = 0, pingTime = DBL_MAX, disconnectTime = DBL_MAX,
     mempoolTime = DBL_MAX, sentVerack = False, gotVerack = False, sentGetaddr = False, sentFilter = False, sentGetdata = False, sentMempool = False,
     sentGetblocks = False, lastBlockHash = 0, currentBlock = None, currentBlockTxHashes = [], knownBlockHashes = [], knownTxHashes = [],
     knownTxHashSet = {}, connected_socket = False, callbacksSet = False, pongCallback = [], mempoolCallback = None, receiveAssetData = None, trace = []\<rparr>"

definition BRPeerSetCallbacks :: "BRPeerContext \<Rightarrow> BRPeerContext" where
  "BRPeerSetCallbacks ctx = ctx\<lparr>callbacksSet := True\<rparr>"

definition BRPeerSetEarliestKeyTime :: "u32 \<Rightarrow> BRPeerContext \<Rightarrow> BRPeerContext" where
  "BRPeerSetEarliestKeyTime t ctx = ctx\<lparr>peer_earliestKeyTime := t\<rparr>"

definition BRPeerSetCurrentBlockHeight :: "u32 \<Rightarrow> BRPeerContext \<Rightarrow> BRPeerContext" where
  "BRPeerSetCurrentBlockHeight h ctx = ctx\<lparr>currentBlockHeight := h\<rparr>"

definition BRPeerSetNeedsFilterUpdate :: "bool \<Rightarrow> BRPeerContext \<Rightarrow> BRPeerContext" where
  "BRPeerSetNeedsFilterUpdate b ctx = ctx\<lparr>needsFilterUpdate := b\<rparr>"

text \<open>Whether the network is reachable and the thread could be started is decided outside.\<close>

definition BRPeerConnect :: "peer_world \<Rightarrow> bool \<Rightarrow> bool \<Rightarrow> BRPeerContext \<Rightarrow> BRPeerContext" where
  "BRPeerConnect w reachable started ctx =
     (if status ctx = BRPeerStatusDisconnected \<or> waitingForNetwork ctx then
        let ctx = ctx\<lparr>status := BRPeerStatusConnecting\<rparr>
        in if callbacksSet ctx \<and> \<not> reachable then ctx\<lparr>waitingForNetwork := True\<rparr>
           else let ctx = ctx\<lparr>waitingForNetwork := False, disconnectTime := clock w + CONNECT_TIMEOUT\<rparr>
                in if started then ctx else ctx\<lparr>status := BRPeerStatusDisconnected\<rparr>
      else ctx)"

definition BRPeerHash :: "BRPeer \<Rightarrow> nat" where
  "BRPeerHash p = unat (((0x811C9dc5 XOR UInt32GetLE (drop 12 (address p))) * 0x01000193 XOR ucast (port p)) * (0x01000193 :: u32))"

definition BRPeerEq :: "BRPeer \<Rightarrow> BRPeer \<Rightarrow> bool" where
  "BRPeerEq p q \<longleftrightarrow> address p = address q \<and> port p = port q"

definition PeerIsIPv4 :: "bytes \<Rightarrow> bool" where
  "PeerIsIPv4 addr \<longleftrightarrow> UInt64GetLE addr = 0 \<and> UInt16GetLE (drop 8 addr) = 0 \<and> UInt16GetLE (drop 10 addr) = 0xffff"

definition PeerDidConnect :: "peer_world \<Rightarrow> BRPeerContext \<Rightarrow> BRPeerContext" where
  "PeerDidConnect w ctx =
     (if status ctx = BRPeerStatusConnecting \<and> sentVerack ctx \<and> gotVerack ctx
      then callback w Connected (ctx\<lparr>disconnectTime := DBL_MAX, status := BRPeerStatusConnected\<rparr>) else ctx)"

end
