(* ===== verification/BRPeerMessages.thy ===== *)
theory BRPeerMessages
  imports BRPeer
begin

unbundle bit_operations_syntax

text \<open>
  The handlers of \<open>BRPeer.c\<close> for incoming messages, the reader that cuts the byte stream into messages, and the end of a connection.
\<close>

section \<open>Handshake and small messages\<close>

definition PeerAcceptVersionMessage :: "peer_world \<Rightarrow> bytes \<Rightarrow> BRPeerContext \<Rightarrow> (BRPeerContext \<times> bool) option" where
  "PeerAcceptVersionMessage w msg ctx =
     (if 85 > length msg then Some (ctx, False)
      else let ctx = ctx\<lparr>peer_version := UInt32GetLE (slice 0 4 msg), services := UInt64GetLE (slice 4 8 msg), peer_timestamp := UInt64GetLE (slice 12 8 msg)\<rparr>;
               (strLen, len) = BRVarInt (drop 80 msg); off = adv 80 len
           in if adv (adv off (unat strLen)) 4 > length msg then Some (ctx, False)
              else if peer_version ctx < MIN_PROTO_VERSION then Some (ctx, False)
              else do {
                agent \<leftarrow> rd_slice msg off (unat strLen);
                last \<leftarrow> rd_slice msg (adv off (unat strLen)) 4;
                Some (PeerSendVerackMessage w (ctx\<lparr>useragent := agent @ [0], lastblock := UInt32GetLE last\<rparr>), True)
              })"

definition PeerAcceptVerackMessage :: "peer_world \<Rightarrow> BRPeerContext \<Rightarrow> BRPeerContext \<times> bool" where
  "PeerAcceptVerackMessage w ctx =
     (if gotVerack ctx then (ctx, True)
      else (PeerDidConnect w (ctx\<lparr>pingTime := clock w - startTime ctx, startTime := 0, gotVerack := True\<rparr>), True))"

definition PeerAcceptGetaddrMessage :: "peer_world \<Rightarrow> BRPeerContext \<Rightarrow> BRPeerContext \<times> bool" where
  "PeerAcceptGetaddrMessage w ctx = (PeerSendAddr w ctx, True)"

definition PeerAcceptPingMessage :: "peer_world \<Rightarrow> bytes \<Rightarrow> BRPeerContext \<Rightarrow> BRPeerContext \<times> bool" where
  "PeerAcceptPingMessage w msg ctx = (if 8 > length msg then (ctx, False) else (BRPeerSendMessage w msg MSG_PONG ctx, True))"

definition PeerAcceptPongMessage :: "peer_world \<Rightarrow> bytes \<Rightarrow> BRPeerContext \<Rightarrow> BRPeerContext \<times> bool" where
  "PeerAcceptPongMessage w msg ctx =
     (if 8 > length msg then (ctx, False)
      else if UInt64GetLE msg \<noteq> peer_nonce ctx then (ctx, False)
      else (case pongCallback ctx of [] \<Rightarrow> (ctx, False)
         | c # cs \<Rightarrow>
           let ctx = (if startTime ctx > 1 then ctx\<lparr>pingTime := pingTime ctx * (1 / 2) + (clock w - startTime ctx) * (1 / 2), startTime := 0\<rparr> else ctx);
               ctx = ctx\<lparr>pongCallback := cs\<rparr>
           in (case c of None \<Rightarrow> ctx | Some c \<Rightarrow> event w (Done c True) ctx, True)))"

definition PeerAcceptFeeFilterMessage :: "peer_world \<Rightarrow> bytes \<Rightarrow> BRPeerContext \<Rightarrow> BRPeerContext \<times> bool" where
  "PeerAcceptFeeFilterMessage w msg ctx =
     (if 8 > length msg then (ctx, False)
      else let ctx = ctx\<lparr>peer_feePerKb := UInt64GetLE msg\<rparr> in (callback w (SetFeePerKb (peer_feePerKb ctx)) ctx, True))"

section \<open>Assets\<close>

text \<open>The name is the C string up to its first zero; the callback is called without a test for \<open>NULL\<close>.\<close>

definition receive_asset :: "peer_world \<Rightarrow> BRAsset option \<Rightarrow> BRPeerContext \<Rightarrow> BRPeerContext option" where
  "receive_asset w asset ctx = map_option (\<lambda>c. event w (ReceiveAsset c asset) ctx) (receiveAssetData ctx)"

definition PeerAcceptAssetMessage :: "peer_world \<Rightarrow> bytes \<Rightarrow> BRPeerContext \<Rightarrow> (BRPeerContext \<times> bool) option" where
  "PeerAcceptAssetMessage w msg ctx =
     (let (count, off) = BRVarInt msg; count = unat count
      in if length msg > 16898 then Some (ctx, True)
         else do {
           nm \<leftarrow> rd_slice msg off count;
           let off = off + count;
           if field_string nm = ascii ''_NF'' then map_option (\<lambda>ctx. (ctx, True)) (receive_asset w None ctx)
           else do {
             let amt = (if off + 8 \<le> length msg then UInt64GetLE (drop off msg) else 0);
             u \<leftarrow> rd msg (off + 8);
             r \<leftarrow> rd msg (off + 9);
             i \<leftarrow> rd msg (off + 10);
             let (ipfsLen, sLen) = BRVarInt (drop (off + 11) msg);
             let off = off + 11 + sLen;
             str \<leftarrow> (if (i \<noteq> 0 \<or> ipfsLen \<noteq> 0) \<and> off \<le> length msg + unat ipfsLen
                     then map_option (\<lambda>h. the (fst (EncodeIPFS (Some (take 47 (IPFSHash NewAsset))) h)) @ drop 47 (IPFSHash NewAsset)) (rd_slice msg off (unat ipfsLen))
                     else Some (IPFSHash NewAsset));
             map_option (\<lambda>ctx. (ctx, True)) (receive_asset w (Some (NewAsset\<lparr>name := Some (nm @ [0]), nameLen := count, amount := amt, unit := u,
               reissuable := r, hasIPFS := i, IPFSHash := str\<rparr>)) ctx)
           }
         })"

section \<open>Addresses and inventories\<close>

text \<open>\<open>off + count*n > msgLen\<close> in 64-bit arithmetic.\<close>

definition too_short :: "bytes \<Rightarrow> nat \<Rightarrow> u64 \<Rightarrow> nat \<Rightarrow> bool" where
  "too_short msg off cnt n \<longleftrightarrow> (off + unat cnt * n) mod 2 ^ 64 > length msg"

definition addr_entry :: "u64 \<Rightarrow> bytes \<Rightarrow> BRPeer option" where
  "addr_entry now e =
     (let t = (ucast (UInt32GetLE (slice 0 4 e)) :: u64); s = UInt64GetLE (slice 4 8 e); a = slice 12 16 e
      in if s AND SERVICES_NODE_NETWORK = 0 then None
         else if \<not> PeerIsIPv4 a then None
         else Some \<lparr>address = a, port = UInt16GetBE (slice 28 2 e), services = s,
                    peer_timestamp = (if t > now + 10 * 60 \<or> t = 0 then now - 5 * 24 * 60 * 60 else t) - 2 * 60 * 60, peer_flags = 0\<rparr>)"

fun read_entries :: "nat \<Rightarrow> nat \<Rightarrow> bytes \<Rightarrow> nat \<Rightarrow> bytes list option" where
  "read_entries n 0 msg off = Some []"
| "read_entries n (Suc k) msg off = do { e \<leftarrow> rd_slice msg off n; es \<leftarrow> read_entries n k msg (off + n); Some (e # es) }"

definition PeerAcceptAddrMessage :: "peer_world \<Rightarrow> bytes \<Rightarrow> BRPeerContext \<Rightarrow> (BRPeerContext \<times> bool) option" where
  "PeerAcceptAddrMessage w msg ctx =
     (let (count, off) = BRVarInt msg
      in if too_short msg off count 30 then Some (ctx, False)
         else if count > 1000 then Some (ctx, True)
         else if sentGetaddr ctx then do {
           es \<leftarrow> read_entries 30 (unat count) msg off;
           let peers = List.map_filter (addr_entry (time_now w)) es;
           Some (if length peers > 0 then callback w (RelayedPeers peers) ctx else ctx, True)
         } else Some (ctx, True))"

definition item_of :: "bytes \<Rightarrow> u32 \<times> UInt256" where
  "item_of e = (UInt32GetLE (slice 0 4 e), UInt256Get (slice 4 32 e))"

definition hashes_typed :: "u32 list \<Rightarrow> (u32 \<times> UInt256) list \<Rightarrow> UInt256 list" where
  "hashes_typed ts invs = map snd (filter (\<lambda>i. fst i \<in> set ts) invs)"

function trim_known :: "UInt256 list \<Rightarrow> UInt256 list" where
  "trim_known known = (if length known > MAX_GETDATA_HASHES then trim_known (drop (length known div 3) known) else known)"
  by pat_completeness auto
termination by (relation "measure length") (auto simp: MAX_GETDATA_HASHES_def)

declare trim_known.simps [simp del]

text \<open>Known transactions are reported, the others are collected.\<close>

fun inv_unknown :: "peer_world \<Rightarrow> UInt256 list \<Rightarrow> UInt256 list \<Rightarrow> BRPeerContext \<Rightarrow> UInt256 list \<times> BRPeerContext" where
  "inv_unknown w [] js ctx = (js, ctx)"
| "inv_unknown w (h # ts) js ctx =
     (if h \<in> knownTxHashSet ctx then inv_unknown w ts js (callback w (HasTx h) ctx) else inv_unknown w ts (js @ [h]) ctx)"

definition inv_accept :: "peer_world \<Rightarrow> UInt256 list \<Rightarrow> UInt256 list \<Rightarrow> BRPeerContext \<Rightarrow> BRPeerContext" where
  "inv_accept w ts bs ctx =
     (let bs = (if \<not> sentFilter ctx \<and> \<not> sentGetblocks ctx then [] else bs);
          bs = (if length bs = 1 \<and> UInt256Eq (lastBlockHash ctx) (hd bs) then [] else bs);
          ctx = (if length bs = 1 then ctx\<lparr>lastBlockHash := hd bs\<rparr> else ctx);
          ctx = ctx\<lparr>knownBlockHashes := trim_known (knownBlockHashes ctx @ bs)\<rparr>;
          bs = (if needsFilterUpdate ctx then [] else bs);
          (js, ctx) = inv_unknown w ts [] ctx;
          ctx = PeerAddKnownTxHashes w js ctx;
          ctx = (if length js > 0 \<or> length bs > 0 then BRPeerSendGetdata w js bs ctx else ctx);
          ctx = (if length bs \<ge> 500 then BRPeerSendGetblocks w [last bs, hd bs] UINT256_ZERO ctx else ctx)
      in if length ts > 0 then
           (case mempoolCallback ctx of None \<Rightarrow> ctx
            | Some c \<Rightarrow> (BRPeerSendPing w (Some c) ctx)\<lparr>mempoolCallback := None, mempoolTime := DBL_MAX\<rparr>)
         else ctx)"

definition PeerAcceptInvMessage :: "peer_world \<Rightarrow> bytes \<Rightarrow> BRPeerContext \<Rightarrow> (BRPeerContext \<times> bool) option" where
  "PeerAcceptInvMessage w msg ctx =
     (let (count, off) = BRVarInt msg
      in if too_short msg off count 36 then Some (ctx, False)
         else if unat count > MAX_GETDATA_HASHES then Some (ctx, True)
         else do {
           es \<leftarrow> read_entries 36 (unat count) msg off;
           let ts = hashes_typed [inv_tx] (map item_of es);
           let bs = hashes_typed [inv_block] (map item_of es);
           Some (if length ts > 0 \<and> \<not> sentFilter ctx \<and> \<not> sentMempool ctx \<and> \<not> sentGetblocks ctx then (ctx, False)
                 else if length ts > 10000 then (ctx, False)
                 else if currentBlockHeight ctx > 0 \<and> length bs > 2 \<and> length bs < 500 \<and>
                   unat (currentBlockHeight ctx) + length (knownBlockHashes ctx) + length bs < unat (lastblock ctx) then (ctx, False)
                 else (inv_accept w ts bs ctx, True))
         })"

definition PeerAcceptNotfoundMessage :: "peer_world \<Rightarrow> bytes \<Rightarrow> BRPeerContext \<Rightarrow> (BRPeerContext \<times> bool) option" where
  "PeerAcceptNotfoundMessage w msg ctx =
     (let (count, off) = BRVarInt msg
      in if too_short msg off count 36 then Some (ctx, False)
         else if unat count > MAX_GETDATA_HASHES then Some (ctx, True)
         else do {
           es \<leftarrow> read_entries 36 (unat count) msg off;
           let invs = map item_of es;
           Some (callback w (Notfound (hashes_typed [inv_tx] invs) (hashes_typed [inv_filtered_block, inv_block] invs)) ctx, True)
         })"

text \<open>A transaction that the client has is sent; everything else is collected for the answer.\<close>

fun serve_items :: "peer_world \<Rightarrow> bytes list \<Rightarrow> bytes list \<Rightarrow> BRPeerContext \<Rightarrow> bytes list \<times> BRPeerContext" where
  "serve_items w [] missing ctx = (missing, ctx)"
| "serve_items w (e # es) missing ctx =
     (let (type, hash) = item_of e
      in if type = inv_tx \<and> callbacksSet ctx then
           let ctx = callback w (RequestedTx hash) ctx
           in (case tx_for w hash of
                 Some tx \<Rightarrow> if BRTransactionSize tx < TX_MAX_SIZE
                   then serve_items w es missing (BRPeerSendMessage w (filled_data tx None SIGHASH_ALL) MSG_TX ctx)
                   else serve_items w es (missing @ [e]) ctx
               | None \<Rightarrow> serve_items w es (missing @ [e]) ctx)
         else serve_items w es (missing @ [e]) ctx)"

definition PeerAcceptGetdataMessage :: "peer_world \<Rightarrow> bytes \<Rightarrow> BRPeerContext \<Rightarrow> (BRPeerContext \<times> bool) option" where
  "PeerAcceptGetdataMessage w msg ctx =
     (let (count, off) = BRVarInt msg
      in if too_short msg off count 36 then Some (ctx, False)
         else if unat count > MAX_GETDATA_HASHES then Some (ctx, True)
         else do {
           es \<leftarrow> read_entries 36 (unat count) msg off;
           let (missing, ctx) = serve_items w es [] ctx;
           Some (if missing = [] then ctx else BRPeerSendMessage w (peer_varint (length missing) @ concat missing) MSG_NOTFOUND ctx, True)
         })"

section \<open>Transactions and blocks\<close>

definition remove_pending :: "UInt256 \<Rightarrow> UInt256 list \<Rightarrow> UInt256 list" where
  "remove_pending h hs = rev (remove1 h (rev hs))"

definition collect_tx :: "peer_world \<Rightarrow> UInt256 \<Rightarrow> BRPeerContext \<Rightarrow> BRPeerContext" where
  "collect_tx w h ctx =
     (case currentBlock ctx of None \<Rightarrow> ctx
      | Some block \<Rightarrow>
        let ctx = ctx\<lparr>currentBlockTxHashes := remove_pending h (currentBlockTxHashes ctx)\<rparr>
        in if currentBlockTxHashes ctx = [] then callback w (RelayedBlock block) (ctx\<lparr>currentBlock := None\<rparr>) else ctx)"

definition PeerAcceptTxMessage :: "peer_world \<Rightarrow> bytes \<Rightarrow> BRPeerContext \<Rightarrow> (BRPeerContext \<times> bool) option" where
  "PeerAcceptTxMessage w msg ctx = do {
     tx \<leftarrow> BRTransactionParse (Some msg);
     Some (case tx of None \<Rightarrow> (ctx, False)
       | Some tx \<Rightarrow>
         if \<not> sentFilter ctx \<and> \<not> sentGetdata ctx then (ctx, False)
         else (collect_tx w (txHash tx) (callback w (RelayedTx tx) ctx), True))
   }"

text \<open>The matched hashes that are not known are added from the last to the first.\<close>

definition PeerAcceptMerkleblockMessage :: "peer_world \<Rightarrow> bytes \<Rightarrow> BRPeerContext \<Rightarrow> (BRPeerContext \<times> bool) option" where
  "PeerAcceptMerkleblockMessage w msg ctx = do {
     block \<leftarrow> BRMerkleBlockParse (pow w) (Some msg);
     (case block of None \<Rightarrow> Some (ctx, False)
      | Some block \<Rightarrow> do {
          valid \<leftarrow> BRMerkleBlockIsValid block (ucast (time_now w));
          if \<not> valid then Some (ctx, False)
          else if \<not> sentFilter ctx \<and> \<not> sentGetdata ctx then Some (ctx, False)
          else do {
            (_, count) \<leftarrow> BRMerkleBlockTxHashes block None;
            (hs, count) \<leftarrow> BRMerkleBlockTxHashes block (Some (replicate count 0));
            let new = filter (\<lambda>h. h \<notin> knownTxHashSet ctx) (rev (take count (the hs)));
            let ctx = ctx\<lparr>currentBlockTxHashes := currentBlockTxHashes ctx @ new\<rparr>;
            Some (if length (currentBlockTxHashes ctx) > 0 then ctx\<lparr>currentBlock := Some block\<rparr>
                  else callback w (RelayedBlock block) ctx, True)
          }
        })
   }"

section \<open>Rejections\<close>

text \<open>\<open>strncpy\<close> from the message: it stops behind the first zero and reads at most \<open>n\<close> bytes.\<close>

definition copy_string :: "bytes \<Rightarrow> nat \<Rightarrow> nat \<Rightarrow> bytes option" where
  "copy_string msg off n = (let s = takeWhile (\<lambda>b. b \<noteq> 0) (take n (drop off msg))
     in if length s = n \<or> off + length s < length msg then Some s else None)"

definition PeerAcceptRejectMessage :: "peer_world \<Rightarrow> bytes \<Rightarrow> BRPeerContext \<Rightarrow> (BRPeerContext \<times> bool) option" where
  "PeerAcceptRejectMessage w msg ctx =
     (let (strLen, off) = BRVarInt msg
      in if adv (adv off (unat strLen)) 1 > length msg then Some (ctx, False)
         else do {
           type \<leftarrow> copy_string msg off (min (unat strLen) 0xfff);
           let off = adv off (unat strLen);
           code \<leftarrow> rd msg off;
           let off = off + 1;
           let (strLen, len) = BRVarInt (drop off msg);
           let off = adv off len;
           let hashLen = (if type = MSG_TX then 32 else 0);
           if adv (adv off (unat strLen)) hashLen > length msg then Some (ctx, False)
           else do {
             _ \<leftarrow> copy_string msg off (min (unat strLen) 0xfff);
             let off = adv off (unat strLen);
             txHash \<leftarrow> (if hashLen = 32 then map_option UInt256Get (rd_slice msg off 32) else Some UINT256_ZERO);
             Some (if \<not> UInt256IsZero txHash then callback w (RejectedTx txHash code) ctx else ctx, True)
           }
         })"

end
