(* ===== verification/BRPeerStream.thy ===== *)
theory BRPeerStream
  imports BRPeerMessages
begin

unbundle bit_operations_syntax

text \<open>
  The handler for headers, the dispatch on the type of a message, and the reader that cuts the byte stream of the socket into messages.
\<close>

section \<open>Headers\<close>

text \<open>
  Offsets of headers are \<open>size_t\<close> and wrap.  \<open>startNewHeader\<close> is an \<open>int\<close> that is compared with \<open>size_t\<close> numbers; the other \<open>int\<close> variables
  hold indices and offsets of bytes that have been read, so they fit.
\<close>

definition from_int :: "nat \<Rightarrow> nat" where
  "from_int n = (if n mod 2 ^ 32 < 2 ^ 31 then n mod 2 ^ 32 else 2 ^ 64 - 2 ^ 32 + n mod 2 ^ 32)"

definition time_at :: "bytes \<Rightarrow> nat \<Rightarrow> u32 option" where
  "time_at msg i = map_option UInt32GetLE (rd_slice msg ((i + 68) mod 2 ^ 64) 4)"

text \<open>The two loops that look for the first header of 120 bytes and for the last timestamp.\<close>

function find_new :: "bytes \<Rightarrow> nat \<Rightarrow> nat \<Rightarrow> nat \<Rightarrow> u32 \<Rightarrow> (nat \<times> u32) option" where
  "find_new msg off cnt k t =
     (if 0 < t \<and> t < KAWPOW_ActivationTime then
        if k + 1 < cnt then do { t \<leftarrow> time_at msg (off + 81 * (k + 1)); find_new msg off cnt (k + 1) t } else Some (k + 1, t)
      else Some (k, t))"
  by pat_completeness auto
termination by (relation "measure (\<lambda>(msg, off, cnt, k, t). cnt - k)") auto

function last_new :: "bytes \<Rightarrow> nat \<Rightarrow> nat \<Rightarrow> nat \<Rightarrow> nat \<Rightarrow> u32 \<Rightarrow> u32 option" where
  "last_new msg start cnt k n t =
     (if t \<ge> KAWPOW_ActivationTime \<and> k + 1 < cnt then do { t \<leftarrow> time_at msg (start + 121 * n); last_new msg start cnt (k + 1) (n + 1) t }
      else Some t)"
  by pat_completeness auto
termination by (relation "measure (\<lambda>(msg, start, cnt, k, n, t). cnt - k)") auto

declare find_new.simps [simp del] last_new.simps [simp del]

record header_layout =
  first_time :: u32
  last_time :: u32
  newest :: u32
  startNew :: nat
  startSize :: nat

definition find_layout :: "bytes \<Rightarrow> nat \<Rightarrow> nat \<Rightarrow> header_layout option" where
  "find_layout msg off cnt = do {
     ts \<leftarrow> (if cnt > 0 then time_at msg (off + 81 * (cnt - 1)) else Some 0);
     t1 \<leftarrow> (if cnt > 0 then time_at msg off else Some 0);
     if (off + 81 * (cnt + 1)) mod 2 ^ 64 < length msg then do {
       (k, t) \<leftarrow> find_new msg off cnt 0 t1;
       if k = cnt then Some \<lparr>first_time = t1, last_time = t, newest = t, startNew = from_int (cnt + 1), startSize = 0\<rparr>
       else do {
         t' \<leftarrow> last_new msg (off + 81 * k) cnt k 0 t;
         Some \<lparr>first_time = t1, last_time = t', newest = t', startNew = k, startSize = off + 81 * k\<rparr>
       }
     } else Some \<lparr>first_time = t1, last_time = t1, newest = ts, startNew = from_int (cnt + 1), startSize = 0\<rparr>
   }"

text \<open>\<open>timestamp > 0 && timestamp + 7*24*60*60 + BLOCK_MAX_TIME_DRIFT >= earliestKeyTime\<close>\<close>

definition recent :: "u32 \<Rightarrow> BRPeerContext \<Rightarrow> bool" where
  "recent t ctx \<longleftrightarrow> t > 0 \<and> t + 7 * 24 * 60 * 60 + BLOCK_MAX_TIME_DRIFT \<ge> peer_earliestKeyTime ctx"

text \<open>The hash of the header of 120 bytes at an offset, and of one of 80 bytes.\<close>

definition kawpow_locator :: "peer_world \<Rightarrow> bytes \<Rightarrow> nat \<Rightarrow> UInt256 option" where
  "kawpow_locator w msg i = do {
     hdr \<leftarrow> rd_slice msg (i mod 2 ^ 64) 80;
     mix \<leftarrow> rd_slice msg ((i + 88) mod 2 ^ 64) 32;
     n \<leftarrow> rd_slice msg ((i + 80) mod 2 ^ 64) 8;
     Some (UInt256Reverse (UInt256Get (light_verify (pow w) (UInt256Set (UInt256Reverse (UInt256Get (SHA256_2 hdr))))
       (UInt256Set (UInt256Reverse (UInt256Get mix))) (UInt64GetLE n))))
   }"

definition x16_locator :: "peer_world \<Rightarrow> bool \<Rightarrow> bytes \<Rightarrow> nat \<Rightarrow> UInt256 option" where
  "x16_locator w v2 msg i = do {
     hdr \<leftarrow> rd_slice msg (i mod 2 ^ 64) 80;
     map_option UInt256Get (if v2 then X16Rv2 (pow_sph (pow w)) (pow_tiger (pow w)) hdr else X16R (pow_sph (pow w)) hdr)
   }"

definition header_locators :: "peer_world \<Rightarrow> bytes \<Rightarrow> nat \<Rightarrow> nat \<Rightarrow> header_layout \<Rightarrow> (UInt256 \<times> UInt256) option" where
  "header_locators w msg off cnt l =
     (let final = length msg + 2 ^ 64 - 121
      in if first_time l \<ge> KAWPOW_ActivationTime \<and> last_time l \<ge> KAWPOW_ActivationTime then do {
           l0 \<leftarrow> kawpow_locator w msg final; l1 \<leftarrow> kawpow_locator w msg off; Some (l0, l1) }
         else if first_time l < KAWPOW_ActivationTime \<and> last_time l \<ge> KAWPOW_ActivationTime then do {
           l1 \<leftarrow> x16_locator w (first_time l \<ge> X16RV2ActivationTime) msg off; l0 \<leftarrow> kawpow_locator w msg final; Some (l0, l1) }
         else do {
           l0 \<leftarrow> x16_locator w (newest l \<ge> X16RV2ActivationTime) msg (off + 81 * (cnt + 2 ^ 64 - 1));
           l1 \<leftarrow> x16_locator w (newest l \<ge> X16RV2ActivationTime) msg off; Some (l0, l1) })"

text \<open>The position of a header in the part with 120 bytes; the index may be below \<open>startNewHeader\<close>, then the difference wraps.\<close>

definition new_position :: "header_layout \<Rightarrow> nat \<Rightarrow> nat" where
  "new_position l i = startSize l + 121 * ((i + 2 ^ 64 - startNew l) mod 2 ^ 64)"

definition next_time :: "bytes \<Rightarrow> nat \<Rightarrow> nat \<Rightarrow> header_layout \<Rightarrow> nat \<Rightarrow> u32 option" where
  "next_time msg off cnt l i =
     (if i + 1 < cnt then (if i < startNew l then time_at msg (off + 81 * (i + 1)) else time_at msg (new_position l (i + 1))) else Some 0)"

function first_recent :: "bytes \<Rightarrow> nat \<Rightarrow> nat \<Rightarrow> header_layout \<Rightarrow> BRPeerContext \<Rightarrow> nat \<Rightarrow> (nat \<times> u32) option" where
  "first_recent msg off cnt l ctx i = do {
     t \<leftarrow> next_time msg off cnt l i;
     if i + 1 < cnt \<and> t > 0 \<and> \<not> recent t ctx then first_recent msg off cnt l ctx (i + 1) else Some (i + 1, t)
   }"
  by pat_completeness auto
termination by (relation "measure (\<lambda>(msg, off, cnt, l, ctx, i). cnt - i)") auto

declare first_recent.simps [simp del]

text \<open>The parser gets the size of one header, but a header from the KawPow activation on is read up to byte 120 of the message.\<close>

definition header_block :: "peer_world \<Rightarrow> bytes \<Rightarrow> nat \<Rightarrow> nat \<Rightarrow> BRMerkleBlock option" where
  "header_block w msg location headerSize = do {
     hdr \<leftarrow> rd_slice msg location 80;
     (block, off) \<leftarrow> parse_header (drop location msg);
     block \<leftarrow> parse_tree (take headerSize (drop location msg)) off block;
     h \<leftarrow> pow_hash (pow w) hdr block;
     Some (block\<lparr>blockHash := h\<rparr>)
   }"

function relay_headers :: "peer_world \<Rightarrow> bytes \<Rightarrow> nat \<Rightarrow> nat \<Rightarrow> header_layout \<Rightarrow> nat \<Rightarrow> BRPeerContext \<Rightarrow> (BRPeerContext \<times> bool) option" where
  "relay_headers w msg off cnt l i ctx =
     (if i < cnt then do {
        let location = (if i \<ge> startNew l then new_position l i else off + 81 * i);
        _ \<leftarrow> time_at msg location;
        block \<leftarrow> header_block w msg location (if i \<ge> startNew l then 121 else 81);
        valid \<leftarrow> BRMerkleBlockIsValid block (ucast (time_now w));
        if valid then relay_headers w msg off cnt l (i + 1) (callback w (RelayedBlock block) ctx) else Some (ctx, False)
      } else Some (ctx, True))"
  by pat_completeness auto
termination by (relation "measure (\<lambda>(w, msg, off, cnt, l, i, ctx). cnt - i)") auto

declare relay_headers.simps [simp del]

definition PeerAcceptHeadersMessage :: "peer_world \<Rightarrow> bytes \<Rightarrow> BRPeerContext \<Rightarrow> (BRPeerContext \<times> bool) option" where
  "PeerAcceptHeadersMessage w msg ctx =
     (let (count, off) = BRVarInt msg; cnt = unat count
      in if too_short msg off count 81 then Some (ctx, False)
         else do {
           l \<leftarrow> find_layout msg off cnt;
           if cnt \<ge> 2000 \<or> recent (newest l) ctx then do {
             (l0, l1) \<leftarrow> header_locators w msg off cnt l;
             ctx \<leftarrow> (if recent (newest l) ctx then do {
                (i, t) \<leftarrow> first_recent msg off cnt l ctx 0;
                l0 \<leftarrow> (if t \<ge> KAWPOW_ActivationTime then kawpow_locator w msg (new_position l i)
                        else x16_locator w (t \<ge> X16RV2ActivationTime) msg (off + 81 * (i - 1)));
                Some (BRPeerSendGetblocks w [l0, l1] UINT256_ZERO ctx)
              } else Some (BRPeerSendGetheaders w [l0, l1] UINT256_ZERO ctx));
             relay_headers w msg off cnt l 0 ctx
           } else Some (ctx, False)
         })"

section \<open>Dispatch\<close>

definition PeerAcceptMessage :: "peer_world \<Rightarrow> bytes \<Rightarrow> bytes \<Rightarrow> BRPeerContext \<Rightarrow> (BRPeerContext \<times> bool) option" where
  "PeerAcceptMessage w msg type ctx =
     (if currentBlock ctx \<noteq> None \<and> type \<noteq> MSG_TX then Some (ctx\<lparr>currentBlockTxHashes := [], currentBlock := None\<rparr>, False)
      else if type = MSG_VERSION then PeerAcceptVersionMessage w msg ctx
      else if type = MSG_VERACK then Some (PeerAcceptVerackMessage w ctx)
      else if type = MSG_ADDR then PeerAcceptAddrMessage w msg ctx
      else if type = MSG_INV then PeerAcceptInvMessage w msg ctx
      else if type = MSG_TX then PeerAcceptTxMessage w msg ctx
      else if type = MSG_HEADERS then PeerAcceptHeadersMessage w msg ctx
      else if type = MSG_GETADDR then Some (PeerAcceptGetaddrMessage w ctx)
      else if type = MSG_GETDATA then PeerAcceptGetdataMessage w msg ctx
      else if type = MSG_NOTFOUND then PeerAcceptNotfoundMessage w msg ctx
      else if type = MSG_PING then Some (PeerAcceptPingMessage w msg ctx)
      else if type = MSG_PONG then Some (PeerAcceptPongMessage w msg ctx)
      else if type = MSG_MERKLEBLOCK then PeerAcceptMerkleblockMessage w msg ctx
      else if type = MSG_REJECT then PeerAcceptRejectMessage w msg ctx
      else if type = MSG_FEEFILTER then Some (PeerAcceptFeeFilterMessage w msg ctx)
      else if type = MSG_ASSETDATA then PeerAcceptAssetMessage w msg ctx
      else Some (ctx, True))"

section \<open>The thread of a connection\<close>

text \<open>
  What the thread is waiting for: the rest of a header, or the rest of a payload whose header has been checked; \<open>Failed\<close> is the end of the loop with a
  protocol error.  The payload keeps type, length and checksum of its header.  The first argument is \<open>payloadLen\<close>, the size of the payload buffer that the thread
  has allocated: at first 0x1000 bytes, and more once a longer message is announced; it is kept from message to message.
\<close>

datatype reader = Header nat bytes | Payload nat bytes nat u32 bytes | Failed

definition PAYLOAD_SIZE :: nat where "PAYLOAD_SIZE = 0x1000"

text \<open>The bytes that \<open>read\<close> returns are stored in a buffer of the given size behind the ones that are there; \<open>None\<close> is a write past its end.\<close>

definition into_buffer :: "nat \<Rightarrow> bytes \<Rightarrow> bytes \<Rightarrow> bytes option" where
  "into_buffer room buf chunk = (if length buf + length chunk \<le> room then Some (buf @ chunk) else None)"

fun resync :: "u32 \<Rightarrow> bytes \<Rightarrow> bytes" where
  "resync magic [] = []"
| "resync magic (b # h) = (if 4 \<le> length (b # h) \<and> UInt32GetLE (b # h) \<noteq> magic then resync magic h else b # h)"

definition header_type :: "bytes \<Rightarrow> bytes" where
  "header_type header = takeWhile (\<lambda>b. b \<noteq> 0) (slice 4 12 header)"

definition payload_done :: "peer_world \<Rightarrow> nat \<Rightarrow> bytes \<Rightarrow> u32 \<Rightarrow> bytes \<Rightarrow> BRPeerContext \<Rightarrow> (reader \<times> BRPeerContext) option" where
  "payload_done w payloadLen type checksum payload ctx =
     (if UInt32GetLE (SHA256_2 payload) \<noteq> checksum then Some (Failed, ctx)
      else do { (ctx, r) \<leftarrow> PeerAcceptMessage w payload type ctx; Some (if r then Header payloadLen [] else Failed, ctx) })"

text \<open>The end of the wait for the payload, which is at once when nothing is announced.\<close>

definition payload_step :: "peer_world \<Rightarrow> nat \<Rightarrow> bytes \<Rightarrow> nat \<Rightarrow> u32 \<Rightarrow> bytes \<Rightarrow> BRPeerContext \<Rightarrow> (reader \<times> BRPeerContext) option" where
  "payload_step w payloadLen type msgLen checksum payload ctx =
     (if length payload < msgLen then Some (Payload payloadLen type msgLen checksum payload, ctx)
      else payload_done w payloadLen type checksum payload ctx)"

text \<open>The check of a complete header; the buffer is reallocated when the announced message is longer than it.\<close>

definition header_step :: "peer_world \<Rightarrow> nat \<Rightarrow> bytes \<Rightarrow> BRPeerContext \<Rightarrow> (reader \<times> BRPeerContext) option" where
  "header_step w payloadLen header ctx =
     (if length header < HEADER_LENGTH then Some (Header payloadLen header, ctx)
      else if header ! 15 \<noteq> 0 then Some (Failed, ctx)
      else let msgLen = unat (UInt32GetLE (slice 16 4 header)); checksum = UInt32GetLE (slice 20 4 header)
           in if msgLen > MAX_MSG_LENGTH then Some (Failed, ctx)
              else let payloadLen = (if msgLen > payloadLen then msgLen else payloadLen)
                   in payload_step w payloadLen (header_type header) msgLen checksum [] ctx)"

text \<open>How many bytes the next call of \<open>read\<close> asks for, and what the thread does with the bytes it returns.\<close>

fun wanted :: "reader \<Rightarrow> nat" where
  "wanted (Header payloadLen h) = HEADER_LENGTH - length h"
| "wanted (Payload payloadLen type msgLen checksum p) = msgLen - length p"
| "wanted Failed = 0"

fun on_read :: "peer_world \<Rightarrow> bytes \<Rightarrow> reader \<times> BRPeerContext \<Rightarrow> (reader \<times> BRPeerContext) option" where
  "on_read w chunk (Header payloadLen h, ctx) = do {
     h \<leftarrow> into_buffer HEADER_LENGTH h chunk;
     header_step w payloadLen (resync (magicNumber ctx) h) ctx
   }"
| "on_read w chunk (Payload payloadLen type msgLen checksum p, ctx) = do {
     p \<leftarrow> into_buffer payloadLen p chunk;
     payload_step w payloadLen type msgLen checksum p ctx
   }"
| "on_read w chunk (Failed, ctx) = Some (Failed, ctx)"

text \<open>
  The client may close the socket during a message; the thread then leaves its loop.  \<open>run_thread\<close> takes what the calls of \<open>read\<close> return, each
  time at least one and at most as many bytes as are asked for.
\<close>

fun run_thread :: "peer_world \<Rightarrow> bytes list \<Rightarrow> reader \<times> BRPeerContext \<Rightarrow> (reader \<times> BRPeerContext) option" where
  "run_thread w [] st = Some st"
| "run_thread w (chunk # chunks) st =
     (if fst st = Failed \<or> \<not> connected_socket (snd st) then Some st
      else do { st \<leftarrow> on_read w chunk st; run_thread w chunks st })"

text \<open>The start of the thread after the connection is open, the wait for the mempool, and the end with an error number.\<close>

definition thread_start :: "peer_world \<Rightarrow> u32 \<times> u32 \<Rightarrow> BRPeerContext \<Rightarrow> BRPeerContext" where
  "thread_start w rand ctx = PeerSendVersionMessage w rand (ctx\<lparr>connected_socket := True, startTime := clock w\<rparr>)"

definition mempool_timeout :: "peer_world \<Rightarrow> BRPeerContext \<Rightarrow> BRPeerContext" where
  "mempool_timeout w ctx =
     (if clock w \<ge> mempoolTime ctx then (BRPeerSendPing w (mempoolCallback ctx) ctx)\<lparr>mempoolCallback := None, mempoolTime := DBL_MAX\<rparr> else ctx)"

definition cancel_ping :: "peer_world \<Rightarrow> nat option \<Rightarrow> BRPeerContext \<Rightarrow> BRPeerContext" where
  "cancel_ping w c ctx = (let ctx = ctx\<lparr>pongCallback := tl (pongCallback ctx)\<rparr> in case c of None \<Rightarrow> ctx | Some c \<Rightarrow> event w (Done c False) ctx)"

definition thread_end :: "peer_world \<Rightarrow> nat \<Rightarrow> BRPeerContext \<Rightarrow> BRPeerContext" where
  "thread_end w error ctx =
     (let ctx = ctx\<lparr>connected_socket := False, status := BRPeerStatusDisconnected\<rparr>;
          ctx = fold (cancel_ping w) (pongCallback ctx) ctx;
          ctx = (case mempoolCallback ctx of None \<Rightarrow> ctx | Some c \<Rightarrow> event w (Done c False) ctx);
          ctx = ctx\<lparr>mempoolCallback := None\<rparr>
      in callback w (Disconnected error) ctx)"

end
