(* ===== verification/BRPeerClient.thy ===== *)
theory BRPeerClient
  imports BRPeerStream
begin

text \<open>
  The client of a connection and the invariant of the connection.  A callback may use the public functions of \<open>BRPeer.c\<close>; the locale \<open>peer_client\<close> states what
  that means for the state, every program over the public functions interprets it, and every message handler keeps the invariant under it.
\<close>

section \<open>Public functions\<close>

text \<open>What a client may do with a peer inside a callback: the public functions.\<close>

datatype peer_call =
    CallDisconnect
  | CallSchedule real
  | CallNeedsUpdate bool
  | CallHeight u32
  | CallTimestamp u64
  | CallFlags u8
  | CallFilterload bytes
  | CallMempool "UInt256 list" "nat option"
  | CallGetheaders "UInt256 list"
  | CallGetblocks "UInt256 list"
  | CallInv "UInt256 list"
  | CallGetdata "UInt256 list" "UInt256 list"
  | CallGetaddr
  | CallPing "nat option"
  | CallRerequest UInt256

fun do_call :: "peer_world \<Rightarrow> peer_call \<Rightarrow> BRPeerContext \<Rightarrow> BRPeerContext" where
  "do_call w CallDisconnect ctx = BRPeerDisconnect ctx"
| "do_call w (CallSchedule t) ctx = BRPeerScheduleDisconnect w t ctx"
| "do_call w (CallNeedsUpdate b) ctx = BRPeerSetNeedsFilterUpdate b ctx"
| "do_call w (CallHeight h) ctx = BRPeerSetCurrentBlockHeight h ctx"
| "do_call w (CallTimestamp t) ctx = ctx\<lparr>peer_timestamp := t\<rparr>"
| "do_call w (CallFlags f) ctx = ctx\<lparr>peer_flags := f\<rparr>"
| "do_call w (CallFilterload f) ctx = BRPeerSendFilterload w f ctx"
| "do_call w (CallMempool hs c) ctx = BRPeerSendMempool w hs c ctx"
| "do_call w (CallGetheaders hs) ctx = BRPeerSendGetheaders w hs UINT256_ZERO ctx"
| "do_call w (CallGetblocks hs) ctx = BRPeerSendGetblocks w hs UINT256_ZERO ctx"
| "do_call w (CallInv hs) ctx = BRPeerSendInv w hs ctx"
| "do_call w (CallGetdata ts bs) ctx = BRPeerSendGetdata w ts bs ctx"
| "do_call w CallGetaddr ctx = BRPeerSendGetaddr w ctx"
| "do_call w (CallPing c) ctx = BRPeerSendPing w c ctx"
| "do_call w (CallRerequest h) ctx = BRPeerRerequestBlocks w h ctx"

definition client_world :: "(peer_event \<Rightarrow> peer_call list) \<Rightarrow> peer_world \<Rightarrow> peer_world" where
  "client_world react w = w\<lparr>on_event := (\<lambda>e. fold (do_call (w\<lparr>on_event := (\<lambda>_ ctx. ctx)\<rparr>)) (react e))\<rparr>"

definition peer_ok :: "BRPeerContext \<Rightarrow> bool" where
  "peer_ok ctx \<longleftrightarrow> distinct (knownTxHashes ctx) \<and> knownTxHashSet ctx = set (knownTxHashes ctx) \<and>
     (currentBlock ctx = None \<longleftrightarrow> currentBlockTxHashes ctx = []) \<and>
     (status ctx = BRPeerStatusConnected \<longrightarrow> sentVerack ctx \<and> gotVerack ctx) \<and>
     length (knownBlockHashes ctx) \<le> MAX_GETDATA_HASHES \<and> \<not> sentGetblocks ctx"

text \<open>What the public functions leave alone.\<close>

definition fixed :: "BRPeerContext \<Rightarrow> u32 \<times> bool \<times> BRPeerStatus \<times> bool \<times> bool \<times> BRMerkleBlock option \<times> UInt256 list" where
  "fixed ctx = (magicNumber ctx, callbacksSet ctx, status ctx, sentVerack ctx, gotVerack ctx, currentBlock ctx, currentBlockTxHashes ctx)"

lemma send_message_ok [simp]: "peer_ok (BRPeerSendMessage w m t ctx) \<longleftrightarrow> peer_ok ctx" "fixed (BRPeerSendMessage w m t ctx) = fixed ctx"
  by (simp_all add: BRPeerSendMessage_def BRPeerDisconnect_def peer_ok_def fixed_def Let_def)

lemma add_known_ok [simp]: "peer_ok ctx \<Longrightarrow> peer_ok (add_known w h ctx)" "fixed (add_known w h ctx) = fixed ctx"
  by (auto simp: add_known_def peer_ok_def fixed_def Let_def)

lemma add_all_known_ok [simp]:
  "peer_ok ctx \<Longrightarrow> peer_ok (PeerAddKnownTxHashes w hs ctx)" "fixed (PeerAddKnownTxHashes w hs ctx) = fixed ctx"
  unfolding PeerAddKnownTxHashes_def by (induction hs arbitrary: ctx) simp_all

text \<open>Changes of the fields that the invariant does not mention.\<close>

lemma peer_ok_fields [simp]:
  "peer_ok (ctx\<lparr>sentFilter := a\<rparr>) \<longleftrightarrow> peer_ok ctx" "peer_ok (ctx\<lparr>sentMempool := a\<rparr>) \<longleftrightarrow> peer_ok ctx" "peer_ok (ctx\<lparr>sentGetdata := a\<rparr>) \<longleftrightarrow> peer_ok ctx"
  "peer_ok (ctx\<lparr>sentGetaddr := a\<rparr>) \<longleftrightarrow> peer_ok ctx" "peer_ok (ctx\<lparr>startTime := t\<rparr>) \<longleftrightarrow> peer_ok ctx" "peer_ok (ctx\<lparr>pongCallback := ps\<rparr>) \<longleftrightarrow> peer_ok ctx"
  "peer_ok (ctx\<lparr>mempoolTime := t\<rparr>) \<longleftrightarrow> peer_ok ctx" "peer_ok (ctx\<lparr>mempoolCallback := c\<rparr>) \<longleftrightarrow> peer_ok ctx" "peer_ok (ctx\<lparr>disconnectTime := t\<rparr>) \<longleftrightarrow> peer_ok ctx"
  "peer_ok (ctx\<lparr>needsFilterUpdate := a\<rparr>) \<longleftrightarrow> peer_ok ctx" "peer_ok (ctx\<lparr>currentBlockHeight := h\<rparr>) \<longleftrightarrow> peer_ok ctx"
  "peer_ok (ctx\<lparr>peer_timestamp := s\<rparr>) \<longleftrightarrow> peer_ok ctx" "peer_ok (ctx\<lparr>peer_flags := f\<rparr>) \<longleftrightarrow> peer_ok ctx" "peer_ok (ctx\<lparr>connected_socket := a\<rparr>) \<longleftrightarrow> peer_ok ctx"
  "peer_ok (ctx\<lparr>trace := es\<rparr>) \<longleftrightarrow> peer_ok ctx" "peer_ok (ctx\<lparr>peer_version := h\<rparr>) \<longleftrightarrow> peer_ok ctx" "peer_ok (ctx\<lparr>services := s\<rparr>) \<longleftrightarrow> peer_ok ctx"
  "peer_ok (ctx\<lparr>lastblock := h\<rparr>) \<longleftrightarrow> peer_ok ctx" "peer_ok (ctx\<lparr>useragent := m\<rparr>) \<longleftrightarrow> peer_ok ctx" "peer_ok (ctx\<lparr>pingTime := t\<rparr>) \<longleftrightarrow> peer_ok ctx"
  "peer_ok (ctx\<lparr>peer_feePerKb := s\<rparr>) \<longleftrightarrow> peer_ok ctx" "peer_ok (ctx\<lparr>lastBlockHash := x\<rparr>) \<longleftrightarrow> peer_ok ctx" "peer_ok (ctx\<lparr>peer_nonce := s\<rparr>) \<longleftrightarrow> peer_ok ctx"
  "peer_ok (ctx\<lparr>receiveAssetData := c\<rparr>) \<longleftrightarrow> peer_ok ctx" "peer_ok (ctx\<lparr>callbacksSet := a\<rparr>) \<longleftrightarrow> peer_ok ctx" "peer_ok (ctx\<lparr>waitingForNetwork := a\<rparr>) \<longleftrightarrow> peer_ok ctx"
  "peer_ok (ctx\<lparr>peer_earliestKeyTime := h\<rparr>) \<longleftrightarrow> peer_ok ctx"
  by (simp_all add: peer_ok_def)

lemma fixed_fields [simp]:
  "fixed (ctx\<lparr>sentFilter := a\<rparr>) = fixed ctx" "fixed (ctx\<lparr>sentMempool := a\<rparr>) = fixed ctx" "fixed (ctx\<lparr>sentGetdata := a\<rparr>) = fixed ctx"
  "fixed (ctx\<lparr>sentGetaddr := a\<rparr>) = fixed ctx" "fixed (ctx\<lparr>startTime := t\<rparr>) = fixed ctx" "fixed (ctx\<lparr>pongCallback := ps\<rparr>) = fixed ctx"
  "fixed (ctx\<lparr>mempoolTime := t\<rparr>) = fixed ctx" "fixed (ctx\<lparr>mempoolCallback := c\<rparr>) = fixed ctx" "fixed (ctx\<lparr>disconnectTime := t\<rparr>) = fixed ctx"
  "fixed (ctx\<lparr>needsFilterUpdate := a\<rparr>) = fixed ctx" "fixed (ctx\<lparr>currentBlockHeight := h\<rparr>) = fixed ctx"
  "fixed (ctx\<lparr>peer_timestamp := s\<rparr>) = fixed ctx" "fixed (ctx\<lparr>peer_flags := f\<rparr>) = fixed ctx" "fixed (ctx\<lparr>connected_socket := a\<rparr>) = fixed ctx"
  "fixed (ctx\<lparr>trace := es\<rparr>) = fixed ctx" "fixed (ctx\<lparr>peer_version := h\<rparr>) = fixed ctx" "fixed (ctx\<lparr>services := s\<rparr>) = fixed ctx"
  "fixed (ctx\<lparr>lastblock := h\<rparr>) = fixed ctx" "fixed (ctx\<lparr>useragent := m\<rparr>) = fixed ctx" "fixed (ctx\<lparr>pingTime := t\<rparr>) = fixed ctx"
  "fixed (ctx\<lparr>peer_feePerKb := s\<rparr>) = fixed ctx" "fixed (ctx\<lparr>lastBlockHash := x\<rparr>) = fixed ctx" "fixed (ctx\<lparr>peer_nonce := s\<rparr>) = fixed ctx"
  "fixed (ctx\<lparr>receiveAssetData := c\<rparr>) = fixed ctx" "fixed (ctx\<lparr>knownBlockHashes := hs\<rparr>) = fixed ctx"
  by (simp_all add: fixed_def)

lemma public_ok [simp]:
  "peer_ok (BRPeerDisconnect ctx) \<longleftrightarrow> peer_ok ctx" "fixed (BRPeerDisconnect ctx) = fixed ctx"
  "peer_ok (BRPeerScheduleDisconnect w t ctx) \<longleftrightarrow> peer_ok ctx" "fixed (BRPeerScheduleDisconnect w t ctx) = fixed ctx"
  "peer_ok (BRPeerSetNeedsFilterUpdate b ctx) \<longleftrightarrow> peer_ok ctx" "fixed (BRPeerSetNeedsFilterUpdate b ctx) = fixed ctx"
  "peer_ok (BRPeerSetCurrentBlockHeight h ctx) \<longleftrightarrow> peer_ok ctx" "fixed (BRPeerSetCurrentBlockHeight h ctx) = fixed ctx"
  "peer_ok (BRPeerSendFilterload w m ctx) \<longleftrightarrow> peer_ok ctx" "fixed (BRPeerSendFilterload w m ctx) = fixed ctx"
  "peer_ok (BRPeerSendGetheaders w hs x ctx) \<longleftrightarrow> peer_ok ctx" "fixed (BRPeerSendGetheaders w hs x ctx) = fixed ctx"
  "peer_ok (BRPeerSendGetblocks w hs x ctx) \<longleftrightarrow> peer_ok ctx" "fixed (BRPeerSendGetblocks w hs x ctx) = fixed ctx"
  "peer_ok (BRPeerSendGetdata w ts bs ctx) \<longleftrightarrow> peer_ok ctx" "fixed (BRPeerSendGetdata w ts bs ctx) = fixed ctx"
  "peer_ok (BRPeerSendGetaddr w ctx) \<longleftrightarrow> peer_ok ctx" "fixed (BRPeerSendGetaddr w ctx) = fixed ctx"
  "peer_ok (BRPeerSendPing w c ctx) \<longleftrightarrow> peer_ok ctx" "fixed (BRPeerSendPing w c ctx) = fixed ctx"
  "peer_ok ctx \<Longrightarrow> peer_ok (BRPeerSendInv w hs ctx)" "fixed (BRPeerSendInv w hs ctx) = fixed ctx"
  by (simp_all add: BRPeerDisconnect_def BRPeerScheduleDisconnect_def BRPeerSetNeedsFilterUpdate_def BRPeerSetCurrentBlockHeight_def
      BRPeerSendFilterload_def BRPeerSendGetheaders_def BRPeerSendGetblocks_def BRPeerSendGetdata_def BRPeerSendGetaddr_def BRPeerSendPing_def
      BRPeerSendInv_def Let_def)

lemma rerequest_ok [simp]: "peer_ok ctx \<Longrightarrow> peer_ok (BRPeerRerequestBlocks w x ctx)" "fixed (BRPeerRerequestBlocks w x ctx) = fixed ctx"
proof -
  have "peer_ok (ctx\<lparr>knownBlockHashes := drop n (knownBlockHashes ctx)\<rparr>)" if "peer_ok ctx" for n using that by (auto simp: peer_ok_def)
  then show "peer_ok ctx \<Longrightarrow> peer_ok (BRPeerRerequestBlocks w x ctx)" by (simp add: BRPeerRerequestBlocks_def Let_def)
  show "fixed (BRPeerRerequestBlocks w x ctx) = fixed ctx" by (simp add: BRPeerRerequestBlocks_def Let_def)
qed

section \<open>The client\<close>

locale peer_client =
  fixes w :: peer_world
  assumes on_event_ok: "peer_ok ctx \<Longrightarrow> peer_ok (on_event w e ctx)"
    and on_event_fixed: "fixed (on_event w e ctx) = fixed ctx"
begin

lemma event_ok [simp]: "peer_ok ctx \<Longrightarrow> peer_ok (event w e ctx)" "fixed (event w e ctx) = fixed ctx"
  by (simp_all add: event_def on_event_ok on_event_fixed)

lemma callback_ok [simp]: "peer_ok ctx \<Longrightarrow> peer_ok (callback w e ctx)" "fixed (callback w e ctx) = fixed ctx"
  by (simp_all add: callback_def)

lemma mempool_ok [simp]: "peer_ok ctx \<Longrightarrow> peer_ok (BRPeerSendMempool w hs c ctx)" "fixed (BRPeerSendMempool w hs c ctx) = fixed ctx"
  by (simp_all add: BRPeerSendMempool_def Let_def split: option.split)

lemma do_call_ok: "peer_ok ctx \<Longrightarrow> peer_ok (do_call w k ctx)" "fixed (do_call w k ctx) = fixed ctx"
  by (cases k; simp)+

end

interpretation silent: peer_client "w\<lparr>on_event := (\<lambda>_ ctx. ctx)\<rparr>" for w
  by unfold_locales simp_all

interpretation client: peer_client "client_world react w" for react w
proof unfold_locales
  fix ctx e
  let ?f = "fold (do_call (w\<lparr>on_event := (\<lambda>_ ctx. ctx)\<rparr>))"
  have "(peer_ok c \<longrightarrow> peer_ok (?f ks c)) \<and> fixed (?f ks c) = fixed c" for ks c
    by (induction ks arbitrary: c) (simp_all add: silent.do_call_ok)
  then show "peer_ok ctx \<Longrightarrow> peer_ok (on_event (client_world react w) e ctx)" "fixed (on_event (client_world react w) e ctx) = fixed ctx"
    by (simp_all add: client_world_def)
qed

section \<open>Handlers\<close>

lemma trim_known_length: "length (trim_known k) \<le> MAX_GETDATA_HASHES"
  by (induction k rule: trim_known.induct) (subst trim_known.simps, simp)

definition step_ok :: "BRPeerContext \<Rightarrow> BRPeerContext \<Rightarrow> bool" where
  "step_ok ctx ctx' \<longleftrightarrow> (peer_ok ctx \<longrightarrow> peer_ok ctx') \<and> magicNumber ctx' = magicNumber ctx \<and>
     (gotVerack ctx \<longrightarrow> gotVerack ctx' \<and> status ctx' = status ctx)"

lemma step_refl [simp]: "step_ok ctx ctx"
  by (simp add: step_ok_def)

lemma step_trans: "step_ok a b \<Longrightarrow> step_ok b c \<Longrightarrow> step_ok a c"
  by (simp add: step_ok_def)

lemma step_fixed: "(peer_ok ctx \<Longrightarrow> peer_ok ctx') \<Longrightarrow> fixed ctx' = fixed ctx \<Longrightarrow> step_ok ctx ctx'"
  by (simp add: step_ok_def fixed_def)

lemma step_blocks: "step_ok ctx (ctx\<lparr>knownBlockHashes := trim_known k\<rparr>)"
  by (simp add: step_ok_def peer_ok_def trim_known_length)

lemma sendVerack_step: "step_ok ctx (PeerSendVerackMessage w ctx)"
proof -
  have "peer_ok ctx \<Longrightarrow> peer_ok (ctx\<lparr>sentVerack := True\<rparr>)" for ctx by (simp add: peer_ok_def)
  then show ?thesis using send_message_ok [of w "[]" MSG_VERACK ctx] by (simp add: step_ok_def PeerSendVerackMessage_def fixed_def)
qed

context peer_client
begin

lemma event_step: "step_ok ctx (event w e ctx)"
  by (rule step_fixed) simp_all

lemma callback_step: "step_ok ctx (callback w e ctx)"
  by (rule step_fixed) simp_all

lemma version_step: "PeerAcceptVersionMessage w m ctx = Some (ctx', r) \<Longrightarrow> step_ok ctx ctx'"
  using sendVerack_step
  by (fastforce simp: PeerAcceptVersionMessage_def Let_def step_ok_def split: if_splits prod.splits bind_splits)

lemma verack_step: "step_ok ctx (fst (PeerAcceptVerackMessage w ctx))"
proof -
  let ?c = "ctx\<lparr>pingTime := clock w - startTime ctx, startTime := 0, gotVerack := True\<rparr>"
  have c: "peer_ok ctx \<Longrightarrow> peer_ok ?c" by (simp add: peer_ok_def)
  let ?d = "?c\<lparr>disconnectTime := DBL_MAX, status := BRPeerStatusConnected\<rparr>"
  have "step_ok ?d (callback w Connected ?d)" by (rule callback_step)
  moreover have "sentVerack ctx \<Longrightarrow> peer_ok ctx \<Longrightarrow> peer_ok ?d" by (simp add: peer_ok_def)
  ultimately show ?thesis using c by (auto simp: PeerAcceptVerackMessage_def PeerDidConnect_def step_ok_def)
qed

lemma small_steps:
  "step_ok ctx (fst (PeerAcceptGetaddrMessage w ctx))" "step_ok ctx (fst (PeerAcceptPingMessage w m ctx))"
  "step_ok ctx (fst (PeerAcceptPongMessage w m ctx))" "step_ok ctx (fst (PeerAcceptFeeFilterMessage w m ctx))"
  by (rule step_fixed; simp add: PeerAcceptGetaddrMessage_def PeerSendAddr_def PeerAcceptPingMessage_def PeerAcceptPongMessage_def
      PeerAcceptFeeFilterMessage_def Let_def split: list.split option.split)+

lemma receive_asset_step: "receive_asset w a ctx = Some ctx' \<Longrightarrow> step_ok ctx ctx'"
  by (auto simp: receive_asset_def event_step)

lemma asset_step: "PeerAcceptAssetMessage w m ctx = Some (ctx', r) \<Longrightarrow> step_ok ctx ctx'"
  by (auto simp: PeerAcceptAssetMessage_def Let_def receive_asset_step split: if_splits prod.splits bind_splits)

lemma addr_step: "PeerAcceptAddrMessage w m ctx = Some (ctx', r) \<Longrightarrow> step_ok ctx ctx'"
  by (auto simp: PeerAcceptAddrMessage_def Let_def callback_step split: if_splits prod.splits bind_splits)

lemma inv_unknown_step: "step_ok ctx (snd (inv_unknown w ts js ctx))"
  by (induction ts arbitrary: js ctx) (auto intro: step_trans [OF callback_step])

lemma add_known_step: "step_ok ctx (PeerAddKnownTxHashes w hs ctx)"
  by (rule step_fixed) simp_all

lemma inv_tail_step:
  "step_ok ctx (if p then case mempoolCallback ctx of None \<Rightarrow> ctx
     | Some c \<Rightarrow> (BRPeerSendPing w (Some c) ctx)\<lparr>mempoolCallback := None, mempoolTime := DBL_MAX\<rparr> else ctx)"
  by (rule step_fixed) (simp_all split: option.split)

lemma inv_accept_step: "step_ok ctx (inv_accept w ts bs ctx)"
proof -
  define bs1 where "bs1 = (if \<not> sentFilter ctx \<and> \<not> sentGetblocks ctx then [] else bs)"
  define bs2 where "bs2 = (if length bs1 = 1 \<and> UInt256Eq (lastBlockHash ctx) (hd bs1) then [] else bs1)"
  define c1 where "c1 = (if length bs2 = 1 then ctx\<lparr>lastBlockHash := hd bs2\<rparr> else ctx)"
  define c2 where "c2 = c1\<lparr>knownBlockHashes := trim_known (knownBlockHashes c1 @ bs2)\<rparr>"
  define bs3 where "bs3 = (if needsFilterUpdate c2 then [] else bs2)"
  obtain js c3 where u: "inv_unknown w ts [] c2 = (js, c3)" by (cases "inv_unknown w ts [] c2")
  define c4 where "c4 = PeerAddKnownTxHashes w js c3"
  define c5 where "c5 = (if length js > 0 \<or> length bs3 > 0 then BRPeerSendGetdata w js bs3 c4 else c4)"
  define c6 where "c6 = (if length bs3 \<ge> 500 then BRPeerSendGetblocks w [last bs3, hd bs3] UINT256_ZERO c5 else c5)"
  have "step_ok ctx c1" by (rule step_fixed) (simp_all add: c1_def)
  also have "step_ok c1 c2" unfolding c2_def by (rule step_blocks)
  also (step_trans) have "step_ok c2 c3" using inv_unknown_step [of c2 ts "[]"] u by simp
  also (step_trans) have "step_ok c3 c4" unfolding c4_def by (rule add_known_step)
  also (step_trans) have "step_ok c4 c5" by (rule step_fixed) (simp_all add: c5_def)
  also (step_trans) have "step_ok c5 c6" by (rule step_fixed) (simp_all add: c6_def)
  also (step_trans) note inv_tail_step [of c6 "length ts > 0"]
  finally (step_trans) show ?thesis
    unfolding inv_accept_def Let_def bs1_def [symmetric] bs2_def [symmetric] c1_def [symmetric] c2_def [symmetric] bs3_def [symmetric] u prod.case
      c4_def [symmetric] c5_def [symmetric] c6_def [symmetric] .
qed

lemma inv_step: "PeerAcceptInvMessage w m ctx = Some (ctx', r) \<Longrightarrow> step_ok ctx ctx'"
  by (auto simp: PeerAcceptInvMessage_def Let_def inv_accept_step split: if_splits prod.splits bind_splits)

lemma notfound_step: "PeerAcceptNotfoundMessage w m ctx = Some (ctx', r) \<Longrightarrow> step_ok ctx ctx'"
  by (auto simp: PeerAcceptNotfoundMessage_def Let_def callback_step split: if_splits prod.splits bind_splits)

lemma send_step: "step_ok ctx (BRPeerSendMessage w m t ctx)"
  by (rule step_fixed) simp_all

lemma serve_step: "step_ok ctx (snd (serve_items w es missing ctx))"
  by (induction es arbitrary: missing ctx)
    (auto simp: Let_def intro: step_trans [OF callback_step] step_trans [OF send_step] step_trans [OF step_trans [OF callback_step send_step]] split: option.split prod.split)

lemma getdata_step: "PeerAcceptGetdataMessage w m ctx = Some (ctx', r) \<Longrightarrow> step_ok ctx ctx'"
  using serve_step [of ctx _ "[]"]
  by (auto simp: PeerAcceptGetdataMessage_def Let_def intro: step_trans send_step split: if_splits prod.splits bind_splits) (metis snd_conv step_trans send_step)+

lemma collect_step: "step_ok ctx (collect_tx w h ctx)"
proof (cases "currentBlock ctx")
  case (Some b)
  let ?c = "ctx\<lparr>currentBlockTxHashes := remove_pending h (currentBlockTxHashes ctx)\<rparr>"
  show ?thesis
  proof (cases "currentBlockTxHashes ?c = []")
    case True
    then have "step_ok ctx (?c\<lparr>currentBlock := None\<rparr>)" by (simp add: step_ok_def peer_ok_def)
    then have "step_ok ctx (callback w (RelayedBlock b) (?c\<lparr>currentBlock := None\<rparr>))" by (rule step_trans) (rule callback_step)
    then show ?thesis using True by (simp add: collect_tx_def Some Let_def)
  next
    case False
    then show ?thesis by (simp add: collect_tx_def Some Let_def) (simp add: step_ok_def peer_ok_def Some)
  qed
qed (simp add: collect_tx_def)

lemma tx_step: "PeerAcceptTxMessage w m ctx = Some (ctx', r) \<Longrightarrow> step_ok ctx ctx'"
  by (auto simp: PeerAcceptTxMessage_def intro: step_trans [OF callback_step] collect_step split: if_splits option.splits bind_splits)

lemma collecting_step: "hs \<noteq> [] \<Longrightarrow> step_ok ctx (ctx\<lparr>currentBlockTxHashes := hs, currentBlock := Some b\<rparr>)"
  by (simp add: step_ok_def peer_ok_def)

lemma collected_step: "hs = currentBlockTxHashes ctx \<Longrightarrow> step_ok ctx (callback w e (ctx\<lparr>currentBlockTxHashes := hs\<rparr>))"
  by (simp add: callback_step)

lemma merkleblock_step: "PeerAcceptMerkleblockMessage w m ctx = Some (ctx', r) \<Longrightarrow> step_ok ctx ctx'"
  by (auto simp: PeerAcceptMerkleblockMessage_def Let_def intro: collecting_step collected_step split: if_splits prod.splits bind_splits option.splits)

lemma reject_step: "PeerAcceptRejectMessage w m ctx = Some (ctx', r) \<Longrightarrow> step_ok ctx ctx'"
  by (auto simp: PeerAcceptRejectMessage_def Let_def callback_step split: if_splits prod.splits bind_splits)

lemma relay_step: "relay_headers w msg off n l i ctx = Some (ctx', r) \<Longrightarrow> step_ok ctx ctx'"
proof (induction "n - i" arbitrary: i ctx)
  case 0
  then show ?case by (subst (asm) relay_headers.simps) simp
next
  case (Suc k)
  then have "k = n - Suc i" "i < n" by simp_all
  note IH = Suc.hyps(1) [OF this(1)]
  show ?case using Suc.prems \<open>i < n\<close> IH step_trans [OF callback_step]
    by (subst (asm) relay_headers.simps) (fastforce simp: Let_def split: bind_splits if_splits)
qed

lemma headers_step: "PeerAcceptHeadersMessage w m ctx = Some (ctx', r) \<Longrightarrow> step_ok ctx ctx'"
proof -
  have g: "step_ok ctx (BRPeerSendGetblocks w hs x ctx)" "step_ok ctx (BRPeerSendGetheaders w hs x ctx)" for hs x
    by (rule step_fixed; simp)+
  assume "PeerAcceptHeadersMessage w m ctx = Some (ctx', r)"
  then show ?thesis
    by (auto simp: PeerAcceptHeadersMessage_def Let_def split: if_splits prod.splits bind_splits intro: step_trans [OF g(1)] step_trans [OF g(2)] dest!: relay_step)
qed

lemma drop_block_step: "step_ok ctx (ctx\<lparr>currentBlockTxHashes := [], currentBlock := None\<rparr>)"
  by (simp add: step_ok_def peer_ok_def)

lemmas message_steps = version_step addr_step inv_step tx_step headers_step getdata_step notfound_step merkleblock_step reject_step asset_step

lemma accept_step: "PeerAcceptMessage w m t ctx = Some (ctx', r) \<Longrightarrow> step_ok ctx ctx'"
  using verack_step [of ctx] small_steps(1) [of ctx] small_steps(2-4) [of ctx m] drop_block_step [of ctx]
  by (auto simp: PeerAcceptMessage_def dest: message_steps split: if_split_asm)

end

end
