(* ===== verification/BRPeerRun.thy ===== *)
theory BRPeerRun
  imports BRPeerClient
begin

text \<open>
  Runs of a connection: the invariant on all of them, and the stream of bytes as a sequence of messages.
\<close>

section \<open>Cutting the stream into messages\<close>

lemma UInt32GetLE_append: "4 \<le> length xs \<Longrightarrow> UInt32GetLE (xs @ ys) = UInt32GetLE xs"
  by (auto simp: UInt32GetLE_def nth_append)

lemma resync_append: "resync m (resync m h @ c) = resync m (h @ c)"
proof (induction h)
  case (Cons b h)
  then show ?case using UInt32GetLE_append [of "b # h" c] by auto
qed simp

lemma length_resync: "length (resync m h) \<le> length h"
  by (induction h) auto

lemma resync_id: "UInt32GetLE h = m \<Longrightarrow> resync m h = h"
  by (cases h) auto

lemma run_thread_append: "run_thread w (as @ bs) st = do { st \<leftarrow> run_thread w as st; run_thread w bs st }"
proof (induction as arbitrary: st)
  case (Cons c as)
  show ?case
  proof (cases "fst st = Failed \<or> \<not> connected_socket (snd st)")
    case True
    then have "run_thread w bs st = Some st" by (cases bs) auto
    then show ?thesis using True by simp
  next
    case False
    then show ?thesis by (cases "on_read w c st") (simp_all add: Cons.IH)
  qed
qed simp

text \<open>The payload buffer is large enough for the message that is announced.\<close>

fun fits :: "reader \<Rightarrow> bool" where
  "fits (Header cap h) \<longleftrightarrow> True"
| "fits (Payload cap t n s p) \<longleftrightarrow> n \<le> cap"
| "fits Failed \<longleftrightarrow> True"

lemma stored: "length buf + length chunk \<le> room \<Longrightarrow> into_buffer room buf chunk = Some (buf @ chunk)"
  by (simp add: into_buffer_def)

lemma on_read_fits:
  assumes "on_read w chunk (rdr, ctx) = Some (rdr', ctx')" "fits rdr"
  shows "fits rdr'"
  using assms
  by (cases rdr) (auto simp: header_step_def payload_step_def payload_done_def Let_def split: if_splits bind_splits)

lemma on_read_first:
  assumes "c1 \<noteq> []" "c2 \<noteq> []" "length (c1 @ c2) \<le> wanted rdr" "fits rdr"
  obtains rdr1 where "on_read w c1 (rdr, ctx) = Some (rdr1, ctx)" "rdr1 \<noteq> Failed" "on_read w (c1 @ c2) (rdr, ctx) = on_read w c2 (rdr1, ctx)"
    "wanted rdr1 \<ge> length c2" "fits rdr1"
proof (cases rdr)
  case (Header cap h)
  let ?h = "resync (magicNumber ctx) (h @ c1)"
  have "0 < length c2" using assms(2) by simp
  have "length ?h \<le> length h + length c1" using length_resync [of _ "h @ c1"] by simp
  moreover have "length c1 + length c2 \<le> HEADER_LENGTH - length h" using assms(3) Header by simp
  then have all: "length h + (length c1 + length c2) \<le> HEADER_LENGTH" using \<open>0 < length c2\<close> by linarith
  ultimately have "length ?h < HEADER_LENGTH" "length ?h + length c2 \<le> HEADER_LENGTH" using \<open>0 < length c2\<close> by linarith+
  moreover from this have "on_read w c1 (Header cap h, ctx) = Some (Header cap ?h, ctx)"
    using all by (simp add: header_step_def stored)
  moreover have "on_read w (c1 @ c2) (Header cap h, ctx) = on_read w c2 (Header cap ?h, ctx)"
    using all \<open>length ?h + length c2 \<le> HEADER_LENGTH\<close> resync_append [of "magicNumber ctx" "h @ c1" c2] by (simp add: stored)
  ultimately show ?thesis using that [of "Header cap ?h"] Header by simp
next
  case (Payload cap t n s p)
  moreover have "0 < length c2" using assms(2) by simp
  moreover have "length c1 + length c2 \<le> n - length p" "n \<le> cap" using assms Payload by simp_all
  ultimately have "length p + length c1 < n" "length c2 \<le> n - (length p + length c1)" "length p + (length c1 + length c2) \<le> cap" by linarith+
  then show ?thesis using that [of "Payload cap t n s (p @ c1)"] Payload assms(4) by (simp add: payload_step_def stored)
qed (use assms in simp)

lemma bytewise:
  assumes "c \<noteq> []" "length c \<le> wanted rdr" "connected_socket ctx" "rdr \<noteq> Failed" "fits rdr"
  shows "run_thread w (map (\<lambda>b. [b]) c) (rdr, ctx) = on_read w c (rdr, ctx)"
  using assms
proof (induction c arbitrary: rdr)
  case (Cons b c)
  show ?case
  proof (cases "c = []")
    case False
    then obtain rdr1 where r: "on_read w [b] (rdr, ctx) = Some (rdr1, ctx)" "rdr1 \<noteq> Failed" "on_read w ([b] @ c) (rdr, ctx) = on_read w c (rdr1, ctx)"
      "wanted rdr1 \<ge> length c" "fits rdr1"
      using on_read_first [of "[b]" c rdr w ctx] Cons.prems by auto
    then show ?thesis using Cons.IH [of rdr1] Cons.prems False by simp
  next
    case True
    then show ?thesis using Cons.prems by (cases "on_read w [b] (rdr, ctx)") simp_all
  qed
qed simp

text \<open>What \<open>read\<close> may return in each state.\<close>

fun reads_ok :: "peer_world \<Rightarrow> bytes list \<Rightarrow> reader \<times> BRPeerContext \<Rightarrow> bool" where
  "reads_ok w [] st = True"
| "reads_ok w (c # cs) st =
     (fst st = Failed \<or> \<not> connected_socket (snd st) \<or>
      (c \<noteq> [] \<and> length c \<le> wanted (fst st) \<and> (case on_read w c st of None \<Rightarrow> True | Some st \<Rightarrow> reads_ok w cs st)))"

lemma run_stopped: "fst st = Failed \<or> \<not> connected_socket (snd st) \<Longrightarrow> run_thread w cs st = Some st"
  by (cases cs) auto

lemma segmentation:
  "reads_ok w cs st \<Longrightarrow> fits (fst st) \<Longrightarrow> run_thread w cs st = run_thread w (map (\<lambda>b. [b]) (concat cs)) st"
proof (induction cs arbitrary: st)
  case (Cons c cs)
  show ?case
  proof (cases "fst st = Failed \<or> \<not> connected_socket (snd st)")
    case True
    then show ?thesis using run_stopped by metis
  next
    case False
    then have c: "c \<noteq> []" "length c \<le> wanted (fst st)" using Cons.prems by auto
    then have one: "run_thread w (map (\<lambda>b. [b]) c) st = on_read w c st" using bytewise [of c "fst st" "snd st"] False Cons.prems(2) by simp
    show ?thesis
    proof (cases "on_read w c st")
      case None
      then show ?thesis using False one by (simp add: run_thread_append)
    next
      case (Some st')
      then have "fits (fst st')" using on_read_fits [of w c "fst st" "snd st" "fst st'" "snd st'"] Cons.prems(2) by simp
      then show ?thesis using False one Some Cons by (simp add: run_thread_append)
    qed
  qed
qed simp

text \<open>The messages of a stream, handled one after the other until the connection ends; the buffer grows with the longest message.\<close>

fun deliver :: "peer_world \<Rightarrow> nat \<Rightarrow> (bytes \<times> bytes) list \<Rightarrow> BRPeerContext \<Rightarrow> (reader \<times> BRPeerContext) option" where
  "deliver w cap [] ctx = Some (Header cap [], ctx)"
| "deliver w cap ((type, msg) # ms) ctx =
     (if \<not> connected_socket ctx then Some (Header cap [], ctx)
      else do { (ctx, r) \<leftarrow> PeerAcceptMessage w msg type ctx; if r then deliver w (max cap (length msg)) ms ctx else Some (Failed, ctx) })"

definition sendable :: "bytes \<times> bytes \<Rightarrow> bool" where
  "sendable m \<longleftrightarrow> length (fst m) \<le> 11 \<and> 0 \<notin> set (fst m) \<and> length (snd m) \<le> MAX_MSG_LENGTH"

lemma length_SHA256_2 [simp]: "length (SHA256_2 m) = 32"
  by (simp add: SHA256_2_def Let_def)

lemma frame_read:
  assumes "sendable (t, m)" "connected_socket ctx"
  shows "run_thread w (map (\<lambda>b. [b]) (frame (magicNumber ctx) t m)) (Header cap [], ctx) =
     do { (ctx, r) \<leftarrow> PeerAcceptMessage w m t ctx; Some (if r then Header (max cap (length m)) [] else Failed, ctx) }"
proof -
  define hdr where "hdr = UInt32SetLE (magicNumber ctx) @ type_field t @ UInt32SetLE (word_of_nat (length m)) @ take 4 (SHA256_2 m)"
  have f: "frame (magicNumber ctx) t m = hdr @ m" by (simp add: frame_def hdr_def)
  have t: "length (type_field t) = 12" by (simp add: type_field_def)
  have l: "length hdr = 24" using t by (simp add: hdr_def)
  have magic: "UInt32GetLE hdr = magicNumber ctx" by (simp add: hdr_def endian_simps)
  have tf: "type_field t = t @ replicate (12 - length t) 0" using assms(1) by (simp add: type_field_def sendable_def)
  have h15: "hdr ! 15 = 0"
  proof -
    have "replicate (12 - length t) (0 :: u8) ! (11 - length t) = 0" 
    proof (rule nth_replicate)
      have "length t \<le> 11" using assms(1) by (simp add: sendable_def)
      then show "11 - length t < 12 - length t" by arith
    qed
    then have "type_field t ! 11 = 0" using assms(1) by (simp add: tf nth_append sendable_def)
    then show ?thesis using t by (simp add: hdr_def nth_append)
  qed
  have ty: "header_type hdr = t"
  proof -
    have "slice 4 12 hdr = type_field t" using t by (simp add: hdr_def slice_def)
    moreover have "takeWhile (\<lambda>b. b \<noteq> 0) (type_field t) = t"
      unfolding tf using assms(1) by (subst takeWhile_append2) (auto simp: sendable_def)
    ultimately show ?thesis by (simp add: header_type_def)
  qed
  have len: "unat (UInt32GetLE (slice 16 4 hdr)) = length m"
  proof -
    have "slice 16 4 hdr = UInt32SetLE (word_of_nat (length m))" using t by (simp add: hdr_def slice_def)
    moreover have "unat (word_of_nat (length m) :: u32) = length m"
      using assms(1) by (intro unat_word_of_nat_less) (simp add: sendable_def MAX_MSG_LENGTH_def)
    ultimately show ?thesis by (simp add: get_set)
  qed
  have cs: "UInt32GetLE (slice 20 4 hdr) = UInt32GetLE (SHA256_2 m)"
  proof -
    have "slice 20 4 hdr = take 4 (SHA256_2 m)" using t by (simp add: hdr_def slice_def)
    then show ?thesis using UInt32GetLE_append [of "take 4 (SHA256_2 m)" "drop 4 (SHA256_2 m)"] by simp
  qed
  let ?cap = "max cap (length m)"
  have step1: "on_read w hdr (Header cap [], ctx) = payload_step w ?cap t (length m) (UInt32GetLE (SHA256_2 m)) [] ctx"
    using l h15 assms(1) by (simp add: resync_id [OF magic] header_step_def HEADER_LENGTH_def len cs ty Let_def sendable_def stored max_def)
  have fin: "payload_done w ?cap t (UInt32GetLE (SHA256_2 m)) m ctx =
     do { (ctx, r) \<leftarrow> PeerAcceptMessage w m t ctx; Some (if r then Header ?cap [] else Failed, ctx) }" by (simp add: payload_done_def)
  have b1: "run_thread w (map (\<lambda>b. [b]) hdr) (Header cap [], ctx) = on_read w hdr (Header cap [], ctx)"
    using l assms(2) by (intro bytewise) (auto simp: HEADER_LENGTH_def)
  show ?thesis
  proof (cases "m = []")
    case True
    then show ?thesis using b1 step1 fin unfolding f by (simp add: payload_step_def)
  next
    case False
    let ?r = "Payload ?cap t (length m) (UInt32GetLE (SHA256_2 m)) []"
    have p: "payload_step w ?cap t (length m) (UInt32GetLE (SHA256_2 m)) [] ctx = Some (?r, ctx)"
      using False by (simp add: payload_step_def)
    have "run_thread w (map (\<lambda>b. [b]) m) (?r, ctx) = payload_done w ?cap t (UInt32GetLE (SHA256_2 m)) m ctx"
      using bytewise [of m ?r ctx w] False assms(2) by (simp add: payload_step_def stored)
    then show ?thesis using b1 step1 p fin by (simp add: f run_thread_append)
  qed
qed

context peer_client
begin

lemma stream:
  "list_all sendable ms \<Longrightarrow> m = magicNumber ctx \<Longrightarrow>
   run_thread w (map (\<lambda>b. [b]) (concat (map (\<lambda>(t, p). frame m t p) ms))) (Header cap [], ctx) = deliver w cap ms ctx"
proof (induction ms arbitrary: ctx cap)
  case (Cons tp ms)
  obtain t p where tp: "tp = (t, p)" by (cases tp)
  show ?case
  proof (cases "connected_socket ctx")
    case False
    then show ?thesis by (simp add: tp run_stopped)
  next
    case True
    have f: "run_thread w (map (\<lambda>b. [b]) (frame m t p)) (Header cap [], ctx) =
       do { (ctx, r) \<leftarrow> PeerAcceptMessage w p t ctx; Some (if r then Header (max cap (length p)) [] else Failed, ctx) }"
      using frame_read [of t p ctx w cap] Cons.prems True by (simp add: tp)
    show ?thesis
    proof (cases "PeerAcceptMessage w p t ctx")
      case None
      then show ?thesis using True f by (simp add: tp run_thread_append)
    next
      case (Some cr)
      obtain c r where cr: "cr = (c, r)" by (cases cr)
      have "magicNumber c = magicNumber ctx" using accept_step Some cr by (auto simp: step_ok_def)
      then show ?thesis using Cons.IH [of c] Cons.prems True f Some by (simp add: tp cr run_thread_append run_stopped)
    qed
  qed
qed simp

end

section \<open>Runs of a connection\<close>

fun reader_ok :: "reader \<Rightarrow> bool" where
  "reader_ok (Header cap h) \<longleftrightarrow> length h < HEADER_LENGTH"
| "reader_ok (Payload cap t n s p) \<longleftrightarrow> length p < n \<and> n \<le> cap \<and> n \<le> MAX_MSG_LENGTH"
| "reader_ok Failed \<longleftrightarrow> True"

text \<open>
  A connection is created, gets its callbacks and is opened; then the thread reads, other threads use the public functions, and in the end the thread cleans up.
  The world, with its clock, is another one in each step.
\<close>

inductive peer_run :: "reader \<times> BRPeerContext \<Rightarrow> bool" where
  new: "peer_run (Header PAYLOAD_SIZE [], BRPeerNew magic)"
| configure: "peer_run (rdr, ctx) \<Longrightarrow> peer_run (rdr, BRPeerSetEarliestKeyTime t (BRPeerSetCallbacks ctx))"
| call: "peer_run (rdr, ctx) \<Longrightarrow> peer_client w \<Longrightarrow> peer_run (rdr, do_call w k ctx)"
| get_asset: "peer_run (rdr, ctx) \<Longrightarrow> BRPeerSendGetAsset w nm len c ctx = Some ctx' \<Longrightarrow> peer_run (rdr, ctx')"
| connect: "peer_run (rdr, ctx) \<Longrightarrow> peer_run (rdr, BRPeerConnect w reachable started ctx)"
| start: "peer_run (rdr, ctx) \<Longrightarrow> peer_run (Header PAYLOAD_SIZE [], thread_start w rand ctx)"
| read: "peer_run (rdr, ctx) \<Longrightarrow> peer_client w \<Longrightarrow> length chunk \<le> wanted rdr \<Longrightarrow> on_read w chunk (rdr, ctx) = Some (rdr', ctx') \<Longrightarrow>
    peer_run (rdr', ctx')"
| timeout: "peer_run (rdr, ctx) \<Longrightarrow> peer_run (rdr, mempool_timeout w ctx)"
| finish: "peer_run (rdr, ctx) \<Longrightarrow> peer_client w \<Longrightarrow> peer_run (rdr, thread_end w error ctx)"

lemma peer_new_ok: "peer_ok (BRPeerNew magic)"
  by (simp add: BRPeerNew_def peer_ok_def)

lemma connect_ok: "peer_ok ctx \<Longrightarrow> peer_ok (BRPeerConnect w a b ctx)"
  by (auto simp: BRPeerConnect_def Let_def peer_ok_def)

lemma start_ok: "peer_ok ctx \<Longrightarrow> peer_ok (thread_start w rand ctx)"
  by (simp add: thread_start_def PeerSendVersionMessage_def Let_def)

lemma timeout_ok: "peer_ok ctx \<Longrightarrow> peer_ok (mempool_timeout w ctx)"
  by (simp add: mempool_timeout_def)

lemma get_asset_ok: "peer_ok ctx \<Longrightarrow> BRPeerSendGetAsset w nm len c ctx = Some ctx' \<Longrightarrow> peer_ok ctx'"
  by (auto simp: BRPeerSendGetAsset_def split: bind_splits)

context peer_client
begin

lemma payload_ok:
  assumes "payload_step w cap t n s p ctx = Some (rdr, ctx')" "peer_ok ctx" "length p \<le> n" "n \<le> cap" "n \<le> MAX_MSG_LENGTH"
  shows "peer_ok ctx' \<and> reader_ok rdr"
  using assms accept_step [of p t ctx]
  by (auto simp: payload_step_def payload_done_def step_ok_def HEADER_LENGTH_def split: if_splits bind_splits)

lemma read_ok:
  assumes "on_read w chunk (rdr, ctx) = Some (rdr', ctx')" "length chunk \<le> wanted rdr" "peer_ok ctx" "reader_ok rdr"
  shows "peer_ok ctx' \<and> reader_ok rdr'"
proof (cases rdr)
  case (Header cap h)
  then have "header_step w cap (resync (magicNumber ctx) (h @ chunk)) ctx = Some (rdr', ctx')"
    using assms(1) by (auto simp: into_buffer_def split: bind_splits if_splits)
  then show ?thesis using assms(3) payload_ok [of _ _ _ _ "[]" ctx rdr' ctx']
    by (auto simp: header_step_def Let_def split: if_splits)
next
  case (Payload cap t n s p)
  then have n: "length (p @ chunk) \<le> n" "n \<le> cap" "n \<le> MAX_MSG_LENGTH" using assms(2,4) by auto
  then have "payload_step w cap t n s (p @ chunk) ctx = Some (rdr', ctx')"
    using assms(1) Payload by (auto simp: into_buffer_def split: bind_splits if_splits)
  then show ?thesis using payload_ok assms(3) n by blast
qed (use assms in simp)

lemma end_ok: "peer_ok ctx \<Longrightarrow> peer_ok (thread_end w error ctx)"
proof -
  have c: "peer_ok c \<Longrightarrow> peer_ok (fold (cancel_ping w) ps c)" for ps c
    by (induction ps arbitrary: c) (simp_all add: cancel_ping_def Let_def split: option.split)
  assume "peer_ok ctx"
  then have "peer_ok (ctx\<lparr>connected_socket := False, status := BRPeerStatusDisconnected\<rparr>)" by (simp add: peer_ok_def)
  then show ?thesis by (simp add: thread_end_def Let_def c split: option.split)
qed

end

lemma run_invariant: "peer_run st \<Longrightarrow> peer_ok (snd st) \<and> reader_ok (fst st)"
proof (induction rule: peer_run.induct)
  case (configure rdr ctx t)
  then show ?case by (simp add: BRPeerSetEarliestKeyTime_def BRPeerSetCallbacks_def)
next
  case (read rdr ctx w chunk rdr' ctx')
  then show ?case using peer_client.read_ok [of w chunk rdr ctx rdr' ctx'] by simp
next
  case (get_asset rdr ctx w nm len c ctx')
  then show ?case using get_asset_ok by fastforce
qed (simp_all add: peer_new_ok peer_client.do_call_ok get_asset_ok connect_ok start_ok timeout_ok peer_client.end_ok HEADER_LENGTH_def)

text \<open>C34: Whatever bytes the peer sends, in whatever pieces they arrive, and whatever the client does in its callbacks, on every run of a connection: the list of
  known transactions has no duplicates and the set that points into it holds the same hashes, a merkle block is pending exactly while transactions
  for it are missing, a connected peer has finished the handshake, at most 50000 block hashes are kept, a payload that is read is not longer than the maximum nor than the
  buffer allocated for it, and whatever the next call of \<open>read\<close> returns is stored inside the header buffer or the payload buffer.\<close>

theorem peer_invariant:
  assumes "peer_run (rdr, ctx)"
  shows "distinct (knownTxHashes ctx) \<and> knownTxHashSet ctx = set (knownTxHashes ctx) \<and>
     (currentBlock ctx = None \<longleftrightarrow> currentBlockTxHashes ctx = []) \<and>
     (status ctx = BRPeerStatusConnected \<longrightarrow> sentVerack ctx \<and> gotVerack ctx) \<and>
     length (knownBlockHashes ctx) \<le> MAX_GETDATA_HASHES \<and>
     (case rdr of
        Header cap h \<Rightarrow> length h < 24 \<and> (\<forall>chunk. length chunk \<le> wanted rdr \<longrightarrow> into_buffer 24 h chunk \<noteq> None)
      | Payload cap t n s p \<Rightarrow> length p < n \<and> n \<le> cap \<and> n \<le> MAX_MSG_LENGTH \<and>
          (\<forall>chunk. length chunk \<le> wanted rdr \<longrightarrow> into_buffer cap p chunk \<noteq> None)
      | Failed \<Rightarrow> True)"
  using run_invariant [OF assms] by (cases rdr) (auto simp: peer_ok_def HEADER_LENGTH_def into_buffer_def)

definition sample_world :: peer_world where
  "sample_world = \<lparr>on_event = (\<lambda>_ ctx. ctx), send_ok = (\<lambda>_. True), tx_for = (\<lambda>_. None), clock = 1600000000, time_now = 1600000000,
     pow = \<lparr>pow_sph = (\<lambda>_ _. replicate 64 0), pow_tiger = (\<lambda>_. replicate 24 0), light_verify = (\<lambda>_ _ _. replicate 32 0)\<rparr>,
     moved = (\<lambda>_. False)\<rparr>"

interpretation sample: peer_client sample_world
  by unfold_locales (simp_all add: sample_world_def)

theorem peer_invariant_witness:
  "knownTxHashSet (do_call sample_world (CallInv [1, 2]) (BRPeerNew 7)) = {1, 2} \<and>
   distinct (knownTxHashes (do_call sample_world (CallInv [1, 2]) (BRPeerNew 7)))"
proof -
  have "peer_run (Header PAYLOAD_SIZE [], do_call sample_world (CallInv [1, 2]) (BRPeerNew 7))"
    by (intro peer_run.call peer_run.new sample.peer_client_axioms)
  from peer_invariant [OF this] show ?thesis
    by (simp add: BRPeerSendInv_def PeerAddKnownTxHashes_def add_known_def BRPeerNew_def sample_world_def BRPeerSendMessage_def BRPeerDisconnect_def Let_def insert_commute)
qed

text \<open>C35: However the socket cuts the stream into pieces, the messages that \<open>BRPeerSendMessage\<close> frames on one side are handed to \<open>PeerAcceptMessage\<close> on the
  other side with their types, unchanged and in order, until a handler refuses one or the connection is closed.\<close>

theorem stream_delivery:
  assumes "peer_client w" "list_all sendable ms" "reads_ok w chunks (Header cap [], ctx)"
    and "concat chunks = concat (map (\<lambda>(t, p). frame (magicNumber ctx) t p) ms)"
  shows "run_thread w chunks (Header cap [], ctx) = deliver w cap ms ctx"
  using segmentation [OF assms(3), simplified] peer_client.stream [OF assms(1,2) refl] unfolding assms(4) by simp

lemma single_reads:
  assumes "peer_client w"
  shows "peer_ok ctx \<Longrightarrow> reader_ok rdr \<Longrightarrow> reads_ok w (map (\<lambda>b. [b]) bs) (rdr, ctx)"
proof (induction bs arbitrary: rdr ctx)
  case (Cons b bs)
  have one: "rdr \<noteq> Failed \<Longrightarrow> 1 \<le> wanted rdr" using Cons.prems(2) by (cases rdr) auto
  have "reads_ok w (map (\<lambda>b. [b]) bs) st'" if "on_read w [b] (rdr, ctx) = Some st'" "rdr \<noteq> Failed" for st'
    using Cons.IH peer_client.read_ok [OF assms, of "[b]" rdr ctx "fst st'" "snd st'"] Cons.prems one that by (cases st') simp
  then show ?case using one by (auto split: option.split)
qed simp

theorem stream_delivery_witness:
  "run_thread sample_world (map (\<lambda>b. [b]) (frame 7 MSG_PING (replicate 8 1))) (Header PAYLOAD_SIZE [], thread_start sample_world (1, 2) (BRPeerNew 7)) =
     deliver sample_world PAYLOAD_SIZE [(MSG_PING, replicate 8 1)] (thread_start sample_world (1, 2) (BRPeerNew 7))"
proof (rule stream_delivery [OF sample.peer_client_axioms])
  show "list_all sendable [(MSG_PING, replicate 8 1)]" by (simp add: sendable_def MSG_PING_def ascii_def MAX_MSG_LENGTH_def)
  show "reads_ok sample_world (map (\<lambda>b. [b]) (frame 7 MSG_PING (replicate 8 1))) (Header PAYLOAD_SIZE [], thread_start sample_world (1, 2) (BRPeerNew 7))"
    by (intro single_reads sample.peer_client_axioms start_ok peer_new_ok) (simp add: HEADER_LENGTH_def)
  show "concat (map (\<lambda>b. [b]) (frame 7 MSG_PING (replicate 8 1))) =
    concat (map (\<lambda>(t, p). frame (magicNumber (thread_start sample_world (1, 2) (BRPeerNew 7))) t p) [(MSG_PING, replicate 8 1)])"
    by (simp add: thread_start_def PeerSendVersionMessage_def BRPeerSendMessage_def BRPeerNew_def BRPeerDisconnect_def Let_def)
qed

end
