(* ===== verification/BRPeerExchange.thy ===== *)
theory BRPeerExchange
  imports BRPeerRun BRBlockCheck
begin

text \<open>
  What the exchange of messages achieves: announced transactions are requested, filtered blocks are completed, the handshake, and messages that are not checked.
\<close>

section \<open>Messages with lists\<close>

lemma read_entries_some:
  "off + n * k \<le> length msg \<Longrightarrow> \<exists>es. read_entries n k msg off = Some es"
proof (induction k arbitrary: off)
  case (Suc k)
  then have "off + n \<le> length msg" "\<exists>es. read_entries n k msg (off + n) = Some es" by (simp_all add: add.assoc)
  then show ?case by (auto simp: rd_slice_def)
qed simp

lemma read_entries_concat:
  "list_all (\<lambda>e. length e = n) es \<Longrightarrow> off = length pre \<Longrightarrow> read_entries n (length es) (pre @ concat es) off = Some es"
proof (induction es arbitrary: pre off)
  case (Cons e es)
  have "read_entries n (length es) ((pre @ e) @ concat es) (off + n) = Some es" using Cons by (intro Cons.IH) simp_all
  moreover have "rd_slice (pre @ e @ concat es) off n = Some e" using Cons.prems by (auto simp: rd_slice_def)
  ultimately show ?case by simp
qed simp

lemma entries_fit:
  assumes "\<not> too_short msg off c n" "unat c \<le> 50000" "off \<le> 9" "n \<le> 36" "length msg \<le> MAX_MSG_LENGTH"
  shows "off + n * unat c \<le> length msg"
proof -
  have "unat c * n \<le> 50000 * 36" using assms(2,4) by (intro mult_le_mono)
  then have "off + unat c * n < 2 ^ 64" using assms(3) by simp
  then show ?thesis using assms(1) by (simp add: too_short_def mult.commute)
qed

lemma BRVarInt_length: "snd (BRVarInt m) \<le> 9"
  by (simp add: BRVarInt_def Let_def)

text \<open>C36: For any bytes, the handlers for verack, addr, inv, getaddr, getdata, notfound, ping, pong and feefilter messages return: the count that is
  compared with the length in 64-bit arithmetic, which can wrap, is compared with its limit before an entry is read.\<close>

theorem list_messages_safe:
  assumes "length msg \<le> MAX_MSG_LENGTH"
    and "t \<in> {MSG_VERACK, MSG_ADDR, MSG_INV, MSG_GETADDR, MSG_GETDATA, MSG_NOTFOUND, MSG_PING, MSG_PONG, MSG_FEEFILTER}"
  shows "\<exists>ctx' r. PeerAcceptMessage w msg t ctx = Some (ctx', r)"
proof -
  obtain c off where v: "BRVarInt msg = (c, off)" by (cases "BRVarInt msg")
  have off: "off \<le> 9" using BRVarInt_length [of msg] v by simp
  have r36: "\<exists>es. read_entries 36 (unat c) msg off = Some es" if "\<not> too_short msg off c 36" "unat c \<le> MAX_GETDATA_HASHES"
    using that entries_fit [of msg off c 36] off assms(1) by (intro read_entries_some) (simp add: MAX_GETDATA_HASHES_def)
  have r30: "\<exists>es. read_entries 30 (unat c) msg off = Some es" if "\<not> too_short msg off c 30" "c \<le> 1000"
  proof -
    have "unat c \<le> 50000" using that(2) by (simp add: word_le_nat_alt)
    then show ?thesis using entries_fit [OF that(1)] off assms(1) by (intro read_entries_some) simp
  qed
  have "PeerAcceptAddrMessage w msg ctx \<noteq> None" "PeerAcceptInvMessage w msg ctx \<noteq> None"
    "PeerAcceptGetdataMessage w msg ctx \<noteq> None" "PeerAcceptNotfoundMessage w msg ctx \<noteq> None"
    using r30 r36 by (auto simp: PeerAcceptAddrMessage_def PeerAcceptInvMessage_def PeerAcceptGetdataMessage_def PeerAcceptNotfoundMessage_def v not_less Let_def
        ex_bool_eq split: prod.splits)
  then have "PeerAcceptMessage w msg t ctx \<noteq> None" using assms(2) unfolding PeerAcceptMessage_def
    by (elim insertE) (simp_all del: not_None_eq add: MSG_VERSION_def MSG_VERACK_def MSG_ADDR_def MSG_INV_def MSG_TX_def MSG_HEADERS_def MSG_GETADDR_def MSG_GETDATA_def
        MSG_NOTFOUND_def MSG_PING_def MSG_PONG_def MSG_MERKLEBLOCK_def MSG_REJECT_def MSG_FEEFILTER_def ascii_def)
  then show ?thesis by (metis not_None_eq surj_pair)
qed

theorem list_messages_safe_witness:
  "\<exists>ctx' r. PeerAcceptMessage sample_world (replicate 9 0xff) MSG_INV (BRPeerNew 7) = Some (ctx', r)"
  by (rule list_messages_safe) (simp_all add: MAX_MSG_LENGTH_def)

lemma peer_varint_eq: "peer_varint n = varint (word_of_nat n)"
  by (simp add: peer_varint_def Let_def BRVarIntSize_eq BRVarIntSet_emit emit_def put_def)

lemma length_inv_item [simp]: "length (inv_item i) = 36"
  by (simp add: inv_item_def)

lemma length_inv_message: "length (inv_message is) = length (varint (word_of_nat (length is))) + 36 * length is"
proof -
  have "length (concat (map inv_item is)) = 36 * length is" by (induction "is") simp_all
  then show ?thesis by (simp add: inv_message_def peer_varint_eq)
qed

lemma item_of_inv_item [simp]: "item_of (inv_item i) = i"
  using UInt32GetLE_append [of "UInt32SetLE (fst i)" "[]"] by (cases i) (simp add: item_of_def inv_item_def slice_def get_set)

lemma inv_message_read:
  assumes "length is \<le> 50000"
  shows "BRVarInt (inv_message is) = (word_of_nat (length is), length (varint (word_of_nat (length is))))"
    "unat (word_of_nat (length is) :: u64) = length is"
    "\<not> too_short (inv_message is) (length (varint (word_of_nat (length is)))) (word_of_nat (length is)) 36"
    "read_entries 36 (length is) (inv_message is) (length (varint (word_of_nat (length is)))) = Some (map inv_item is)"
proof -
  show u: "unat (word_of_nat (length is) :: u64) = length is" using assms by (intro unat_word_of_nat_less) simp
  show "BRVarInt (inv_message is) = (word_of_nat (length is), length (varint (word_of_nat (length is))))"
    by (simp add: inv_message_def peer_varint_eq BRVarInt_varint)
  show "\<not> too_short (inv_message is) (length (varint (word_of_nat (length is)))) (word_of_nat (length is)) 36"
    using u by (simp add: too_short_def length_inv_message mult.commute mod_less_eq_dividend)
  have "read_entries 36 (length (map inv_item is)) (varint (word_of_nat (length is)) @ concat (map inv_item is)) (length (varint (word_of_nat (length is)))) =
    Some (map inv_item is)" by (rule read_entries_concat) (simp_all add: list_all_iff)
  then show "read_entries 36 (length is) (inv_message is) (length (varint (word_of_nat (length is)))) = Some (map inv_item is)"
    by (simp add: inv_message_def peer_varint_eq)
qed

lemma hashes_typed_pairs:
  "hashes_typed ts (map (Pair a) hs) = (if a \<in> set ts then hs else [])" "hashes_typed ts (xs @ ys) = hashes_typed ts xs @ hashes_typed ts ys"
  by (simp_all add: hashes_typed_def filter_map comp_def)

lemma inv_types [simp]: "inv_tx \<noteq> inv_block" "inv_tx \<noteq> inv_filtered_block" "inv_block \<noteq> inv_filtered_block"
  by (simp_all add: inv_tx_def inv_block_def inv_filtered_block_def)

text \<open>A client that does nothing in its callbacks, with a socket that works.\<close>

definition idle :: "peer_world \<Rightarrow> bool" where
  "idle w \<longleftrightarrow> (\<forall>e ctx. on_event w e ctx = ctx) \<and> (\<forall>es. send_ok w es)"

lemma idle_event: "idle w \<Longrightarrow> event w e ctx = ctx\<lparr>trace := trace ctx @ [e]\<rparr>"
  by (simp add: idle_def event_def)

lemma idle_send:
  "idle w \<Longrightarrow> connected_socket ctx \<Longrightarrow> length m \<le> MAX_MSG_LENGTH \<Longrightarrow>
   BRPeerSendMessage w m t ctx = ctx\<lparr>trace := trace ctx @ [Sent (frame (magicNumber ctx) t m)]\<rparr>"
  by (simp add: idle_def BRPeerSendMessage_def Let_def)

lemma inv_unknown_idle:
  assumes "idle w"
  shows "callbacksSet ctx \<Longrightarrow> inv_unknown w ts js ctx = (js @ filter (\<lambda>h. h \<notin> knownTxHashSet ctx) ts,
     ctx\<lparr>trace := trace ctx @ map HasTx (filter (\<lambda>h. h \<in> knownTxHashSet ctx) ts)\<rparr>)"
  by (induction ts arbitrary: js ctx) (simp_all add: callback_def idle_event [OF assms])

lemma add_known_set: "peer_ok ctx \<Longrightarrow> knownTxHashSet (PeerAddKnownTxHashes w hs ctx) = knownTxHashSet ctx \<union> set hs"
proof -
  have "peer_ok ctx \<Longrightarrow> knownTxHashSet (add_known w h ctx) = insert h (knownTxHashSet ctx)" for h ctx
    by (auto simp: add_known_def peer_ok_def Let_def)
  then show "peer_ok ctx \<Longrightarrow> ?thesis" unfolding PeerAddKnownTxHashes_def by (induction hs arbitrary: ctx) auto
qed

lemma add_known_same:
  "trace (PeerAddKnownTxHashes w hs ctx) = trace ctx" "connected_socket (PeerAddKnownTxHashes w hs ctx) = connected_socket ctx"
  "magicNumber (PeerAddKnownTxHashes w hs ctx) = magicNumber ctx" "mempoolCallback (PeerAddKnownTxHashes w hs ctx) = mempoolCallback ctx"
proof -
  have one: "trace (add_known w h ctx) = trace ctx" "connected_socket (add_known w h ctx) = connected_socket ctx"
    "magicNumber (add_known w h ctx) = magicNumber ctx" "mempoolCallback (add_known w h ctx) = mempoolCallback ctx" for h ctx
    by (simp_all add: add_known_def Let_def)
  show "trace (PeerAddKnownTxHashes w hs ctx) = trace ctx" "connected_socket (PeerAddKnownTxHashes w hs ctx) = connected_socket ctx"
    "magicNumber (PeerAddKnownTxHashes w hs ctx) = magicNumber ctx" "mempoolCallback (PeerAddKnownTxHashes w hs ctx) = mempoolCallback ctx"
    unfolding PeerAddKnownTxHashes_def by (induction hs arbitrary: ctx) (simp_all add: one)
qed

text \<open>C37: Transactions that one side announces with \<open>BRPeerSendInv\<close> reach the other side: the hashes that it knows are reported to its client, exactly the others are
  requested in one getdata message in the same order, and afterwards all of them are known; the announcing side does not announce them again.\<close>

theorem inv_exchange:
  assumes "idle w" "peer_ok b" "connected_socket b" "callbacksSet b" "currentBlock b = None" "sentFilter b \<or> sentMempool b" "mempoolCallback b = None"
    and "idle v" "peer_ok a" "connected_socket a"
    and "length hs \<le> 10000" "distinct hs" "set hs \<inter> knownTxHashSet a = {}" "hs \<noteq> []"
  shows "\<exists>a' msg. BRPeerSendInv v hs a = a' \<and> trace a' = trace a @ [Sent (frame (magicNumber a) MSG_INV msg)] \<and>
     BRPeerSendInv v hs a' = a' \<and>
     (\<exists>b'. PeerAcceptMessage w msg MSG_INV b = Some (b', True) \<and> knownTxHashSet b' = knownTxHashSet b \<union> set hs \<and>
        trace b' = trace b @ map HasTx (filter (\<lambda>h. h \<in> knownTxHashSet b) hs) @
          (let new = filter (\<lambda>h. h \<notin> knownTxHashSet b) hs
           in if new = [] then [] else [Sent (frame (magicNumber b) MSG_GETDATA (inv_message (map (Pair inv_tx) new)))]))"
proof -
  have size: "length (inv_message (map (Pair t) xs)) \<le> MAX_MSG_LENGTH" if "length xs \<le> 10000" for xs :: "UInt256 list" and t
    using that length_varint_le [of "word_of_nat (length xs)"] by (simp add: length_inv_message MAX_MSG_LENGTH_def)
  define a1 where "a1 = PeerAddKnownTxHashes v hs a"
  have known_app: "knownTxHashes (PeerAddKnownTxHashes v xs c) = knownTxHashes c @ xs"
    if "peer_ok c" "distinct xs" "set xs \<inter> knownTxHashSet c = {}" for xs c
    using that
  proof (induction xs arbitrary: c)
    case (Cons x xs)
    have "knownTxHashSet (add_known v x c) = insert x (knownTxHashSet c)"
      using add_known_set [OF Cons.prems(1), of v "[x]"] by (simp add: PeerAddKnownTxHashes_def)
    moreover have "knownTxHashes (add_known v x c) = knownTxHashes c @ [x]" using Cons.prems by (simp add: add_known_def Let_def)
    ultimately show ?case using Cons.IH [of "add_known v x c"] Cons.prems by (simp add: PeerAddKnownTxHashes_def)
  qed (simp add: PeerAddKnownTxHashes_def)
  have a1: "knownTxHashes a1 = knownTxHashes a @ hs" using known_app [of a hs] assms(9,12,13) by (simp add: a1_def)
  define msg where "msg = inv_message (map (Pair inv_tx) hs)"
  define a' where "a' = a1\<lparr>trace := trace a @ [Sent (frame (magicNumber a) MSG_INV msg)]\<rparr>"
  have sent: "BRPeerSendInv v hs a = a'"
    using a1 assms(14) idle_send [OF assms(8), of a1 msg] size [OF assms(11)] assms(10)
    unfolding BRPeerSendInv_def Let_def a1_def [symmetric] by (simp add: msg_def a'_def) (simp add: a1_def add_known_same)
  have set': "set hs \<subseteq> knownTxHashSet a'" using add_known_set [OF assms(9), of v hs] by (simp add: a'_def a1_def)
  have again: "PeerAddKnownTxHashes v xs c = c" if "set xs \<subseteq> knownTxHashSet c" for xs c
    using that by (induction xs) (simp_all add: PeerAddKnownTxHashes_def add_known_def)
  have twice: "BRPeerSendInv v hs a' = a'" using again [OF set'] by (simp add: BRPeerSendInv_def Let_def)
  note rd = inv_message_read [of "map (Pair inv_tx) hs"]
  have items: "map item_of (map inv_item (map (Pair inv_tx) hs)) = map (Pair inv_tx) hs" by (simp add: comp_def)
  have disp: "PeerAcceptMessage w msg MSG_INV b = PeerAcceptInvMessage w msg b"
    by (simp add: PeerAcceptMessage_def assms(5) MSG_VERSION_def MSG_VERACK_def MSG_ADDR_def MSG_INV_def ascii_def)
  have acc: "PeerAcceptInvMessage w msg b = Some (inv_accept w hs [] b, True)"
    using rd assms(6,11) items by (auto simp: PeerAcceptInvMessage_def msg_def MAX_GETDATA_HASHES_def hashes_typed_pairs Let_def comp_def)
  define new where "new = filter (\<lambda>h. h \<notin> knownTxHashSet b) hs"
  define b1 where "b1 = b\<lparr>trace := trace b @ map HasTx (filter (\<lambda>h. h \<in> knownTxHashSet b) hs)\<rparr>"
  define b2 where "b2 = PeerAddKnownTxHashes w new b1"
  define b' where "b' = (if new = [] then b2 else BRPeerSendGetdata w new [] b2)"
  have trim: "trim_known (knownBlockHashes b) = knownBlockHashes b" using assms(2) by (subst trim_known.simps) (simp add: peer_ok_def)
  have b2_known: "knownTxHashSet b2 = knownTxHashSet b \<union> set hs" using add_known_set [of b1 w new] assms(2) by (auto simp: b2_def b1_def new_def)
  have "length new \<le> 10000" using assms(11) by (simp add: new_def) (meson dual_order.trans length_filter_le)
  then have getdata: "BRPeerSendGetdata w new [] b2 = b2\<lparr>sentGetdata := True,
      trace := trace b1 @ [Sent (frame (magicNumber b) MSG_GETDATA (inv_message (map (Pair inv_tx) new)))]\<rparr>" if "new \<noteq> []"
    using that idle_send [OF assms(1), of "b2\<lparr>sentGetdata := True\<rparr>"] size [of new] assms(3)
    by (simp add: BRPeerSendGetdata_def MAX_GETDATA_HASHES_def b2_def add_known_same b1_def)
  have none: "mempoolCallback b' = None" using assms(7) getdata by (auto simp: b'_def b2_def b1_def add_known_same)
  have unknown: "inv_unknown w hs [] b = (new, b1)" using inv_unknown_idle [OF assms(1,4), of hs "[]"] by (simp add: new_def b1_def)
  have "inv_accept w hs [] b = (case mempoolCallback b' of None \<Rightarrow> b'
      | Some c \<Rightarrow> (BRPeerSendPing w (Some c) b')\<lparr>mempoolCallback := None, mempoolTime := DBL_MAX\<rparr>)"
    using assms(14) unfolding b'_def b2_def by (cases "new = []") (simp_all add: inv_accept_def Let_def trim unknown split: option.split)
  then have "inv_accept w hs [] b = b'" by (simp add: none)
  moreover have "knownTxHashSet b' = knownTxHashSet b \<union> set hs" "trace b' = trace b @ map HasTx (filter (\<lambda>h. h \<in> knownTxHashSet b) hs) @
      (if new = [] then [] else [Sent (frame (magicNumber b) MSG_GETDATA (inv_message (map (Pair inv_tx) new)))])"
    using b2_known getdata by (auto simp: b'_def b2_def add_known_same b1_def)
  ultimately show ?thesis using sent twice disp acc by (intro exI [of _ a'] exI [of _ msg]) (simp add: new_def a'_def Let_def)
qed

theorem inv_exchange_witness:
  "\<exists>a' msg. BRPeerSendInv sample_world [5, 6] (BRPeerNew 7\<lparr>connected_socket := True\<rparr>) = a' \<and>
     trace a' = [Sent (frame 7 MSG_INV msg)] \<and>
     (\<exists>b'. PeerAcceptMessage sample_world msg MSG_INV (BRPeerNew 7\<lparr>connected_socket := True, callbacksSet := True, sentFilter := True\<rparr>) = Some (b', True) \<and>
        knownTxHashSet b' = {5, 6})"
proof -
  let ?b = "BRPeerNew 7\<lparr>connected_socket := True, callbacksSet := True, sentFilter := True\<rparr>" and ?a = "BRPeerNew 7\<lparr>connected_socket := True\<rparr>"
  have i: "idle sample_world" by (simp add: idle_def sample_world_def)
  have b: "peer_ok ?b" "connected_socket ?b" "callbacksSet ?b" "currentBlock ?b = None" "sentFilter ?b \<or> sentMempool ?b" "mempoolCallback ?b = None"
    by (simp_all add: peer_new_ok) (simp_all add: BRPeerNew_def)
  have a: "peer_ok ?a" "connected_socket ?a" "length [5, 6 :: UInt256] \<le> 10000" "distinct [5, 6 :: UInt256]" "set [5, 6] \<inter> knownTxHashSet ?a = {}" "[5, 6 :: UInt256] \<noteq> []"
    by (simp_all add: peer_new_ok) (simp_all add: BRPeerNew_def)
  have e: "trace ?a = []" "magicNumber ?a = 7" "knownTxHashSet ?b = {}" by (simp_all add: BRPeerNew_def)
  from inv_exchange [OF i b i a, unfolded e] show ?thesis by (elim exE conjE) auto
qed

section \<open>Blocks with their transactions\<close>

lemma tree_hashes_listed:
  assumes "carries_tree b ts"
  shows "BRMerkleBlockTxHashes b None = Some (None, length (matched ts))"
    "length a = length (matched ts) \<Longrightarrow> BRMerkleBlockTxHashes b (Some a) = Some (Some (matched ts), length (matched ts))"
proof -
  obtain h where h: "ceil_log2 (totalTx b) = Some h" "length ts \<le> 2 ^ h" "h \<le> 31" "bits_at b 0 (tree_bits h ts)"
    "hashes_at b 0 (tree_hashes h ts)" "hashesCount b = length (tree_hashes h ts)" "distinct_nodes h (map fst ts)"
    by (rule carries_tree_walk [OF assms])
  have ts: "0 < length ts" "length ts < 2 ^ 31" using assms by (auto simp: carries_tree_def)
  have "length (matched ts) \<le> length ts" by (simp add: matched_def)
  then have le: "length (matched ts) \<le> SIZE_MAX" using ts by simp
  note walk = tx_walk [where depth = 0 and h = h and n = 32 and b = b and ts = ts and fi = 0 and hi = 0 and idx = 0]
  show "BRMerkleBlockTxHashes b None = Some (None, length (matched ts))"
    using walk [of SIZE_MAX None] h ts le by (simp add: BRMerkleBlockTxHashes_def collect_def)
  show "length a = length (matched ts) \<Longrightarrow> BRMerkleBlockTxHashes b (Some a) = Some (Some (matched ts), length (matched ts))"
    using walk [of "length a" "Some a"] h ts by (simp add: BRMerkleBlockTxHashes_def collect_def put_def)
qed

lemma remove_pending_mset: "mset (remove_pending h hs) = mset hs - {#h#}"
  by (simp add: remove_pending_def)

fun accept_txs :: "peer_world \<Rightarrow> bytes list \<Rightarrow> BRPeerContext \<Rightarrow> BRPeerContext option" where
  "accept_txs w [] ctx = Some ctx"
| "accept_txs w (m # ms) ctx = do { (ctx, r) \<leftarrow> PeerAcceptMessage w m MSG_TX ctx; if r then accept_txs w ms ctx else None }"

lemma dispatch_tx: "PeerAcceptMessage w m MSG_TX ctx = PeerAcceptTxMessage w m ctx"
  by (simp add: PeerAcceptMessage_def MSG_VERSION_def MSG_VERACK_def MSG_ADDR_def MSG_INV_def MSG_TX_def ascii_def)

lemma dispatch_merkleblock: "currentBlock ctx = None \<Longrightarrow> PeerAcceptMessage w m MSG_MERKLEBLOCK ctx = PeerAcceptMerkleblockMessage w m ctx"
  by (simp add: PeerAcceptMessage_def MSG_VERSION_def MSG_VERACK_def MSG_ADDR_def MSG_INV_def MSG_TX_def MSG_HEADERS_def MSG_GETADDR_def MSG_GETDATA_def
      MSG_NOTFOUND_def MSG_PING_def MSG_PONG_def MSG_MERKLEBLOCK_def ascii_def)

lemma collect_all:
  assumes "idle w"
  shows "callbacksSet ctx \<Longrightarrow> sentFilter ctx \<or> sentGetdata ctx \<Longrightarrow> currentBlock ctx = Some b \<Longrightarrow> ms \<noteq> [] \<Longrightarrow>
    list_all2 (\<lambda>m tx. BRTransactionParse (Some m) = Some (Some tx)) ms txs \<Longrightarrow> mset (map txHash txs) = mset (currentBlockTxHashes ctx) \<Longrightarrow>
    accept_txs w ms ctx = Some (ctx\<lparr>currentBlock := None, currentBlockTxHashes := [], trace := trace ctx @ map RelayedTx txs @ [RelayedBlock b]\<rparr>)"
proof (induction ms arbitrary: ctx txs)
  case (Cons m ms)
  obtain tx txs' where txs: "txs = tx # txs'" "BRTransactionParse (Some m) = Some (Some tx)"
    "list_all2 (\<lambda>m tx. BRTransactionParse (Some m) = Some (Some tx)) ms txs'"
    using Cons.prems(5) by (auto simp: list_all2_Cons1)
  let ?c1 = "ctx\<lparr>trace := trace ctx @ [RelayedTx tx]\<rparr>"
  let ?c2 = "?c1\<lparr>currentBlockTxHashes := remove_pending (txHash tx) (currentBlockTxHashes ctx)\<rparr>"
  have rel: "callback w (RelayedTx tx) ctx = ?c1" using Cons.prems(1) by (simp add: callback_def idle_event [OF assms])
  have rest: "mset (map txHash txs') = mset (remove_pending (txHash tx) (currentBlockTxHashes ctx))"
    unfolding remove_pending_mset using Cons.prems(6) txs(1) by (metis add_mset_remove_trivial list.simps(9) mset.simps(2))
  have acc: "PeerAcceptMessage w m MSG_TX ctx = Some (collect_tx w (txHash tx) ?c1, True)"
    using Cons.prems(2) txs(2) by (auto simp: dispatch_tx PeerAcceptTxMessage_def rel)
  show ?case
  proof (cases "ms = []")
    case True
    then have "txs' = []" using txs(3) by simp
    then have "remove_pending (txHash tx) (currentBlockTxHashes ctx) = []" using rest by simp
    then have "collect_tx w (txHash tx) ?c1 = ctx\<lparr>currentBlock := None, currentBlockTxHashes := [], trace := trace ctx @ [RelayedTx tx, RelayedBlock b]\<rparr>"
      using Cons.prems(1,3) by (simp add: collect_tx_def callback_def idle_event [OF assms])
    then show ?thesis using acc True txs(1) \<open>txs' = []\<close> by simp
  next
    case False
    then have "txs' \<noteq> []" using txs(3) by auto
    then have "remove_pending (txHash tx) (currentBlockTxHashes ctx) \<noteq> []" using rest by auto
    then have "collect_tx w (txHash tx) ?c1 = ?c2" using Cons.prems(3) by (simp add: collect_tx_def)
    moreover have "accept_txs w ms ?c2 = Some (?c2\<lparr>currentBlock := None, currentBlockTxHashes := [], trace := trace ?c2 @ map RelayedTx txs' @ [RelayedBlock b]\<rparr>)"
      using Cons.prems(1-3) rest txs(3) False by (intro Cons.IH) simp_all
    ultimately show ?thesis using acc txs(1) by simp
  qed
qed simp

text \<open>C38: A filtered block is handed to the client exactly once, after all of its transactions.  For a valid merkleblock message that carries the BIP 37 encoding of a
  transaction list, the handler waits for the matching transactions that are not known yet; when these arrive, in any order, each is relayed, and with the last of them the block.  When there is nothing to wait for, the block is relayed at once.\<close>

theorem block_with_transactions:
  assumes "idle w" "callbacksSet ctx" "sentFilter ctx \<or> sentGetdata ctx" "currentBlock ctx = None" "currentBlockTxHashes ctx = []"
    and "BRMerkleBlockParse (pow w) (Some msg) = Some (Some b)" "BRMerkleBlockIsValid b (ucast (time_now w)) = Some True" "carries_tree b ts"
    and "list_all2 (\<lambda>m tx. BRTransactionParse (Some m) = Some (Some tx)) ms txs"
    and "mset (map txHash txs) = mset (filter (\<lambda>h. h \<notin> knownTxHashSet ctx) (matched ts))"
  shows "\<exists>c ctx'. PeerAcceptMessage w msg MSG_MERKLEBLOCK ctx = Some (c, True) \<and> accept_txs w ms c = Some ctx' \<and>
     trace ctx' = trace ctx @ map RelayedTx txs @ [RelayedBlock b] \<and> currentBlock ctx' = None \<and> currentBlockTxHashes ctx' = [] \<and>
     (ms \<noteq> [] \<longrightarrow> trace c = trace ctx)"
proof -
  define new where "new = filter (\<lambda>h. h \<notin> knownTxHashSet ctx) (rev (matched ts))"
  have same: "mset new = mset (map txHash txs)" using assms(10) by (simp add: new_def rev_filter [symmetric])
  have acc: "PeerAcceptMessage w msg MSG_MERKLEBLOCK ctx = Some (if new \<noteq> [] then ctx\<lparr>currentBlockTxHashes := new, currentBlock := Some b\<rparr>
      else callback w (RelayedBlock b) (ctx\<lparr>currentBlockTxHashes := new\<rparr>), True)"
    using assms(3,5-8) tree_hashes_listed [OF assms(8)] by (auto simp: dispatch_merkleblock [OF assms(4)] PeerAcceptMerkleblockMessage_def new_def Let_def)
  show ?thesis
  proof (cases "ms = []")
    case True
    then have "txs = []" using assms(9) by simp
    then show ?thesis using True acc same assms(1,2,4,5) by (simp add: callback_def idle_event [OF assms(1)])
  next
    case False
    then have "txs \<noteq> []" using assms(9) by auto
    then have "new \<noteq> []" using same by auto
    moreover have "accept_txs w ms (ctx\<lparr>currentBlockTxHashes := new, currentBlock := Some b\<rparr>) = Some (ctx\<lparr>currentBlockTxHashes := [], currentBlock := None,
        trace := trace ctx @ map RelayedTx txs @ [RelayedBlock b]\<rparr>)"
      using collect_all [OF assms(1), of "ctx\<lparr>currentBlockTxHashes := new, currentBlock := Some b\<rparr>" b ms txs] assms(2,3,9) same False by simp
    ultimately show ?thesis using acc by simp
  qed
qed

theorem block_with_transactions_witness:
  "\<exists>c ctx'. PeerAcceptMessage sample_world (block_bytes (BRMerkleBlockNew\<lparr>blk_timestamp := 1600000000, height := 9, target := 0x1b00ffff, merkleRoot := 7,
       totalTx := 1, hashes := Some [7], hashesCount := 1, flags := Some [1], flagsLen := 1\<rparr>)) MSG_MERKLEBLOCK
     (BRPeerNew 7\<lparr>callbacksSet := True, sentFilter := True, knownTxHashes := [7], knownTxHashSet := {7}\<rparr>) = Some (c, True) \<and>
     accept_txs sample_world [] c = Some ctx' \<and> length (trace ctx') = 1"
proof -
  let ?b = "BRMerkleBlockNew\<lparr>blk_timestamp := 1600000000, height := 9, target := 0x1b00ffff, merkleRoot := 7, totalTx := 1, hashes := Some [7],
     hashesCount := 1, flags := Some [1], flagsLen := 1\<rparr>"
  let ?ctx = "BRPeerNew 7\<lparr>callbacksSet := True, sentFilter := True, knownTxHashes := [7], knownTxHashSet := {7}\<rparr>"
  have wire: "wire_block ?b"
    by (simp add: wire_block_def block_bytes_def length_header tree_bytes_def varint_def BRMerkleBlockNew_def KAWPOW_ActivationTime_def)
  have pow: "pow_hash (pow sample_world) d ?b = Some 0" for d
    by (simp add: pow_hash_def KAWPOW_ActivationTime_def sample_world_def UInt256Get_def UInt256Reverse_def u8_at_def)
  have parse: "BRMerkleBlockParse (pow sample_world) (Some (block_bytes ?b)) = Some (Some ?b)"
    using parse_block [OF wire pow] by (simp add: BRMerkleBlockNew_def)
  have tree: "carries_tree ?b [(7, True)]"
    by (simp add: carries_tree_def pack_bits_def tree_height_1)
  have log: "ceil_log2 1 = Some 0" by (simp add: ceil_log2_def shift_count.simps word_le_nat_alt)
  obtain st where "MerkleBlockRootR 32 ?b (0, 0) 0 = Some (7, st)"
    by (rule carries_tree_walk [OF tree]) (use root_walk [of ?b 0 0 32 "[(7, True)]" 0 0] log in \<open>auto simp: tree_height_1\<close>)
  then have valid: "BRMerkleBlockIsValid ?b (ucast (time_now sample_world)) = Some True" 
    by (simp add: BRMerkleBlockIsValid_def Let_def BRMerkleBlockNew_def sample_world_def MAX_PROOF_OF_WORK_def BLOCK_MAX_TIME_DRIFT_def UInt256Eq_iff
       store32_shift pow_check_le)
  have idle: "idle sample_world" by (simp add: idle_def sample_world_def)
  have "\<exists>c ctx'. PeerAcceptMessage sample_world (block_bytes ?b) MSG_MERKLEBLOCK ?ctx = Some (c, True) \<and> accept_txs sample_world [] c = Some ctx' \<and>
     trace ctx' = trace ?ctx @ map RelayedTx [] @ [RelayedBlock ?b] \<and> currentBlock ctx' = None \<and> currentBlockTxHashes ctx' = [] \<and>
     (([] :: bytes list) \<noteq> [] \<longrightarrow> trace c = trace ?ctx)"
    by (rule block_with_transactions [OF idle _ _ _ _ parse valid tree]) (simp_all add: matched_def BRPeerNew_def)
  then show ?thesis by (auto simp: BRPeerNew_def)
qed

section \<open>Handshake\<close>

context peer_client
begin

lemma version_accepted:
  assumes "PeerAcceptVersionMessage w msg ctx = Some (c, True)"
  shows "sentVerack c" "gotVerack c = gotVerack ctx" "status c = status ctx" "currentBlock c = currentBlock ctx"
proof -
  obtain c0 where c: "c = PeerSendVerackMessage w c0" "fixed c0 = fixed ctx"
    using assms by (auto simp: PeerAcceptVersionMessage_def Let_def split: if_splits prod.splits bind_splits)
  then show "sentVerack c" "gotVerack c = gotVerack ctx" "status c = status ctx" "currentBlock c = currentBlock ctx"
    using send_message_ok(2) [of w "[]" MSG_VERACK c0] by (simp_all add: PeerSendVerackMessage_def fixed_def)
qed

lemma verack_connects:
  assumes "status c = BRPeerStatusConnecting" "\<not> gotVerack c" "sentVerack c"
  shows "\<exists>c'. PeerAcceptVerackMessage w c = (c', True) \<and> status c' = BRPeerStatusConnected"
proof -
  have "status (callback w e d) = status d" for e d using callback_ok(2) [of e d] by (simp add: fixed_def)
  then show ?thesis using assms by (simp add: PeerAcceptVerackMessage_def PeerDidConnect_def)
qed

lemma deliver_status:
  "gotVerack c \<Longrightarrow> deliver w cap ms c = Some (rdr, c') \<Longrightarrow> status c' = status c"
proof (induction ms arbitrary: c cap)
  case (Cons tm ms)
  then show ?case using accept_step by (cases tm) (fastforce simp: step_ok_def split: if_splits bind_splits)
qed simp

end

lemma dispatch_handshake:
  "currentBlock ctx = None \<Longrightarrow> PeerAcceptMessage w m MSG_VERSION ctx = PeerAcceptVersionMessage w m ctx"
  "currentBlock ctx = None \<Longrightarrow> PeerAcceptMessage w m MSG_VERACK ctx = Some (PeerAcceptVerackMessage w ctx)"
  by (simp_all add: PeerAcceptMessage_def MSG_VERSION_def MSG_VERACK_def ascii_def)

text \<open>C39: The handshake is completed by a verack that follows the version message.  When the verack comes first, the connection never becomes connected, whatever
  messages follow: the handler of the version message answers but does not look whether the handshake is complete.\<close>

theorem handshake_order:
  assumes "peer_client w" "status ctx = BRPeerStatusConnecting" "\<not> gotVerack ctx" "\<not> sentVerack ctx" "currentBlock ctx = None"
  shows "(\<forall>msg c. PeerAcceptMessage w msg MSG_VERSION ctx = Some (c, True) \<longrightarrow>
      (\<exists>c'. PeerAcceptMessage w [] MSG_VERACK c = Some (c', True) \<and> status c' = BRPeerStatusConnected)) \<and>
    (\<exists>c. PeerAcceptMessage w [] MSG_VERACK ctx = Some (c, True) \<and>
      (\<forall>cap ms rdr c'. deliver w cap ms c = Some (rdr, c') \<longrightarrow> status c' = BRPeerStatusConnecting))"
proof (intro conjI allI impI)
  fix msg c assume "PeerAcceptMessage w msg MSG_VERSION ctx = Some (c, True)"
  then have "PeerAcceptVersionMessage w msg ctx = Some (c, True)" by (simp add: dispatch_handshake assms(5))
  note v = peer_client.version_accepted [OF assms(1) this]
  then show "\<exists>c'. PeerAcceptMessage w [] MSG_VERACK c = Some (c', True) \<and> status c' = BRPeerStatusConnected"
    using peer_client.verack_connects [OF assms(1), of c] assms(2,3,5) by (simp add: dispatch_handshake)
next
  let ?c = "ctx\<lparr>pingTime := clock w - startTime ctx, startTime := 0, gotVerack := True\<rparr>"
  have "PeerAcceptMessage w [] MSG_VERACK ctx = Some (?c, True)"
    using assms(3-5) by (simp add: dispatch_handshake PeerAcceptVerackMessage_def PeerDidConnect_def)
  moreover have "status c' = BRPeerStatusConnecting" if "deliver w cap ms ?c = Some (rdr, c')" for cap ms rdr c'
    using peer_client.deliver_status [OF assms(1) _ that] assms(2) by simp
  ultimately show "\<exists>c. PeerAcceptMessage w [] MSG_VERACK ctx = Some (c, True) \<and>
      (\<forall>cap ms rdr c'. deliver w cap ms c = Some (rdr, c') \<longrightarrow> status c' = BRPeerStatusConnecting)" by blast
qed

theorem handshake_order_witness:
  "\<exists>c. PeerAcceptMessage sample_world [] MSG_VERACK (BRPeerNew 7\<lparr>status := BRPeerStatusConnecting\<rparr>) = Some (c, True) \<and>
      (\<forall>cap ms rdr c'. deliver sample_world cap ms c = Some (rdr, c') \<longrightarrow> status c' = BRPeerStatusConnecting)"
  using handshake_order [OF sample.peer_client_axioms, of "BRPeerNew 7\<lparr>status := BRPeerStatusConnecting\<rparr>"]
  by (simp add: BRPeerNew_def)

section \<open>Messages that are not checked\<close>

lemma long_type: "12 \<le> length t \<Longrightarrow> 0 \<notin> set (take 12 t) \<Longrightarrow> length (type_field t) = 12 \<and> type_field t ! 11 \<noteq> 0"
  by (auto simp: type_field_def nth_append in_set_conv_nth)

text \<open>C40: Messages that make the handlers leave the message or call a null pointer: a version or reject message whose string length wraps the offset, an asset message that was not asked for or whose
  name is longer than the message, and a message whose type has all twelve characters, as the answer \<open>asstnotfound\<close> to an asset request has, which ends the connection.\<close>

theorem peer_unchecked:
  assumes "length hdr = 80" "MIN_PROTO_VERSION \<le> UInt32GetLE (slice 0 4 hdr)" "currentBlock ctx = None"
  shows "PeerAcceptMessage w (hdr @ varint (2 ^ 64 - 89)) MSG_VERSION ctx = None \<and>
     PeerAcceptMessage w (varint (2 ^ 64 - 9)) MSG_REJECT ctx = None \<and>
     (receiveAssetData ctx = None \<longrightarrow> PeerAcceptMessage w (varint 3 @ ascii ''_NF'') MSG_ASSETDATA ctx = None) \<and>
     (\<forall>nm n. length nm < unat n \<and> length (varint n @ nm) \<le> 16898 \<longrightarrow> PeerAcceptMessage w (varint n @ nm) MSG_ASSETDATA ctx = None) \<and>
     (\<forall>cap t m. 12 \<le> length t \<and> 0 \<notin> set (take 12 t) \<longrightarrow>
        header_step w cap (take 24 (frame (magicNumber ctx) t m)) ctx = Some (Failed, ctx))"
proof (intro conjI allI impI)
  have v: "length (varint (2 ^ 64 - 89)) = 9" "length (varint (2 ^ 64 - 9)) = 9" by (simp_all add: varint_def)
  have b: "BRVarInt (varint n) = (n, length (varint n))" for n using BRVarInt_varint [of n "[]"] by simp
  show "PeerAcceptMessage w (hdr @ varint (2 ^ 64 - 89)) MSG_VERSION ctx = None"
    using assms v by (simp add: dispatch_handshake PeerAcceptVersionMessage_def b Let_def adv_def slice_def rd_slice_def not_less)
  show "PeerAcceptMessage w (varint (2 ^ 64 - 9)) MSG_REJECT ctx = None"
    using assms(3) v by (simp add: PeerAcceptMessage_def PeerAcceptRejectMessage_def b adv_def copy_string_def MSG_VERSION_def MSG_VERACK_def MSG_ADDR_def MSG_INV_def
        MSG_TX_def MSG_HEADERS_def MSG_GETADDR_def MSG_GETDATA_def MSG_NOTFOUND_def MSG_PING_def MSG_PONG_def MSG_MERKLEBLOCK_def MSG_REJECT_def ascii_def Let_def)
  have d: "PeerAcceptMessage w m MSG_ASSETDATA ctx = PeerAcceptAssetMessage w m ctx" for m
    using assms(3) by (simp add: PeerAcceptMessage_def MSG_VERSION_def MSG_VERACK_def MSG_ADDR_def MSG_INV_def MSG_TX_def MSG_HEADERS_def MSG_GETADDR_def
        MSG_GETDATA_def MSG_NOTFOUND_def MSG_PING_def MSG_PONG_def MSG_MERKLEBLOCK_def MSG_REJECT_def MSG_FEEFILTER_def MSG_ASSETDATA_def ascii_def)
  show "PeerAcceptMessage w (varint 3 @ ascii ''_NF'') MSG_ASSETDATA ctx = None" if "receiveAssetData ctx = None"
  proof -
    have "BRVarInt (varint 3 @ ascii ''_NF'') = (3, 1)" "varint 3 @ ascii ''_NF'' = [3, 95, 78, 70]"
      by (simp_all add: BRVarInt_def varint_def ascii_def)
    then show ?thesis using that by (simp add: d PeerAcceptAssetMessage_def receive_asset_def rd_slice_def slice_def field_string_def Let_def ascii_def)
  qed
  show "PeerAcceptMessage w (varint n @ nm) MSG_ASSETDATA ctx = None" if "length nm < unat n \<and> length (varint n @ nm) \<le> 16898" for nm n
    using that by (simp add: d PeerAcceptAssetMessage_def BRVarInt_varint rd_slice_def)
  show "header_step w cap (take 24 (frame (magicNumber ctx) t m)) ctx = Some (Failed, ctx)" if "12 \<le> length t \<and> 0 \<notin> set (take 12 t)" for cap t m
  proof -
    have "take 24 (frame (magicNumber ctx) t m) ! 15 = type_field t ! 11" using long_type [of t] that by (simp add: frame_def nth_append)
    then show ?thesis using long_type [of t] that by (simp add: header_step_def HEADER_LENGTH_def frame_def min_def)
  qed
qed

theorem peer_unchecked_witness:
  "PeerAcceptMessage sample_world (varint (2 ^ 64 - 9)) MSG_REJECT (BRPeerNew 7) = None"
  using peer_unchecked [of "UInt32SetLE PROTOCOL_VERSION @ replicate 76 0" "BRPeerNew 7" sample_world]
  by (simp add: BRPeerNew_def slice_def PROTOCOL_VERSION_def MIN_PROTO_VERSION_def get_set)

end
